(* ===== verification/Klone_Prelude.thy ===== *)
theory Klone_Prelude
  imports Main "HOL-Library.Word"
begin

text \<open>
  Shared vocabulary of the KLone development: the outcome of a C function, the
  C-locale character classification the sources use from \<^verbatim>\<open><ctype.h>\<close>, the
  \<^verbatim>\<open><string.h>\<close> searches, and generic list lemmas.

  A C function that can fail returns an \<open>outcome\<close>: \<open>Ok x\<close> is a successful return,
  \<open>Fail\<close> is the error return (\<^verbatim>\<open>-1\<close>, \<^verbatim>\<open>~0\<close> or \<^verbatim>\<open>NULL\<close>, reached through the
  \<^verbatim>\<open>dbg_err_if\<close> family of macros), and \<open>Fault\<close> marks an access outside the memory the
  function was given or another step with no defined meaning in C.  A C string is the
  list of its characters without the terminating NUL; a raw buffer is a list that may hold
  NULs.
\<close>

section \<open>Outcomes\<close>

datatype 'a outcome = Ok 'a | Fail | Fault

fun bind_outcome :: "'a outcome \<Rightarrow> ('a \<Rightarrow> 'b outcome) \<Rightarrow> 'b outcome" where
  "bind_outcome (Ok x) f = f x"
| "bind_outcome Fail f = Fail"
| "bind_outcome Fault f = Fault"

fun map_ok :: "('a \<Rightarrow> 'b) \<Rightarrow> 'a outcome \<Rightarrow> 'b outcome" where
  "map_ok f (Ok x) = Ok (f x)"
| "map_ok f Fail = Fail"
| "map_ok f Fault = Fault"

definition faultless :: "'a outcome \<Rightarrow> bool" where
  "faultless r \<longleftrightarrow> r \<noteq> Fault"

text \<open>
  A C function that changes an object in place: \<open>Done s\<close> and \<open>Failed s\<close> carry the object
  after a successful and an error return (the error paths do not undo what was done before
  them), \<open>Crash\<close> is a step with no defined meaning.
\<close>

datatype 's step = Done 's | Failed 's | Crash

fun bind_step :: "'s step \<Rightarrow> ('s \<Rightarrow> 't step) \<Rightarrow> ('s \<Rightarrow> 't) \<Rightarrow> 't step" where
  "bind_step (Done s) f g = f s"
| "bind_step (Failed s) f g = Failed (g s)"
| "bind_step Crash f g = Crash"

abbreviation and_then :: "'s step \<Rightarrow> ('s \<Rightarrow> 's step) \<Rightarrow> 's step" where
  "and_then r f \<equiv> bind_step r f (\<lambda>s. s)"

fun step_all :: "('s \<Rightarrow> bool) \<Rightarrow> 's step \<Rightarrow> bool" where
  "step_all P (Done s) \<longleftrightarrow> P s"
| "step_all P (Failed s) \<longleftrightarrow> P s"
| "step_all P Crash \<longleftrightarrow> False"

text \<open>\<open>P\<close> holds of the object a function leaves behind, if it returns.\<close>

fun step_inv :: "('s \<Rightarrow> bool) \<Rightarrow> 's step \<Rightarrow> bool" where
  "step_inv P (Done s) \<longleftrightarrow> P s"
| "step_inv P (Failed s) \<longleftrightarrow> P s"
| "step_inv P Crash \<longleftrightarrow> True"

lemma and_then_Done: "and_then r f = Done s' \<longleftrightarrow> (\<exists>s. r = Done s \<and> f s = Done s')"
  by (cases r) auto

lemma step_inv_bind:
  "step_inv P r \<Longrightarrow> (\<And>s. P s \<Longrightarrow> step_inv P (f s)) \<Longrightarrow> step_inv P (and_then r f)"
  by (cases r) auto

text \<open>No crash, and \<open>P\<close> holds of a successful result.\<close>

fun done_all :: "('s \<Rightarrow> bool) \<Rightarrow> 's step \<Rightarrow> bool" where
  "done_all P (Done s) \<longleftrightarrow> P s"
| "done_all P (Failed s) \<longleftrightarrow> True"
| "done_all P Crash \<longleftrightarrow> False"

lemma done_all_bind: "done_all P r \<Longrightarrow> (\<And>s. P s \<Longrightarrow> done_all Q (f s)) \<Longrightarrow> done_all Q (and_then r f)"
  by (cases r) auto

lemma done_all_mono: "done_all P r \<Longrightarrow> (\<And>s. P s \<Longrightarrow> Q s) \<Longrightarrow> done_all Q r"
  by (cases r) auto

lemma done_all_no_crash: "done_all P r \<Longrightarrow> r \<noteq> Crash"
  by auto

lemma step_all_bind:
  "step_all P r \<Longrightarrow> (\<And>s. r = Done s \<Longrightarrow> P s \<Longrightarrow> step_all Q (f s)) \<Longrightarrow> (\<And>s. P s \<Longrightarrow> Q s) \<Longrightarrow>
   step_all Q (and_then r f)"
  by (cases r) auto

lemma step_all_mono: "step_all P r \<Longrightarrow> (\<And>s. P s \<Longrightarrow> Q s) \<Longrightarrow> step_all Q r"
  by (cases r) auto

text \<open>\<open>fits n r\<close>: no fault, and what was written is at most \<open>n\<close> bytes.\<close>

fun fits :: "nat \<Rightarrow> 'a list outcome \<Rightarrow> bool" where
  "fits n (Ok d) \<longleftrightarrow> length d \<le> n"
| "fits n Fail \<longleftrightarrow> True"
| "fits n Fault \<longleftrightarrow> False"

lemma fits_map_Cons [intro]: "fits n r \<Longrightarrow> fits (Suc n) (map_ok (\<lambda>d. x # d) r)"
  by (cases r) auto

lemma fits_mono: "fits n r \<Longrightarrow> n \<le> m \<Longrightarrow> fits m r"
  by (cases r) auto

lemma map_ok_comp [simp]: "map_ok f (map_ok g r) = map_ok (f \<circ> g) r"
  by (cases r) auto

lemma map_ok_eq_Ok [simp]: "map_ok f r = Ok y \<longleftrightarrow> (\<exists>x. r = Ok x \<and> y = f x)"
  by (cases r) auto

named_theorems outcome_simps \<open>reading off the branches of an outcome\<close>
named_theorems ctype_simps \<open>the character classes, unfolded to character codes\<close>

section \<open>Characters in the C locale\<close>

abbreviation NUL :: char where "NUL \<equiv> CHR 0x00"
abbreviation LF :: char where "LF \<equiv> CHR 0x0A"
abbreviation CR :: char where "CR \<equiv> CHR 0x0D"
abbreviation TAB :: char where "TAB \<equiv> CHR 0x09"

definition ord :: "char \<Rightarrow> nat" where
  "ord c = of_char c"

definition chr :: "nat \<Rightarrow> char" where
  "chr n = char_of n"

definition c_isdigit :: "char \<Rightarrow> bool" where
  "c_isdigit c \<longleftrightarrow> 48 \<le> ord c \<and> ord c \<le> 57"

definition c_isupper :: "char \<Rightarrow> bool" where
  "c_isupper c \<longleftrightarrow> 65 \<le> ord c \<and> ord c \<le> 90"

definition c_islower :: "char \<Rightarrow> bool" where
  "c_islower c \<longleftrightarrow> 97 \<le> ord c \<and> ord c \<le> 122"

definition c_isalnum :: "char \<Rightarrow> bool" where
  "c_isalnum c \<longleftrightarrow> c_isdigit c \<or> c_isupper c \<or> c_islower c"

definition c_isxdigit :: "char \<Rightarrow> bool" where
  "c_isxdigit c \<longleftrightarrow> c_isdigit c \<or> (65 \<le> ord c \<and> ord c \<le> 70) \<or> (97 \<le> ord c \<and> ord c \<le> 102)"

definition c_isspace :: "char \<Rightarrow> bool" where
  "c_isspace c \<longleftrightarrow> ord c = 32 \<or> (9 \<le> ord c \<and> ord c \<le> 13)"

definition c_isprint :: "char \<Rightarrow> bool" where
  "c_isprint c \<longleftrightarrow> 32 \<le> ord c \<and> ord c \<le> 126"

definition c_tolower :: "char \<Rightarrow> char" where
  "c_tolower c = (if c_isupper c then chr (ord c + 32) else c)"


subsection \<open>Facts about characters\<close>

lemma ord_chr [simp]: "ord (chr n) = n mod 256"
  by (simp add: ord_def chr_def)

lemma chr_ord [simp]: "chr (ord c) = c"
  by (simp add: ord_def chr_def)

lemma ord_less_256 [simp]: "ord c < 256"
  by (simp add: ord_def)

lemma ord_inject: "ord c = ord d \<longleftrightarrow> c = d"
  by (metis chr_ord)

lemma chr_eq_iff: "chr n = c \<longleftrightarrow> n mod 256 = ord c"
  by (metis chr_ord ord_chr)

lemmas ctype_defs = c_isdigit_def c_isupper_def c_islower_def c_isalnum_def c_isxdigit_def
  c_isspace_def c_isprint_def

declare ctype_defs [ctype_simps] ord_def [ctype_simps] c_tolower_def [ctype_simps]

lemma c_tolower_idem [simp]: "c_tolower (c_tolower c) = c_tolower c"
  by (auto simp: c_tolower_def c_isupper_def)

section \<open>The width of \<^verbatim>\<open>size_t\<close>\<close>

definition SIZE_LIMIT :: nat where
  "SIZE_LIMIT = 2 ^ 64"

text \<open>Subtraction and addition on a 64-bit \<^verbatim>\<open>size_t\<close>.\<close>

definition size_sub :: "nat \<Rightarrow> nat \<Rightarrow> nat" where
  "size_sub a b = (a + (SIZE_LIMIT - b)) mod SIZE_LIMIT"

definition size_add :: "nat \<Rightarrow> nat \<Rightarrow> nat" where
  "size_add a b = (a + b) mod SIZE_LIMIT"

lemma size_sub_le [simp]: "b \<le> a \<Longrightarrow> a < SIZE_LIMIT \<Longrightarrow> size_sub a b = a - b"
proof -
  assume a: "b \<le> a" "a < SIZE_LIMIT"
  then have "a + (SIZE_LIMIT - b) = (a - b) + SIZE_LIMIT" by simp
  with a show ?thesis unfolding size_sub_def by (metis less_imp_diff_less mod_add_self2 mod_less)
qed

lemma size_add_less [simp]: "a + b < SIZE_LIMIT \<Longrightarrow> size_add a b = a + b"
  by (simp add: size_add_def)

lemma size_sub_wrap: "0 < b \<Longrightarrow> b \<le> SIZE_LIMIT \<Longrightarrow> size_sub 0 b = SIZE_LIMIT - b"
  by (simp add: size_sub_def)

lemma SIZE_LIMIT_gt [simp]: "n < 1000000 \<Longrightarrow> n < SIZE_LIMIT"
  by (simp add: SIZE_LIMIT_def)

section \<open>\<^verbatim>\<open>atoi\<close>\<close>

text \<open>
  White space, an optional sign, decimal digits.  \<^verbatim>\<open>strtol\<close> saturates at 64 bits and
  \<^verbatim>\<open>atoi\<close> keeps the low 32 bits; \<open>size_of_int\<close> is the conversion of an \<^verbatim>\<open>int\<close> to
  \<^verbatim>\<open>size_t\<close>.
\<close>

fun digits_value :: "int \<Rightarrow> string \<Rightarrow> int" where
  "digits_value acc [] = acc"
| "digits_value acc (c # s) =
     (if c_isdigit c then digits_value (10 * acc + int (ord c) - 48) s else acc)"

definition c_strtol :: "string \<Rightarrow> int" where
  "c_strtol s =
     (let t = dropWhile c_isspace s;
          neg = (t \<noteq> [] \<and> hd t = CHR ''-'');
          u = (if t \<noteq> [] \<and> (hd t = CHR ''-'' \<or> hd t = CHR ''+'') then tl t else t);
          v = digits_value 0 u
      in if neg then max (- (2 ^ 63)) (- v) else min (2 ^ 63 - 1) v)"

definition to_int32 :: "int \<Rightarrow> int" where
  "to_int32 v = (v + 2 ^ 31) mod 2 ^ 32 - 2 ^ 31"

definition c_atoi :: "string \<Rightarrow> int" where
  "c_atoi s = to_int32 (c_strtol s)"

definition size_of_int :: "int \<Rightarrow> nat" where
  "size_of_int v = nat (v mod int SIZE_LIMIT)"

lemma c_atoi_range: "- (2 ^ 31) \<le> c_atoi s" "c_atoi s < 2 ^ 31"
proof -
  have "0 \<le> x mod (2 ^ 32 :: int)" "x mod (2 ^ 32 :: int) < 2 ^ 32" for x by simp_all
  from this [of "c_strtol s + 2 ^ 31"] show "- (2 ^ 31) \<le> c_atoi s" "c_atoi s < 2 ^ 31"
    unfolding c_atoi_def to_int32_def by simp_all
qed

section \<open>Decimal output\<close>

text \<open>\<^verbatim>\<open>%u\<close>: the decimal digits of a number, and \<^verbatim>\<open>%02u\<close>.\<close>

fun dec :: "nat \<Rightarrow> string" where
  "dec n = (if n < 10 then [chr (48 + n)] else dec (n div 10) @ [chr (48 + n mod 10)])"

declare dec.simps [simp del]

definition dec2 :: "nat \<Rightarrow> string" where
  "dec2 n = (if n < 10 then CHR ''0'' # dec n else dec n)"

lemma length_dec: "n < 10 ^ Suc k \<Longrightarrow> length (dec n) \<le> Suc k"
proof (induction k arbitrary: n)
  case 0
  then show ?case by (simp add: dec.simps)
next
  case (Suc k)
  show ?case
  proof (cases "n < 10")
    case False
    have "n div 10 < 10 ^ Suc k" using Suc.prems by (simp add: less_mult_imp_div_less)
    from Suc.IH [OF this] False show ?thesis by (subst dec.simps) simp
  qed (simp add: dec.simps)
qed

lemma dec_nonempty: "dec n \<noteq> []"
  by (simp add: dec.simps)

section \<open>C strings\<close>

text \<open>\<^verbatim>\<open>strcasecmp(a, b) == 0\<close> and \<^verbatim>\<open>strncasecmp(a, b, strlen(b)) == 0\<close> on C strings.\<close>

definition strcaseeq :: "string \<Rightarrow> string \<Rightarrow> bool" where
  "strcaseeq a b \<longleftrightarrow> map c_tolower a = map c_tolower b"

definition strncaseprefix :: "string \<Rightarrow> string \<Rightarrow> bool" where
  "strncaseprefix a b \<longleftrightarrow> length b \<le> length a \<and> map c_tolower (take (length b) a) = map c_tolower b"

text \<open>\<^verbatim>\<open>strchr\<close>: the string before the first occurrence of the character and the one after it.\<close>

fun strchr_split :: "string \<Rightarrow> char \<Rightarrow> (string \<times> string) option" where
  "strchr_split [] c = None"
| "strchr_split (x # xs) c =
     (if x = c then Some ([], xs)
      else case strchr_split xs c of None \<Rightarrow> None | Some (a, b) \<Rightarrow> Some (x # a, b))"

lemma strcaseeq_refl [simp]: "strcaseeq s s"
  by (simp add: strcaseeq_def)

lemma strcaseeq_sym: "strcaseeq a b \<longleftrightarrow> strcaseeq b a"
  by (auto simp: strcaseeq_def)

lemma strcaseeq_trans: "strcaseeq s t \<Longrightarrow> strcaseeq t u \<Longrightarrow> strcaseeq s u"
  by (simp add: strcaseeq_def)

lemma strchr_split_append: "c \<notin> set a \<Longrightarrow> strchr_split (a @ c # b) c = Some (a, b)"
  by (induction a) auto

lemma strchr_split_None: "strchr_split s c = None \<longleftrightarrow> c \<notin> set s"
  by (induction s) (auto split: option.splits)

lemma strchr_split_Some: "strchr_split s c = Some (a, b) \<Longrightarrow> s = a @ c # b \<and> c \<notin> set a"
  by (induction s arbitrary: a) (auto split: if_splits option.splits)

text \<open>The C string held by a buffer: the characters before the first NUL.\<close>

definition cstr :: "char list \<Rightarrow> string" where
  "cstr b = takeWhile (\<lambda>c. c \<noteq> NUL) b"

lemma cstr_terminated [simp]: "NUL \<notin> set s \<Longrightarrow> cstr (s @ NUL # r) = s"
  by (induction s) (auto simp: cstr_def)

lemma cstr_id [simp]: "NUL \<notin> set s \<Longrightarrow> cstr s = s"
  by (simp add: cstr_def takeWhile_eq_all_conv) blast

lemma cstr_no_NUL: "NUL \<notin> set (cstr b)"
  by (auto simp: cstr_def dest: set_takeWhileD)

text \<open>\<^verbatim>\<open>strtok_r\<close> over a whole string: the maximal non-empty runs of characters outside \<open>delims\<close>.\<close>

lemma length_dropWhile_less_Suc [termination_simp]: "length (dropWhile P xs) < Suc (length xs)"
  by (simp add: le_imp_less_Suc length_dropWhile_le)

fun strtok_all :: "char list \<Rightarrow> string \<Rightarrow> string list" where
  "strtok_all ds [] = []"
| "strtok_all ds (c # s) =
     (if c \<in> set ds then strtok_all ds s
      else (c # takeWhile (\<lambda>x. x \<notin> set ds) s) # strtok_all ds (dropWhile (\<lambda>x. x \<notin> set ds) s))"

lemma strtok_all_mem: "t \<in> set (strtok_all ds s) \<Longrightarrow> t \<noteq> [] \<and> set t \<inter> set ds = {} \<and> set t \<subseteq> set s"
proof (induction ds s rule: strtok_all.induct)
  case (2 ds c s)
  then show ?case
    by (auto split: if_splits dest!: set_takeWhileD set_dropWhileD)
qed simp

end
