(* ===== verification/Libu.thy ===== *)
theory Libu
  imports Klone_Prelude
begin

text \<open>
  KLone is built on LibU, whose sources are not part of this repository.  The LibU calls the
  modelled code makes are the fields of a record that every definition using them takes as its
  first argument.  \<open>libu_ok\<close> collects what the KLone sources rely on (LibU's documented
  results when a call succeeds); \<open>libu_mem\<close> says that no allocation fails.  Both are
  hypotheses of the properties that need them, and \<open>libu_ref\<close> is an instance of both, used
  by the witnesses.

  The \<^verbatim>\<open>dbg_err_if\<close>, \<^verbatim>\<open>dbg_return_if\<close>, \<^verbatim>\<open>nop_err_if\<close> macros are control flow
  (test, log, jump) and appear as the conditionals of the model; \<^verbatim>\<open>TAILQ_*\<close> and
  \<^verbatim>\<open>LIST_*\<close> are the BSD queue macros and appear as operations on lists of nodes.
  A \<^verbatim>\<open>u_string_t\<close> is the string it holds, a \<^verbatim>\<open>u_list_t\<close> the list of the addresses
  it holds (\<^verbatim>\<open>u_list_count\<close> is its length, \<^verbatim>\<open>u_list_get_n\<close> its indexing, \<^verbatim>\<open>NULL\<close>
  past the end).
\<close>

type_synonym addr = nat

record libu =
  u_malloc :: "nat \<Rightarrow> bool"
  u_strdup :: "string \<Rightarrow> string option"
  u_strndup :: "string \<Rightarrow> nat \<Rightarrow> string option"
  u_memdup :: "char list \<Rightarrow> nat \<Rightarrow> char list option"
  u_strlcpy :: "string \<Rightarrow> nat \<Rightarrow> string \<times> bool"
  u_strlcat :: "string \<Rightarrow> string \<Rightarrow> nat \<Rightarrow> string \<times> bool"
  u_snprintf :: "string \<Rightarrow> nat \<Rightarrow> string \<times> bool"
  u_string_create :: "string \<Rightarrow> string option"
  u_string_reserve :: "string \<Rightarrow> nat \<Rightarrow> string option"
  u_string_append :: "string \<Rightarrow> string \<Rightarrow> string option"
  u_string_set :: "string \<Rightarrow> string \<Rightarrow> string option"
  u_string_set_length :: "string \<Rightarrow> nat \<Rightarrow> string option"
  u_list_create :: "addr list option"
  u_list_add :: "addr list \<Rightarrow> addr \<Rightarrow> addr list option"
  u_list_del :: "addr list \<Rightarrow> addr \<Rightarrow> addr list option"
  u_buf_create :: "char list option"
  u_buf_reserve :: "char list \<Rightarrow> nat \<Rightarrow> char list option"
  u_buf_append :: "char list \<Rightarrow> char list \<Rightarrow> char list option"
  u_isblank :: "char \<Rightarrow> bool"
  u_isnl :: "char \<Rightarrow> bool"

text \<open>
  The results of the copies are pairs: what the destination holds afterwards, and whether the
  call reported truncation.  \<^verbatim>\<open>u_string_aprintf\<close> and \<^verbatim>\<open>u_string_append\<close> both append
  and share a field; the formatted text is computed by the caller's model.
\<close>

definition libu_ok :: "libu \<Rightarrow> bool" where
  "libu_ok L \<longleftrightarrow>
     (\<forall>s t. u_strdup L s = Some t \<longrightarrow> t = s) \<and>
     (\<forall>s n t. u_strndup L s n = Some t \<longrightarrow> t = take n s) \<and>
     (\<forall>b n t. u_memdup L b n = Some t \<longrightarrow> t = take n b) \<and>
     (\<forall>s n. 0 < n \<longrightarrow> u_strlcpy L s n = (take (n - 1) s, n \<le> length s)) \<and>
     (\<forall>d s n. length d < n \<longrightarrow> u_strlcat L d s n = (take (n - 1) (d @ s), n \<le> length d + length s)) \<and>
     (\<forall>s n. 0 < n \<longrightarrow> u_snprintf L s n = (take (n - 1) s, n \<le> length s)) \<and>
     (\<forall>s t. u_string_create L s = Some t \<longrightarrow> t = s) \<and>
     (\<forall>s n t. u_string_reserve L s n = Some t \<longrightarrow> t = s) \<and>
     (\<forall>s x t. u_string_append L s x = Some t \<longrightarrow> t = s @ x) \<and>
     (\<forall>s x t. u_string_set L s x = Some t \<longrightarrow> t = x) \<and>
     (\<forall>s n t. n \<le> length s \<longrightarrow> u_string_set_length L s n = Some t \<longrightarrow> t = take n s) \<and>
     (\<forall>l. u_list_create L = Some l \<longrightarrow> l = []) \<and>
     (\<forall>b. u_buf_create L = Some b \<longrightarrow> b = []) \<and>
     (\<forall>b n b'. u_buf_reserve L b n = Some b' \<longrightarrow> b' = b) \<and>
     (\<forall>b x b'. u_buf_append L b x = Some b' \<longrightarrow> b' = b @ x) \<and>
     (\<forall>l p l'. u_list_add L l p = Some l' \<longrightarrow> l' = l @ [p]) \<and>
     (\<forall>l p. p \<in> set l \<longrightarrow> u_list_del L l p = Some (remove1 p l)) \<and>
     (\<forall>c. u_isblank L c \<longleftrightarrow> c = CHR '' '' \<or> c = TAB) \<and>
     (\<forall>c. u_isnl L c \<longleftrightarrow> c = LF \<or> c = CR)"

definition libu_mem :: "libu \<Rightarrow> bool" where
  "libu_mem L \<longleftrightarrow>
     (\<forall>n. u_malloc L n) \<and>
     (\<forall>s. u_strdup L s \<noteq> None) \<and>
     (\<forall>s n. u_strndup L s n \<noteq> None) \<and>
     (\<forall>b n. u_memdup L b n \<noteq> None) \<and>
     (\<forall>s. u_string_create L s \<noteq> None) \<and>
     (\<forall>s n. u_string_reserve L s n \<noteq> None) \<and>
     (\<forall>s x. u_string_append L s x \<noteq> None) \<and>
     (\<forall>s x. u_string_set L s x \<noteq> None) \<and>
     (\<forall>s n. n \<le> length s \<longrightarrow> u_string_set_length L s n \<noteq> None) \<and>
     u_list_create L \<noteq> None \<and>
     u_buf_create L \<noteq> None \<and>
     (\<forall>b n. u_buf_reserve L b n \<noteq> None) \<and>
     (\<forall>b x. u_buf_append L b x \<noteq> None) \<and>
     (\<forall>l p. u_list_add L l p \<noteq> None)"

definition libu_ref :: libu where
  "libu_ref =
     \<lparr>u_malloc = (\<lambda>_. True),
      u_strdup = Some,
      u_strndup = (\<lambda>s n. Some (take n s)),
      u_memdup = (\<lambda>b n. Some (take n b)),
      u_strlcpy = (\<lambda>s n. (take (n - 1) s, n \<le> length s)),
      u_strlcat = (\<lambda>d s n. (take (n - 1) (d @ s), n \<le> length d + length s)),
      u_snprintf = (\<lambda>s n. (take (n - 1) s, n \<le> length s)),
      u_string_create = Some,
      u_string_reserve = (\<lambda>s n. Some s),
      u_string_append = (\<lambda>s x. Some (s @ x)),
      u_string_set = (\<lambda>s x. Some x),
      u_string_set_length = (\<lambda>s n. Some (take n s)),
      u_list_create = Some [],
      u_list_add = (\<lambda>l p. Some (l @ [p])),
      u_list_del = (\<lambda>l p. if p \<in> set l then Some (remove1 p l) else None),
      u_buf_create = Some [],
      u_buf_reserve = (\<lambda>b n. Some b),
      u_buf_append = (\<lambda>b x. Some (b @ x)),
      u_isblank = (\<lambda>c. c = CHR '' '' \<or> c = TAB),
      u_isnl = (\<lambda>c. c = LF \<or> c = CR)\<rparr>"

lemma libu_ref_ok [simp]: "libu_ok libu_ref"
  by (simp add: libu_ok_def libu_ref_def)

lemma libu_ref_mem [simp]: "libu_mem libu_ref"
  by (simp add: libu_mem_def libu_ref_def)

named_theorems libu_laws \<open>the documented results of the LibU calls, as rewrite rules\<close>

lemma libu_okD [libu_laws]:
  assumes "libu_ok L"
  shows "u_strdup L s = Some t \<Longrightarrow> t = s"
    and "u_strndup L s n = Some t \<Longrightarrow> t = take n s"
    and "u_memdup L b n = Some t \<Longrightarrow> t = take n b"
    and "u_string_create L s = Some t \<Longrightarrow> t = s"
    and "u_string_reserve L s n = Some t \<Longrightarrow> t = s"
    and "u_string_append L s x = Some t \<Longrightarrow> t = s @ x"
    and "u_string_set L s x = Some t \<Longrightarrow> t = x"
    and "u_list_create L = Some l \<Longrightarrow> l = []"
    and "u_buf_create L = Some b' \<Longrightarrow> b' = []"
    and "u_buf_reserve L b n = Some b' \<Longrightarrow> b' = b"
    and "u_buf_append L b x = Some b' \<Longrightarrow> b' = b @ x"
    and "u_list_add L l p = Some l' \<Longrightarrow> l' = l @ [p]"
  using assms by (simp_all add: libu_ok_def)

lemma libu_ok_strlcpy: "libu_ok L \<Longrightarrow> 0 < n \<Longrightarrow> u_strlcpy L s n = (take (n - 1) s, n \<le> length s)"
  by (simp add: libu_ok_def)

lemma libu_ok_strlcat:
  "libu_ok L \<Longrightarrow> length d < n \<Longrightarrow> u_strlcat L d s n = (take (n - 1) (d @ s), n \<le> length d + length s)"
  by (simp add: libu_ok_def)

lemma libu_ok_snprintf: "libu_ok L \<Longrightarrow> 0 < n \<Longrightarrow> u_snprintf L s n = (take (n - 1) s, n \<le> length s)"
  by (simp add: libu_ok_def)

lemma libu_ok_set_length:
  "libu_ok L \<Longrightarrow> n \<le> length s \<Longrightarrow> u_string_set_length L s n = Some t \<Longrightarrow> t = take n s"
  unfolding libu_ok_def by (elim conjE) simp

lemma libu_ok_list_del: "libu_ok L \<Longrightarrow> p \<in> set l \<Longrightarrow> u_list_del L l p = Some (remove1 p l)"
  by (simp add: libu_ok_def)

lemma libu_ok_ctype:
  "libu_ok L \<Longrightarrow> u_isblank L c \<longleftrightarrow> c = CHR '' '' \<or> c = TAB"
  "libu_ok L \<Longrightarrow> u_isnl L c \<longleftrightarrow> c = LF \<or> c = CR"
  by (simp_all add: libu_ok_def)

lemma Some_by_law: "(\<And>t. x = Some t \<Longrightarrow> t = a) \<Longrightarrow> x \<noteq> None \<Longrightarrow> x = Some a"
  by auto

lemma libu_memE:
  assumes "libu_mem L"
  shows "u_malloc L n" "u_strdup L s \<noteq> None" "u_strndup L s n \<noteq> None" "u_memdup L b n \<noteq> None"
    "u_string_create L s \<noteq> None" "u_string_reserve L s n \<noteq> None" "u_string_append L s x \<noteq> None"
    "u_string_set L s x \<noteq> None" "u_list_create L \<noteq> None"
    "u_buf_create L \<noteq> None" "u_buf_reserve L b n \<noteq> None" "u_buf_append L b x \<noteq> None" "u_list_add L l p \<noteq> None"
  using assms by (simp_all add: libu_mem_def del: not_None_eq)

text \<open>With memory available, the calls have their documented result outright.\<close>

lemma libu_memD [libu_laws]:
  assumes "libu_ok L" "libu_mem L"
  shows "u_malloc L n"
    and "u_strdup L s = Some s"
    and "u_strndup L s n = Some (take n s)"
    and "u_memdup L b n = Some (take n b)"
    and "u_string_create L s = Some s"
    and "u_string_reserve L s n = Some s"
    and "u_string_append L s x = Some (s @ x)"
    and "u_string_set L s x = Some x"
    and "u_list_create L = Some []"
    and "u_buf_create L = Some []"
    and "u_buf_reserve L b n = Some b"
    and "u_buf_append L b x = Some (b @ x)"
    and "u_list_add L l p = Some (l @ [p])"
  by (rule libu_memE [OF assms(2)] |
      rule Some_by_law, erule libu_okD [OF assms(1)], rule libu_memE [OF assms(2)])+

lemma libu_mem_set_length:
  assumes "libu_ok L" "libu_mem L" "n \<le> length s"
  shows "u_string_set_length L s n = Some (take n s)"
proof -
  from assms(2,3) have "u_string_set_length L s n \<noteq> None" by (simp add: libu_mem_def del: not_None_eq)
  then obtain t where t: "u_string_set_length L s n = Some t" by blast
  with libu_ok_set_length [OF assms(1,3)] show ?thesis by simp
qed

end
