(* ===== verification/Utils_Codec.thy ===== *)
theory Utils_Codec
  imports Libu
begin

text \<open>
  The escape routines of \<^verbatim>\<open>src/libutils/utils.c\<close>: URL, hexadecimal, SQL and HTML
  copies in both directions and their flag-driven entry points.  A routine takes the memory
  that starts at its source pointer and the length it was told; its result is what it writes
  before the terminating NUL, so the C return value is the length of the result.  Reading
  past the memory is \<open>Fault\<close>.
\<close>

unbundle bit_operations_syntax

datatype cpy_flag = CPY_VERBATIM | CPY_ENCODE | CPY_DECODE

type_synonym copied = "char list \<times> nat"

text \<open>The default branch of the entry points: \<^verbatim>\<open>u_strlcpy(d, s, slen + 1); return slen;\<close>\<close>

definition cpy_verbatim :: "libu \<Rightarrow> char list \<Rightarrow> nat \<Rightarrow> copied outcome" where
  "cpy_verbatim L s slen = Ok (fst (u_strlcpy L (cstr s) (slen + 1)), slen)"

definition counted :: "char list outcome \<Rightarrow> copied outcome" where
  "counted r = map_ok (\<lambda>d. (d, length d)) r"

section \<open>Definitions\<close>

subsection \<open>URL escapes\<close>

definition htoi :: "char \<Rightarrow> nat" where
  "htoi ch =
     (let c = c_tolower ch in
      if 48 \<le> ord c \<and> ord c \<le> 57 then ord c - 48
      else if 97 \<le> ord c \<and> ord c \<le> 122 then ord c - 97 + 10
      else 0)"

definition url_plain :: "char \<Rightarrow> bool" where
  "url_plain c \<longleftrightarrow> c_isalnum c \<or> c = CHR ''_'' \<or> c = CHR ''-'' \<or> c = CHR ''.''"

definition hexc :: string where
  "hexc = ''0123456789ABCDEF''"

definition url_enc_char :: "char \<Rightarrow> string" where
  "url_enc_char c =
     (if c = CHR '' '' then ''+''
      else if url_plain c then [c]
      else [CHR ''%'', hexc ! (drop_bit 4 (ord c) AND 15), hexc ! (ord c AND 15)])"

fun u_urlncpy_encode :: "char list \<Rightarrow> nat \<Rightarrow> char list outcome" where
  "u_urlncpy_encode s 0 = Ok []"
| "u_urlncpy_encode [] (Suc slen) = Fault"
| "u_urlncpy_encode (c # s) (Suc slen) = map_ok (\<lambda>d. url_enc_char c @ d) (u_urlncpy_encode s slen)"

fun u_urlncpy_decode :: "char list \<Rightarrow> nat \<Rightarrow> char list outcome" where
  "u_urlncpy_decode mem slen =
     (if slen = 0 then Ok []
      else case mem of
        [] \<Rightarrow> Fault
      | c # s \<Rightarrow>
          if c = CHR ''%'' then
            (if slen < 2 then Fail
             else case s of
               [] \<Rightarrow> Fault
             | h # t \<Rightarrow>
                 if \<not> c_isxdigit h then Fail
                 else case t of
                   [] \<Rightarrow> Fault
                 | l # u \<Rightarrow>
                     if \<not> c_isxdigit l then Fail
                     else map_ok (\<lambda>d. chr (push_bit 4 (htoi h) OR htoi l) # d)
                            (u_urlncpy_decode u (size_sub (slen - 2) 1)))
          else map_ok (\<lambda>d. (if c = CHR ''+'' then CHR '' '' else c) # d)
                 (u_urlncpy_decode s (size_sub slen 1)))"

declare u_urlncpy_decode.simps [simp del]

definition u_urlncpy :: "libu \<Rightarrow> char list \<Rightarrow> nat \<Rightarrow> cpy_flag \<Rightarrow> copied outcome" where
  "u_urlncpy L s slen flags =
     (case flags of
        CPY_ENCODE \<Rightarrow> counted (u_urlncpy_encode s slen)
      | CPY_DECODE \<Rightarrow> counted (u_urlncpy_decode s slen)
      | CPY_VERBATIM \<Rightarrow> cpy_verbatim L s slen)"

subsection \<open>Hexadecimal\<close>

definition u_tochex :: "nat \<Rightarrow> char" where
  "u_tochex n = (if n > 15 then CHR ''?'' else if n < 10 then chr (n + 48) else chr (n - 10 + 97))"

definition u_hex2ch :: "char \<Rightarrow> int" where
  "u_hex2ch c =
     (if 97 \<le> ord c \<and> ord c \<le> 122 then int (ord c) - 97 + 10
      else if 65 \<le> ord c \<and> ord c \<le> 90 then int (ord c) - 65 + 10
      else if 48 \<le> ord c \<and> ord c \<le> 57 then int (ord c) - 48
      else -1)"

definition hex_enc_char :: "char \<Rightarrow> string" where
  "hex_enc_char c = [u_tochex (drop_bit 4 (ord c) AND 15), u_tochex (ord c AND 15)]"

fun u_hexncpy_encode :: "char list \<Rightarrow> nat \<Rightarrow> char list outcome" where
  "u_hexncpy_encode s 0 = Ok []"
| "u_hexncpy_encode [] (Suc slen) = Fault"
| "u_hexncpy_encode (c # s) (Suc slen) = map_ok (\<lambda>d. hex_enc_char c @ d) (u_hexncpy_encode s slen)"

fun hex_dec_loop :: "char list \<Rightarrow> nat \<Rightarrow> char list outcome" where
  "hex_dec_loop s 0 = Ok []"
| "hex_dec_loop (a # b # s) (Suc n) =
     map_ok (\<lambda>d. chr (nat ((push_bit 4 (u_hex2ch a) OR u_hex2ch b) mod 256)) # d) (hex_dec_loop s n)"
| "hex_dec_loop s (Suc n) = Fault"

definition u_hexncpy_decode :: "char list \<Rightarrow> nat \<Rightarrow> char list outcome" where
  "u_hexncpy_decode s slen = (if slen mod 2 \<noteq> 0 then Fail else hex_dec_loop s (slen div 2))"

definition u_hexncpy :: "libu \<Rightarrow> char list \<Rightarrow> nat \<Rightarrow> cpy_flag \<Rightarrow> copied outcome" where
  "u_hexncpy L s slen flags =
     (case flags of
        CPY_ENCODE \<Rightarrow> counted (u_hexncpy_encode s slen)
      | CPY_DECODE \<Rightarrow> counted (u_hexncpy_decode s slen)
      | CPY_VERBATIM \<Rightarrow> cpy_verbatim L s slen)"

text \<open>\<^verbatim>\<open>u_tohex\<close> is the same loop under another name, with no result.\<close>

definition u_tohex :: "char list \<Rightarrow> nat \<Rightarrow> char list outcome" where
  "u_tohex src sz = u_hexncpy_encode src sz"

subsection \<open>SQL quotes\<close>

abbreviation QUOTE :: char where "QUOTE \<equiv> CHR 0x27"

text \<open>Each quote is doubled, and the extra \<^verbatim>\<open>--slen\<close> charges the second one to the source length.\<close>

fun u_sqlncpy_encode :: "char list \<Rightarrow> nat \<Rightarrow> char list outcome" where
  "u_sqlncpy_encode s 0 = Ok []"
| "u_sqlncpy_encode [] (Suc slen) = Fault"
| "u_sqlncpy_encode (c # s) (Suc slen) =
     (if c = QUOTE
      then (case slen of
              0 \<Rightarrow> Fail
            | Suc n \<Rightarrow> map_ok (\<lambda>d. c # QUOTE # d) (u_sqlncpy_encode s n))
      else map_ok (\<lambda>d. c # d) (u_sqlncpy_encode s slen))"

fun sql_dec_loop :: "char \<Rightarrow> char list \<Rightarrow> nat \<Rightarrow> char list outcome" where
  "sql_dec_loop prev s 0 = Ok []"
| "sql_dec_loop prev [] (Suc slen) = Fault"
| "sql_dec_loop prev (c # s) (Suc slen) =
     (if c = QUOTE \<and> prev = c then sql_dec_loop NUL s slen
      else map_ok (\<lambda>d. c # d) (sql_dec_loop c s slen))"

definition u_sqlncpy_decode :: "char list \<Rightarrow> nat \<Rightarrow> char list outcome" where
  "u_sqlncpy_decode s slen = sql_dec_loop NUL s slen"

definition u_sqlncpy :: "libu \<Rightarrow> char list \<Rightarrow> nat \<Rightarrow> cpy_flag \<Rightarrow> copied outcome" where
  "u_sqlncpy L s slen flags =
     (case flags of
        CPY_ENCODE \<Rightarrow> counted (u_sqlncpy_encode s slen)
      | CPY_DECODE \<Rightarrow> counted (u_sqlncpy_decode s slen)
      | CPY_VERBATIM \<Rightarrow> cpy_verbatim L s slen)"

subsection \<open>HTML entities\<close>

definition entities :: "(char \<times> string) list" where
  "entities =
     [(CHR ''&'', ''&amp;''), (CHR 0x22, ''&quot;''), (CHR 0x27, ''&#39;''),
      (CHR ''<'', ''&lt;''), (CHR ''>'', ''&gt;'')]"

definition html_enc_char :: "(char \<times> string) list \<Rightarrow> char \<Rightarrow> string" where
  "html_enc_char es c = (case map_of es c of None \<Rightarrow> [c] | Some e \<Rightarrow> e)"

fun u_htmlncpy_encode :: "char list \<Rightarrow> nat \<Rightarrow> char list outcome" where
  "u_htmlncpy_encode s 0 = Ok []"
| "u_htmlncpy_encode [] (Suc slen) = Fault"
| "u_htmlncpy_encode (c # s) (Suc slen) =
     map_ok (\<lambda>d. html_enc_char entities c @ d) (u_htmlncpy_encode s slen)"

fun u_stristr :: "string \<Rightarrow> string \<Rightarrow> nat option" where
  "u_stristr [] sub = None"
| "u_stristr (c # s) sub =
     (if strncaseprefix (c # s) sub then Some 0 else map_option Suc (u_stristr s sub))"

text \<open>
  One entity of the decoder: \<^verbatim>\<open>while((found = u_stristr(d, p->entity)) != NULL)\<close>, the
  entity at the match replaced by its character and the search restarted from the beginning.
  Every entity of the table has at least two characters, the condition under which the loop
  shortens the text; the guard makes the recursion total.
\<close>

lemma u_stristr_Some: "u_stristr s sub = Some i \<Longrightarrow> i < length s \<and> strncaseprefix (drop i s) sub"
  by (induction s arbitrary: i) (auto split: if_splits)

function html_replace :: "char \<Rightarrow> string \<Rightarrow> string \<Rightarrow> string" where
  "html_replace ch ent d =
     (case u_stristr d ent of
        None \<Rightarrow> d
      | Some i \<Rightarrow>
          if length ent \<le> 1 then d
          else html_replace ch ent (take i d @ ch # drop (i + length ent) d))"
  by pat_completeness auto
termination
  by (relation "measure (\<lambda>(ch, ent, d). length d)")
     (auto dest!: u_stristr_Some simp: strncaseprefix_def)

declare html_replace.simps [simp del]

definition html_decode_all :: "(char \<times> string) list \<Rightarrow> string \<Rightarrow> string" where
  "html_decode_all es d = fold (\<lambda>(ch, ent). html_replace ch ent) es d"

definition u_htmlncpy_decode :: "libu \<Rightarrow> char list \<Rightarrow> nat \<Rightarrow> char list outcome" where
  "u_htmlncpy_decode L s slen =
     Ok (html_decode_all entities (fst (u_strlcpy L (cstr s) (slen + 1))))"

definition u_htmlncpy :: "libu \<Rightarrow> char list \<Rightarrow> nat \<Rightarrow> cpy_flag \<Rightarrow> copied outcome" where
  "u_htmlncpy L s slen flags =
     (case flags of
        CPY_ENCODE \<Rightarrow> counted (u_htmlncpy_encode s slen)
      | CPY_DECODE \<Rightarrow> counted (u_htmlncpy_decode L s slen)
      | CPY_VERBATIM \<Rightarrow> cpy_verbatim L s slen)"

section \<open>URL escapes: round trip and bounds\<close>

lemma nibble_and [simp]: "(n::nat) AND 15 = n mod 16" "drop_bit 4 n = n div 16"
  using take_bit_eq_mask [of 4 n]
  by (simp_all add: drop_bit_eq_div take_bit_eq_mod mask_eq_exp_minus_1)

lemma nibble_or: "b < 16 \<Longrightarrow> push_bit 4 a OR b = 16 * a + (b::nat)"
proof -
  assume "b < 16"
  then have b: "b = take_bit 4 b" by (simp add: take_bit_eq_mod)
  have "push_bit 4 a AND b = 0"
    by (subst b) (auto simp: bit_eq_iff bit_simps)
  then have "push_bit 4 a + b = push_bit 4 a OR b" by (rule disjunctive_add_eq_or)
  then show ?thesis by (simp add: push_bit_eq_mult)
qed

lemma nibble_or_int: "0 \<le> b \<Longrightarrow> b < 16 \<Longrightarrow> push_bit 4 a OR b = 16 * a + (b::int)"
proof -
  assume "0 \<le> b" "b < 16"
  then have b: "b = take_bit 4 b" by (simp add: take_bit_eq_mod)
  have "push_bit 4 a AND b = 0"
    by (subst b) (auto simp: bit_eq_iff bit_simps)
  then have "push_bit 4 a + b = push_bit 4 a OR b" by (rule disjunctive_add_eq_or)
  then show ?thesis by (simp add: push_bit_eq_mult)
qed

lemma ord_hexc: "i < 16 \<Longrightarrow> ord (hexc ! i) = (if i < 10 then 48 + i else 55 + i)"
proof -
  assume i: "i < 16"
  have l: "length hexc = 16" by (simp add: hexc_def)
  have "map ord hexc = map (\<lambda>i. if i < 10 then 48 + i else 55 + i) [0..<16]"
    by (simp add: ord_def hexc_def upt_rec)
  then have "map ord hexc ! i = map (\<lambda>i. if i < 10 then 48 + i else 55 + i) [0..<16] ! i"
    by (rule arg_cong)
  with i l show ?thesis by simp
qed

lemma htoi_hexc [simp]: "i < 16 \<Longrightarrow> htoi (hexc ! i) = i"
  by (auto simp: htoi_def Let_def c_tolower_def c_isupper_def ord_hexc)

lemma isxdigit_hexc [simp]: "i < 16 \<Longrightarrow> c_isxdigit (hexc ! i)"
  by (auto simp: ctype_defs ord_hexc)

lemma htoi_xdigit: "c_isxdigit c \<Longrightarrow> htoi c < 16"
  by (auto simp: htoi_def Let_def c_tolower_def ctype_defs)

lemma hex2ch_tochex [simp]: "i < 16 \<Longrightarrow> u_hex2ch (u_tochex i) = int i"
  by (auto simp: u_hex2ch_def u_tochex_def of_nat_diff)

lemma chr_nibbles: "chr (16 * (ord c div 16 mod 16) + ord c mod 16) = c"
proof -
  have "ord c div 16 < 16" using ord_less_256 [of c] by linarith
  then show ?thesis by simp
qed

lemma url_decode_0 [simp]: "u_urlncpy_decode s 0 = Ok []"
  by (simp add: u_urlncpy_decode.simps)

lemma url_decode_Nil [simp]: "0 < n \<Longrightarrow> u_urlncpy_decode [] n = Fault"
  by (simp add: u_urlncpy_decode.simps)

lemma url_decode_char [simp]:
  "c \<noteq> CHR ''%'' \<Longrightarrow> Suc n < SIZE_LIMIT \<Longrightarrow>
   u_urlncpy_decode (c # s) (Suc n) =
     map_ok (\<lambda>d. (if c = CHR ''+'' then CHR '' '' else c) # d) (u_urlncpy_decode s n)"
  by (subst u_urlncpy_decode.simps) simp

lemma url_decode_esc [simp]:
  "c_isxdigit h \<Longrightarrow> c_isxdigit l \<Longrightarrow> Suc (Suc (Suc n)) < SIZE_LIMIT \<Longrightarrow>
   u_urlncpy_decode (CHR ''%'' # h # l # s) (Suc (Suc (Suc n))) =
     map_ok (\<lambda>d. chr (16 * htoi h + htoi l) # d) (u_urlncpy_decode s n)"
  by (subst u_urlncpy_decode.simps) (simp add: nibble_or htoi_xdigit)

definition url_escape :: "char list \<Rightarrow> char list" where
  "url_escape s = concat (map url_enc_char s)"

lemma url_encode_eq: "u_urlncpy_encode (s @ r) (length s) = Ok (url_escape s)"
  by (induction s) (simp_all add: url_escape_def)

lemma length_url_enc_char: "length (url_enc_char c) \<in> {1, 3}"
  by (simp add: url_enc_char_def)

lemma url_plain_not: "url_plain c \<Longrightarrow> c \<noteq> CHR ''%'' \<and> c \<noteq> CHR ''+''"
  by (auto simp: url_plain_def ctype_defs ord_def)

lemma url_decode_enc_char:
  assumes "length (url_enc_char c) + n < SIZE_LIMIT"
  shows "u_urlncpy_decode (url_enc_char c @ s) (length (url_enc_char c) + n) =
     map_ok (\<lambda>d. c # d) (u_urlncpy_decode s n)"
proof -
  consider "c = CHR '' ''" | "c \<noteq> CHR '' ''" "url_plain c" | "c \<noteq> CHR '' ''" "\<not> url_plain c"
    by blast
  then show ?thesis
  proof cases
    case 1
    with assms show ?thesis by (simp add: url_enc_char_def)
  next
    case 2
    with assms url_plain_not [of c] show ?thesis by (simp add: url_enc_char_def)
  next
    case 3
    with assms show ?thesis by (simp add: url_enc_char_def chr_nibbles)
  qed
qed

lemma url_decode_escape:
  "length (url_escape s) < SIZE_LIMIT \<Longrightarrow> u_urlncpy_decode (url_escape s @ r) (length (url_escape s)) = Ok s"
proof (induction s)
  case Nil
  then show ?case by (simp add: url_escape_def)
next
  case (Cons c s)
  then show ?case by (simp add: url_escape_def url_decode_enc_char)
qed

lemma length_url_escape: "length s \<le> length (url_escape s) \<and> length (url_escape s) \<le> 3 * length s"
proof (induction s)
  case (Cons c s)
  then show ?case using length_url_enc_char [of c] by (auto simp: url_escape_def)
qed (simp add: url_escape_def)

lemma url_decode_fits:
  "length s < SIZE_LIMIT \<Longrightarrow> fits (length s) (u_urlncpy_decode (s @ NUL # r) (length s))"
proof (induction s rule: length_induct)
  case (1 s)
  show ?case
  proof (cases s)
    case Nil
    then show ?thesis by simp
  next
    case (Cons c t)
    note s = this
    show ?thesis
    proof (cases "c = CHR ''%''")
      case False
      have "fits (length t) (u_urlncpy_decode (t @ NUL # r) (length t))"
        using 1 s by simp
      then show ?thesis using 1 False s by auto
    next
      case pct: True
      show ?thesis
      proof (cases "\<exists>h l u. t = h # l # u \<and> c_isxdigit h \<and> c_isxdigit l")
        case True
        then obtain h l u where t: "t = h # l # u" "c_isxdigit h" "c_isxdigit l" by blast
        have "fits (length u) (u_urlncpy_decode (u @ NUL # r) (length u))"
          using 1 s t by simp
        then have "fits (Suc (length u)) (u_urlncpy_decode (s @ NUL # r) (length s))"
          using 1 s t pct by auto
        then show ?thesis using s t by (auto elim: fits_mono)
      next
        case False
        then have "u_urlncpy_decode (s @ NUL # r) (length s) = Fail"
          using s pct by (cases t rule: remdups_adj.cases) (auto simp: u_urlncpy_decode.simps ctype_defs ord_def)
        then show ?thesis by simp
      qed
    qed
  qed
qed

lemma url_decode_run:
  "length m < n \<Longrightarrow> n < SIZE_LIMIT \<Longrightarrow> CHR ''%'' \<notin> set m \<Longrightarrow> u_urlncpy_decode m n = Fault"
proof (induction m arbitrary: n)
  case (Cons c m)
  then obtain k where k: "n = Suc k" by (cases n) auto
  from Cons.prems have "c \<noteq> CHR ''%''" by auto
  with Cons k show ?case by simp
qed simp

lemma url_decode_split_escape:
  assumes "length m < SIZE_LIMIT - 1" "CHR ''%'' \<notin> set m"
  shows "u_urlncpy_decode (''%41'' @ m) 2 = Fault"
proof -
  have "u_urlncpy_decode m (SIZE_LIMIT - 1) = Fault"
    using assms by (intro url_decode_run) (simp_all add: SIZE_LIMIT_def)
  moreover have "size_sub 0 1 = SIZE_LIMIT - 1" by (simp add: size_sub_wrap SIZE_LIMIT_def)
  ultimately show ?thesis
    by (subst u_urlncpy_decode.simps) (simp add: ctype_defs ord_def)
qed

section \<open>Hexadecimal: round trip\<close>

definition hex_escape :: "char list \<Rightarrow> char list" where
  "hex_escape s = concat (map hex_enc_char s)"

lemma hex_encode_eq: "u_hexncpy_encode (s @ r) (length s) = Ok (hex_escape s)"
  by (induction s) (simp_all add: hex_escape_def)

lemma length_hex_escape [simp]: "length (hex_escape s) = 2 * length s"
  by (induction s) (simp_all add: hex_escape_def hex_enc_char_def)

lemma hex_dec_escape: "hex_dec_loop (hex_escape s @ r) (length s) = Ok s"
proof (induction s)
  case Nil
  then show ?case by (simp add: hex_escape_def)
next
  case (Cons c s)
  define h l where "h = ord c div 16 mod 16" and "l = ord c mod 16"
  have "ord c div 16 < 16" using ord_less_256 [of c] by linarith
  then have hl: "ord c = 16 * h + l" "l < 16" by (simp_all add: h_def l_def)
  then have "push_bit 4 (int h) OR int l = int (ord c)" by (simp add: nibble_or_int)
  then have "chr (nat ((push_bit 4 (int h) OR int l) mod 256)) = c"
    by (simp add: nat_mod_distrib)
  with Cons show ?case by (simp add: hex_escape_def hex_enc_char_def h_def l_def)
qed

section \<open>SQL: what is copied\<close>

definition sql_escape :: "char list \<Rightarrow> char list" where
  "sql_escape s = concat (map (\<lambda>c. if c = QUOTE then [c, c] else [c]) s)"

lemma sql_escape_simps [simp]:
  "sql_escape [] = []"
  "sql_escape (c # s) = (if c = QUOTE then [c, c] else [c]) @ sql_escape s"
  by (simp_all add: sql_escape_def)

lemma sql_encode_prefix:
  "u_sqlncpy_encode s n = Ok d \<Longrightarrow>
   \<exists>p q. s = p @ q \<and> d = sql_escape p \<and> n = length p + count_list p QUOTE"
proof (induction s n arbitrary: d rule: u_sqlncpy_encode.induct)
  case (1 s)
  then show ?case by force
next
  case (2 slen)
  then show ?case by simp
next
  case (3 c s slen)
  show ?case
  proof (cases "c = QUOTE")
    case True
    with 3 obtain n e where n: "slen = Suc n" "u_sqlncpy_encode s n = Ok e" "d = c # QUOTE # e"
      by (auto split: nat.splits)
    from 3(1) [OF True n(1,2)] obtain p q
      where "s = p @ q \<and> e = sql_escape p \<and> n = length p + count_list p QUOTE" by blast
    with True n show ?thesis by (intro exI [of _ "c # p"] exI [of _ q]) simp
  next
    case False
    with 3 obtain e where e: "u_sqlncpy_encode s slen = Ok e" "d = c # e" by auto
    from 3(2) [OF False e(1)] obtain p q
      where "s = p @ q \<and> e = sql_escape p \<and> slen = length p + count_list p QUOTE" by blast
    with False e show ?thesis by (intro exI [of _ "c # p"] exI [of _ q]) simp
  qed
qed

lemma length_sql_escape: "length (sql_escape s) = length s + count_list s QUOTE"
  by (induction s) auto

lemma sql_decode_escape:
  "prev \<noteq> QUOTE \<Longrightarrow> sql_dec_loop prev (sql_escape p @ r) (length (sql_escape p)) = Ok p"
proof (induction p arbitrary: prev)
  case (Cons c p)
  show ?case
  proof (cases "c = QUOTE")
    case True
    with Cons.IH [of NUL] Cons.prems show ?thesis by simp
  next
    case False
    with Cons.IH [of c] Cons.prems show ?thesis by simp
  qed
qed simp


section \<open>HTML entities: round trip\<close>

definition html_escape :: "(char \<times> string) list \<Rightarrow> string \<Rightarrow> string" where
  "html_escape es s = concat (map (html_enc_char es) s)"

lemma html_encode_eq: "u_htmlncpy_encode (s @ r) (length s) = Ok (html_escape entities s)"
  by (induction s) (simp_all add: html_escape_def)

lemma html_escape_append [simp]: "html_escape es (s @ t) = html_escape es s @ html_escape es t"
  by (simp add: html_escape_def)

lemma html_escape_Cons: "html_escape es (c # s) = html_enc_char es c @ html_escape es s"
  by (simp add: html_escape_def)

lemma tolower_amp: "c_tolower c = CHR ''&'' \<longleftrightarrow> c = CHR ''&''"
  by (auto simp: c_tolower_def c_isupper_def chr_eq_iff ord_def)

text \<open>What makes a table decodable: every entity is an ampersand, a letter of its own and a rest
  without ampersands.\<close>

fun entity_ok :: "(char \<times> string) \<Rightarrow> bool" where
  "entity_ok (ch, a # b # e) \<longleftrightarrow> a = CHR ''&'' \<and> CHR ''&'' \<notin> set (b # e)"
| "entity_ok _ \<longleftrightarrow> False"

definition entity_key :: "string \<Rightarrow> char" where
  "entity_key e = c_tolower (e ! 1)"

definition table_ok :: "(char \<times> string) list \<Rightarrow> bool" where
  "table_ok es \<longleftrightarrow> (\<forall>x \<in> set es. entity_ok x) \<and> distinct (map (\<lambda>x. entity_key (snd x)) es) \<and>
     distinct (map fst es)"

lemma table_ok_entities: "table_ok entities"
  by (simp add: table_ok_def entities_def entity_key_def c_tolower_def c_isupper_def ord_def)

lemma table_ok_Cons: "table_ok (x # es) \<Longrightarrow> table_ok es \<and> entity_ok x \<and> fst x \<notin> fst ` set es"
  by (auto simp: table_ok_def)

lemma entity_okE:
  assumes "entity_ok (ch, ent)"
  obtains b e where "ent = CHR ''&'' # b # e" "CHR ''&'' \<notin> set (b # e)"
  using assms by (cases ent rule: remdups_adj.cases) auto

lemma stristr_skip:
  assumes "entity_ok (ch, ent)" "CHR ''&'' \<notin> set p"
  shows "u_stristr (p @ q) ent = map_option (\<lambda>i. length p + i) (u_stristr q ent)"
  using assms(2)
proof (induction p)
  case (Cons c p)
  from assms(1) obtain b e where ent: "ent = CHR ''&'' # b # e" by (rule entity_okE)
  from Cons.prems have "c_tolower c \<noteq> CHR ''&''" by (auto simp: tolower_amp)
  then have "\<not> strncaseprefix (c # p @ q) ent"
    using tolower_amp [of "CHR ''&''"] by (auto simp: strncaseprefix_def ent)
  with Cons show ?case by (simp add: option.map_comp comp_def)
qed (cases "u_stristr q ent"; simp)

lemma stristr_other:
  assumes "entity_ok (ch, ent)" "entity_ok (ch', ent')" "entity_key ent' \<noteq> entity_key ent"
  shows "u_stristr (ent' @ q) ent = map_option (\<lambda>i. length ent' + i) (u_stristr q ent)"
proof -
  from assms(1) obtain b e where ent: "ent = CHR ''&'' # b # e" by (rule entity_okE)
  from assms(2) obtain b' e' where ent': "ent' = CHR ''&'' # b' # e'" "CHR ''&'' \<notin> set (b' # e')"
    by (rule entity_okE)
  from assms(3) ent ent' have "\<not> strncaseprefix (ent' @ q) ent"
    by (auto simp: strncaseprefix_def entity_key_def)
  with stristr_skip [OF assms(1) ent'(2), of q] show ?thesis
    by (simp add: ent' option.map_comp comp_def)
qed

lemma stristr_here: "ent \<noteq> [] \<Longrightarrow> u_stristr (ent @ q) ent = Some 0"
  by (cases ent) (auto simp: strncaseprefix_def)

lemma stristr_escape:
  assumes "table_ok ((ch, ent) # es)" "CHR ''&'' \<notin> set t"
  shows "u_stristr (html_escape es t @ q) ent = map_option (\<lambda>i. length (html_escape es t) + i) (u_stristr q ent)"
  using assms(2)
proof (induction t)
  case (Cons c t)
  let ?r = "html_escape es t @ q"
  have "u_stristr (html_enc_char es c @ ?r) ent =
        map_option (\<lambda>i. length (html_enc_char es c) + i) (u_stristr ?r ent)"
  proof (cases "map_of es c")
    case None
    then show ?thesis
      using stristr_skip [of ch ent "[c]" ?r] Cons.prems table_ok_Cons [OF assms(1)]
      by (simp add: html_enc_char_def)
  next
    case (Some e)
    then have mem: "(c, e) \<in> set es" by (rule map_of_SomeD)
    have "entity_key e \<noteq> entity_key ent" "entity_ok (c, e)" "entity_ok (ch, ent)"
      using assms(1) mem by (force simp: table_ok_def)+
    then show ?thesis using Some stristr_other by (simp add: html_enc_char_def)
  qed
  with Cons show ?case by (simp add: html_escape_Cons option.map_comp comp_def add.assoc)
qed (cases "u_stristr q ent"; simp add: html_escape_def)

lemma html_replace_escape:
  assumes "table_ok ((ch, ent) # es)" "CHR ''&'' \<notin> set t" "CHR ''&'' \<notin> set s"
  shows "html_replace ch ent (html_escape es t @ html_escape ((ch, ent) # es) s) = html_escape es (t @ s)"
  using assms(2,3)
proof (induction s arbitrary: t)
  case Nil
  have "u_stristr (html_escape es t @ []) ent = None"
    by (subst stristr_escape [OF assms(1) Nil(1)]) simp
  then show ?case by (simp add: html_replace.simps html_escape_def)
next
  case (Cons c s)
  have IH: "html_replace ch ent (html_escape es (t @ [c]) @ html_escape ((ch, ent) # es) s)
      = html_escape es ((t @ [c]) @ s)"
    by (rule Cons.IH) (use Cons.prems in auto)
  show ?case
  proof (cases "c = ch")
    case False
    then have "html_enc_char ((ch, ent) # es) c = html_enc_char es c" by (simp add: html_enc_char_def)
    with IH show ?thesis by (simp add: html_escape_Cons) (simp add: html_escape_def)
  next
    case True
    have len: "2 \<le> length ent" using table_ok_Cons [OF assms(1)] by (auto elim: entity_okE)
    then have ne0: "ent \<noteq> []" by auto
    have ne: "map_of es ch = None" using table_ok_Cons [OF assms(1)] by (simp add: map_of_eq_None_iff)
    have "u_stristr (html_escape es t @ ent @ html_escape ((ch, ent) # es) s) ent = Some (length (html_escape es t))"
      using stristr_escape [OF assms(1) Cons(2)] stristr_here [of ent] ne0 by simp
    with len have "html_replace ch ent (html_escape es t @ ent @ html_escape ((ch, ent) # es) s) =
       html_replace ch ent (html_escape es t @ ch # html_escape ((ch, ent) # es) s)"
      by (subst html_replace.simps) simp
    with IH True ne show ?thesis
      by (simp add: html_escape_Cons html_enc_char_def) (simp add: html_escape_def html_enc_char_def)
  qed
qed

lemma html_decode_escape:
  "table_ok es \<Longrightarrow> CHR ''&'' \<notin> set s \<Longrightarrow> html_decode_all es (html_escape es s) = s"
proof (induction es)
  case Nil
  have "concat (map (html_enc_char []) s) = s" by (induction s) (simp_all add: html_enc_char_def)
  then show ?case by (simp add: html_decode_all_def html_escape_def)
next
  case (Cons x es)
  obtain ch ent where x: "x = (ch, ent)" by (cases x)
  have "html_replace ch ent (html_escape (x # es) s) = html_escape es s"
    using html_replace_escape [of ch ent es "[]" s] Cons.prems x by (simp add: html_escape_def)
  with Cons table_ok_Cons show ?case by (simp add: html_decode_all_def x)
qed

section \<open>Properties\<close>

text \<open>
  C7.  URL escapes round-trip: for every byte string \<open>s\<close> (NULs and bytes above 127 included),
  encoding its \<open>length s\<close> bytes succeeds and decoding the result gives \<open>s\<close> back, with both
  return values equal to the number of bytes written.
\<close>

theorem url_roundtrip:
  assumes "3 * length s < SIZE_LIMIT"
  shows "\<exists>e. u_urlncpy L (s @ r) (length s) CPY_ENCODE = Ok (e, length e) \<and>
             u_urlncpy L (e @ r') (length e) CPY_DECODE = Ok (s, length s)"
proof -
  have "length (url_escape s) < SIZE_LIMIT"
    using length_url_escape [of s] assms by linarith
  then show ?thesis
    by (intro exI [of _ "url_escape s"])
       (simp add: u_urlncpy_def counted_def url_encode_eq url_decode_escape)
qed

theorem url_roundtrip_witness:
  "3 * length ''a b&c'' < SIZE_LIMIT \<and>
   (\<exists>e. u_urlncpy libu_ref (''a b&c'' @ [NUL]) (length ''a b&c'') CPY_ENCODE = Ok (e, length e) \<and>
        u_urlncpy libu_ref (e @ [NUL]) (length e) CPY_DECODE = Ok (''a b&c'', length ''a b&c''))"
proof -
  have h: "3 * length ''a b&c'' < SIZE_LIMIT" by simp
  show ?thesis using h url_roundtrip [OF h] by blast
qed

text \<open>
  Decoding a NUL-terminated string is memory safe: when the byte after the \<open>length s\<close>
  source bytes is a NUL (as at every call in KLone), the decoder never reads past it and
  writes at most \<open>length s\<close> bytes, whatever the string holds.
\<close>

theorem url_decode_safe:
  assumes "length s < SIZE_LIMIT"
  shows "fits (length s) (u_urlncpy_decode (s @ NUL # r) (length s))"
  using assms by (rule url_decode_fits)

theorem url_decode_safe_witness:
  "length ''a%4'' < SIZE_LIMIT \<and> fits (length ''a%4'') (u_urlncpy_decode (''a%4'' @ NUL # []) (length ''a%4''))"
proof -
  have h: "length ''a%4'' < SIZE_LIMIT" by simp
  show ?thesis using h url_decode_safe [OF h] by blast
qed

text \<open>
  The length test of the decoder (\<^verbatim>\<open>slen < 2\<close>, with the percent sign still counted) is
  one short: on a buffer that is not NUL-terminated after \<open>slen\<close> bytes, an escape cut after
  its first digit is completed from beyond the end, \<open>slen\<close> wraps below zero and the loop runs
  on through all the memory that follows until it leaves it.
\<close>

theorem url_decode_overrun:
  assumes "length m < SIZE_LIMIT - 1" and "CHR ''%'' \<notin> set m"
  shows "u_urlncpy_decode (''%41'' @ m) 2 = Fault"
  using assms by (rule url_decode_split_escape)

theorem url_decode_overrun_witness:
  "length ''xyz'' < SIZE_LIMIT - 1 \<and> CHR ''%'' \<notin> set ''xyz'' \<and> u_urlncpy_decode (''%41'' @ ''xyz'') 2 = Fault"
proof -
  have h: "length ''xyz'' < SIZE_LIMIT - 1" "CHR ''%'' \<notin> set ''xyz''" by (simp_all add: SIZE_LIMIT_def)
  show ?thesis using h url_decode_overrun [OF h] by blast
qed

text \<open>
  The space an encoder needs: the URL encoder writes between \<open>n\<close> and \<open>3 * n\<close> bytes
  for \<open>n\<close> source bytes and the hexadecimal encoder exactly \<open>2 * n\<close>, and for every \<open>n\<close>
  some input makes the URL encoder write \<open>3 * n\<close>, so a destination of \<open>n + 1\<close> bytes
  is not enough.
\<close>

theorem encode_space:
  "\<exists>e h. u_urlncpy_encode (s @ r) (length s) = Ok e \<and> length s \<le> length e \<and> length e \<le> 3 * length s \<and>
         u_hexncpy_encode (s @ r) (length s) = Ok h \<and> length h = 2 * length s \<and>
         (\<exists>x. u_urlncpy_encode (replicate n (CHR ''/'')) n = Ok x \<and> length x = 3 * n)"
proof -
  have "length (url_escape (replicate n (CHR ''/''))) = 3 * n"
    by (induction n) (simp_all add: url_escape_def url_enc_char_def url_plain_def ctype_defs ord_def)
  then show ?thesis
    using url_encode_eq [of s r] hex_encode_eq [of s r] length_url_escape [of s]
      url_encode_eq [of "replicate n (CHR ''/'')" "[]"]
    by simp
qed

text \<open>
  Hexadecimal copies round-trip on every byte string.
\<close>

theorem hex_roundtrip:
  "\<exists>e. u_hexncpy L (s @ r) (length s) CPY_ENCODE = Ok (e, length e) \<and>
       u_hexncpy L (e @ r') (length e) CPY_DECODE = Ok (s, length s)"
  by (intro exI [of _ "hex_escape s"])
     (simp add: u_hexncpy_def counted_def u_hexncpy_decode_def hex_encode_eq hex_dec_escape)

text \<open>
  What the SQL copy really copies: when it succeeds on all of \<open>s\<close> it has escaped only a
  prefix \<open>p\<close>, the last \<open>k\<close> bytes being dropped where \<open>k\<close> is the number of quotes in
  \<open>p\<close>, and decoding gives back \<open>p\<close>.  The copy is lossless exactly when \<open>s\<close> has no quote.
\<close>

theorem sql_copy_prefix:
  assumes "u_sqlncpy L s (length s) CPY_ENCODE = Ok (d, k)"
  shows "\<exists>p q. s = p @ q \<and> length q = count_list p QUOTE \<and> d = sql_escape p \<and> k = length s \<and>
               u_sqlncpy L (d @ r) k CPY_DECODE = Ok (p, length p) \<and> (p = s \<longleftrightarrow> QUOTE \<notin> set s)"
proof -
  from assms obtain p q where pq: "s = p @ q" "d = sql_escape p" "length s = length p + count_list p QUOTE"
    "k = length d"
    using sql_encode_prefix [of s "length s" d] by (auto simp: u_sqlncpy_def counted_def)
  moreover have "k = length s" using pq by (simp add: length_sql_escape)
  moreover have "sql_dec_loop NUL (d @ r) k = Ok p" using pq sql_decode_escape [of NUL p r] by simp
  moreover have "p = s \<longleftrightarrow> QUOTE \<notin> set s"
    using pq count_list_0_iff [of p QUOTE] by (auto simp: length_0_conv)
  ultimately show ?thesis
    by (intro exI [of _ p] exI [of _ q]) (simp add: u_sqlncpy_def counted_def u_sqlncpy_decode_def)
qed

theorem sql_copy_prefix_witness:
  "u_sqlncpy libu_ref (''a'' @ [QUOTE] @ ''bc'') (length (''a'' @ [QUOTE] @ ''bc'')) CPY_ENCODE
     = Ok (''a'' @ [QUOTE, QUOTE] @ ''b'', 4) \<and>
   (\<exists>p q. ''a'' @ [QUOTE] @ ''bc'' = p @ q \<and> length q = count_list p QUOTE \<and>
      ''a'' @ [QUOTE, QUOTE] @ ''b'' = sql_escape p \<and> 4 = length (''a'' @ [QUOTE] @ ''bc'') \<and>
      u_sqlncpy libu_ref ((''a'' @ [QUOTE, QUOTE] @ ''b'') @ [NUL]) 4 CPY_DECODE = Ok (p, length p) \<and>
      (p = ''a'' @ [QUOTE] @ ''bc'' \<longleftrightarrow> QUOTE \<notin> set (''a'' @ [QUOTE] @ ''bc'')))"
proof -
  have h: "u_sqlncpy libu_ref (''a'' @ [QUOTE] @ ''bc'') (length (''a'' @ [QUOTE] @ ''bc'')) CPY_ENCODE
     = Ok (''a'' @ [QUOTE, QUOTE] @ ''b'', 4)"
    by (simp add: u_sqlncpy_def counted_def)
  show ?thesis using h sql_copy_prefix [OF h, of "[NUL]"] by blast
qed

text \<open>
  HTML escaping round-trips on text without ampersands (and without NULs): the decoder,
  entity by entity and case-insensitively, restores exactly the characters the encoder
  replaced.
\<close>

theorem html_roundtrip:
  assumes "libu_ok L" and "CHR ''&'' \<notin> set s" and "NUL \<notin> set s"
  shows "\<exists>e. u_htmlncpy L (s @ r) (length s) CPY_ENCODE = Ok (e, length e) \<and>
             u_htmlncpy L (e @ NUL # r') (length e) CPY_DECODE = Ok (s, length s)"
proof -
  let ?e = "html_escape entities s"
  have "NUL \<notin> set ?e"
    using assms(3) by (auto simp: html_escape_def html_enc_char_def entities_def split: if_splits)
  then have "u_htmlncpy_decode L (?e @ NUL # r') (length ?e) = Ok s"
    using html_decode_escape [OF table_ok_entities assms(2)]
    by (simp add: u_htmlncpy_decode_def libu_ok_strlcpy [OF assms(1)])
  then show ?thesis
    by (intro exI [of _ ?e]) (simp add: u_htmlncpy_def counted_def html_encode_eq)
qed

theorem html_roundtrip_witness:
  "libu_ok libu_ref \<and> CHR ''&'' \<notin> set ''<b>'' \<and> NUL \<notin> set ''<b>'' \<and>
   (\<exists>e. u_htmlncpy libu_ref (''<b>'' @ [NUL]) (length ''<b>'') CPY_ENCODE = Ok (e, length e) \<and>
        u_htmlncpy libu_ref (e @ NUL # []) (length e) CPY_DECODE = Ok (''<b>'', length ''<b>''))"
proof -
  have h: "libu_ok libu_ref" "CHR ''&'' \<notin> set ''<b>''" "NUL \<notin> set ''<b>''" by simp_all
  show ?thesis using h html_roundtrip [OF h] by blast
qed

text \<open>
  With an ampersand the round trip breaks: the ampersand entity is decoded first, so text
  that spells an entity (here the four characters of the entity for a less-than sign) comes
  back as the single character that the entity stands for.
\<close>

theorem html_decodes_twice:
  assumes "libu_ok L"
  shows "\<exists>e. u_htmlncpy L (''&lt;'' @ [NUL]) 4 CPY_ENCODE = Ok (e, length e) \<and>
             u_htmlncpy L (e @ [NUL]) (length e) CPY_DECODE = Ok (''<'', 1)"
proof -
  have enc: "u_htmlncpy_encode (''&lt;'' @ [NUL]) 4 = Ok ''&amp;lt;''"
    by (simp add: numeral_eq_Suc html_enc_char_def entities_def)
  have "html_decode_all entities ''&amp;lt;'' = ''<''"
    by (simp add: html_decode_all_def entities_def html_replace.simps strncaseprefix_def
        c_tolower_def c_isupper_def ord_def)
  then show ?thesis
    using enc by (simp add: u_htmlncpy_def counted_def u_htmlncpy_decode_def cstr_def
        libu_ok_strlcpy [OF assms])
qed

theorem html_decodes_twice_witness:
  "libu_ok libu_ref \<and>
   (\<exists>e. u_htmlncpy libu_ref (''&lt;'' @ [NUL]) 4 CPY_ENCODE = Ok (e, length e) \<and>
        u_htmlncpy libu_ref (e @ [NUL]) (length e) CPY_DECODE = Ok (''<'', 1))"
  using html_decodes_twice [OF libu_ref_ok] by simp

end
