(* ===== verification/Path.thy ===== *)
theory Path
  imports Libu
begin

text \<open>
  \<^verbatim>\<open>src/libutils/path.c\<close>: \<^verbatim>\<open>u_uri_normalize\<close>, which removes dot segments and
  repeated slashes from a request path in place, and \<^verbatim>\<open>u_path_where_art_thou\<close>.  The
  normaliser works on a growing string that it crops at the last slash; the specification
  \<open>norm_spec\<close> works on a stack of segments.
\<close>

section \<open>Definitions\<close>

definition slashes :: "string \<Rightarrow> string" where
  "slashes p = map (\<lambda>c. if c = CHR 0x5C then CHR ''/'' else c) p"

text \<open>The backward scan \<^verbatim>\<open>for(; len && *cs != SLASH; --len, --cs)\<close>.\<close>

fun eat_last :: "string \<Rightarrow> nat \<Rightarrow> nat" where
  "eat_last s 0 = 0"
| "eat_last s (Suc n) = (if s ! n \<noteq> CHR ''/'' then eat_last s n else Suc n)"

fun norm_loop :: "libu \<Rightarrow> string \<Rightarrow> string list \<Rightarrow> string option" where
  "norm_loop L s [] = Some s"
| "norm_loop L s (tok # toks) =
     (if tok = '''' then norm_loop L s toks
      else if tok = ''.'' then norm_loop L s toks
      else if tok = ''..'' then
        (let len = eat_last s (length s) in
         case u_string_set_length L s (if len \<noteq> 0 then len - 1 else 0) of
           None \<Rightarrow> None
         | Some s' \<Rightarrow> norm_loop L s' toks)
      else
        (case u_string_append L s (CHR ''/'' # tok) of
           None \<Rightarrow> None
         | Some s' \<Rightarrow> norm_loop L s' toks))"

definition u_uri_normalize :: "libu \<Rightarrow> string \<Rightarrow> string outcome" where
  "u_uri_normalize L path =
     (let p = slashes path in
      if p = [] \<or> p ! 0 \<noteq> CHR ''/'' then Fail
      else
        let trsl = (p ! (length p - 1) = CHR ''/'');
            (delim, cut) = u_snprintf L [CHR ''/''] 2
        in
        if cut then Fail
        else case u_string_create L [] of
          None \<Rightarrow> Fail
        | Some s0 \<Rightarrow>
            (case u_string_reserve L s0 (length p + 1) of
               None \<Rightarrow> Fail
             | Some s1 \<Rightarrow>
                 (case norm_loop L s1 (strtok_all delim p) of
                    None \<Rightarrow> Fail
                  | Some s \<Rightarrow>
                      if s = [] \<or> trsl then
                        (case u_string_append L s [CHR ''/''] of None \<Rightarrow> Fail | Some s' \<Rightarrow> Ok s')
                      else Ok s)))"

datatype where_at = U_PATH_NOT_FOUND | U_PATH_IN_EMBFS | U_PATH_IN_FS

text \<open>\<open>emb\<close> stands for a successful \<^verbatim>\<open>emb_lookup\<close>, \<open>fs\<close> for a successful \<^verbatim>\<open>stat\<close>.\<close>

definition u_path_where_art_thou :: "(string \<Rightarrow> bool) \<Rightarrow> (string \<Rightarrow> bool) \<Rightarrow> string \<Rightarrow> where_at" where
  "u_path_where_art_thou emb fs fqn =
     (if emb fqn then U_PATH_IN_EMBFS else if fs fqn then U_PATH_IN_FS else U_PATH_NOT_FOUND)"

section \<open>Specification: a stack of segments\<close>

definition push_segment :: "string \<Rightarrow> string list \<Rightarrow> string list" where
  "push_segment tok segs =
     (if tok = '''' \<or> tok = ''.'' then segs
      else if tok = ''..'' then butlast segs
      else segs @ [tok])"

definition segments :: "string \<Rightarrow> string list" where
  "segments p = fold push_segment (strtok_all ''/'' (slashes p)) []"

definition join :: "string list \<Rightarrow> string" where
  "join segs = concat (map (\<lambda>x. CHR ''/'' # x) segs)"

definition absolute :: "string \<Rightarrow> bool" where
  "absolute p \<longleftrightarrow> slashes p \<noteq> [] \<and> hd (slashes p) = CHR ''/''"

definition norm_spec :: "string \<Rightarrow> string" where
  "norm_spec p =
     (let segs = segments p in
      join segs @ (if segs = [] \<or> last (slashes p) = CHR ''/'' then ''/'' else ''''))"

definition good_segment :: "string \<Rightarrow> bool" where
  "good_segment t \<longleftrightarrow> t \<noteq> '''' \<and> t \<noteq> ''.'' \<and> t \<noteq> ''..'' \<and> CHR ''/'' \<notin> set t"

section \<open>Lemmas\<close>

lemma join_simps [simp]:
  "join [] = []" "join (x # xs) = CHR ''/'' # x @ join xs" "join (xs @ ys) = join xs @ join ys"
  by (simp_all add: join_def)

lemma join_eq_Nil [simp]: "join segs = [] \<longleftrightarrow> segs = []"
  by (cases segs) auto

lemma eat_last_run:
  "0 < m \<Longrightarrow> m \<le> n \<Longrightarrow> s ! (m - 1) = CHR ''/'' \<Longrightarrow> (\<And>i. m \<le> i \<Longrightarrow> i < n \<Longrightarrow> s ! i \<noteq> CHR ''/'') \<Longrightarrow>
   eat_last s n = m"
proof (induction n)
  case (Suc n)
  show ?case
  proof (cases "m = Suc n")
    case True
    with Suc.prems show ?thesis by simp
  next
    case False
    with Suc show ?thesis by simp
  qed
qed simp

lemma eat_last_segment:
  assumes "CHR ''/'' \<notin> set x"
  shows "eat_last (y @ CHR ''/'' # x) (length (y @ CHR ''/'' # x)) = Suc (length y)"
proof (rule eat_last_run)
  fix i
  assume "Suc (length y) \<le> i" "i < length (y @ CHR ''/'' # x)"
  then have "(y @ CHR ''/'' # x) ! i \<in> set x"
    by (simp add: nth_append nth_Cons')
  with assms show "(y @ CHR ''/'' # x) ! i \<noteq> CHR ''/''" by metis
qed (simp_all add: nth_append)

lemma norm_loop_step:
  assumes "libu_ok L" "\<forall>x \<in> set segs. CHR ''/'' \<notin> set x"
    and "norm_loop L (join segs) (tok # toks) = Some s"
  shows "norm_loop L (join (push_segment tok segs)) toks = Some s"
proof (cases "tok = ''..''")
  case True
  show ?thesis
  proof (cases segs rule: rev_cases)
    case Nil
    with True assms show ?thesis
      by (auto simp: push_segment_def split: option.splits
          dest!: libu_ok_set_length [OF assms(1), of 0 "[]", simplified])
  next
    case (snoc ys x)
    have "eat_last (join segs) (length (join segs)) = Suc (length (join ys))"
      using eat_last_segment [of x "join ys"] assms(2) snoc by simp
    moreover have "u_string_set_length L (join segs) (length (join ys)) = Some t \<Longrightarrow> t = join ys" for t
      using libu_ok_set_length [OF assms(1), of "length (join ys)" "join segs" t] snoc by simp
    ultimately show ?thesis
      using True assms(3) snoc
      by (auto simp: Let_def push_segment_def simp del: join_simps(3) split: option.splits)
  qed
next
  case False
  with assms show ?thesis
    by (auto simp: push_segment_def split: option.splits if_splits dest: libu_okD [OF assms(1)])
qed

lemma push_segment_good:
  "\<forall>x \<in> set segs. good_segment x \<Longrightarrow> CHR ''/'' \<notin> set tok \<Longrightarrow>
   \<forall>x \<in> set (push_segment tok segs). good_segment x"
  by (auto simp: good_segment_def push_segment_def dest: in_set_butlastD)

lemma norm_loop_spec:
  assumes "libu_ok L" "\<forall>t \<in> set toks. CHR ''/'' \<notin> set t" "\<forall>x \<in> set segs. good_segment x"
    and "norm_loop L (join segs) toks = Some s"
  shows "s = join (fold push_segment toks segs)"
  using assms(2-)
proof (induction toks arbitrary: segs)
  case (Cons t toks)
  have "norm_loop L (join (push_segment t segs)) toks = Some s"
    using assms(1) Cons.prems by (intro norm_loop_step) (auto simp: good_segment_def)
  moreover have "\<forall>x \<in> set (push_segment t segs). good_segment x"
    using Cons.prems by (intro push_segment_good) auto
  ultimately show ?case using Cons by simp
qed simp

lemma norm_loop_total:
  "libu_ok L \<Longrightarrow> libu_mem L \<Longrightarrow> \<exists>s'. norm_loop L s toks = Some s'"
proof (induction toks arbitrary: s)
  case (Cons t toks)
  have le: "eat_last s n - 1 \<le> n" for n by (induction n) auto
  show ?case
    using Cons le [of "length s"]
    by (auto simp: Let_def libu_memD libu_mem_set_length)
qed simp


lemma strtok_all_segment:
  "t \<noteq> [] \<Longrightarrow> CHR ''/'' \<notin> set t \<Longrightarrow> r = [] \<or> hd r = CHR ''/'' \<Longrightarrow>
   strtok_all ''/'' (t @ r) = t # strtok_all ''/'' r"
proof -
  assume a: "t \<noteq> []" "CHR ''/'' \<notin> set t" "r = [] \<or> hd r = CHR ''/''"
  then obtain c u where t: "t = c # u" by (cases t) auto
  have "takeWhile (\<lambda>x. x \<noteq> CHR ''/'') r = []" "dropWhile (\<lambda>x. x \<noteq> CHR ''/'') r = r"
    using a(3) by (cases r; simp)+
  then have "takeWhile (\<lambda>x. x \<noteq> CHR ''/'') (u @ r) = u" "dropWhile (\<lambda>x. x \<noteq> CHR ''/'') (u @ r) = r"
    using a(2) t by (auto simp: takeWhile_append dropWhile_append)
  moreover have "c \<noteq> CHR ''/''" using a(2) t by auto
  ultimately show ?thesis using t by simp
qed

lemma strtok_all_join:
  assumes "\<forall>x \<in> set segs. good_segment x" "r = [] \<or> r = ''/''"
  shows "strtok_all ''/'' (join segs @ r) = segs"
  using assms
proof (induction segs)
  case (Cons x segs)
  have "strtok_all ''/'' (x @ join segs @ r) = x # strtok_all ''/'' (join segs @ r)"
    using Cons.prems by (intro strtok_all_segment; cases segs) (auto simp: good_segment_def)
  with Cons show ?case by simp
qed auto

lemma fold_push_good:
  "\<forall>x \<in> set toks. CHR ''/'' \<notin> set x \<Longrightarrow> \<forall>x \<in> set segs. good_segment x \<Longrightarrow>
   \<forall>x \<in> set (fold push_segment toks segs). good_segment x"
proof (induction toks arbitrary: segs)
  case (Cons t toks)
  then show ?case using push_segment_good [of segs t] by simp
qed simp

lemma segments_good: "\<forall>x \<in> set (segments p). good_segment x"
  unfolding segments_def using strtok_all_mem [of _ "''/''" "slashes p"]
  by (intro fold_push_good) auto

lemma length_join_push:
  "length (join (push_segment t segs)) \<le> length (join segs) + length t + 1"
  by (cases segs rule: rev_cases) (auto simp: push_segment_def)

lemma length_join_fold:
  "length (join (fold push_segment toks segs)) \<le> length (join segs) + length (join toks)"
proof (induction toks arbitrary: segs)
  case (Cons t toks)
  show ?case using length_join_push [of t segs] Cons.IH [of "push_segment t segs"] by simp
qed simp

lemma length_join_strtok:
  "length (join (strtok_all ''/'' p)) \<le> length p + (if p \<noteq> [] \<and> hd p \<noteq> CHR ''/'' then 1 else 0)"
proof (induction "''/''" p rule: strtok_all.induct)
  case (2 c s)
  let ?d = "dropWhile (\<lambda>x. x \<noteq> CHR ''/'') s"
  show ?case
  proof (cases "c = CHR ''/''")
    case True
    with 2(1) show ?thesis by (simp split: if_splits)
  next
    case False
    have "length (takeWhile (\<lambda>x. x \<noteq> CHR ''/'') s) + length ?d = length s"
      by (metis length_append takeWhile_dropWhile_id)
    moreover have "?d = [] \<or> hd ?d = CHR ''/''" using hd_dropWhile by blast
    ultimately show ?thesis using False 2(2) by (auto split: if_splits)
  qed
qed simp

lemma fold_push_plain:
  "\<forall>x \<in> set toks. good_segment x \<Longrightarrow> fold push_segment toks segs = segs @ toks"
proof (induction toks arbitrary: segs)
  case (Cons t toks)
  then show ?case by (simp add: good_segment_def push_segment_def)
qed simp

lemma normalize_sound:
  assumes "libu_ok L" "u_uri_normalize L p = Ok r"
  shows "absolute p \<and> r = norm_spec p"
proof -
  let ?p = "slashes p"
  have abs: "absolute p"
    using assms(2) by (auto simp: u_uri_normalize_def absolute_def hd_conv_nth Let_def split: if_splits)
  then have ne: "?p \<noteq> []" by (simp add: absolute_def)
  let ?fin = "\<lambda>s. if s = [] \<or> last ?p = CHR ''/'' then
         (case u_string_append L s ''/'' of None \<Rightarrow> Fail | Some s' \<Rightarrow> Ok s') else Ok s"
  have eq: "u_uri_normalize L p =
      (case u_string_create L [] of None \<Rightarrow> Fail | Some s0 \<Rightarrow>
        (case u_string_reserve L s0 (length ?p + 1) of None \<Rightarrow> Fail | Some s1 \<Rightarrow>
          (case norm_loop L s1 (strtok_all ''/'' ?p) of None \<Rightarrow> Fail | Some s \<Rightarrow> ?fin s)))"
  proof -
    have "?p ! 0 = CHR ''/''" "?p ! (length ?p - Suc 0) = last ?p"
      using abs ne by (simp_all add: absolute_def hd_conv_nth last_conv_nth)
    with ne show ?thesis by (simp add: u_uri_normalize_def Let_def libu_ok_snprintf [OF assms(1)])
  qed
  from eq assms(2) obtain s0 where s0: "u_string_create L [] = Some s0"
    by (cases "u_string_create L []") auto
  with eq assms(2) obtain s1 where s1: "u_string_reserve L s0 (length ?p + 1) = Some s1"
    by (cases "u_string_reserve L s0 (length ?p + 1)") auto
  with s0 eq assms(2) obtain s where s: "norm_loop L s1 (strtok_all ''/'' ?p) = Some s"
    by (cases "norm_loop L s1 (strtok_all ''/'' ?p)") auto
  with s0 s1 eq assms(2) have fin: "?fin s = Ok r" by simp
  have "s0 = []" using s0 by (rule libu_okD(4) [OF assms(1)])
  with libu_okD(5) [OF assms(1) s1] have "norm_loop L (join []) (strtok_all ''/'' ?p) = Some s"
    using s by simp
  moreover have "\<forall>t \<in> set (strtok_all ''/'' ?p). CHR ''/'' \<notin> set t"
    using strtok_all_mem [of _ "''/''" ?p] by auto
  ultimately have "s = join (segments p)"
    unfolding segments_def using norm_loop_spec [OF assms(1), of "strtok_all ''/'' ?p" "[]" s] by simp
  moreover have "u_string_append L s ''/'' = Some t \<Longrightarrow> t = s @ ''/''" for t
    by (rule libu_okD(6) [OF assms(1)])
  ultimately have "r = norm_spec p"
    using fin by (cases "u_string_append L s ''/''") (auto simp: norm_spec_def Let_def split: if_splits)
  with abs show ?thesis by simp
qed

lemma normalize_total:
  assumes "libu_ok L" "libu_mem L" "absolute p"
  shows "u_uri_normalize L p = Ok (norm_spec p)"
proof -
  have ne: "slashes p \<noteq> []" "slashes p ! 0 = CHR ''/''"
    using assms(3) by (auto simp: absolute_def hd_conv_nth)
  obtain s where s: "norm_loop L [] (strtok_all ''/'' (slashes p)) = Some s"
    using norm_loop_total [OF assms(1,2)] by blast
  have "\<exists>r. u_uri_normalize L p = Ok r"
    using ne s
    by (auto simp: u_uri_normalize_def Let_def libu_ok_snprintf [OF assms(1)] libu_memD [OF assms(1,2)])
  then show ?thesis using normalize_sound [OF assms(1)] by auto
qed

lemma normalize_relative: "\<not> absolute p \<Longrightarrow> u_uri_normalize L p = Fail"
  by (auto simp: u_uri_normalize_def absolute_def hd_conv_nth Let_def)

lemma norm_spec_shape:
  obtains t where "norm_spec p = join (segments p) @ t" "t = [] \<or> t = ''/''" "segments p = [] \<Longrightarrow> t = ''/''"
  by (auto simp: norm_spec_def Let_def)

lemma strtok_norm_spec: "strtok_all ''/'' (norm_spec p) = segments p"
proof -
  obtain t where "norm_spec p = join (segments p) @ t" "t = [] \<or> t = ''/''"
    by (rule norm_spec_shape [of p])
  then show ?thesis using strtok_all_join [OF segments_good] by metis
qed

lemma hd_norm_spec: "norm_spec p \<noteq> [] \<and> hd (norm_spec p) = CHR ''/''"
proof -
  obtain t where "norm_spec p = join (segments p) @ t" "segments p = [] \<longrightarrow> t = ''/''"
    by (rule norm_spec_shape [of p]) blast
  then show ?thesis by (cases "segments p") auto
qed

lemma fold_push_set:
  "set (join (fold push_segment toks segs)) \<subseteq> insert (CHR ''/'') (set (concat toks) \<union> set (concat segs))"
proof -
  have "set (concat (fold push_segment toks segs)) \<subseteq> set (concat toks) \<union> set (concat segs)"
  proof (induction toks arbitrary: segs)
    case (Cons t toks)
    have "set (concat (push_segment t segs)) \<subseteq> set t \<union> set (concat segs)"
      by (auto simp: push_segment_def dest: in_set_butlastD)
    with Cons [of "push_segment t segs"] show ?case by auto
  qed simp
  then show ?thesis by (auto simp: join_def)
qed

lemma norm_spec_set: "set (norm_spec p) \<subseteq> insert (CHR ''/'') (set (slashes p))"
proof -
  have "set (concat (strtok_all ''/'' (slashes p))) \<subseteq> set (slashes p)"
    using strtok_all_mem [of _ "''/''" "slashes p"] by auto
  with fold_push_set [of "strtok_all ''/'' (slashes p)" "[]"]
  have "set (join (segments p)) \<subseteq> insert (CHR ''/'') (set (slashes p))"
    unfolding segments_def by (metis (no_types, opaque_lifting) Un_empty_right concat.simps(1)
        empty_set insert_mono order_trans)
  then show ?thesis by (auto simp: norm_spec_def Let_def)
qed

lemma norm_spec_no_backslash: "CHR 0x5C \<notin> set (norm_spec p)"
  using norm_spec_set [of p] by (auto simp: slashes_def)

lemma strtok_all_snoc: "strtok_all ''/'' (q @ ''/'') = strtok_all ''/'' q"
proof (induction "''/''" q rule: strtok_all.induct)
  case (2 c s)
  show ?case
  proof (cases "c = CHR ''/''")
    case True
    with 2(1) show ?thesis by simp
  next
    case False
    show ?thesis
    proof (cases "CHR ''/'' \<in> set s")
      case True
      then show ?thesis using False 2(2) by (simp add: takeWhile_append1 dropWhile_append1)
    next
      case no: False
      then have all: "\<forall>x \<in> set s. x \<noteq> CHR ''/''" by auto
      then have "takeWhile (\<lambda>x. x \<noteq> CHR ''/'') s = s" "dropWhile (\<lambda>x. x \<noteq> CHR ''/'') s = []"
        "takeWhile (\<lambda>x. x \<noteq> CHR ''/'') (s @ ''/'') = s" "dropWhile (\<lambda>x. x \<noteq> CHR ''/'') (s @ ''/'') = ''/''"
        by (simp_all add: takeWhile_append2 dropWhile_append2)
      note runs = this
      from False show ?thesis by (simp add: runs)
    qed
  qed
qed simp

lemma length_norm_spec:
  assumes "absolute p"
  shows "length (norm_spec p) \<le> length p"
proof -
  let ?p = "slashes p"
  have len: "length ?p = length p" and ne: "?p \<noteq> []" "hd ?p = CHR ''/''"
    using assms by (auto simp: slashes_def absolute_def)
  have bound: "length (join (segments p)) \<le> length (join (strtok_all ''/'' ?p))"
    using length_join_fold [of "strtok_all ''/'' ?p" "[]"] by (simp add: segments_def)
  show ?thesis
  proof (cases "last ?p = CHR ''/''")
    case True
    then obtain q where q: "?p = q @ ''/''" using ne(1) by (metis append_butlast_last_id)
    have "length (join (strtok_all ''/'' q)) \<le> length q"
      using length_join_strtok [of q] ne q by (cases q) auto
    with bound q len True show ?thesis
      by (simp add: norm_spec_def Let_def strtok_all_snoc)
  next
    case False
    moreover have "0 < length p" using ne(1) len by (metis length_greater_0_conv)
    ultimately show ?thesis
      using length_join_strtok [of ?p] bound ne len by (cases p) (auto simp: norm_spec_def Let_def)
  qed
qed

lemma slashes_norm_spec: "slashes (norm_spec p) = norm_spec p"
  using norm_spec_no_backslash [of p] unfolding slashes_def by (intro map_idI) auto

lemma absolute_norm_spec: "absolute (norm_spec p)"
  using hd_norm_spec [of p] by (simp add: absolute_def slashes_norm_spec)

lemma segments_norm_spec: "segments (norm_spec p) = segments p"
  using segments_good [of p]
  by (simp add: segments_def [of "norm_spec p"] slashes_norm_spec strtok_norm_spec fold_push_plain)

lemma last_join: "segs \<noteq> [] \<Longrightarrow> \<forall>x \<in> set segs. good_segment x \<Longrightarrow> last (join segs) \<noteq> CHR ''/''"
proof (cases segs rule: rev_cases)
  case (snoc ys x)
  moreover assume "\<forall>x \<in> set segs. good_segment x"
  ultimately have "x \<noteq> []" "CHR ''/'' \<notin> set x" by (auto simp: good_segment_def)
  then have "last x \<noteq> CHR ''/''" using last_in_set by metis
  then show ?thesis using \<open>x \<noteq> []\<close> snoc by simp
qed simp

lemma norm_spec_idem: "norm_spec (norm_spec p) = norm_spec p"
proof -
  obtain t where t: "norm_spec p = join (segments p) @ t" "t = [] \<or> t = ''/''"
      "segments p = [] \<longrightarrow> t = ''/''"
    by (rule norm_spec_shape [of p]) blast
  have "t = (if segments p = [] \<or> last (norm_spec p) = CHR ''/'' then ''/'' else [])"
    using t last_join [OF _ segments_good] by auto
  with t(1) show ?thesis
    by (simp add: norm_spec_def [of "norm_spec p"] Let_def segments_norm_spec slashes_norm_spec)
qed

section \<open>Properties\<close>

text \<open>
  C8.  \<^verbatim>\<open>u_uri_normalize\<close> implements the segment-stack specification: whenever it returns
  success the input was absolute and the buffer holds \<open>norm_spec\<close> of it, and when memory is
  available it succeeds on every absolute path and on no other.
\<close>

theorem normalize_refines:
  assumes "libu_ok L"
  shows "(\<forall>r. u_uri_normalize L p = Ok r \<longrightarrow> absolute p \<and> r = norm_spec p) \<and>
         (libu_mem L \<longrightarrow> u_uri_normalize L p = (if absolute p then Ok (norm_spec p) else Fail))"
proof (intro conjI allI impI)
  fix r
  assume "u_uri_normalize L p = Ok r"
  with assms show "absolute p" "r = norm_spec p" by (blast dest: normalize_sound)+
next
  assume "libu_mem L"
  with assms show "u_uri_normalize L p = (if absolute p then Ok (norm_spec p) else Fail)"
    using normalize_total normalize_relative by presburger
qed

theorem normalize_refines_witness:
  "libu_ok libu_ref \<and> u_uri_normalize libu_ref ''/a/../b//c/'' = Ok ''/b/c/''"
proof -
  have "absolute ''/a/../b//c/''" by (simp add: absolute_def slashes_def)
  moreover have "norm_spec ''/a/../b//c/'' = ''/b/c/''"
    by (simp add: norm_spec_def segments_def slashes_def push_segment_def)
  moreover have "u_uri_normalize libu_ref ''/a/../b//c/'' =
      (if absolute ''/a/../b//c/'' then Ok (norm_spec ''/a/../b//c/'') else Fail)"
    using normalize_refines [OF libu_ref_ok, of "''/a/../b//c/''"] libu_ref_mem by blast
  ultimately show ?thesis by (simp only: libu_ref_ok if_True simp_thms)
qed

text \<open>
  C21.  No traversal survives normalisation: a normalised path starts with a slash, its
  slash-separated segments are never empty, a dot or a double dot, no backslash is left, and
  it is no longer than the buffer it is copied back into.
\<close>

theorem normalize_safe:
  assumes "libu_ok L" and "u_uri_normalize L p = Ok r"
  shows "hd r = CHR ''/'' \<and> r \<noteq> [] \<and> CHR 0x5C \<notin> set r \<and> length r \<le> length p \<and>
         ''.'' \<notin> set (strtok_all ''/'' r) \<and> ''..'' \<notin> set (strtok_all ''/'' r) \<and>
         (\<exists>t. r = join (strtok_all ''/'' r) @ t \<and> (t = [] \<or> t = ''/''))"
proof -
  from normalize_sound [OF assms] have r: "r = norm_spec p" and abs: "absolute p" by simp_all
  obtain t where t: "norm_spec p = join (segments p) @ t" "t = [] \<or> t = ''/''"
    by (rule norm_spec_shape [of p])
  have "''.'' \<notin> set (segments p) \<and> ''..'' \<notin> set (segments p)"
    using segments_good [of p] by (auto simp: good_segment_def)
  then show ?thesis
    unfolding r strtok_norm_spec
    using t hd_norm_spec [of p] norm_spec_no_backslash [of p] length_norm_spec [OF abs] by blast
qed

theorem normalize_safe_witness:
  "libu_ok libu_ref \<and> u_uri_normalize libu_ref ''/x/..'' = Ok ''/'' \<and> length ''/'' \<le> length ''/x/..'' \<and>
   ''..'' \<notin> set (strtok_all ''/'' ''/'')"
proof -
  have h: "u_uri_normalize libu_ref ''/x/..'' = Ok ''/''"
    by (simp add: u_uri_normalize_def slashes_def libu_ref_def Let_def)
  show ?thesis using h libu_ref_ok normalize_safe [OF libu_ref_ok h] by blast
qed

text \<open>
  Normalisation is idempotent: a normalised path is left as it is.
\<close>

theorem normalize_idempotent:
  assumes "libu_ok L" and "libu_mem L" and "u_uri_normalize L p = Ok r"
  shows "u_uri_normalize L r = Ok r"
proof -
  from normalize_sound [OF assms(1,3)] have r: "r = norm_spec p" by simp
  show ?thesis
    using normalize_total [OF assms(1,2) absolute_norm_spec [of p]] by (simp add: r norm_spec_idem)
qed

theorem normalize_idempotent_witness:
  "libu_ok libu_ref \<and> libu_mem libu_ref \<and> u_uri_normalize libu_ref ''/x/..'' = Ok ''/'' \<and>
   u_uri_normalize libu_ref ''/'' = Ok ''/''"
proof -
  have h: "u_uri_normalize libu_ref ''/x/..'' = Ok ''/''"
    by (simp add: u_uri_normalize_def slashes_def libu_ref_def Let_def)
  show ?thesis using h normalize_idempotent [OF libu_ref_ok libu_ref_mem h] by simp
qed

end
