(* ===== verification/Ppc.thy ===== *)
theory Ppc
  imports Libu
begin

text \<open>
  \<^verbatim>\<open>src/kloned/ppc.c\<close>: parent procedure calls, the framed messages a child process sends
  to its parent over a socket pair, and \<^verbatim>\<open>server_process_ppc\<close> of
  \<^verbatim>\<open>src/kloned/server.c\<close>, the parent's side.  A descriptor is a \<open>chan\<close>: the bytes in
  flight, how often the next call is interrupted by a signal first, whether it fails, and how
  many bytes each of the next calls moves at most.  A \<^verbatim>\<open>read\<close> returns what is there, up to
  the requested size and that limit; a \<^verbatim>\<open>write\<close> appends what the limit lets through.  The
  limits are what makes a transfer short: the code of \<^verbatim>\<open>ppc.c\<close> calls \<^verbatim>\<open>read\<close> and
  \<^verbatim>\<open>write\<close> once each and does not go on with the rest.
\<close>

section \<open>Definitions\<close>

record chan =
  eintr :: nat
  broken :: bool
  limits :: "nat list"
  bytes :: "char list"

datatype io_ret = Ret_eintr | Ret_err | Ret_bytes "char list"

text \<open>A call that moves bytes uses up the next limit; it moves at least one byte if it can.\<close>

definition moved :: "nat \<Rightarrow> chan \<Rightarrow> nat" where
  "moved n c = (case limits c of [] \<Rightarrow> n | q # _ \<Rightarrow> min n (max 1 q))"

definition os_read :: "nat \<Rightarrow> chan \<Rightarrow> io_ret \<times> chan" where
  "os_read n c =
     (if 0 < eintr c then (Ret_eintr, c\<lparr>eintr := eintr c - 1\<rparr>)
      else if broken c then (Ret_err, c)
      else (Ret_bytes (take (moved n c) (bytes c)),
            c\<lparr>limits := tl (limits c), bytes := drop (moved n c) (bytes c)\<rparr>))"

definition os_write :: "char list \<Rightarrow> chan \<Rightarrow> io_ret \<times> chan" where
  "os_write d c =
     (if 0 < eintr c then (Ret_eintr, c\<lparr>eintr := eintr c - 1\<rparr>)
      else if broken c then (Ret_err, c)
      else (Ret_bytes (take (moved (length d) c) d),
            c\<lparr>limits := tl (limits c), bytes := bytes c @ take (moved (length d) c) d\<rparr>))"

text \<open>\<^verbatim>\<open>if(n < 0 && errno == EINTR) goto again;\<close>\<close>

function ppc_do_read :: "nat \<Rightarrow> chan \<Rightarrow> io_ret \<times> chan" where
  "ppc_do_read n c =
     (case os_read n c of (Ret_eintr, c') \<Rightarrow> ppc_do_read n c' | (r, c') \<Rightarrow> (r, c'))"
  by pat_completeness auto
termination
  by (relation "measure (\<lambda>(n, c). eintr c)") (auto simp: os_read_def split: if_splits)

function ppc_do_write :: "char list \<Rightarrow> chan \<Rightarrow> io_ret \<times> chan" where
  "ppc_do_write d c =
     (case os_write d c of (Ret_eintr, c') \<Rightarrow> ppc_do_write d c' | (r, c') \<Rightarrow> (r, c'))"
  by pat_completeness auto
termination
  by (relation "measure (\<lambda>(d, c). eintr c)") (auto simp: os_write_def split: if_splits)

declare ppc_do_read.simps [simp del] ppc_do_write.simps [simp del]

definition PPC_MAX_DATA_SIZE :: nat where
  "PPC_MAX_DATA_SIZE = 8192"

text \<open>
  \<^verbatim>\<open>ppc_header_t\<close> in memory: the command byte, seven bytes of padding cleared by
  \<^verbatim>\<open>memset\<close>, and the size as a little-endian 64-bit number.
\<close>

fun le_bytes :: "nat \<Rightarrow> nat \<Rightarrow> char list" where
  "le_bytes 0 n = []"
| "le_bytes (Suc k) n = chr (n mod 256) # le_bytes k (n div 256)"

fun le_value :: "char list \<Rightarrow> nat" where
  "le_value [] = 0"
| "le_value (c # cs) = ord c + 256 * le_value cs"

definition HEADER_SIZE :: nat where
  "HEADER_SIZE = 16"

definition ppc_header :: "nat \<Rightarrow> nat \<Rightarrow> char list" where
  "ppc_header cmd sz = chr cmd # replicate 7 NUL @ le_bytes 8 sz"

definition ppc_write :: "nat \<Rightarrow> char list \<Rightarrow> chan \<Rightarrow> int \<times> chan" where
  "ppc_write cmd data c =
     (case ppc_do_write (ppc_header cmd (length data)) c of
        (Ret_bytes h, c1) \<Rightarrow>
          if h = [] then (0, c1)
          else (case ppc_do_write data c1 of
                  (Ret_bytes d, c2) \<Rightarrow> if d = [] then (0, c2) else (1, c2)
                | (_, c2) \<Rightarrow> (-1, c2))
      | (_, c1) \<Rightarrow> (-1, c1))"

text \<open>
  What \<^verbatim>\<open>ppc_read\<close> delivers: a message (command, the bytes read, the size it returns), end
  of file, an error, or a header cut short, whose missing bytes the code would use
  uninitialised.  The size returned is the one the header announces, also when the
  \<^verbatim>\<open>read\<close> of the data was short.
\<close>

datatype ppc_in = Ppc_msg nat "char list" nat | Ppc_eof | Ppc_err | Ppc_short_header

definition ppc_read :: "nat \<Rightarrow> chan \<Rightarrow> ppc_in \<times> chan" where
  "ppc_read sz c =
     (case ppc_do_read HEADER_SIZE c of
        (Ret_bytes h, c1) \<Rightarrow>
          if h = [] then (Ppc_eof, c1)
          else if length h < HEADER_SIZE then (Ppc_short_header, c1)
          else
            let hcmd = ord (h ! 0); hsize = le_value (drop 8 h) in
            if hsize > sz \<or> hsize > PPC_MAX_DATA_SIZE then (Ppc_err, c1)
            else (case ppc_do_read hsize c1 of
                    (Ret_bytes d, c2) \<Rightarrow> if d = [] then (Ppc_eof, c2) else (Ppc_msg hcmd d hsize, c2)
                  | (_, c2) \<Rightarrow> (Ppc_err, c2))
      | (_, c1) \<Rightarrow> (Ppc_err, c1))"

subsection \<open>Dispatching\<close>

text \<open>
  A callback changes the state \<open>'s\<close> it was registered with and may write to the channel the
  request came from; its own return value is ignored by \<^verbatim>\<open>ppc_dispatch\<close>.
\<close>

type_synonym 's ppc_cb = "char list \<Rightarrow> 's \<times> chan \<Rightarrow> 's \<times> chan"

record 's ppc =
  ftb :: "nat \<Rightarrow> 's ppc_cb option"

definition ppc_create :: "'s ppc" where
  "ppc_create = \<lparr>ftb = (\<lambda>_. None)\<rparr>"

definition ppc_register :: "'s ppc \<Rightarrow> nat \<Rightarrow> 's ppc_cb \<Rightarrow> 's ppc" where
  "ppc_register p cmd cb = p\<lparr>ftb := (ftb p)(cmd := Some cb)\<rparr>"

definition ppc_dispatch :: "'s ppc \<Rightarrow> nat \<Rightarrow> char list \<Rightarrow> 's \<times> chan \<Rightarrow> ('s \<times> chan) outcome" where
  "ppc_dispatch p cmd data st =
     (case ftb p cmd of None \<Rightarrow> Fail | Some cb \<Rightarrow> Ok (cb data st))"

text \<open>
  The parent handles one readable descriptor; the flag says whether it closes it.  The callback
  is told the announced size, so a message cut short makes it read bytes of the stack buffer
  that were never written.
\<close>

definition server_process_ppc :: "'s ppc \<Rightarrow> 's \<times> chan \<Rightarrow> ('s \<times> chan \<times> bool) outcome" where
  "server_process_ppc p st =
     (case ppc_read PPC_MAX_DATA_SIZE (snd st) of
        (Ppc_msg cmd data n, c) \<Rightarrow>
          if length data < n then Fault
          else (case ppc_dispatch p cmd data (fst st, c) of
             Ok (s', c') \<Rightarrow> Ok (s', c', False) | Fail \<Rightarrow> Fail | Fault \<Rightarrow> Fault)
      | (Ppc_short_header, c) \<Rightarrow> Fault
      | (_, c) \<Rightarrow> Ok (fst st, c, True))"

section \<open>Lemmas\<close>

lemma le_value_le_bytes: "n < 256 ^ k \<Longrightarrow> le_value (le_bytes k n) = n"
proof (induction k arbitrary: n)
  case (Suc k)
  then have "n div 256 < 256 ^ k" by (simp add: less_mult_imp_div_less mult.commute)
  with Suc.IH show ?case by simp
qed simp

lemma length_le_bytes [simp]: "length (le_bytes k n) = k"
  by (induction k arbitrary: n) simp_all

lemma length_ppc_header [simp]: "length (ppc_header cmd sz) = HEADER_SIZE"
  by (simp add: ppc_header_def HEADER_SIZE_def)

lemma ppc_header_fields:
  assumes "cmd < 256" "sz < 256 ^ 8"
  shows "ord (ppc_header cmd sz ! 0) = cmd" "le_value (drop 8 (ppc_header cmd sz)) = sz"
  using assms le_value_le_bytes [of sz 8] by (simp_all add: ppc_header_def)

lemma ppc_do_read_eq:
  "ppc_do_read n c =
     (if broken c then (Ret_err, c\<lparr>eintr := 0\<rparr>)
      else (Ret_bytes (take (moved n c) (bytes c)),
            c\<lparr>eintr := 0, limits := tl (limits c), bytes := drop (moved n c) (bytes c)\<rparr>))"
proof (induction n c rule: ppc_do_read.induct)
  case (1 n c)
  show ?case
  proof (cases "0 < eintr c")
    case True
    then show ?thesis
      using 1 [OF _ refl, of "c\<lparr>eintr := eintr c - 1\<rparr>"]
      by (subst ppc_do_read.simps) (simp add: os_read_def moved_def)
  next
    case False
    then have "c\<lparr>eintr := 0\<rparr> = c" by (cases c) simp
    with False show ?thesis by (subst ppc_do_read.simps) (simp add: os_read_def)
  qed
qed

lemma ppc_do_write_eq:
  "ppc_do_write d c =
     (if broken c then (Ret_err, c\<lparr>eintr := 0\<rparr>)
      else (Ret_bytes (take (moved (length d) c) d),
            c\<lparr>eintr := 0, limits := tl (limits c), bytes := bytes c @ take (moved (length d) c) d\<rparr>))"
proof (induction d c rule: ppc_do_write.induct)
  case (1 d c)
  show ?case
  proof (cases "0 < eintr c")
    case True
    then show ?thesis
      using 1 [OF _ refl, of "c\<lparr>eintr := eintr c - 1\<rparr>"]
      by (subst ppc_do_write.simps) (simp add: os_write_def moved_def)
  next
    case False
    then have "c\<lparr>eintr := 0\<rparr> = c" by (cases c) simp
    with False show ?thesis by (subst ppc_do_write.simps) (simp add: os_write_def)
  qed
qed

definition frame :: "nat \<times> char list \<Rightarrow> char list" where
  "frame m = ppc_header (fst m) (length (snd m)) @ snd m"

definition sendable :: "nat \<Rightarrow> nat \<times> char list \<Rightarrow> bool" where
  "sendable sz m \<longleftrightarrow> fst m < 256 \<and> snd m \<noteq> [] \<and> length (snd m) \<le> sz \<and> length (snd m) \<le> PPC_MAX_DATA_SIZE"

text \<open>No call is short: every limit leaves room for the largest message.\<close>

definition unlimited :: "chan \<Rightarrow> bool" where
  "unlimited c \<longleftrightarrow> (\<forall>q \<in> set (limits c). PPC_MAX_DATA_SIZE \<le> q)"

lemma moved_all: "unlimited c \<Longrightarrow> n \<le> PPC_MAX_DATA_SIZE \<Longrightarrow> moved n c = n"
  by (cases "limits c") (auto simp: moved_def unlimited_def)

lemma unlimited_tl:
  "unlimited c \<Longrightarrow> set (limits d) \<subseteq> set (limits c) \<Longrightarrow> unlimited d"
  by (auto simp: unlimited_def)

lemma set_tl: "set (tl xs) \<subseteq> set xs"
  by (cases xs) auto

lemma HEADER_SIZE_max: "HEADER_SIZE \<le> PPC_MAX_DATA_SIZE"
  by (simp add: HEADER_SIZE_def PPC_MAX_DATA_SIZE_def)

lemma header_ne: "ppc_header cmd sz \<noteq> []"
  by (simp add: ppc_header_def)

lemma ppc_write_frame:
  assumes "\<not> broken c" "data \<noteq> []" "length data \<le> PPC_MAX_DATA_SIZE" "unlimited c"
  shows "ppc_write cmd data c
           = (1, c\<lparr>eintr := 0, limits := drop 2 (limits c), bytes := bytes c @ frame (cmd, data)\<rparr>)"
proof -
  let ?h = "ppc_header cmd (length data)"
  let ?c1 = "c\<lparr>eintr := 0, limits := tl (limits c), bytes := bytes c @ ?h\<rparr>"
  have "unlimited ?c1" using unlimited_tl [OF assms(4), of ?c1] set_tl [of "limits c"] by simp
  then have "moved (length data) ?c1 = length data" using assms(3) by (rule moved_all)
  moreover have "moved (length ?h) c = length ?h" using assms(4) HEADER_SIZE_max by (simp add: moved_all)
  ultimately show ?thesis
    using assms(1,2) by (simp add: ppc_write_def ppc_do_write_eq header_ne frame_def drop_Suc eval_nat_numeral)
qed

lemma header_split:
  assumes "bytes c = frame m @ rest"
  shows "take HEADER_SIZE (bytes c) = ppc_header (fst m) (length (snd m))"
    and "drop HEADER_SIZE (bytes c) = snd m @ rest"
  using assms by (simp_all add: frame_def)

text \<open>A header that is read whole: what remains is one \<^verbatim>\<open>read\<close> of the announced size.\<close>

lemma ppc_read_after_header:
  assumes "\<not> broken c" "sendable sz m" "bytes c = frame m @ rest" "moved HEADER_SIZE c = HEADER_SIZE"
  defines "c1 \<equiv> c\<lparr>eintr := 0, limits := tl (limits c), bytes := snd m @ rest\<rparr>"
  shows "ppc_read sz c =
           (let k = moved (length (snd m)) c1 in
            (Ppc_msg (fst m) (take k (snd m)) (length (snd m)),
             c\<lparr>eintr := 0, limits := drop 2 (limits c), bytes := drop k (snd m) @ rest\<rparr>))"
proof -
  have small: "length (snd m) < 256 ^ 8" using assms(2) by (simp add: sendable_def PPC_MAX_DATA_SIZE_def)
  have k: "moved (length (snd m)) c1 \<le> length (snd m)" "0 < moved (length (snd m)) c1"
    using assms(2) by (auto simp: moved_def sendable_def split: list.splits)
  then have "take (moved (length (snd m)) c1) (snd m) \<noteq> []" using assms(2) by (simp add: sendable_def)
  with k(1) show ?thesis
    using assms(1,2,4) ppc_header_fields [OF _ small, of "fst m"] header_ne [of "fst m" "length (snd m)"]
    by (simp add: ppc_read_def ppc_do_read_eq header_split [OF assms(3)] Let_def sendable_def c1_def
        drop_Suc eval_nat_numeral)
qed

lemma ppc_read_frame:
  assumes "\<not> broken c" "sendable sz m" "bytes c = frame m @ rest" "unlimited c"
  shows "ppc_read sz c = (Ppc_msg (fst m) (snd m) (length (snd m)),
                          c\<lparr>eintr := 0, limits := drop 2 (limits c), bytes := rest\<rparr>)"
proof -
  let ?c1 = "c\<lparr>eintr := 0, limits := tl (limits c), bytes := snd m @ rest\<rparr>"
  have "unlimited ?c1" using unlimited_tl [OF assms(4), of ?c1] set_tl [of "limits c"] by simp
  then have "moved (length (snd m)) ?c1 = length (snd m)"
    using assms(2) by (intro moved_all) (simp_all add: sendable_def)
  moreover have "moved HEADER_SIZE c = HEADER_SIZE" using assms(4) HEADER_SIZE_max by (rule moved_all)
  ultimately show ?thesis using ppc_read_after_header [OF assms(1-3)] by (simp add: Let_def)
qed

text \<open>Sending a list of messages, and receiving up to \<open>n\<close> of them.\<close>

fun send_all :: "(nat \<times> char list) list \<Rightarrow> chan \<Rightarrow> chan" where
  "send_all [] c = c"
| "send_all (m # ms) c = send_all ms (snd (ppc_write (fst m) (snd m) c))"

fun recv_all :: "nat \<Rightarrow> nat \<Rightarrow> chan \<Rightarrow> (nat \<times> char list) list \<times> chan" where
  "recv_all 0 sz c = ([], c)"
| "recv_all (Suc n) sz c =
     (case ppc_read sz c of
        (Ppc_msg cmd d k, c') \<Rightarrow> (let (ms, c'') = recv_all n sz c' in ((cmd, d) # ms, c''))
      | (_, c') \<Rightarrow> ([], c'))"

lemma unlimited_drop: "unlimited c \<Longrightarrow> limits d = drop k (limits c) \<Longrightarrow> unlimited d"
  using set_drop_subset [of k "limits c"] by (auto simp: unlimited_def)

lemma send_all_frames:
  "\<not> broken c \<Longrightarrow> unlimited c \<Longrightarrow> \<forall>m \<in> set ms. sendable sz m \<Longrightarrow>
   bytes (send_all ms c) = bytes c @ concat (map frame ms) \<and> \<not> broken (send_all ms c)"
proof (induction ms arbitrary: c)
  case (Cons m ms)
  let ?c = "c\<lparr>eintr := 0, limits := drop 2 (limits c), bytes := bytes c @ frame m\<rparr>"
  have "snd (ppc_write (fst m) (snd m) c) = ?c"
    using Cons.prems ppc_write_frame [of c "snd m" "fst m"] by (simp add: sendable_def)
  then show ?case
    using Cons.prems Cons.IH [of ?c] unlimited_drop [of c ?c 2] by simp
qed simp

lemma recv_all_frames:
  "\<not> broken c \<Longrightarrow> unlimited c \<Longrightarrow> \<forall>m \<in> set ms. sendable sz m \<Longrightarrow> bytes c = concat (map frame ms) @ rest \<Longrightarrow>
   fst (recv_all (length ms) sz c) = ms \<and> bytes (snd (recv_all (length ms) sz c)) = rest"
proof (induction ms arbitrary: c)
  case (Cons m ms)
  let ?c = "c\<lparr>eintr := 0, limits := drop 2 (limits c), bytes := concat (map frame ms) @ rest\<rparr>"
  have "ppc_read sz c = (Ppc_msg (fst m) (snd m) (length (snd m)), ?c)"
    using Cons.prems by (intro ppc_read_frame) auto
  moreover have "fst (recv_all (length ms) sz ?c) = ms \<and> bytes (snd (recv_all (length ms) sz ?c)) = rest"
    using Cons.prems unlimited_drop [of c ?c 2] by (intro Cons.IH) auto
  ultimately show ?case by (simp add: case_prod_beta)
qed simp

section \<open>Properties\<close>

text \<open>
  C24.  Parent procedure calls are delivered in order and intact, as long as no call of
  \<^verbatim>\<open>read\<close> or \<^verbatim>\<open>write\<close> is short: if the messages sent are not empty and all fit the
  receiver's buffer and the protocol limit, and every call can move the largest message at
  once, reading as many messages as were written returns exactly them, whatever interruptions
  occur on either side.  The code does not go on after a short transfer; what happens then is
  shown by \<open>ppc_short_transfer\<close>.
\<close>

theorem ppc_fifo:
  assumes "\<not> broken c" and "unlimited c" and "bytes c = []" and "\<forall>m \<in> set ms. sendable sz m"
    and "\<forall>q \<in> set qs. PPC_MAX_DATA_SIZE \<le> q"
  shows "fst (recv_all (length ms) sz ((send_all ms c)\<lparr>eintr := k, limits := qs\<rparr>)) = ms \<and>
         bytes (snd (recv_all (length ms) sz ((send_all ms c)\<lparr>eintr := k, limits := qs\<rparr>))) = []"
proof -
  have "bytes (send_all ms c) = concat (map frame ms)" "\<not> broken (send_all ms c)"
    using send_all_frames [OF assms(1,2,4)] assms(3) by simp_all
  then show ?thesis
    using assms(4,5) by (intro recv_all_frames) (simp_all add: unlimited_def)
qed

theorem ppc_fifo_witness:
  "unlimited \<lparr>eintr = 2, broken = False, limits = [9000], bytes = []\<rparr> \<and>
   fst (recv_all (length [(5::nat, ''abc''), (7, ''x'')]) 4096
     ((send_all [(5, ''abc''), (7, ''x'')] \<lparr>eintr = 2, broken = False, limits = [9000], bytes = []\<rparr>)
        \<lparr>eintr := 1, limits := [8192, 10000]\<rparr>))
     = [(5, ''abc''), (7, ''x'')]"
proof -
  let ?c = "\<lparr>eintr = 2, broken = False, limits = [9000], bytes = []\<rparr>"
  have h: "\<not> broken ?c" "unlimited ?c" "bytes ?c = []"
    "\<forall>m \<in> set [(5, ''abc''), (7, ''x'')]. sendable 4096 m" "\<forall>q \<in> set [8192, 10000]. PPC_MAX_DATA_SIZE \<le> q"
    by (simp_all add: sendable_def unlimited_def PPC_MAX_DATA_SIZE_def)
  show ?thesis using h(2) ppc_fifo [OF h, of 1] by blast
qed

text \<open>
  A short transfer loses the framing and nobody is told.  When the second \<^verbatim>\<open>write\<close> of a
  call moves only \<open>q\<close> bytes of the data, \<^verbatim>\<open>ppc_write\<close> reports success although the rest was
  never sent; when the second \<^verbatim>\<open>read\<close> moves only \<open>q\<close> bytes, \<^verbatim>\<open>ppc_read\<close> returns the whole
  announced size, the rest of the message stays in front of the next header, and the parent
  calls the handler with bytes of its buffer that were never written.
\<close>

theorem ppc_short_transfer:
  assumes "\<not> broken c" and "sendable PPC_MAX_DATA_SIZE (cmd, data)"
    and "limits c = h # q # qs" and "HEADER_SIZE \<le> h" and "0 < q" and "q < length data"
  shows "ppc_write cmd data c = (1, c\<lparr>eintr := 0, limits := qs,
             bytes := bytes c @ ppc_header cmd (length data) @ take q data\<rparr>) \<and>
         (bytes c = frame (cmd, data) @ rest \<longrightarrow>
          ppc_read PPC_MAX_DATA_SIZE c =
            (Ppc_msg cmd (take q data) (length data), c\<lparr>eintr := 0, limits := qs, bytes := drop q data @ rest\<rparr>) \<and>
          server_process_ppc p (s, c) = Fault)"
proof (intro conjI impI)
  have h: "moved HEADER_SIZE c = HEADER_SIZE" using assms(3,4) by (simp add: moved_def HEADER_SIZE_def)
  have ne: "data \<noteq> []" using assms(6) by auto
  show "ppc_write cmd data c = (1, c\<lparr>eintr := 0, limits := qs,
             bytes := bytes c @ ppc_header cmd (length data) @ take q data\<rparr>)"
    using assms ne h by (simp add: ppc_write_def ppc_do_write_eq header_ne moved_def)
  assume b: "bytes c = frame (cmd, data) @ rest"
  show r: "ppc_read PPC_MAX_DATA_SIZE c =
           (Ppc_msg cmd (take q data) (length data), c\<lparr>eintr := 0, limits := qs, bytes := drop q data @ rest\<rparr>)"
    using ppc_read_after_header [OF assms(1,2) b h] assms(3,5,6) by (simp add: moved_def Let_def eval_nat_numeral)
  show "server_process_ppc p (s, c) = Fault"
    using assms(6) r by (simp add: server_process_ppc_def)
qed

theorem ppc_short_transfer_witness:
  "ppc_read PPC_MAX_DATA_SIZE \<lparr>eintr = 0, broken = False, limits = [16, 1], bytes = frame (5, ''abc'')\<rparr>
     = (Ppc_msg 5 ''a'' 3, \<lparr>eintr = 0, broken = False, limits = [], bytes = ''bc''\<rparr>)"
proof -
  let ?c = "\<lparr>eintr = 0, broken = False, limits = [16, 1], bytes = frame (5, ''abc'')\<rparr>"
  have h: "\<not> broken ?c" "sendable PPC_MAX_DATA_SIZE (5, ''abc'')" "limits ?c = 16 # 1 # []" "HEADER_SIZE \<le> 16"
    "(0::nat) < 1" "1 < length ''abc''"
    by (simp_all add: sendable_def PPC_MAX_DATA_SIZE_def HEADER_SIZE_def)
  show ?thesis using ppc_short_transfer [OF h(1-6), of "[]" ppc_create "()"] by simp
qed

text \<open>
  An oversized request is refused without being consumed: the receiver reports an error
  and leaves the payload in the channel, so the parent must (and does) close the descriptor,
  leaving its own state untouched.
\<close>

theorem ppc_oversized:
  assumes "\<not> broken c" and "cmd < 256" and "PPC_MAX_DATA_SIZE < length data" and "length data < 256 ^ 8"
    and "bytes c = frame (cmd, data)" and "moved HEADER_SIZE c = HEADER_SIZE"
  shows "ppc_read PPC_MAX_DATA_SIZE c = (Ppc_err, c\<lparr>eintr := 0, limits := tl (limits c), bytes := data\<rparr>) \<and>
         server_process_ppc p (s, c) = Ok (s, c\<lparr>eintr := 0, limits := tl (limits c), bytes := data\<rparr>, True)"
proof -
  have "ppc_read PPC_MAX_DATA_SIZE c = (Ppc_err, c\<lparr>eintr := 0, limits := tl (limits c), bytes := data\<rparr>)"
    using assms(1-4,6) ppc_header_fields [of cmd "length data"] header_ne [of cmd "length data"]
      header_split [of c "(cmd, data)" "[]"] assms(5)
    by (simp add: ppc_read_def ppc_do_read_eq Let_def)
  then show ?thesis by (simp add: server_process_ppc_def)
qed

theorem ppc_oversized_witness:
  "ppc_read PPC_MAX_DATA_SIZE \<lparr>eintr = 0, broken = False, limits = [], bytes = frame (5, replicate 8193 (CHR ''x''))\<rparr>
     = (Ppc_err, \<lparr>eintr = 0, broken = False, limits = [], bytes = replicate 8193 (CHR ''x'')\<rparr>)"
proof -
  let ?c = "\<lparr>eintr = 0, broken = False, limits = [], bytes = frame (5, replicate 8193 (CHR ''x''))\<rparr>"
  have "ppc_read PPC_MAX_DATA_SIZE ?c = (Ppc_err, ?c\<lparr>eintr := 0, limits := [], bytes := replicate 8193 (CHR ''x'')\<rparr>)"
    using ppc_oversized [of ?c 5 "replicate 8193 (CHR ''x'')" ppc_create "()"]
    by (simp add: PPC_MAX_DATA_SIZE_def moved_def)
  then show ?thesis by simp
qed

end
