(* ===== verification/Timer.thy ===== *)
theory Timer
  imports Libu "HOL-Library.Multiset"
begin

text \<open>
  \<^verbatim>\<open>src/libutils/timer.c\<close> (the \<^verbatim>\<open>OS_UNIX\<close> build): one \<^verbatim>\<open>SIGALRM\<close> multiplexed over a
  list of alarms kept in order of expiry.  The state adds to \<^verbatim>\<open>timerm_t\<close> what
  \<^verbatim>\<open>alarm(2)\<close> keeps in the kernel, the instant of the pending signal.  An alarm is the
  address of a \<^verbatim>\<open>talarm_t\<close> with its contents.  A callback is a function on the timer's
  state, since callbacks re-enter the timer.  The process environment gives the results of
  \<^verbatim>\<open>getpid\<close> and of LibU's \<^verbatim>\<open>u_sig_block\<close>, \<^verbatim>\<open>u_sig_unblock\<close> and
  \<^verbatim>\<open>u_signal\<close>; each function takes the instants its calls of \<^verbatim>\<open>time(0)\<close> return.
\<close>

section \<open>Definitions\<close>

record talarm =
  al_addr :: addr
  expire :: nat
  cb :: nat
  al_arg :: nat
  owner :: nat

record timerm =
  alist :: "talarm list"
  next_at :: nat
  cb_running :: bool
  os_alarm :: "nat option"
  fired :: "addr list"

record tenv =
  pid :: nat
  sig_block :: bool
  sig_unblock :: bool
  sig_handler :: bool

text \<open>\<^verbatim>\<open>fired\<close> records the callbacks run, oldest first.\<close>

definition timerm_set_alarm :: "nat \<Rightarrow> nat \<Rightarrow> timerm \<Rightarrow> timerm" where
  "timerm_set_alarm now timeout t =
     (let n = now + timeout in
      if timeout \<noteq> 0 \<and> (next_at t = 0 \<or> n < next_at t)
      then t\<lparr>next_at := n, os_alarm := Some (now + timeout)\<rparr> else t)"

definition timerm_set_next :: "nat \<Rightarrow> timerm \<Rightarrow> timerm" where
  "timerm_set_next now t =
     (case alist t of [] \<Rightarrow> t | al # _ \<Rightarrow> timerm_set_alarm now (max 1 (expire al - now)) t)"

type_synonym callbacks = "nat \<Rightarrow> talarm \<Rightarrow> timerm \<Rightarrow> timerm"

text \<open>The \<^verbatim>\<open>for(;;)\<close> of \<^verbatim>\<open>timerm_sigalrm\<close>: \<open>None\<close> when callbacks keep it running forever.\<close>

partial_function (option) sigalrm_loop :: "tenv \<Rightarrow> callbacks \<Rightarrow> nat \<Rightarrow> timerm \<Rightarrow> timerm option" where
  "sigalrm_loop E cbs now t =
     (case alist t of
        [] \<Rightarrow> Some t
      | al # rest \<Rightarrow>
          (if owner al \<noteq> pid E then sigalrm_loop E cbs now (t\<lparr>alist := rest\<rparr>)
           else if now < expire al then Some t
           else sigalrm_loop E cbs now
             ((cbs (cb al) al (t\<lparr>alist := rest, cb_running := True, fired := fired t @ [al_addr al]\<rparr>))
                \<lparr>cb_running := False\<rparr>)))"

definition timerm_sigalrm :: "tenv \<Rightarrow> callbacks \<Rightarrow> nat \<Rightarrow> nat \<Rightarrow> timerm option \<Rightarrow> timerm option option" where
  "timerm_sigalrm E cbs now now' timer =
     (case timer of
        None \<Rightarrow> Some None
      | Some t \<Rightarrow>
          map_option (\<lambda>t'. Some (if alist t' = [] then t' else timerm_set_next now' t'))
            (sigalrm_loop E cbs now (t\<lparr>next_at := 0, os_alarm := None\<rparr>)))"

text \<open>Blocking is skipped inside a callback, where the signal is already being handled.\<close>

definition timerm_block_alarms :: "tenv \<Rightarrow> timerm \<Rightarrow> bool" where
  "timerm_block_alarms E t \<longleftrightarrow> cb_running t \<or> sig_block E"

definition timerm_unblock_alarms :: "tenv \<Rightarrow> timerm \<Rightarrow> bool" where
  "timerm_unblock_alarms E t \<longleftrightarrow> cb_running t \<or> sig_unblock E"

definition timerm_alarm_pending :: "talarm \<Rightarrow> timerm \<Rightarrow> bool" where
  "timerm_alarm_pending a t \<longleftrightarrow> al_addr a \<in> set (map al_addr (alist t))"

text \<open>
  \<^verbatim>\<open>timerm_del\<close>: its error label retries \<^verbatim>\<open>timerm_unblock_alarms\<close> until it
  succeeds, so it does not return when that always fails (\<open>None\<close>).
\<close>

definition timerm_del :: "tenv \<Rightarrow> nat \<Rightarrow> talarm \<Rightarrow> timerm \<Rightarrow> timerm step option" where
  "timerm_del E now a t =
     (if \<not> timerm_block_alarms E t
      then (if timerm_unblock_alarms E t then Some (Failed t) else None)
      else
        (let t1 = (if timerm_alarm_pending a t
                   then t\<lparr>alist := filter (\<lambda>b. al_addr b \<noteq> al_addr a) (alist t)\<rparr> else t);
             t2 = timerm_set_next now t1
         in if timerm_unblock_alarms E t2 then Some (Done t2) else None))"

text \<open>\<^verbatim>\<open>timerm_free\<close> deletes the first alarm until none is left.\<close>

partial_function (option) timerm_free :: "tenv \<Rightarrow> nat \<Rightarrow> timerm \<Rightarrow> timerm option" where
  "timerm_free E now t =
     (case alist t of
        [] \<Rightarrow> Some t
      | a # _ \<Rightarrow>
          (case timerm_del E now a t of
             None \<Rightarrow> None
           | Some (Done t') \<Rightarrow> timerm_free E now t'
           | Some (Failed t') \<Rightarrow> timerm_free E now t'
           | Some Crash \<Rightarrow> None))"

definition timerm_create :: "libu \<Rightarrow> timerm option" where
  "timerm_create L =
     (if u_malloc L 32
      then Some \<lparr>alist = [], next_at = 0, cb_running = False, os_alarm = None, fired = []\<rparr>
      else None)"

fun insert_alarm :: "talarm \<Rightarrow> talarm list \<Rightarrow> talarm list" where
  "insert_alarm al [] = [al]"
| "insert_alarm al (item # items) =
     (if expire al < expire item then al # item # items else item # insert_alarm al items)"

text \<open>
  \<^verbatim>\<open>timerm_reschedule\<close> of an alarm that is still linked would link it twice; it is
  meant for the handler, where the alarm has been unlinked.
\<close>

definition timerm_reschedule :: "tenv \<Rightarrow> nat \<Rightarrow> talarm \<Rightarrow> nat \<Rightarrow> nat \<Rightarrow> nat \<Rightarrow> timerm \<Rightarrow> timerm step" where
  "timerm_reschedule E now al secs f a t =
     (let al' = al\<lparr>cb := f, al_arg := a, expire := now + secs\<rparr> in
      if timerm_alarm_pending al t then Crash
      else if \<not> timerm_block_alarms E t then Failed t
      else
        (let t' = timerm_set_next now (t\<lparr>alist := insert_alarm al' (alist t)\<rparr>)
         in if timerm_unblock_alarms E t' then Done t' else Failed t'))"

text \<open>
  The error label of \<^verbatim>\<open>timerm_add\<close> frees the timer, sets the global to \<^verbatim>\<open>NULL\<close> and
  then calls \<^verbatim>\<open>timerm_unblock_alarms\<close>, which reads \<^verbatim>\<open>timer->cb_running\<close>.
\<close>

definition timerm_add_err :: "tenv \<Rightarrow> nat \<Rightarrow> timerm option \<Rightarrow> timerm step option" where
  "timerm_add_err E now timer =
     (case timer of
        None \<Rightarrow> Some Crash
      | Some t \<Rightarrow> (case timerm_free E now t of None \<Rightarrow> None | Some _ \<Rightarrow> Some Crash))"

definition timerm_get :: "libu \<Rightarrow> tenv \<Rightarrow> timerm option \<Rightarrow> timerm option \<times> bool" where
  "timerm_get L E timer =
     (case timer of
        Some t \<Rightarrow> (Some t, True)
      | None \<Rightarrow> (case timerm_create L of
          None \<Rightarrow> (None, False)
        | Some t \<Rightarrow> (Some t, sig_handler E)))"

definition timerm_add :: "libu \<Rightarrow> tenv \<Rightarrow> nat \<Rightarrow> addr \<Rightarrow> nat \<Rightarrow> nat \<Rightarrow> nat \<Rightarrow> timerm option \<Rightarrow> timerm step option" where
  "timerm_add L E now p secs f a timer =
     (case timerm_get L E timer of
        (Some t, True) \<Rightarrow>
          (if u_malloc L 56
           then (case timerm_reschedule E now \<lparr>al_addr = p, expire = 0, cb = 0, al_arg = 0, owner = pid E\<rparr> secs f a t of
                   Done t' \<Rightarrow> Some (Done t')
                 | Failed t' \<Rightarrow> timerm_add_err E now (Some t')
                 | Crash \<Rightarrow> Some Crash)
           else timerm_add_err E now (Some t))
      | (timer', _) \<Rightarrow> timerm_add_err E now timer')"

text \<open>\<^verbatim>\<open>fork(2)\<close>: the child inherits the memory, but no pending \<^verbatim>\<open>alarm\<close>.\<close>

definition timer_fork :: "timerm \<Rightarrow> timerm" where
  "timer_fork t = t\<lparr>os_alarm := None\<rparr>"

section \<open>Invariants\<close>

definition alarms_sorted :: "timerm \<Rightarrow> bool" where
  "alarms_sorted t \<longleftrightarrow> sorted (map expire (alist t)) \<and> distinct (map al_addr (alist t))"

text \<open>The kernel's alarm is the one the timer believes to have set.\<close>

definition coherent :: "timerm \<Rightarrow> bool" where
  "coherent t \<longleftrightarrow> os_alarm t = (if next_at t = 0 then None else Some (next_at t))"

text \<open>A signal is pending no later than the first alarm expires (one second ahead if it already has).\<close>

definition armed :: "nat \<Rightarrow> timerm \<Rightarrow> bool" where
  "armed now t \<longleftrightarrow> alist t \<noteq> [] \<longrightarrow>
     (\<exists>d. os_alarm t = Some d \<and> d \<le> max (now + 1) (expire (hd (alist t))))"

lemma alist_set_next [simp]: "alist (timerm_set_next now t) = alist t"
  "fired (timerm_set_next now t) = fired t" "cb_running (timerm_set_next now t) = cb_running t"
  by (simp_all add: timerm_set_next_def timerm_set_alarm_def Let_def split: list.split)

lemma set_next_coherent: "coherent t \<Longrightarrow> coherent (timerm_set_next now t)"
  by (auto simp: timerm_set_next_def timerm_set_alarm_def coherent_def Let_def split: list.split)

lemma set_next_armed:
  assumes "coherent t" shows "armed now (timerm_set_next now t)"
proof (cases "alist t")
  case (Cons al rest)
  let ?n = "now + max 1 (expire al - now)"
  have n: "?n = max (now + 1) (expire al)" unfolding max_def by arith
  have t': "timerm_set_next now t =
      (if next_at t = 0 \<or> ?n < next_at t then t\<lparr>next_at := ?n, os_alarm := Some ?n\<rparr> else t)"
    using Cons by (simp add: timerm_set_next_def timerm_set_alarm_def Let_def)
  show ?thesis
  proof (cases "next_at t = 0 \<or> ?n < next_at t")
    case True
    with Cons t' n show ?thesis by (simp add: armed_def)
  next
    case False
    with assms have "os_alarm t = Some (next_at t)" "next_at t \<le> ?n" by (auto simp: coherent_def)
    with False Cons t' n show ?thesis by (auto simp: armed_def le_max_iff_disj)
  qed
qed (simp add: armed_def)

lemma set_insert_alarm: "set (insert_alarm al l) = insert al (set l)"
  by (induction l) auto

lemma mset_insert_alarm: "mset (insert_alarm al l) = add_mset al (mset l)"
  by (induction l) auto

lemma insert_alarm_split:
  "sorted (map expire l) \<Longrightarrow>
   insert_alarm al l = filter (\<lambda>b. expire b \<le> expire al) l @ al # filter (\<lambda>b. expire al < expire b) l"
proof (induction l)
  case (Cons b l)
  show ?case
  proof (cases "expire al < expire b")
    case True
    with Cons.prems have "\<forall>x \<in> set l. expire al < expire x" by auto
    with True show ?thesis by (auto simp: not_le filter_empty_conv intro: sym)
  next
    case False
    with Cons show ?thesis by simp
  qed
qed simp

lemma insert_alarm_sorted: "sorted (map expire l) \<Longrightarrow> sorted (map expire (insert_alarm al l))"
  by (induction l) (auto simp: set_insert_alarm)

lemma distinct_insert_alarm:
  "distinct (map al_addr (insert_alarm al l)) \<longleftrightarrow> al_addr al \<notin> al_addr ` set l \<and> distinct (map al_addr l)"
  by (induction l) (auto simp: set_insert_alarm)

lemma filter_insert_alarm: "\<not> P al \<Longrightarrow> filter P (insert_alarm al l) = filter P l"
  by (induction l) auto

text \<open>Alarms the handler takes off the list: those of another process and those that expired.\<close>

definition stale :: "tenv \<Rightarrow> nat \<Rightarrow> talarm \<Rightarrow> bool" where
  "stale E now a \<longleftrightarrow> owner a \<noteq> pid E \<or> expire a \<le> now"

definition due :: "tenv \<Rightarrow> nat \<Rightarrow> talarm \<Rightarrow> bool" where
  "due E now a \<longleftrightarrow> owner a = pid E \<and> expire a \<le> now"

definition timer_ok :: "timerm \<Rightarrow> bool" where
  "timer_ok t \<longleftrightarrow> alarms_sorted t \<and> coherent t"

text \<open>
  What a callback may do without starving the handler: keep the timer well formed, and add only
  alarms of its own process that lie in the future.
\<close>

definition polite :: "tenv \<Rightarrow> nat \<Rightarrow> callbacks \<Rightarrow> bool" where
  "polite E now cbs \<longleftrightarrow>
     (\<forall>f al t. timer_ok t \<and> cb_running t \<and> owner al = pid E \<and> al_addr al \<notin> al_addr ` set (alist t) \<longrightarrow>
        timer_ok (cbs f al t) \<and> fired (cbs f al t) = fired t \<and>
        filter (stale E now) (alist (cbs f al t)) = filter (stale E now) (alist t))"

lemma reschedule_Done:
  assumes "timer_ok t" "al_addr al \<notin> al_addr ` set (alist t)" "cb_running t \<or> sig_block E \<and> sig_unblock E"
    "al' = al\<lparr>cb := f, al_arg := a, expire := now + secs\<rparr>"
  shows "\<exists>t'. timerm_reschedule E now al secs f a t = Done t' \<and> timer_ok t' \<and> armed now t' \<and>
     fired t' = fired t \<and> alist t' = insert_alarm al' (alist t)"
proof -
  let ?u = "t\<lparr>alist := insert_alarm al' (alist t)\<rparr>"
  have u: "coherent ?u" "alarms_sorted ?u"
    using assms(1,2,4) by (auto simp: timer_ok_def coherent_def alarms_sorted_def insert_alarm_sorted distinct_insert_alarm)
  have "timerm_reschedule E now al secs f a t = Done (timerm_set_next now ?u)"
    using assms(2-4)
    by (auto simp: timerm_reschedule_def timerm_alarm_pending_def timerm_block_alarms_def timerm_unblock_alarms_def)
  with set_next_coherent [OF u(1)] set_next_armed [OF u(1)] u(2) show ?thesis
    by (auto simp: timer_ok_def alarms_sorted_def)
qed

lemma reschedule_polite:
  assumes "0 < secs" "now \<le> now'"
  shows "polite E now (\<lambda>f al t. case timerm_reschedule E now' al secs f (al_arg al) t of Done t' \<Rightarrow> t' | _ \<Rightarrow> t)"
  unfolding polite_def
proof (intro allI impI, elim conjE, goal_cases)
  case (1 f al t)
  from reschedule_Done [OF 1(1,4) disjI1 [OF 1(2)] refl, of E now' secs f "al_arg al"] obtain t' where
    t': "timerm_reschedule E now' al secs f (al_arg al) t = Done t'" "timer_ok t'" "fired t' = fired t"
    "alist t' = insert_alarm (al\<lparr>cb := f, al_arg := al_arg al, expire := now' + secs\<rparr>) (alist t)" by blast
  have "\<not> stale E now (al\<lparr>cb := f, al_arg := al_arg al, expire := now' + secs\<rparr>)"
    using 1(3) assms by (simp add: stale_def)
  with t' show ?case by (simp add: filter_insert_alarm)
qed

lemma due_stale: "filter (due E now) l = filter (due E now) (filter (stale E now) l)"
  by (auto simp: filter_filter due_def stale_def intro: filter_cong)

lemma sigalrm_loop_ok:
  assumes "polite E now cbs" "timer_ok t"
  shows "\<exists>t'. sigalrm_loop E cbs now t = Some t' \<and> timer_ok t' \<and> filter (due E now) (alist t') = [] \<and>
     fired t' = fired t @ map al_addr (filter (due E now) (alist t))"
  using assms(2)
proof (induction "length (filter (stale E now) (alist t))" arbitrary: t rule: less_induct)
  case less
  show ?case
  proof (cases "alist t")
    case Nil
    with less.prems show ?thesis by (subst sigalrm_loop.simps) simp
  next
    case (Cons al rest)
    let ?t1 = "t\<lparr>alist := rest\<rparr>"
    have t1: "timer_ok ?t1" using less.prems Cons by (simp add: timer_ok_def alarms_sorted_def coherent_def)
    consider "owner al \<noteq> pid E" | "owner al = pid E" "now < expire al" | "owner al = pid E" "expire al \<le> now"
      by linarith
    then show ?thesis
    proof cases
      case 1
      then have "length (filter (stale E now) (alist ?t1)) < length (filter (stale E now) (alist t))"
        using Cons by (simp add: stale_def)
      from less.hyps [OF this t1] 1 Cons show ?thesis by (subst sigalrm_loop.simps) (simp add: due_def)
    next
      case 2
      with less.prems Cons have "filter (due E now) (alist t) = []"
        by (auto simp: timer_ok_def alarms_sorted_def due_def filter_empty_conv)
      with 2 Cons less.prems show ?thesis by (subst sigalrm_loop.simps) simp
    next
      case 3
      let ?r = "t\<lparr>alist := rest, cb_running := True, fired := fired t @ [al_addr al]\<rparr>"
      let ?u = "(cbs (cb al) al ?r)\<lparr>cb_running := False\<rparr>"
      have "timer_ok ?r" "al_addr al \<notin> al_addr ` set (alist ?r)"
        using t1 less.prems Cons by (auto simp: timer_ok_def alarms_sorted_def coherent_def)
      with assms(1) 3(1) have u: "timer_ok (cbs (cb al) al ?r)" "fired (cbs (cb al) al ?r) = fired t @ [al_addr al]"
        "filter (stale E now) (alist (cbs (cb al) al ?r)) = filter (stale E now) rest"
        by (auto simp: polite_def)
      from u(1) have ok: "timer_ok ?u" by (simp add: timer_ok_def alarms_sorted_def coherent_def)
      have "length (filter (stale E now) (alist ?u)) < length (filter (stale E now) (alist t))"
        using Cons 3 u(3) by (simp add: stale_def)
      from less.hyps [OF this ok] obtain t' where t': "sigalrm_loop E cbs now ?u = Some t'" "timer_ok t'"
        "filter (due E now) (alist t') = []" "fired t' = fired ?u @ map al_addr (filter (due E now) (alist ?u))"
        by blast
      have "filter (due E now) (alist ?u) = filter (due E now) rest"
        using u(3) due_stale [of E now "alist ?u"] due_stale [of E now rest] by simp
      moreover have "sigalrm_loop E cbs now t = sigalrm_loop E cbs now ?u"
        using Cons 3 by (subst sigalrm_loop.simps) simp
      ultimately show ?thesis using t' u(2) Cons 3 by (simp add: due_def)
    qed
  qed
qed

lemma timerm_free_ok:
  assumes "sig_block E" "sig_unblock E"
  shows "\<exists>t'. timerm_free E now t = Some t' \<and> alist t' = []"
proof (induction "length (alist t)" arbitrary: t rule: less_induct)
  case less
  show ?case
  proof (cases "alist t")
    case Nil
    then show ?thesis by (subst timerm_free.simps) simp
  next
    case (Cons a rest)
    let ?t1 = "t\<lparr>alist := filter (\<lambda>b. al_addr b \<noteq> al_addr a) (alist t)\<rparr>"
    have del: "timerm_del E now a t = Some (Done (timerm_set_next now ?t1))"
      using assms Cons
      by (simp add: timerm_del_def timerm_alarm_pending_def timerm_block_alarms_def timerm_unblock_alarms_def Let_def)
    have "length (alist (timerm_set_next now ?t1)) < length (alist t)"
      using Cons by (simp add: le_imp_less_Suc length_filter_le)
    from less.hyps [OF this] Cons del show ?thesis by (subst timerm_free.simps) simp
  qed
qed

section \<open>Properties\<close>

text \<open>
  C19.  The alarm handler runs the callbacks of exactly the alarms of this process that have
  expired, in the order of the list, and returns; afterwards no expired alarm of this process
  is left, the list is sorted, and a signal is pending in time for the next alarm.  Callbacks
  may re-enter the timer as long as the alarms they add lie in the future.
\<close>

theorem sigalrm_fires_due:
  assumes "polite E now cbs" "timer_ok t"
  shows "\<exists>t'. timerm_sigalrm E cbs now now' (Some t) = Some (Some t') \<and>
     fired t' = fired t @ map al_addr (filter (due E now) (alist t)) \<and>
     filter (due E now) (alist t') = [] \<and> timer_ok t' \<and> armed now' t'"
proof -
  have "timer_ok (t\<lparr>next_at := 0, os_alarm := None\<rparr>)"
    using assms(2) by (simp add: timer_ok_def alarms_sorted_def coherent_def)
  from sigalrm_loop_ok [OF assms(1) this] obtain u where
    u: "sigalrm_loop E cbs now (t\<lparr>next_at := 0, os_alarm := None\<rparr>) = Some u" "timer_ok u"
       "filter (due E now) (alist u) = []" "fired u = fired t @ map al_addr (filter (due E now) (alist t))"
    by auto
  let ?t' = "if alist u = [] then u else timerm_set_next now' u"
  have "timerm_sigalrm E cbs now now' (Some t) = Some (Some ?t')" using u(1) by (simp add: timerm_sigalrm_def)
  moreover have "timer_ok ?t'" "armed now' ?t'"
    using u(2) set_next_coherent [of u now'] set_next_armed [of u now']
    by (auto simp: timer_ok_def alarms_sorted_def armed_def)
  ultimately show ?thesis using u(3,4) by auto
qed

theorem sigalrm_fires_due_witness:
  "\<exists>t'. timerm_sigalrm \<lparr>pid = 7, sig_block = True, sig_unblock = True, sig_handler = True\<rparr>
      (\<lambda>f al t. case timerm_reschedule \<lparr>pid = 7, sig_block = True, sig_unblock = True, sig_handler = True\<rparr> 100 al 10 f (al_arg al) t
                of Done t' \<Rightarrow> t' | _ \<Rightarrow> t) 100 100
      (Some \<lparr>alist = [\<lparr>al_addr = 1, expire = 90, cb = 0, al_arg = 0, owner = 3\<rparr>,
                      \<lparr>al_addr = 2, expire = 100, cb = 0, al_arg = 0, owner = 7\<rparr>,
                      \<lparr>al_addr = 3, expire = 101, cb = 0, al_arg = 0, owner = 7\<rparr>],
             next_at = 90, cb_running = False, os_alarm = Some 90, fired = []\<rparr>) = Some (Some t') \<and> fired t' = [2]"
proof -
  let ?E = "\<lparr>pid = 7, sig_block = True, sig_unblock = True, sig_handler = True\<rparr>"
  let ?t = "\<lparr>alist = [\<lparr>al_addr = 1, expire = 90, cb = 0, al_arg = 0, owner = 3\<rparr>,
                      \<lparr>al_addr = 2, expire = 100, cb = 0, al_arg = 0, owner = 7\<rparr>,
                      \<lparr>al_addr = 3, expire = 101, cb = 0, al_arg = 0, owner = 7\<rparr>],
             next_at = 90, cb_running = False, os_alarm = Some 90, fired = []\<rparr>"
  have ok: "timer_ok ?t" by (simp add: timer_ok_def alarms_sorted_def coherent_def)
  have d: "filter (due ?E 100) (alist ?t) = [\<lparr>al_addr = 2, expire = 100, cb = 0, al_arg = 0, owner = 7\<rparr>]"
    by (simp add: due_def)
  show ?thesis
    using sigalrm_fires_due [OF reschedule_polite [of 10 100 100 ?E] ok, of 100] unfolding d by auto
qed

text \<open>
  Scheduling keeps the alarm list sorted and first-in first-out among equal expiries,
  and leaves a signal pending no later than the earliest alarm.
\<close>

theorem reschedule_inserts:
  assumes "timer_ok t" "al_addr al \<notin> al_addr ` set (alist t)" "cb_running t \<or> sig_block E \<and> sig_unblock E"
  shows "\<exists>t'. timerm_reschedule E now al secs f a t = Done t' \<and> timer_ok t' \<and> armed now t' \<and>
     alist t' = filter (\<lambda>b. expire b \<le> now + secs) (alist t) @
        al\<lparr>cb := f, al_arg := a, expire := now + secs\<rparr> # filter (\<lambda>b. now + secs < expire b) (alist t)"
proof -
  have "sorted (map expire (alist t))" using assms(1) by (simp add: timer_ok_def alarms_sorted_def)
  from insert_alarm_split [OF this, of "al\<lparr>cb := f, al_arg := a, expire := now + secs\<rparr>"]
  show ?thesis using reschedule_Done [OF assms refl, of now secs f a] by auto
qed

theorem reschedule_inserts_witness:
  "\<exists>t'. timerm_reschedule \<lparr>pid = 7, sig_block = True, sig_unblock = True, sig_handler = True\<rparr> 90
      \<lparr>al_addr = 9, expire = 0, cb = 0, al_arg = 0, owner = 7\<rparr> 10 1 2
      \<lparr>alist = [\<lparr>al_addr = 2, expire = 100, cb = 0, al_arg = 0, owner = 7\<rparr>],
       next_at = 100, cb_running = False, os_alarm = Some 100, fired = []\<rparr> = Done t' \<and>
     map al_addr (alist t') = [2, 9]"
proof -
  let ?E = "\<lparr>pid = 7, sig_block = True, sig_unblock = True, sig_handler = True\<rparr>"
  let ?t = "\<lparr>alist = [\<lparr>al_addr = 2, expire = 100, cb = 0, al_arg = 0, owner = 7\<rparr>],
       next_at = 100, cb_running = False, os_alarm = Some 100, fired = []\<rparr>"
  let ?al = "\<lparr>al_addr = 9, expire = 0, cb = 0, al_arg = 0, owner = 7\<rparr>"
  have h: "timer_ok ?t" "al_addr ?al \<notin> al_addr ` set (alist ?t)" "cb_running ?t \<or> sig_block ?E \<and> sig_unblock ?E"
    by (simp_all add: timer_ok_def alarms_sorted_def coherent_def)
  from reschedule_inserts [OF h, of 90 10 1 2] show ?thesis by auto
qed

text \<open>
  After \<^verbatim>\<open>fork\<close> a child's alarms may never fire.  The child inherits
  \<^verbatim>\<open>timer->next\<close> and the parent's alarms but not the pending signal; when its new alarm
  is not the first of the list, \<^verbatim>\<open>timerm_set_alarm\<close> finds \<^verbatim>\<open>next\<close> early enough and
  does not call \<^verbatim>\<open>alarm\<close>: the alarm is queued and no signal is pending.
\<close>

theorem fork_loses_alarm:
  assumes "timer_ok t" "al_addr al \<notin> al_addr ` set (alist t)" "sig_block E" "sig_unblock E"
    and "alist t \<noteq> []" "next_at t \<noteq> 0" "next_at t \<le> expire (hd (alist t))"
    and "expire (hd (alist t)) \<le> now + secs"
  shows "\<exists>u. timerm_reschedule E now al secs f a (timer_fork t) = Done u \<and>
     al_addr al \<in> al_addr ` set (alist u) \<and> os_alarm u = None"
proof -
  obtain b rest where l: "alist t = b # rest" using assms(5) by (cases "alist t") auto
  let ?al = "al\<lparr>cb := f, al_arg := a, expire := now + secs\<rparr>"
  let ?u = "(timer_fork t)\<lparr>alist := b # insert_alarm ?al rest\<rparr>"
  have ins: "insert_alarm ?al (alist t) = b # insert_alarm ?al rest" using l assms(8) by simp
  have "timerm_set_next now ?u = ?u"
    using l assms(6,7)
    by (simp add: timerm_set_next_def timerm_set_alarm_def timer_fork_def Let_def max_def)
  then have "timerm_reschedule E now al secs f a (timer_fork t) = Done ?u"
    using assms(2-4) ins
    by (auto simp: timerm_reschedule_def timerm_alarm_pending_def timerm_block_alarms_def
        timerm_unblock_alarms_def timer_fork_def)
  then show ?thesis by (simp add: timer_fork_def set_insert_alarm)
qed

theorem fork_loses_alarm_witness:
  "\<exists>u. timerm_reschedule \<lparr>pid = 8, sig_block = True, sig_unblock = True, sig_handler = True\<rparr> 95
      \<lparr>al_addr = 9, expire = 0, cb = 0, al_arg = 0, owner = 8\<rparr> 10 1 2
      (timer_fork \<lparr>alist = [\<lparr>al_addr = 2, expire = 100, cb = 0, al_arg = 0, owner = 7\<rparr>],
       next_at = 100, cb_running = False, os_alarm = Some 100, fired = []\<rparr>) = Done u \<and> os_alarm u = None"
proof -
  let ?E = "\<lparr>pid = 8, sig_block = True, sig_unblock = True, sig_handler = True\<rparr>"
  let ?t = "\<lparr>alist = [\<lparr>al_addr = 2, expire = 100, cb = 0, al_arg = 0, owner = 7\<rparr>],
       next_at = 100, cb_running = False, os_alarm = Some 100, fired = []\<rparr>"
  let ?al = "\<lparr>al_addr = 9, expire = 0, cb = 0, al_arg = 0, owner = 8\<rparr>"
  have h: "timer_ok ?t" "al_addr ?al \<notin> al_addr ` set (alist ?t)" "sig_block ?E" "sig_unblock ?E" "alist ?t \<noteq> []"
    "next_at ?t \<noteq> 0" "next_at ?t \<le> expire (hd (alist ?t))" "expire (hd (alist ?t)) \<le> 95 + 10"
    by (simp_all add: timer_ok_def alarms_sorted_def coherent_def)
  from fork_loses_alarm [OF h, of 1 2] show ?thesis by blast
qed

text \<open>
  \<^verbatim>\<open>timerm_add\<close> cannot report an error: it never returns its error value, and when
  the allocation of the alarm fails it frees the timer and then reads through the global it
  has just set to \<^verbatim>\<open>NULL\<close>.
\<close>

theorem timerm_add_error_crashes:
  assumes "sig_block E" "sig_unblock E" "\<not> u_malloc L 56"
  shows "timerm_add L E now p secs f a timer = Some Crash \<and>
         (\<forall>L' E' t'. timerm_add L' E' now p secs f a timer \<noteq> Some (Failed t'))"
proof
  have err: "timerm_add_err E now tm = Some Crash" for tm
    using timerm_free_ok [OF assms(1,2), of now] by (cases tm) (auto simp: timerm_add_err_def split: option.split)
  then show "timerm_add L E now p secs f a timer = Some Crash"
    using assms(3) by (simp add: timerm_add_def case_prod_beta split: option.split bool.split)
  have "timerm_add_err E' now tm \<noteq> Some (Failed t')" for E' t' tm
    by (simp add: timerm_add_err_def split: option.split)
  then show "\<forall>L' E' t'. timerm_add L' E' now p secs f a timer \<noteq> Some (Failed t')"
    by (simp add: timerm_add_def split: option.split bool.split step.split prod.split)
qed

theorem timerm_add_error_crashes_witness:
  "timerm_add (libu_ref\<lparr>u_malloc := (\<lambda>n. n \<noteq> 56)\<rparr>)
     \<lparr>pid = 8, sig_block = True, sig_unblock = True, sig_handler = True\<rparr> 95 9 10 1 2 None = Some Crash"
proof -
  let ?E = "\<lparr>pid = 8, sig_block = True, sig_unblock = True, sig_handler = True\<rparr>"
  have h: "sig_block ?E" "sig_unblock ?E" "\<not> u_malloc (libu_ref\<lparr>u_malloc := (\<lambda>n. n \<noteq> 56)\<rparr>) 56" by simp_all
  from timerm_add_error_crashes [OF h] show ?thesis by blast
qed

end
