(* ===== verification/Parser.thy ===== *)
theory Parser
  imports Klone_Prelude
begin

text \<open>
  \<^verbatim>\<open>src/libtrans/parser.c\<close>: the scanner that splits a \<^verbatim>\<open>.kl1\<close> page into HTML and
  \<^verbatim>\<open><% code %>\<close> blocks.  The model keeps the parser object, the locals of
  \<^verbatim>\<open>parser_run\<close> (current and previous character, the block buffer, the result of the last
  read), the rest of the input, and the blocks handed to the callbacks so far with the line of code
  at each call.  The size of the
  buffer is a parameter; \<open>BUFSZ\<close> is the value of the source.  \<open>Crash\<close> is a write outside
  the buffer, or the endless loop of \<^verbatim>\<open>parser_on_block\<close> in a state it has no case for.
\<close>

section \<open>Definitions\<close>

datatype pstate =
    S_START | S_IN_DOUBLE_QUOTE | S_IN_SINGLE_QUOTE | S_HTML | S_WAIT_PERC
  | S_START_CODE | S_CODE | S_WAIT_GT | S_EAT_NEWLINE

datatype block = Html string | Code nat string

datatype fetched = More | End

record parser =
  state :: pstate
  prev_state :: pstate
  cmd_code :: nat
  line :: nat
  code_line :: nat
  c_cur :: char
  c_prev :: char
  buf :: string
  rc :: fetched
  input :: string
  input_err :: bool
  out :: "block list"
  marks :: "nat list"

definition BUFSZ :: nat where
  "BUFSZ = 262144"

definition set_state :: "pstate \<Rightarrow> parser \<Rightarrow> parser" where
  "set_state s p = p\<lparr>state := s, prev_state := state p\<rparr>"

text \<open>\<^verbatim>\<open>fetch_next_char()\<close>: \<^verbatim>\<open>input_err\<close> makes the read after the last character fail.\<close>

definition fetch_next_char :: "parser \<Rightarrow> parser step" where
  "fetch_next_char p =
     (let p = p\<lparr>c_prev := c_cur p\<rparr> in
      case input p of
        [] \<Rightarrow> if input_err p then Failed p else Done (p\<lparr>rc := End\<rparr>)
      | c # rest \<Rightarrow>
          Done (p\<lparr>c_cur := c, input := rest, rc := More,
                  line := (if (c = CR \<or> c = LF) \<and> c_prev p \<noteq> (if c = CR then LF else CR)
                           then line p + 1 else line p)\<rparr>))"

text \<open>
  The callbacks may refuse a block.  A quote state falls back to the state before it; with no
  previous state to fall back to, the block is dropped.
\<close>

definition on_block_in :: "(block \<Rightarrow> bool) \<Rightarrow> pstate \<Rightarrow> parser \<Rightarrow> string \<Rightarrow> parser step" where
  "on_block_in cb s p b =
     (if s = S_START then Done p
      else if s \<in> {S_IN_DOUBLE_QUOTE, S_IN_SINGLE_QUOTE} then Done p
      else if s \<in> {S_HTML, S_WAIT_PERC} then
        (if b = [] then Done p
         else if cb (Html b) then Done (p\<lparr>out := out p @ [Html b], marks := marks p @ [code_line p]\<rparr>) else Failed p)
      else if s \<in> {S_START_CODE, S_CODE, S_WAIT_GT} then
        (if b = [] then Done p
         else if cb (Code (cmd_code p) b) then Done (p\<lparr>out := out p @ [Code (cmd_code p) b], marks := marks p @ [code_line p]\<rparr>)
         else Failed p)
      else Crash)"

definition parser_on_block :: "(block \<Rightarrow> bool) \<Rightarrow> parser \<Rightarrow> string \<Rightarrow> parser step" where
  "parser_on_block cb p b =
     (if state p \<in> {S_IN_DOUBLE_QUOTE, S_IN_SINGLE_QUOTE} \<and> state p \<noteq> prev_state p
      then on_block_in cb (prev_state p) (p\<lparr>state := prev_state p\<rparr>) b
      else on_block_in cb (state p) p b)"

text \<open>
  \<^verbatim>\<open>buf[idx] = 0\<close>, the callback, \<^verbatim>\<open>buf[0] = 0; idx = 0\<close>.  The terminator is a store too, one
  past the block; the buffer has \<open>B\<close> bytes.
\<close>

definition hand_over :: "nat \<Rightarrow> (block \<Rightarrow> bool) \<Rightarrow> parser \<Rightarrow> parser step" where
  "hand_over B cb p =
     (if B \<le> length (buf p) then Crash
      else and_then (parser_on_block cb p (buf p)) (\<lambda>p. Done (p\<lparr>buf := []\<rparr>)))"

text \<open>\<^verbatim>\<open>if(idx && --idx)\<close>: drop the delimiter's first character and hand over what is before it.\<close>

definition close_block :: "nat \<Rightarrow> (block \<Rightarrow> bool) \<Rightarrow> parser \<Rightarrow> parser step" where
  "close_block B cb p =
     (if buf p = [] then Done p
      else
        (let p = p\<lparr>buf := butlast (buf p)\<rparr> in
         if buf p = [] then Done p
         else hand_over B cb p))"

text \<open>What follows the \<^verbatim>\<open>switch\<close>: store the character, flush a full buffer, read the next.\<close>

definition store_char :: "nat \<Rightarrow> (block \<Rightarrow> bool) \<Rightarrow> parser \<Rightarrow> parser step" where
  "store_char B cb p =
     (if B \<le> length (buf p) then Crash
      else
        (let p = p\<lparr>buf := buf p @ [c_cur p]\<rparr> in
         and_then
           (if length (buf p) = B - 1 then hand_over B cb p else Done p)
           fetch_next_char))"

text \<open>One turn of the \<^verbatim>\<open>while(rc > 0)\<close> loop.\<close>

definition parser_step :: "nat \<Rightarrow> (block \<Rightarrow> bool) \<Rightarrow> parser \<Rightarrow> parser step" where
  "parser_step B cb p0 =
     (let p = p0\<lparr>c_prev := c_cur p0\<rparr>; c = c_cur p in
      case state p of
        S_START \<Rightarrow> Done (set_state S_HTML p)
      | S_IN_DOUBLE_QUOTE \<Rightarrow>
          store_char B cb
            (if c = CHR 0x22 \<and> c_prev p \<noteq> CHR 0x5C then set_state (prev_state p) p else p)
      | S_IN_SINGLE_QUOTE \<Rightarrow>
          store_char B cb
            (if c = CHR 0x27 \<and> c_prev p \<noteq> CHR 0x5C then set_state (prev_state p) p else p)
      | S_HTML \<Rightarrow> store_char B cb (if c = CHR ''<'' then set_state S_WAIT_PERC p else p)
      | S_WAIT_PERC \<Rightarrow>
          (if c = CHR ''%''
           then and_then (close_block B cb p) (\<lambda>p.
                  fetch_next_char ((set_state S_START_CODE p)\<lparr>code_line := line p\<rparr>))
           else Done (set_state S_HTML p))
      | S_START_CODE \<Rightarrow>
          (if c_isspace c then Done (set_state S_CODE (p\<lparr>cmd_code := 0\<rparr>))
           else and_then (fetch_next_char (p\<lparr>cmd_code := ord c\<rparr>)) (\<lambda>p. Done (set_state S_CODE p)))
      | S_CODE \<Rightarrow> store_char B cb (if c = CHR ''%'' then set_state S_WAIT_GT p else p)
      | S_WAIT_GT \<Rightarrow>
          (if c = CHR ''>''
           then and_then (close_block B cb p) (\<lambda>p.
                and_then (fetch_next_char p) (\<lambda>p.
                  Done (set_state S_HTML (p\<lparr>cmd_code := 0\<rparr>))))
           else Done (set_state S_CODE p))
      | S_EAT_NEWLINE \<Rightarrow>
          (if c = CR \<or> c = LF then fetch_next_char p else Done (set_state S_HTML p)))"

text \<open>
  The loop runs in at most two turns per character: a turn that does not read moves to a state
  whose next turn does.
\<close>

definition left :: "parser \<Rightarrow> nat" where
  "left p = length (input p) + (if rc p = More then 1 else 0)"

definition waiting :: "parser \<Rightarrow> nat" where
  "waiting p = (if state p \<in> {S_HTML, S_CODE, S_IN_DOUBLE_QUOTE, S_IN_SINGLE_QUOTE} then 0 else 1)"

definition smaller :: "parser \<Rightarrow> parser \<Rightarrow> bool" where
  "smaller p q \<longleftrightarrow> left p < left q \<or> (left p = left q \<and> waiting p < waiting q)"

lemma fetch_left: "fetch_next_char p = Done q \<Longrightarrow> rc p = More \<Longrightarrow> left q < left p"
  by (auto simp: fetch_next_char_def left_def Let_def split: list.splits if_splits)

lemma set_state_left [simp]: "left (set_state s p) = left p" "rc (set_state s p) = rc p"
  "buf (set_state s p) = buf p" "out (set_state s p) = out p"
  by (simp_all add: set_state_def left_def)

lemma on_block_in_keeps: "on_block_in cb s p b = Done q \<Longrightarrow> left q = left p \<and> rc q = rc p \<and> buf q = buf p"
  by (auto simp: on_block_in_def left_def split: if_splits)

lemma on_block_keeps: "parser_on_block cb p b = Done q \<Longrightarrow> left q = left p \<and> rc q = rc p \<and> buf q = buf p"
  by (auto simp: parser_on_block_def left_def dest!: on_block_in_keeps split: if_splits)

lemma hand_over_keeps: "hand_over B cb p = Done q \<Longrightarrow> left q = left p \<and> rc q = rc p"
  by (auto simp: hand_over_def and_then_Done left_def dest!: on_block_keeps split: if_splits)

lemma close_block_keeps: "close_block B cb p = Done q \<Longrightarrow> left q = left p \<and> rc q = rc p"
  by (auto simp: close_block_def Let_def left_def dest!: hand_over_keeps split: if_splits)

lemma store_char_left: "store_char B cb p = Done q \<Longrightarrow> rc p = More \<Longrightarrow> left q < left p"
  by (auto simp: store_char_def Let_def and_then_Done left_def
      dest!: hand_over_keeps fetch_left split: if_splits)

lemma store_char_smaller: "store_char B cb p = Done q \<Longrightarrow> rc p = More \<Longrightarrow> left p = left p0 \<Longrightarrow> smaller q p0"
  using store_char_left [of B cb p q] by (simp add: smaller_def)

lemma fetch_smaller: "fetch_next_char p = Done q \<Longrightarrow> rc p = More \<Longrightarrow> left p = left p0 \<Longrightarrow> smaller q p0"
  using fetch_left [of p q] by (simp add: smaller_def)

lemma prev_left [simp]: "left (p\<lparr>c_prev := x\<rparr>) = left p" "left (p\<lparr>cmd_code := y\<rparr>) = left p"
  "left (p\<lparr>code_line := z\<rparr>) = left p" "left (p\<lparr>c_prev := x, cmd_code := y\<rparr>) = left p"
  by (simp_all add: left_def)

lemma turn_smaller: "left q = left p0 \<Longrightarrow> waiting q = 0 \<Longrightarrow> waiting p0 = 1 \<Longrightarrow> smaller q p0"
  by (simp add: smaller_def)

lemma parser_step_smaller:
  assumes "parser_step B cb p0 = Done q" "rc p0 = More"
  shows "smaller q p0"
proof (cases "state p0")
  case S_START
  with assms show ?thesis by (auto simp: parser_step_def Let_def set_state_def waiting_def left_def smaller_def)
next
  case S_IN_DOUBLE_QUOTE
  with assms show ?thesis by (auto simp: parser_step_def Let_def intro: store_char_smaller split: if_splits)
next
  case S_IN_SINGLE_QUOTE
  with assms show ?thesis by (auto simp: parser_step_def Let_def intro: store_char_smaller split: if_splits)
next
  case S_HTML
  with assms show ?thesis by (auto simp: parser_step_def Let_def intro: store_char_smaller split: if_splits)
next
  case S_WAIT_PERC
  with assms show ?thesis
    by (auto simp: parser_step_def Let_def and_then_Done waiting_def set_state_def left_def smaller_def
        dest!: close_block_keeps fetch_left split: if_splits)
next
  case S_START_CODE
  with assms show ?thesis
    by (auto simp: parser_step_def Let_def and_then_Done waiting_def set_state_def left_def smaller_def
        dest!: fetch_left split: if_splits)
next
  case S_CODE
  with assms show ?thesis by (auto simp: parser_step_def Let_def intro: store_char_smaller split: if_splits)
next
  case S_WAIT_GT
  with assms show ?thesis
    by (auto simp: parser_step_def Let_def and_then_Done waiting_def set_state_def left_def smaller_def
        dest!: close_block_keeps fetch_left split: if_splits)
next
  case S_EAT_NEWLINE
  with assms show ?thesis
    by (auto simp: parser_step_def Let_def waiting_def set_state_def left_def smaller_def
        dest!: fetch_left split: if_splits)
qed

function parser_loop :: "nat \<Rightarrow> (block \<Rightarrow> bool) \<Rightarrow> parser \<Rightarrow> parser step" where
  "parser_loop B cb p =
     (if rc p = More
      then (case parser_step B cb p of
              Done q \<Rightarrow> parser_loop B cb q
            | Failed q \<Rightarrow> Failed q
            | Crash \<Rightarrow> Crash)
      else Done p)"
  by pat_completeness auto
termination
  by (relation "inv_image (less_than <*lex*> less_than) (\<lambda>(B, cb, p). (left p, waiting p))")
     (auto dest!: parser_step_smaller simp: smaller_def)

declare parser_loop.simps [simp del]

text \<open>The last block, when the input ends.\<close>

definition parser_flush :: "nat \<Rightarrow> (block \<Rightarrow> bool) \<Rightarrow> parser \<Rightarrow> parser step" where
  "parser_flush B cb p = (if buf p = [] then Done p else hand_over B cb p)"

definition parser_run_with :: "nat \<Rightarrow> (block \<Rightarrow> bool) \<Rightarrow> parser \<Rightarrow> parser step" where
  "parser_run_with B cb p =
     (let p = p\<lparr>c_cur := NUL, c_prev := NUL, buf := []\<rparr> in
      if 1 < line p then Failed p
      else and_then (fetch_next_char p) (\<lambda>p.
           and_then (parser_loop B cb p) (parser_flush B cb)))"

definition parser_run :: "(block \<Rightarrow> bool) \<Rightarrow> parser \<Rightarrow> parser step" where
  "parser_run cb p = parser_run_with BUFSZ cb p"

definition parser_reset :: "parser \<Rightarrow> parser" where
  "parser_reset p = p\<lparr>line := 1, state := S_START, prev_state := S_START, cmd_code := 0\<rparr>"

text \<open>\<^verbatim>\<open>parser_create\<close> followed by \<^verbatim>\<open>parser_set_io\<close> on an input.\<close>

definition parser_create :: "string \<Rightarrow> bool \<Rightarrow> parser" where
  "parser_create inp err =
     parser_reset
       \<lparr>state = S_START, prev_state = S_START, cmd_code = 0, line = 0, code_line = 0,
        c_cur = NUL, c_prev = NUL, buf = [], rc = End, input = inp, input_err = err, out = [], marks = []\<rparr>"

section \<open>The buffer stays in bounds\<close>

definition parser_ok :: "nat \<Rightarrow> parser \<Rightarrow> bool" where
  "parser_ok B p \<longleftrightarrow> length (buf p) < B - 1 \<and> state p \<noteq> S_EAT_NEWLINE \<and> prev_state p \<noteq> S_EAT_NEWLINE"

definition live :: "parser \<Rightarrow> bool" where
  "live p \<longleftrightarrow> state p \<noteq> S_EAT_NEWLINE \<and> prev_state p \<noteq> S_EAT_NEWLINE"

lemma fetch_ok: "parser_ok B p \<Longrightarrow> done_all (parser_ok B) (fetch_next_char p)"
  by (auto simp: fetch_next_char_def Let_def parser_ok_def split: list.split)

lemma on_block_live: "live p \<Longrightarrow> done_all (\<lambda>q. live q \<and> buf q = buf p) (parser_on_block cb p b)"
  by (cases "state p"; cases "prev_state p") (auto simp: parser_on_block_def on_block_in_def live_def)

lemma hand_over_ok:
  assumes "live p" "2 \<le> B" "length (buf p) < B" shows "done_all (parser_ok B) (hand_over B cb p)"
proof -
  have "done_all (parser_ok B) (and_then (parser_on_block cb p (buf p)) (\<lambda>p. Done (p\<lparr>buf := []\<rparr>)))"
    by (rule done_all_bind, rule on_block_live [OF assms(1)]) (use assms(2) in \<open>auto simp: parser_ok_def live_def\<close>)
  with assms(3) show ?thesis by (simp add: hand_over_def)
qed

lemma close_block_ok:
  assumes "parser_ok B p" "2 \<le> B" shows "done_all (parser_ok B) (close_block B cb p)"
proof -
  let ?q = "p\<lparr>buf := butlast (buf p)\<rparr>"
  have "live ?q" "length (buf ?q) < B" using assms(1) by (auto simp: live_def parser_ok_def)
  from hand_over_ok [OF this(1) assms(2) this(2), of cb] assms show ?thesis
    by (auto simp: close_block_def Let_def parser_ok_def)
qed

lemma store_char_ok:
  assumes "parser_ok B p" "2 \<le> B" shows "done_all (parser_ok B) (store_char B cb p)"
proof -
  let ?q = "p\<lparr>buf := buf p @ [c_cur p]\<rparr>"
  have len: "length (buf ?q) \<le> B - 1" "length (buf ?q) < B" using assms unfolding parser_ok_def by auto
  have "live ?q" using assms(1) by (simp add: live_def parser_ok_def)
  from hand_over_ok [OF this assms(2) len(2), of cb] assms(1) len(1)
  have "done_all (parser_ok B) (if length (buf ?q) = B - 1 then hand_over B cb ?q else Done ?q)"
    by (auto simp: parser_ok_def)
  then have "done_all (parser_ok B) (and_then
     (if length (buf ?q) = B - 1 then hand_over B cb ?q else Done ?q) fetch_next_char)"
    by (rule done_all_bind) (rule fetch_ok)
  with len(2) show ?thesis by (simp add: store_char_def Let_def)
qed

lemma parser_ok_fields [simp]:
  "parser_ok B (p\<lparr>c_prev := x\<rparr>) = parser_ok B p" "parser_ok B (p\<lparr>cmd_code := y\<rparr>) = parser_ok B p"
  "parser_ok B (p\<lparr>code_line := z\<rparr>) = parser_ok B p" "parser_ok B (p\<lparr>c_prev := x, cmd_code := y\<rparr>) = parser_ok B p"
  by (simp_all add: parser_ok_def)

lemma set_state_ok: "parser_ok B p \<Longrightarrow> s \<noteq> S_EAT_NEWLINE \<Longrightarrow> parser_ok B (set_state s p)"
  by (simp add: parser_ok_def set_state_def)

lemma parser_step_ok:
  assumes "parser_ok B p" "2 \<le> B" shows "done_all (parser_ok B) (parser_step B cb p)"
proof -
  let ?p = "p\<lparr>c_prev := c_cur p\<rparr>"
  have p: "parser_ok B ?p" "prev_state p \<noteq> S_EAT_NEWLINE" "state p \<noteq> S_EAT_NEWLINE"
    using assms(1) by (simp_all add: parser_ok_def)
  note store = store_char_ok [OF _ assms(2)]
  have quote: "done_all (parser_ok B) (store_char B cb (if b then set_state (prev_state p) ?p else ?p))" for b
    using p by (intro store) (simp add: set_state_ok)
  have px: "parser_ok B (p\<lparr>c_prev := x\<rparr>)" for x using assms(1) by simp
  have perc: "done_all (parser_ok B) (and_then (close_block B cb (p\<lparr>c_prev := x\<rparr>))
      (\<lambda>p. fetch_next_char ((set_state S_START_CODE p)\<lparr>code_line := line p\<rparr>)))" for x
    by (rule done_all_bind [OF close_block_ok [OF px assms(2)]]) (simp add: fetch_ok set_state_ok)
  have gt: "done_all (parser_ok B) (and_then (close_block B cb (p\<lparr>c_prev := x\<rparr>))
      (\<lambda>p. and_then (fetch_next_char p) (\<lambda>p. Done (set_state S_HTML (p\<lparr>cmd_code := 0\<rparr>)))))" for x
    by (rule done_all_bind [OF close_block_ok [OF px assms(2)]], rule done_all_bind [OF fetch_ok])
       (auto intro!: set_state_ok)
  have cmd: "done_all (parser_ok B) (and_then (fetch_next_char (?p\<lparr>cmd_code := k\<rparr>)) (\<lambda>p. Done (set_state S_CODE p)))" for k
    using p(1) by (intro done_all_bind [OF fetch_ok]) (auto intro!: set_state_ok)
  show ?thesis
    using p quote perc gt cmd
    by (cases "state p") (simp_all add: parser_step_def Let_def set_state_ok store split del: if_split cong: if_cong
        split: if_splits)
qed

lemma parser_loop_ok:
  assumes "parser_ok B p" "2 \<le> B" shows "done_all (parser_ok B) (parser_loop B cb p)"
  using assms
proof (induction B cb p rule: parser_loop.induct)
  case (1 B cb p)
  from parser_step_ok [OF 1(2,3), of cb] 1 show ?case
    by (subst parser_loop.simps) (cases "parser_step B cb p", auto)
qed

section \<open>Scanning a page\<close>

text \<open>The parser stands before the text \<open>r\<close>, in state \<open>s\<close>, with \<open>b\<close> in the buffer.\<close>

definition ready :: "pstate \<Rightarrow> string \<Rightarrow> string \<Rightarrow> parser \<Rightarrow> bool" where
  "ready s b r p \<longleftrightarrow> state p = s \<and> buf p = b \<and> \<not> input_err p \<and>
     (case r of [] \<Rightarrow> rc p = End | c # r' \<Rightarrow> rc p = More \<and> c_cur p = c \<and> input p = r')"

lemma fetch_ready:
  assumes "\<not> input_err p" "input p = r"
  shows "\<exists>q. fetch_next_char p = Done q \<and> ready (state p) (buf p) r q \<and> out q = out p \<and> cmd_code q = cmd_code p"
  using assms by (cases r) (auto simp: fetch_next_char_def ready_def Let_def)

lemma store_ready:
  assumes "ready s b (c # r) p" "length b + 2 < B"
  shows "\<exists>q. store_char B cb p = Done q \<and> ready s (b @ [c]) r q \<and> out q = out p \<and> cmd_code q = cmd_code p"
proof -
  let ?q = "p\<lparr>buf := buf p @ [c_cur p]\<rparr>"
  have "store_char B cb p = fetch_next_char ?q"
    using assms by (auto simp: store_char_def Let_def ready_def)
  with fetch_ready [of ?q r] assms(1) show ?thesis by (auto simp: ready_def)
qed

lemma loop_step: "rc p = More \<Longrightarrow> parser_step B cb p = Done q \<Longrightarrow> parser_loop B cb p = parser_loop B cb q"
  by (subst parser_loop.simps) simp

fun no_pair :: "char \<Rightarrow> char \<Rightarrow> string \<Rightarrow> bool" where
  "no_pair a b (x # y # l) \<longleftrightarrow> \<not> (x = a \<and> y = b) \<and> no_pair a b (y # l)"
| "no_pair a b _ \<longleftrightarrow> True"

lemma no_pair_tl: "no_pair a b (x # l) \<Longrightarrow> no_pair a b l"
  by (cases l) auto

text \<open>HTML and code are scanned alike: a main state, the state after the delimiter's first character.\<close>

definition mode :: "pstate \<Rightarrow> pstate \<Rightarrow> char \<Rightarrow> char \<Rightarrow> bool" where
  "mode m w a b \<longleftrightarrow> (m, w, a, b) \<in> {(S_HTML, S_WAIT_PERC, CHR ''<'', CHR ''%''), (S_CODE, S_WAIT_GT, CHR ''%'', CHR ''>'')}"

definition same :: "parser \<Rightarrow> parser \<Rightarrow> bool" where
  "same p q \<longleftrightarrow> out q = out p \<and> cmd_code q = cmd_code p"

lemma same_refl: "same p p" by (simp add: same_def)

lemma same_trans: "same p q \<Longrightarrow> same q r \<Longrightarrow> same p r"
  by (simp add: same_def)

lemma main_step:
  assumes "mode m w a b" "ready m bf (c # r) p" "length bf + 2 < B"
  shows "\<exists>q. parser_loop B cb p = parser_loop B cb q \<and> ready (if c = a then w else m) (bf @ [c]) r q \<and> same p q"
proof -
  let ?p = "p\<lparr>c_prev := c_cur p\<rparr>"
  let ?u = "if c = a then set_state w ?p else ?p"
  have st: "parser_step B cb p = store_char B cb ?u" "rc p = More"
    using assms(1,2) by (auto simp: mode_def ready_def parser_step_def Let_def)
  have u: "ready (if c = a then w else m) bf (c # r) ?u" "same p ?u"
    using assms(2) by (auto simp: ready_def set_state_def same_def)
  from store_ready [OF u(1) assms(3), of cb] obtain q where
    "store_char B cb ?u = Done q" "ready (if c = a then w else m) (bf @ [c]) r q" "same ?u q" by (auto simp: same_def)
  with st u(2) loop_step [of p B cb q] same_trans show ?thesis by metis
qed

lemma wait_step:
  assumes "mode m w a b" "ready w bf (c # r) p" "c \<noteq> b"
  shows "\<exists>q. parser_loop B cb p = parser_loop B cb q \<and> ready m bf (c # r) q \<and> same p q"
proof -
  let ?q = "set_state m (p\<lparr>c_prev := c_cur p\<rparr>)"
  have "parser_step B cb p = Done ?q" "rc p = More"
    using assms by (auto simp: mode_def ready_def parser_step_def Let_def)
  moreover have "ready m bf (c # r) ?q" "same p ?q"
    using assms(2) by (simp_all add: ready_def set_state_def same_def)
  ultimately show ?thesis using loop_step by blast
qed

lemma either_step:
  assumes "mode m w a b" "ready st bf (c # r) p" "st = m \<or> st = w \<and> c \<noteq> b" "length bf + 2 < B"
  shows "\<exists>q. parser_loop B cb p = parser_loop B cb q \<and> ready (if c = a then w else m) (bf @ [c]) r q \<and> same p q"
proof (cases "st = m")
  case True
  with main_step assms show ?thesis by blast
next
  case False
  with assms(3) have "st = w" "c \<noteq> b" by auto
  with wait_step [OF assms(1)] assms(2) obtain q where
    q: "parser_loop B cb p = parser_loop B cb q" "ready m bf (c # r) q" "same p q" by blast
  from main_step [OF assms(1) q(2) assms(4), of cb] q(1,3) same_trans show ?thesis by metis
qed

lemma scan:
  assumes "mode m w a b" "no_pair a b h" "ready st bf (h @ t) p"
    "st = m \<or> st = w \<and> (h \<noteq> [] \<longrightarrow> hd h \<noteq> b)" "length bf + length h + 1 < B"
  shows "\<exists>q st'. parser_loop B cb p = parser_loop B cb q \<and> ready st' (bf @ h) t q \<and> st' \<in> {m, w} \<and> same p q"
  using assms(2-5)
proof (induction h arbitrary: st bf p)
  case Nil
  then show ?case using same_refl by auto
next
  case (Cons c h)
  from Cons.prems have "ready st bf (c # (h @ t)) p" "st = m \<or> st = w \<and> c \<noteq> b" "length bf + 2 < B" by auto
  from either_step [OF assms(1) this, of cb] obtain q where
    q: "parser_loop B cb p = parser_loop B cb q" "ready (if c = a then w else m) (bf @ [c]) (h @ t) q" "same p q"
    by blast
  have "h \<noteq> [] \<longrightarrow> c = a \<longrightarrow> hd h \<noteq> b" using Cons.prems(1) by (cases h) auto
  then have "(if c = a then w else m) = m \<or> (if c = a then w else m) = w \<and> (h \<noteq> [] \<longrightarrow> hd h \<noteq> b)" by auto
  from Cons.IH [OF no_pair_tl [OF Cons.prems(1)] q(2) this] Cons.prems(4) obtain q' st' where
    q': "parser_loop B cb q = parser_loop B cb q'" "ready st' (bf @ c # h) t q'" "st' \<in> {m, w}" "same q q'" by auto
  with q same_trans show ?case by metis
qed

text \<open>Up to and including the first character of the closing delimiter.\<close>

lemma scan_to_delim:
  assumes "mode m w a b" "no_pair a b h" "ready m [] (h @ a # r) p" "length h + 2 < B"
  shows "\<exists>q. parser_loop B cb p = parser_loop B cb q \<and> ready w (h @ [a]) r q \<and> same p q"
proof -
  from assms(4) have "length ([] :: string) + length h + 1 < B" by simp
  from scan [OF assms(1-3) disjI1 [OF refl] this, of cb] obtain q st' where
    q: "parser_loop B cb p = parser_loop B cb q" "ready st' h (a # r) q" "st' \<in> {m, w}" "same p q" by auto
  have "a \<noteq> b" using assms(1) by (auto simp: mode_def)
  with q(3) have "st' = m \<or> st' = w \<and> a \<noteq> b" by auto
  from either_step [OF assms(1) q(2) this assms(4), of cb] q(1,4) same_trans show ?thesis by force
qed

text \<open>The closing delimiter itself.\<close>

definition emit :: "block list \<Rightarrow> string \<Rightarrow> block \<Rightarrow> block list" where
  "emit bs b blk = (if b = [] then bs else bs @ [blk])"

lemma close_html:
  assumes "ready S_WAIT_PERC (h @ [CHR ''<'']) (CHR ''%'' # r) p" "\<forall>b. cb b" "length h < B"
  shows "\<exists>q. parser_loop B cb p = parser_loop B cb q \<and> ready S_START_CODE [] r q \<and> out q = emit (out p) h (Html h)"
proof -
  let ?p = "p\<lparr>c_prev := c_cur p\<rparr>"
  obtain u where u: "close_block B cb ?p = Done u" "buf u = []" "input u = r" "\<not> input_err u" "out u = emit (out p) h (Html h)"
    using assms by (cases "h = []")
      (auto simp: close_block_def hand_over_def ready_def Let_def parser_on_block_def on_block_in_def emit_def)
  let ?v = "(set_state S_START_CODE u)\<lparr>code_line := line u\<rparr>"
  from fetch_ready [of ?v r] u obtain q where
    q: "fetch_next_char ?v = Done q" "ready S_START_CODE [] r q" "out q = out u"
    by (auto simp: set_state_def)
  have "parser_step B cb p = Done q" "rc p = More"
    using assms(1) u(1) q(1) by (auto simp: parser_step_def ready_def Let_def)
  with q u(5) loop_step show ?thesis by metis
qed

lemma close_code:
  assumes "ready S_WAIT_GT (h @ [CHR ''%'']) (CHR ''>'' # r) p" "\<forall>b. cb b" "length h < B"
  shows "\<exists>q. parser_loop B cb p = parser_loop B cb q \<and> ready S_HTML [] r q \<and> out q = emit (out p) h (Code (cmd_code p) h)"
proof -
  let ?p = "p\<lparr>c_prev := c_cur p\<rparr>"
  obtain u where u: "close_block B cb ?p = Done u" "buf u = []" "input u = r" "\<not> input_err u"
      "out u = emit (out p) h (Code (cmd_code p) h)"
    using assms by (cases "h = []")
      (auto simp: close_block_def hand_over_def ready_def Let_def parser_on_block_def on_block_in_def emit_def)
  from fetch_ready [of u r] u obtain q where
    q: "fetch_next_char u = Done q" "ready (state u) [] r q" "out q = out u" by auto
  let ?q = "set_state S_HTML (q\<lparr>cmd_code := 0\<rparr>)"
  have "parser_step B cb p = Done ?q" "rc p = More"
    using assms(1) u(1) q(1) by (auto simp: parser_step_def ready_def Let_def)
  moreover have "ready S_HTML [] r ?q" "out ?q = out u" using q(2,3) by (auto simp: ready_def set_state_def split: list.splits)
  ultimately show ?thesis using u(5) loop_step by metis
qed

lemma start_code:
  assumes "ready S_START_CODE [] (k @ s @ r) p"
    "k = [] \<and> s \<noteq> [] \<and> c_isspace (hd s) \<or> (\<exists>c. k = [c] \<and> \<not> c_isspace c)"
  shows "\<exists>q. parser_loop B cb p = parser_loop B cb q \<and> ready S_CODE [] (s @ r) q \<and>
     cmd_code q = (if k = [] then 0 else ord (hd k)) \<and> out q = out p"
proof -
  from assms(2) consider (space) x s' where "k = []" "s = x # s'" "c_isspace x" | (cmd) c where "k = [c]" "\<not> c_isspace c"
    by (cases s) auto
  then show ?thesis
  proof cases
    case space
    let ?q = "set_state S_CODE (p\<lparr>c_prev := c_cur p, cmd_code := 0\<rparr>)"
    have "parser_step B cb p = Done ?q" "rc p = More"
      using assms(1) space by (auto simp: parser_step_def ready_def Let_def)
    then have "parser_loop B cb p = parser_loop B cb ?q" by (rule loop_step [rotated])
    moreover have "ready S_CODE [] (s @ r) ?q" "cmd_code ?q = 0" "out ?q = out p"
      using assms(1) space by (auto simp: ready_def set_state_def)
    ultimately show ?thesis using space(1) by auto
  next
    case cmd
    let ?p = "p\<lparr>c_prev := c_cur p, cmd_code := ord c\<rparr>"
    have "\<not> input_err ?p" "input ?p = s @ r" using assms(1) cmd by (auto simp: ready_def)
    from fetch_ready [OF this] obtain q where
      q: "fetch_next_char ?p = Done q" "ready (state ?p) (buf ?p) (s @ r) q" "out q = out p" "cmd_code q = ord c" by auto
    have "parser_step B cb p = Done (set_state S_CODE q)" "rc p = More"
      using assms(1) cmd q(1) by (auto simp: parser_step_def ready_def Let_def)
    then have "parser_loop B cb p = parser_loop B cb (set_state S_CODE q)" by (rule loop_step [rotated])
    moreover have "ready S_CODE [] (s @ r) (set_state S_CODE q)"
      using assms(1) q(2) by (auto simp: ready_def set_state_def split: list.splits)
    moreover have "cmd_code (set_state S_CODE q) = ord c" "out (set_state S_CODE q) = out p"
      using q(3,4) by (simp_all add: set_state_def)
    ultimately show ?thesis using cmd(1) by auto
  qed
qed

section \<open>Pages\<close>

text \<open>
  A page is a list of HTML text, command characters (at most one) and code, and a last piece
  of HTML.
\<close>

fun page_text :: "(string \<times> string \<times> string) list \<Rightarrow> string \<Rightarrow> string" where
  "page_text [] t = t"
| "page_text ((h, k, s) # ps) t =
     h @ CHR ''<'' # CHR ''%'' # k @ s @ CHR ''%'' # CHR ''>'' # page_text ps t"

fun page_blocks :: "(string \<times> string \<times> string) list \<Rightarrow> string \<Rightarrow> block list" where
  "page_blocks [] t = emit [] t (Html t)"
| "page_blocks ((h, k, s) # ps) t =
     emit (emit [] h (Html h)) s (Code (if k = [] then 0 else ord (hd k)) s) @ page_blocks ps t"

text \<open>
  The delimiters do not occur inside a piece, a piece is shorter than the buffer, and code
  without a command character starts with white space.
\<close>

definition part_ok :: "nat \<Rightarrow> string \<times> string \<times> string \<Rightarrow> bool" where
  "part_ok B x = (case x of (h, k, s) \<Rightarrow>
     no_pair (CHR ''<'') (CHR ''%'') h \<and> no_pair (CHR ''%'') (CHR ''>'') s \<and>
     length h + 2 < B \<and> length s + 2 < B \<and>
     (k = [] \<and> s \<noteq> [] \<and> c_isspace (hd s) \<or> (\<exists>c. k = [c] \<and> \<not> c_isspace c)))"

lemma emit_append: "emit (bs @ cs) b blk = bs @ emit cs b blk"
  by (simp add: emit_def)

lemma scan_part:
  assumes "part_ok B (h, k, s)" "\<forall>b. cb b" "ready S_HTML [] (page_text ((h, k, s) # ps) t) p"
  shows "\<exists>q. parser_loop B cb p = parser_loop B cb q \<and> ready S_HTML [] (page_text ps t) q \<and>
     out q = out p @ emit (emit [] h (Html h)) s (Code (if k = [] then 0 else ord (hd k)) s)"
proof -
  let ?r = "page_text ps t"
  have mh: "mode S_HTML S_WAIT_PERC (CHR ''<'') (CHR ''%'')" and mc: "mode S_CODE S_WAIT_GT (CHR ''%'') (CHR ''>'')"
    by (simp_all add: mode_def)
  from assms(1) have ok: "no_pair (CHR ''<'') (CHR ''%'') h" "no_pair (CHR ''%'') (CHR ''>'') s"
    "length h + 2 < B" "length s + 2 < B"
    "k = [] \<and> s \<noteq> [] \<and> c_isspace (hd s) \<or> (\<exists>c. k = [c] \<and> \<not> c_isspace c)" by (simp_all add: part_ok_def)
  from assms(3) have "ready S_HTML [] (h @ CHR ''<'' # CHR ''%'' # k @ s @ CHR ''%'' # CHR ''>'' # ?r) p" by simp
  from scan_to_delim [OF mh ok(1) this ok(3), of cb] obtain q1 where q1: "parser_loop B cb p = parser_loop B cb q1"
    "ready S_WAIT_PERC (h @ [CHR ''<'']) (CHR ''%'' # k @ s @ CHR ''%'' # CHR ''>'' # ?r) q1" "same p q1" by blast
  from close_html [OF q1(2) assms(2), of B] ok(3) obtain q2 where q2: "parser_loop B cb q1 = parser_loop B cb q2"
    "ready S_START_CODE [] (k @ s @ CHR ''%'' # CHR ''>'' # ?r) q2" "out q2 = emit (out q1) h (Html h)" by auto
  from start_code [OF q2(2) ok(5), of B cb] obtain q3 where q3: "parser_loop B cb q2 = parser_loop B cb q3"
    "ready S_CODE [] (s @ CHR ''%'' # CHR ''>'' # ?r) q3" "cmd_code q3 = (if k = [] then 0 else ord (hd k))" "out q3 = out q2"
    by blast
  from scan_to_delim [OF mc ok(2) q3(2) ok(4), of cb] obtain q4 where q4: "parser_loop B cb q3 = parser_loop B cb q4"
    "ready S_WAIT_GT (s @ [CHR ''%'']) (CHR ''>'' # ?r) q4" "same q3 q4" by blast
  from close_code [OF q4(2) assms(2), of B] ok(4) obtain q5 where q5: "parser_loop B cb q4 = parser_loop B cb q5"
    "ready S_HTML [] ?r q5" "out q5 = emit (out q4) s (Code (cmd_code q4) s)" by auto
  have "out q5 = out p @ emit (emit [] h (Html h)) s (Code (if k = [] then 0 else ord (hd k)) s)"
    using q1(3) q2(3) q3(3,4) q4(3) q5(3) by (simp add: same_def emit_def)
  with q1(1) q2(1) q3(1) q4(1) q5(1,2) show ?thesis by metis
qed

lemma scan_tail:
  assumes "no_pair (CHR ''<'') (CHR ''%'') t" "length t + 1 < B" "\<forall>b. cb b" "ready S_HTML [] t p"
  shows "\<exists>q. and_then (parser_loop B cb p) (parser_flush B cb) = Done q \<and> out q = out p @ emit [] t (Html t)"
proof -
  have m: "mode S_HTML S_WAIT_PERC (CHR ''<'') (CHR ''%'')" by (simp add: mode_def)
  have r: "ready S_HTML [] (t @ []) p" "length ([] :: string) + length t + 1 < B" using assms(2,4) by simp_all
  from scan [OF m assms(1) r(1) disjI1 [OF refl] r(2), of cb] obtain q st' where
    q: "parser_loop B cb p = parser_loop B cb q" "ready st' t [] q" "st' \<in> {S_HTML, S_WAIT_PERC}" "same p q" by auto
  have "parser_loop B cb q = Done q" using q(2) by (subst parser_loop.simps) (simp add: ready_def)
  with q assms(2,3) show ?thesis
    by (auto simp: parser_flush_def hand_over_def parser_on_block_def on_block_in_def ready_def same_def emit_def)
qed

lemma scan_page:
  assumes "\<forall>x \<in> set ps. part_ok B x" "no_pair (CHR ''<'') (CHR ''%'') t" "length t + 1 < B" "\<forall>b. cb b"
    "ready S_HTML [] (page_text ps t) p"
  shows "\<exists>q. and_then (parser_loop B cb p) (parser_flush B cb) = Done q \<and> out q = out p @ page_blocks ps t"
  using assms(1,5)
proof (induction ps arbitrary: p)
  case Nil
  with scan_tail [OF assms(2-4)] show ?case by simp
next
  case (Cons x ps)
  obtain h k s where x: "x = (h, k, s)" by (cases x)
  with Cons.prems scan_part [OF _ assms(4), of B h k s ps t p] obtain q where
    q: "parser_loop B cb p = parser_loop B cb q" "ready S_HTML [] (page_text ps t) q"
    "out q = out p @ emit (emit [] h (Html h)) s (Code (if k = [] then 0 else ord (hd k)) s)" by auto
  from Cons.IH [OF _ q(2)] Cons.prems(1) q(1,3) x show ?case by simp
qed

lemma run_ready:
  assumes "page \<noteq> []"
  shows "\<exists>p. ready S_HTML [] page p \<and> out p = [] \<and>
     parser_run_with B cb (parser_create page False) = and_then (parser_loop B cb p) (parser_flush B cb)"
proof -
  let ?start = "(parser_create page False)\<lparr>c_cur := NUL, c_prev := NUL, buf := []\<rparr>"
  from fetch_ready [of "?start" page] obtain q where
    q: "fetch_next_char ?start = Done q" "ready S_START [] page q" "out q = []"
    by (auto simp: parser_create_def parser_reset_def)
  let ?p = "set_state S_HTML (q\<lparr>c_prev := c_cur q\<rparr>)"
  have "parser_step B cb q = Done ?p" "rc q = More"
    using q(2) assms by (auto simp: ready_def parser_step_def Let_def split: list.splits)
  then have "parser_loop B cb q = parser_loop B cb ?p" by (rule loop_step [rotated])
  moreover have "ready S_HTML [] page ?p" "out ?p = []"
    using q(2,3) by (auto simp: ready_def set_state_def split: list.splits)
  moreover have "\<not> 1 < line ?start" by (simp add: parser_create_def parser_reset_def)
  ultimately show ?thesis using q(1) by (auto simp: parser_run_with_def Let_def)
qed

lemma splits_page:
  assumes "\<forall>x \<in> set ps. part_ok B x" "no_pair (CHR ''<'') (CHR ''%'') t" "length t + 1 < B" "\<forall>b. cb b"
  shows "\<exists>q. parser_run_with B cb (parser_create (page_text ps t) False) = Done q \<and> out q = page_blocks ps t"
proof (cases "page_text ps t = []")
  case True
  then have "ps = []" "t = []" by (cases ps; auto)+
  then show ?thesis
    by (simp add: parser_run_with_def Let_def parser_create_def parser_reset_def fetch_next_char_def
        parser_loop.simps parser_flush_def emit_def)
next
  case False
  from run_ready [OF this, of B cb] obtain p where
    p: "ready S_HTML [] (page_text ps t) p" "out p = []"
    "parser_run_with B cb (parser_create (page_text ps t) False) = and_then (parser_loop B cb p) (parser_flush B cb)"
    by blast
  from scan_page [OF assms p(1)] p(2,3) show ?thesis by simp
qed

section \<open>Callbacks that refuse blocks\<close>

text \<open>
  What a callback refuses does not matter as long as it is not handed over: a run that succeeds with
  callbacks that take everything is the run with any callbacks that take the blocks it hands over.
\<close>

definition agrees :: "(block \<Rightarrow> bool) \<Rightarrow> parser \<Rightarrow> parser step \<Rightarrow> parser step \<Rightarrow> bool" where
  "agrees cb p r r' \<longleftrightarrow>
     (\<forall>q. r = Done q \<longrightarrow> set (out p) \<subseteq> set (out q) \<and> ((\<forall>b\<in>set (out q). cb b) \<longrightarrow> r' = Done q))"

lemma agrees_bind:
  assumes "agrees cb p r r'" "\<And>q. agrees cb q (f q) (f' q)"
  shows "agrees cb p (and_then r f) (and_then r' f')"
proof -
  have "set (out p) \<subseteq> set (out q) \<and> ((\<forall>b\<in>set (out q). cb b) \<longrightarrow> and_then r' f' = Done q)" if "and_then r f = Done q" for q
  proof -
    from that obtain s where s: "r = Done s" "f s = Done q" by (cases r) auto
    with assms(1) assms(2) [of s] have m: "set (out p) \<subseteq> set (out s)" "set (out s) \<subseteq> set (out q)"
      "(\<forall>b\<in>set (out s). cb b) \<longrightarrow> r' = Done s" "(\<forall>b\<in>set (out q). cb b) \<longrightarrow> f' s = Done q" by (auto simp: agrees_def)
    then show ?thesis by auto
  qed
  then show ?thesis by (simp add: agrees_def)
qed

lemma agrees_same: "(\<And>q. r = Done q \<Longrightarrow> out q = out p) \<Longrightarrow> agrees cb p r r"
  by (simp add: agrees_def)

lemma agrees_Done [simp]: "out q = out p \<Longrightarrow> agrees cb p (Done q) (Done q)"
  by (simp add: agrees_def)

lemma agrees_if:
  "(c \<Longrightarrow> agrees cb p a a') \<Longrightarrow> (\<not> c \<Longrightarrow> agrees cb p b b') \<Longrightarrow> agrees cb p (if c then a else b) (if c then a' else b')"
  by simp

lemma fetch_out: "fetch_next_char p = Done q \<Longrightarrow> out q = out p"
  by (auto simp: fetch_next_char_def Let_def split: list.splits if_splits)

lemma agrees_out: "out p' = out p \<Longrightarrow> agrees cb p' r r' \<Longrightarrow> agrees cb p r r'"
  by (simp add: agrees_def)

lemma on_block_agrees: "agrees cb p (parser_on_block (\<lambda>_. True) p b) (parser_on_block cb p b)"
  by (auto simp: agrees_def parser_on_block_def on_block_in_def)

lemma handed_agrees: "agrees cb p (hand_over B (\<lambda>_. True) p) (hand_over B cb p)"
  unfolding hand_over_def
  by (intro agrees_if agrees_bind [OF on_block_agrees]) (simp_all add: agrees_def)

lemma close_agrees: "agrees cb p (close_block B (\<lambda>_. True) p) (close_block B cb p)"
  by (auto simp: close_block_def Let_def agrees_same intro: agrees_out [OF _ handed_agrees])

lemma store_agrees: "agrees cb p (store_char B (\<lambda>_. True) p) (store_char B cb p)"
proof (cases "B \<le> length (buf p)")
  case False
  let ?p = "p\<lparr>buf := buf p @ [c_cur p]\<rparr>"
  have "agrees cb ?p
     (if length (buf ?p) = B - 1 then hand_over B (\<lambda>_. True) ?p else Done ?p)
     (if length (buf ?p) = B - 1 then hand_over B cb ?p else Done ?p)"
    by (rule agrees_if [OF handed_agrees agrees_Done]) simp
  from agrees_bind [OF this agrees_same [OF fetch_out]] False
  have "agrees cb ?p (store_char B (\<lambda>_. True) p) (store_char B cb p)"
    unfolding store_char_def Let_def by (simp only: if_False)
  then show ?thesis by (rule agrees_out [rotated]) simp
qed (simp add: store_char_def agrees_def)

lemma set_state_out [simp]: "out (set_state s p) = out p"
  by (simp add: set_state_def)

lemma step_agrees: "agrees cb p (parser_step B (\<lambda>_. True) p) (parser_step B cb p)"
proof -
  have store: "agrees cb p (store_char B (\<lambda>_. True) q) (store_char B cb q)" if "out q = out p" for q
    using that by (rule agrees_out [OF _ store_agrees])
  have close: "agrees cb p (and_then (close_block B (\<lambda>_. True) q) f) (and_then (close_block B cb q) f)"
    if "out q = out p" "\<And>u q. f u = Done q \<Longrightarrow> out q = out u" for f q
    by (rule agrees_out [OF that(1)], rule agrees_bind [OF close_agrees agrees_same]) (rule that(2))
  show ?thesis
  proof (cases "state p")
    case S_WAIT_PERC
    then show ?thesis unfolding parser_step_def Let_def
      by (auto intro!: close dest: fetch_out)
  next
    case S_START_CODE
    then show ?thesis unfolding parser_step_def Let_def
      by (auto intro!: agrees_same dest!: fetch_out simp: and_then_Done)
  next
    case S_WAIT_GT
    then show ?thesis unfolding parser_step_def Let_def
      by (auto intro!: close dest!: fetch_out simp: and_then_Done)
  next
    case S_EAT_NEWLINE
    then show ?thesis unfolding parser_step_def Let_def
      by (auto intro!: agrees_same dest: fetch_out)
  qed (auto simp: parser_step_def Let_def intro!: store)
qed

lemma loop_agrees: "agrees cb p (parser_loop B (\<lambda>_. True) p) (parser_loop B cb p)"
proof (induction B "\<lambda>_ :: block. True" p rule: parser_loop.induct)
  case (1 B p)
  show ?case
  proof (cases "rc p = More")
    case More: True
    show ?thesis
    proof (cases "parser_step B (\<lambda>_. True) p")
      case (Done q)
      have a: "agrees cb p (Done q) (parser_step B cb p)" using step_agrees [of cb p B] unfolding Done .
      have b: "agrees cb q (parser_loop B (\<lambda>_. True) q) (parser_loop B cb q)" by (rule 1 [OF More Done])
      have t: "parser_loop B (\<lambda>_. True) p = parser_loop B (\<lambda>_. True) q" by (rule loop_step [OF More Done])
      have "set (out p) \<subseteq> set (out r) \<and> ((\<forall>b\<in>set (out r). cb b) \<longrightarrow> parser_loop B cb p = Done r)"
        if r: "parser_loop B (\<lambda>_. True) q = Done r" for r
      proof -
        from a have pq: "set (out p) \<subseteq> set (out q)" "(\<forall>b\<in>set (out q). cb b) \<longrightarrow> parser_step B cb p = Done q" by (auto simp: agrees_def)
        from b r have qr: "set (out q) \<subseteq> set (out r)" "(\<forall>b\<in>set (out r). cb b) \<longrightarrow> parser_loop B cb q = Done r" by (auto simp: agrees_def)
        have "parser_loop B cb p = Done r" if "\<forall>b\<in>set (out r). cb b"
          using that pq(2) qr loop_step [OF More, of B cb q] by (metis subsetD)
        with pq(1) qr(1) show ?thesis by blast
      qed
      then show ?thesis unfolding t agrees_def by blast
    qed (use More in \<open>simp_all add: parser_loop.simps agrees_def\<close>)
  qed (simp add: parser_loop.simps)
qed

lemma run_takes:
  assumes "parser_run_with B (\<lambda>_. True) p = Done q" "\<forall>b\<in>set (out q). cb b"
  shows "parser_run_with B cb p = Done q"
proof -
  have "agrees cb r (parser_flush B (\<lambda>_. True) r) (parser_flush B cb r)" for r
    by (auto simp: parser_flush_def intro: handed_agrees)
  then have "agrees cb r (and_then (parser_loop B (\<lambda>_. True) r) (parser_flush B (\<lambda>_. True))) (and_then (parser_loop B cb r) (parser_flush B cb))" for r
    by (rule agrees_bind [OF loop_agrees])
  then have "agrees cb r (and_then (fetch_next_char r) (\<lambda>r. and_then (parser_loop B (\<lambda>_. True) r) (parser_flush B (\<lambda>_. True))))
     (and_then (fetch_next_char r) (\<lambda>r. and_then (parser_loop B cb r) (parser_flush B cb)))" for r
    by (intro agrees_bind [OF agrees_same [OF fetch_out]])
  with assms show ?thesis by (simp add: parser_run_with_def Let_def agrees_def split: if_splits)
qed

section \<open>Properties\<close>

text \<open>
  C17.  Scanning is the inverse of writing a page: on the text of a page whose pieces contain no
  delimiter and are shorter than the buffer, the parser succeeds and hands over exactly the
  non-empty pieces, in order, each as HTML or as code with its command character.
\<close>

theorem parser_splits_page:
  assumes "\<forall>x \<in> set ps. part_ok B x" "no_pair (CHR ''<'') (CHR ''%'') t" "length t + 1 < B" "\<forall>b. cb b"
  shows "\<exists>q. parser_run_with B cb (parser_create (page_text ps t) False) = Done q \<and> out q = page_blocks ps t"
  by (rule splits_page [OF assms])

theorem parser_splits_page_witness:
  "\<exists>q. parser_run_with 64 (\<lambda>_. True) (parser_create ''<b><<%= x %%><i>'' False) = Done q \<and>
     out q = [Html ''<b><'', Code 61 '' x %'', Html ''<i>'']"
proof -
  have h: "\<forall>x \<in> set [(''<b><'', ''='', '' x %'')]. part_ok 64 x" "no_pair (CHR ''<'') (CHR ''%'') ''<i>''"
    "length ''<i>'' + 1 < 64" "\<forall>b :: block. (\<lambda>_. True) b"
    by (simp_all add: part_ok_def c_isspace_def ord_def)
  from parser_splits_page [OF h] show ?thesis by (simp add: emit_def ord_def)
qed

text \<open>
  C26.  On any input, with any callbacks, the parser terminates without writing outside its
  262144-byte buffer, the terminator of every block it hands over included, and without reaching a state it has no case for.
\<close>

theorem parser_run_safe: "parser_run cb (parser_create page err) \<noteq> Crash"
proof -
  let ?start = "(parser_create page err)\<lparr>c_cur := NUL, c_prev := NUL, buf := []\<rparr>"
  have B: "2 \<le> BUFSZ" by (simp add: BUFSZ_def)
  have "parser_ok BUFSZ ?start" by (simp add: parser_ok_def parser_create_def parser_reset_def BUFSZ_def)
  then have "done_all (parser_ok BUFSZ) (and_then (fetch_next_char ?start) (parser_loop BUFSZ cb))"
    using parser_loop_ok [OF _ B] by (intro done_all_bind [OF fetch_ok])
  then have "done_all (parser_ok BUFSZ) (and_then (and_then (fetch_next_char ?start) (parser_loop BUFSZ cb)) (parser_flush BUFSZ cb))"
  proof (rule done_all_bind)
    fix p assume p: "parser_ok BUFSZ p"
    then have "live p" "length (buf p) < BUFSZ" unfolding parser_ok_def live_def by auto
    from hand_over_ok [OF this(1) B this(2)] p show "done_all (parser_ok BUFSZ) (parser_flush BUFSZ cb p)"
      by (simp add: parser_flush_def)
  qed
  then show ?thesis
    by (cases "fetch_next_char ?start") (auto simp: parser_run_def parser_run_with_def Let_def)
qed

text \<open>
  A delimiter that straddles the end of the buffer is not recognised as one: when exactly
  one byte of the buffer is left before \<^verbatim>\<open><%\<close>, the full buffer is handed over with the
  \<^verbatim>\<open><\<close> in it, and the \<^verbatim>\<open>%\<close> then opens the code block with nothing to erase.
\<close>

theorem delimiter_at_boundary:
  assumes "length h + 2 = B" "CHR ''<'' \<notin> set h" "h \<noteq> []" "\<forall>b. cb b"
  shows "\<exists>q. parser_run_with B cb (parser_create (h @ ''<%'' @ r) False) = and_then (parser_loop B cb q) (parser_flush B cb) \<and>
     out q = [Html (h @ ''<'')] \<and> ready S_START_CODE [] r q"
proof -
  have m: "mode S_HTML S_WAIT_PERC (CHR ''<'') (CHR ''%'')" by (simp add: mode_def)
  from run_ready [of "h @ ''<%'' @ r" B cb] obtain p where
    p: "ready S_HTML [] (h @ ''<%'' @ r) p" "out p = []"
    "parser_run_with B cb (parser_create (h @ ''<%'' @ r) False) = and_then (parser_loop B cb p) (parser_flush B cb)"
    by auto
  have scan_h: "\<exists>q. parser_loop B cb p = parser_loop B cb q \<and> ready S_HTML (bf @ l) t q \<and> same p q"
    if "ready S_HTML bf (l @ t) p" "CHR ''<'' \<notin> set l" "length bf + length l + 1 < B" for l bf t p
    using that
  proof (induction l arbitrary: bf p)
    case Nil
    then show ?case using same_refl by auto
  next
    case (Cons c l)
    from Cons.prems main_step [OF m, of bf c "l @ t" p B cb] obtain q where
      "parser_loop B cb p = parser_loop B cb q" "ready S_HTML (bf @ [c]) (l @ t) q" "same p q" by auto
    with Cons.IH [of "bf @ [c]" q] Cons.prems(2,3) same_trans show ?case by force
  qed
  from scan_h [of "[]" h "''<%'' @ r" p] p(1) assms(1,2) obtain q where
    q: "parser_loop B cb p = parser_loop B cb q" "ready S_HTML h (''<%'' @ r) q" "same p q" by auto
  let ?u = "(set_state S_WAIT_PERC (q\<lparr>c_prev := c_cur q\<rparr>))\<lparr>buf := h @ ''<''\<rparr>"
  let ?v = "?u\<lparr>out := [Html (h @ ''<'')], marks := marks q @ [code_line q], buf := []\<rparr>"
  have v: "input ?v = ''%'' @ r" "\<not> input_err ?v" using q(2) by (simp_all add: ready_def set_state_def)
  from fetch_ready [OF v(2) v(1)] obtain w where
    w: "fetch_next_char ?v = Done w" "ready S_WAIT_PERC [] (''%'' @ r) w" "out w = [Html (h @ ''<'')]"
    by (auto simp: set_state_def)
  have "length (h @ ''<'') = B - 1" "\<not> B \<le> length h" using assms(1) by auto
  then have "parser_step B cb q = Done w" "rc q = More"
    using q(2,3) w(1) p(2) assms(4)
    by (auto simp: parser_step_def ready_def Let_def store_char_def set_state_def parser_on_block_def
        on_block_in_def same_def hand_over_def)
  then have "parser_loop B cb q = parser_loop B cb w" by (rule loop_step [rotated])
  moreover
  let ?x = "(set_state S_START_CODE (w\<lparr>c_prev := c_cur w\<rparr>))\<lparr>code_line := line w\<rparr>"
  from fetch_ready [of "?x" r] w(2) obtain y where
    y: "fetch_next_char ?x = Done y" "ready S_START_CODE [] r y" "out y = out w"
    by (auto simp: ready_def set_state_def)
  have "parser_step B cb w = Done y" "rc w = More"
    using w(2) y(1) by (auto simp: parser_step_def ready_def Let_def close_block_def set_state_def)
  then have "parser_loop B cb w = parser_loop B cb y" by (rule loop_step [rotated])
  ultimately show ?thesis using p(3) q(1) w(3) y(2,3) by auto
qed

theorem delimiter_at_boundary_witness:
  "\<exists>q. parser_run_with 4 (\<lambda>_. True) (parser_create ''ab<%= x %>'' False)
       = and_then (parser_loop 4 (\<lambda>_. True) q) (parser_flush 4 (\<lambda>_. True)) \<and>
     out q = [Html ''ab<'']"
proof -
  have h: "length ''ab'' + 2 = 4" "CHR ''<'' \<notin> set ''ab''" "''ab'' \<noteq> []" "\<forall>b :: block. (\<lambda>_. True) b" by simp_all
  from delimiter_at_boundary [OF h, of "''= x %>''"] show ?thesis by auto
qed

end
