(* ===== verification/Io.thy ===== *)
theory Io
  imports Libu
begin

text \<open>
  \<^verbatim>\<open>src/libio/io.c\<close>, \<^verbatim>\<open>klone/ioprv.h\<close>, \<^verbatim>\<open>klone/codec.h\<close>: buffered streams over a
  device with a chain of codecs.  The device and the codecs are reached through the function
  pointers of \<^verbatim>\<open>struct io_s\<close> and \<^verbatim>\<open>codec_t\<close>: here the record \<open>io_ops\<close>, whose
  functions work on a device state and on a codec state.

  The read buffer and the underflow buffer are their unread bytes (\<^verbatim>\<open>rbuf[roff ..]\<close> of
  length \<^verbatim>\<open>rcount\<close>, \<^verbatim>\<open>ubuf[uoff ..]\<close> of length \<^verbatim>\<open>ucount\<close>): both are refilled
  from offset 0 only when empty, or consumed from the front.  The write buffer is the whole
  array, because \<^verbatim>\<open>io_flush\<close> does not move what it leaves.  Loops over codecs that may not
  end are partial functions whose value is \<open>None\<close> when they do not return.
\<close>

section \<open>Definitions\<close>

definition IO_RD_BUFSZ :: nat where "IO_RD_BUFSZ = 4096"
definition IO_WR_BUFSZ :: nat where "IO_WR_BUFSZ = 4096"
definition CODEC_BUFSZ :: nat where "CODEC_BUFSZ = 4096"

text \<open>
  \<open>d_read n\<close> is \<^verbatim>\<open>io->read\<close> of at most \<open>n\<close> bytes, \<open>d_write b\<close> the number of bytes
  of \<open>b\<close> accepted; \<open>None\<close> is a negative result.  \<open>c_transform cap src\<close> gives the number of
  bytes consumed and the bytes produced (at most \<open>cap\<close>); \<open>c_flush cap\<close> whether the flush is
  complete, and the bytes produced.
\<close>

record ('d, 'c) io_ops =
  d_read :: "nat \<Rightarrow> 'd \<Rightarrow> char list option \<times> 'd"
  d_write :: "char list \<Rightarrow> 'd \<Rightarrow> nat option \<times> 'd"
  d_seek :: "nat \<Rightarrow> 'd \<Rightarrow> nat option \<times> 'd"
  d_tell :: "'d \<Rightarrow> nat option"
  d_close :: "'d \<Rightarrow> bool \<times> 'd"
  d_free :: "'d \<Rightarrow> bool \<times> 'd"
  c_transform :: "nat \<Rightarrow> char list \<Rightarrow> 'c \<Rightarrow> (nat \<times> char list) option \<times> 'c"
  c_flush :: "nat \<Rightarrow> 'c \<Rightarrow> (bool \<times> char list) option \<times> 'c"

text \<open>A codec of a chain: its state, the bytes waiting in \<^verbatim>\<open>cbuf\<close> and their offset.\<close>

record 'c codec =
  cstate :: 'c
  cdata :: "char list"
  coff :: nat

record ('d, 'c) io =
  dev :: 'd
  chain :: "'c codec list"
  eof :: nat
  refcnt :: nat
  rbuf :: "char list"
  ubuf :: "char list"
  rballoc :: bool
  rtot :: nat
  wbuf :: "char list"
  wballoc :: bool
  wcount :: nat

definition io_prv_create :: "libu \<Rightarrow> nat \<Rightarrow> 'd \<Rightarrow> ('d, 'c) io option" where
  "io_prv_create L dev_sz d =
     (if u_malloc L dev_sz
      then Some \<lparr>dev = d, chain = [], eof = 0, refcnt = 1, rbuf = [], ubuf = [], rballoc = False,
                 rtot = 0, wbuf = [], wballoc = False, wcount = 0\<rparr>
      else None)"

definition io_dup :: "('d, 'c) io \<Rightarrow> ('d, 'c) io" where
  "io_dup io = io\<lparr>refcnt := refcnt io + 1\<rparr>"

definition io_rbuf_alloc :: "libu \<Rightarrow> ('d, 'c) io \<Rightarrow> ('d, 'c) io step" where
  "io_rbuf_alloc L io =
     (if u_malloc L IO_RD_BUFSZ then Done (io\<lparr>rballoc := True\<rparr>) else Failed io)"

definition io_wbuf_alloc :: "libu \<Rightarrow> ('d, 'c) io \<Rightarrow> ('d, 'c) io step" where
  "io_wbuf_alloc L io =
     (if u_malloc L IO_WR_BUFSZ
      then Done (io\<lparr>wballoc := True, wbuf := replicate IO_WR_BUFSZ NUL\<rparr>) else Failed io)"

subsection \<open>Codec chains\<close>

text \<open>
  \<^verbatim>\<open>io_transform\<close> and \<^verbatim>\<open>io_transform_codec_buffer\<close>.  The \<^verbatim>\<open>do ... while\<close> of
  \<^verbatim>\<open>io_transform\<close> repeats with the same arguments and the chain as the turn left it.  The
  result is the chain, and the bytes consumed and produced (\<open>None\<close>: an error).
\<close>

definition drop_buffered :: "nat \<Rightarrow> 'c codec \<Rightarrow> 'c codec" where
  "drop_buffered ct c =
     c\<lparr>cdata := drop ct (cdata c), coff := (if length (cdata c) - ct > 0 then coff c + ct else 0)\<rparr>"

fun buffer_moved ::
  "'c codec \<Rightarrow> 'c codec list \<times> (nat \<times> char list) option \<Rightarrow> 'c codec \<times> 'c codec list \<times> char list option" where
  "buffer_moved c (rest, None) = (c, rest, None)"
| "buffer_moved c (rest, Some (ct, b)) = (drop_buffered ct c, rest, Some b)"

definition fill_codec ::
  "('d, 'c) io_ops \<Rightarrow> char list \<Rightarrow> 'c codec \<Rightarrow> nat option \<times> 'c codec" where
  "fill_codec E src c =
     (let cavail = CODEC_BUFSZ - length (cdata c) - coff c in
      if src \<noteq> [] \<and> cavail \<noteq> 0
      then (case c_transform E cavail src (cstate c) of
              (None, st) \<Rightarrow> (None, c\<lparr>cstate := st\<rparr>)
            | (Some (n, b), st) \<Rightarrow>
                (if n = 0 \<and> b = [] then None else Some n, c\<lparr>cstate := st, cdata := cdata c @ b\<rparr>))
      else (Some 0, c))"

partial_function (option) io_transform ::
  "('d, 'c) io_ops \<Rightarrow> nat \<Rightarrow> char list \<Rightarrow> 'c codec list \<Rightarrow> ('c codec list \<times> (nat \<times> char list) option) option" where
  "io_transform E cap src ch =
     (case ch of
        [] \<Rightarrow> Some ([], None)
      | c # rest \<Rightarrow>
          (if rest = []
           then (case c_transform E cap src (cstate c) of
                   (None, st) \<Rightarrow> Some ([c\<lparr>cstate := st\<rparr>], None)
                 | (Some (n, b), st) \<Rightarrow>
                     Some ([c\<lparr>cstate := st\<rparr>], if n = 0 \<and> b = [] then None else Some (n, b)))
           else
             Option.bind
               (if cdata c = [] then Some (c, rest, Some [])
                else Option.bind (io_transform E cap (cdata c) rest) (\<lambda>r. Some (buffer_moved c r)))
               (\<lambda>r. case r of
                  (c1, rest1, None) \<Rightarrow> Some (c1 # rest1, None)
                | (c1, rest1, Some b) \<Rightarrow>
                    (case fill_codec E src c1 of
                       (None, c2) \<Rightarrow> Some (c2 # rest1, None)
                     | (Some n, c2) \<Rightarrow>
                         (if n = 0 \<and> b = [] \<and> (cdata c2 \<noteq> [] \<or> src \<noteq> [])
                          then io_transform E cap src (c2 # rest1)
                          else Some (c2 # rest1, Some (n, b)))))))"

definition io_transfer ::
  "('d, 'c) io_ops \<Rightarrow> nat \<Rightarrow> char list \<Rightarrow> 'c codec list \<Rightarrow> ('c codec list \<times> (nat \<times> char list) option) option" where
  "io_transfer E cap src ch =
     (if ch \<noteq> [] then io_transform E cap src ch
      else Some ([], Some (min (length src) cap, take (min (length src) cap) src)))"

text \<open>\<^verbatim>\<open>io_chain_flush_chunk\<close>: whether the chain is flushed, and the bytes produced.\<close>

partial_function (option) io_chain_flush_chunk ::
  "('d, 'c) io_ops \<Rightarrow> nat \<Rightarrow> 'c codec list \<Rightarrow> ('c codec list \<times> (bool \<times> char list) option) option" where
  "io_chain_flush_chunk E cap ch =
     (case ch of
        [] \<Rightarrow> Some ([], Some (True, []))
      | c # rest \<Rightarrow>
          (if rest = []
           then (case c_flush E cap (cstate c) of
                   (r, st) \<Rightarrow> Some ([c\<lparr>cstate := st\<rparr>], r))
           else
             Option.bind
               (if cdata c = [] then Some (c, rest, Some [])
                else Option.bind (io_transform E cap (cdata c) rest) (\<lambda>r. Some (buffer_moved c r)))
               (\<lambda>r. case r of
                  (c1, rest1, None) \<Rightarrow> Some (c1 # rest1, None)
                | (c1, rest1, Some b) \<Rightarrow>
                    (if b \<noteq> [] then Some (c1 # rest1, Some (False, b))
                     else
                       (case c_flush E (CODEC_BUFSZ - length (cdata c1) - coff c1) (cstate c1) of
                          (None, st) \<Rightarrow> Some (c1\<lparr>cstate := st\<rparr> # rest1, None)
                        | (Some (complete, fb), st) \<Rightarrow>
                            (let c2 = c1\<lparr>cstate := st, cdata := cdata c1 @ fb\<rparr> in
                             if complete \<and> cdata c2 = []
                             then Option.bind (io_chain_flush_chunk E cap rest1) (\<lambda>r. Some (c2 # fst r, snd r))
                             else io_chain_flush_chunk E cap (c2 # rest1)))))))"

subsection \<open>Writing\<close>

text \<open>\<^verbatim>\<open>io_flush\<close>: a device that accepts more than it was given has no defined meaning.\<close>

function flush_loop :: "('d, 'c) io_ops \<Rightarrow> nat \<Rightarrow> ('d, 'c) io \<Rightarrow> ('d, 'c) io step" where
  "flush_loop E off io =
     (if wcount io = 0 then Done io
      else case d_write E (take (wcount io) (drop off (wbuf io))) (dev io) of
        (None, d) \<Rightarrow> Failed (io\<lparr>dev := d\<rparr>)
      | (Some c, d) \<Rightarrow>
          (if c = 0 then Done (io\<lparr>dev := d\<rparr>)
           else if wcount io < c then Crash
           else flush_loop E (off + c) (io\<lparr>dev := d, wcount := wcount io - c\<rparr>)))"
  by pat_completeness auto
termination by (relation "measure (\<lambda>(E, off, io). wcount io)") auto

declare flush_loop.simps [simp del]

definition io_flush :: "('d, 'c) io_ops \<Rightarrow> ('d, 'c) io \<Rightarrow> ('d, 'c) io step" where
  "io_flush E io = flush_loop E 0 io"

text \<open>Storing into the write buffer at \<^verbatim>\<open>wcount\<close>.\<close>

definition wbuf_put :: "char list \<Rightarrow> ('d, 'c) io \<Rightarrow> ('d, 'c) io" where
  "wbuf_put b io =
     io\<lparr>wbuf := take (wcount io) (wbuf io) @ b @ drop (wcount io + length b) (wbuf io),
        wcount := wcount io + length b\<rparr>"

definition flush_if_full :: "('d, 'c) io_ops \<Rightarrow> ('d, 'c) io \<Rightarrow> ('d, 'c) io step" where
  "flush_if_full E io = (if length (wbuf io) = wcount io then io_flush E io else Done io)"

partial_function (option) write_loop ::
  "('d, 'c) io_ops \<Rightarrow> char list \<Rightarrow> ('d, 'c) io \<Rightarrow> ('d, 'c) io step option" where
  "write_loop E b io =
     (if b = [] then Some (Done io)
      else case flush_if_full E io of
        Failed io1 \<Rightarrow> Some (Failed io1)
      | Crash \<Rightarrow> Some Crash
      | Done io1 \<Rightarrow>
          Option.bind (io_transfer E (length (wbuf io1) - wcount io1) b (chain io1)) (\<lambda>r. case r of
            (ch, None) \<Rightarrow> Some (Failed (io1\<lparr>chain := ch\<rparr>))
          | (ch, Some (c, sz)) \<Rightarrow>
              (if c = 0 \<and> sz = [] then Some (Failed (io1\<lparr>chain := ch\<rparr>))
               else write_loop E (drop c b) (wbuf_put sz (io1\<lparr>chain := ch\<rparr>)))))"

definition io_write :: "libu \<Rightarrow> ('d, 'c) io_ops \<Rightarrow> char list \<Rightarrow> ('d, 'c) io \<Rightarrow> ('d, 'c) io step option" where
  "io_write L E b io =
     (case (if wballoc io then Done io else io_wbuf_alloc L io) of
        Done io1 \<Rightarrow> write_loop E b io1
      | Failed io1 \<Rightarrow> Some (Failed io1)
      | Crash \<Rightarrow> Some Crash)"

definition io_putc :: "libu \<Rightarrow> ('d, 'c) io_ops \<Rightarrow> char \<Rightarrow> ('d, 'c) io \<Rightarrow> ('d, 'c) io step option" where
  "io_putc L E c io = io_write L E [c] io"

text \<open>
  \<^verbatim>\<open>io_vprintf\<close> of a format whose expansion is \<open>t\<close>: a text that does not fit the
  2048-byte stack buffer is formatted again in an allocated one.
\<close>

definition io_vprintf :: "libu \<Rightarrow> ('d, 'c) io_ops \<Rightarrow> string \<Rightarrow> ('d, 'c) io \<Rightarrow> ('d, 'c) io step option" where
  "io_vprintf L E t io =
     (if 2048 \<le> length t
      then (if u_malloc L (length t + 1) then io_write L E t io else Some (Failed io))
      else if t \<noteq> [] then io_write L E t io
      else Some (Done io))"

text \<open>Running two stream operations one after the other.\<close>

definition io_seq :: "'s step option \<Rightarrow> ('s \<Rightarrow> 's step option) \<Rightarrow> 's step option" where
  "io_seq r f = Option.bind r (\<lambda>q. case q of Done s \<Rightarrow> f s | other \<Rightarrow> Some other)"

text \<open>
  \<^verbatim>\<open>io_chain_flush\<close>: chunks are copied to the write buffer, which is flushed when full; a
  device that accepts nothing keeps the copy loop running.
\<close>

partial_function (option) put_loop :: "('d, 'c) io_ops \<Rightarrow> char list \<Rightarrow> ('d, 'c) io \<Rightarrow> ('d, 'c) io step option" where
  "put_loop E b io =
     (if b = [] then Some (Done io)
      else case flush_if_full E io of
        Failed io1 \<Rightarrow> Some (Failed io1)
      | Crash \<Rightarrow> Some Crash
      | Done io1 \<Rightarrow>
          (let n = min (length b) (length (wbuf io1) - wcount io1)
           in put_loop E (drop n b) (wbuf_put (take n b) io1)))"

partial_function (option) io_chain_flush :: "('d, 'c) io_ops \<Rightarrow> ('d, 'c) io \<Rightarrow> ('d, 'c) io step option" where
  "io_chain_flush E io =
     Option.bind (io_chain_flush_chunk E 4096 (chain io)) (\<lambda>r. case r of
       (ch, None) \<Rightarrow> Some (Failed (io\<lparr>chain := ch\<rparr>))
     | (ch, Some (complete, b)) \<Rightarrow>
         (if complete then Some (Done (io\<lparr>chain := ch\<rparr>))
          else Option.bind (put_loop E b (io\<lparr>chain := ch\<rparr>)) (\<lambda>q. case q of
            Done io2 \<Rightarrow> io_chain_flush E io2
          | Failed io2 \<Rightarrow> Some (Failed io2)
          | Crash \<Rightarrow> Some Crash)))"

definition io_codec_add_head :: "'c codec \<Rightarrow> ('d, 'c) io \<Rightarrow> ('d, 'c) io" where
  "io_codec_add_head c io = io\<lparr>chain := c # chain io\<rparr>"

definition io_codec_add_tail :: "'c codec \<Rightarrow> ('d, 'c) io \<Rightarrow> ('d, 'c) io" where
  "io_codec_add_tail c io = io\<lparr>chain := chain io @ [c]\<rparr>"

definition io_codecs_remove :: "('d, 'c) io_ops \<Rightarrow> ('d, 'c) io \<Rightarrow> ('d, 'c) io step option" where
  "io_codecs_remove E io =
     (if chain io = [] then Some (Done io)
      else Option.bind (if wballoc io then io_chain_flush E io else Some (Done io)) (\<lambda>r. case r of
        Done io1 \<Rightarrow> Some (Done (io1\<lparr>chain := []\<rparr>))
      | Failed io1 \<Rightarrow> Some (Failed (io1\<lparr>chain := []\<rparr>))
      | Crash \<Rightarrow> Some Crash))"

definition io_close :: "('d, 'c) io_ops \<Rightarrow> ('d, 'c) io \<Rightarrow> ('d, 'c) io step" where
  "io_close E io = (case d_close E (dev io) of (ok, d) \<Rightarrow> if ok then Done (io\<lparr>dev := d\<rparr>) else Failed (io\<lparr>dev := d\<rparr>))"

text \<open>
  \<^verbatim>\<open>io_free\<close>: the steps before the release only log their errors.  The result is the
  object (\<open>None\<close> once it is released) or the error of freeing an object with no reference.
\<close>

fun kept :: "'s step \<Rightarrow> 's option" where
  "kept (Done s) = Some s"
| "kept (Failed s) = Some s"
| "kept Crash = None"

definition io_release :: "('d, 'c) io_ops \<Rightarrow> ('d, 'c) io \<Rightarrow> ('d, 'c) io step option" where
  "io_release E io =
     Option.bind (io_codecs_remove E io) (\<lambda>r.
       Some (case kept r of
         None \<Rightarrow> Crash
       | Some io1 \<Rightarrow>
           (case kept (io_flush E io1) of
              None \<Rightarrow> Crash
            | Some io2 \<Rightarrow>
                (case kept (io_close E io2) of
                   None \<Rightarrow> Crash
                 | Some io3 \<Rightarrow> Done (io3\<lparr>dev := snd (d_free E (dev io3))\<rparr>)))))"

definition io_free :: "('d, 'c) io_ops \<Rightarrow> ('d, 'c) io \<Rightarrow> (bool \<times> ('d, 'c) io step) option" where
  "io_free E io =
     (if refcnt io = 0 then Some (False, Failed io)
      else
        (let io1 = io\<lparr>refcnt := refcnt io - 1\<rparr> in
         if refcnt io1 \<noteq> 0 then Some (False, Done io1)
         else map_option (\<lambda>r. (True, r)) (io_release E io1)))"

definition io_seek :: "('d, 'c) io_ops \<Rightarrow> nat \<Rightarrow> ('d, 'c) io \<Rightarrow> nat option \<times> ('d, 'c) io step" where
  "io_seek E off io =
     (case io_flush E io of
        Done io1 \<Rightarrow> (case d_seek E off (dev io1) of (r, d) \<Rightarrow> (r, Done (io1\<lparr>dev := d\<rparr>)))
      | other \<Rightarrow> (None, other))"

definition io_tell :: "('d, 'c) io_ops \<Rightarrow> ('d, 'c) io \<Rightarrow> nat option \<times> ('d, 'c) io step" where
  "io_tell E io =
     (case io_flush E io of
        Done io1 \<Rightarrow> (d_tell E (dev io1), Done io1)
      | other \<Rightarrow> (None, other))"

subsection \<open>Reading\<close>

text \<open>The read result is the bytes (\<open>None\<close>: an error) and the object.\<close>

partial_function (option) underflow_loop :: "('d, 'c) io_ops \<Rightarrow> ('d, 'c) io \<Rightarrow> ('d, 'c) io step option" where
  "underflow_loop E io =
     (if rbuf io \<noteq> [] then Some (Done io)
      else
        (let got = (if ubuf io \<noteq> [] then (Some (ubuf io), dev io) else d_read E IO_RD_BUFSZ (dev io));
             io1 = io\<lparr>dev := snd got\<rparr>
         in case fst got of
              None \<Rightarrow> Some (Failed io1)
            | Some u \<Rightarrow>
                (if u = []
                 then (if chain io1 = [] then Some (Done io1)
                       else Option.bind (io_chain_flush_chunk E IO_RD_BUFSZ (chain io1)) (\<lambda>r. case r of
                         (ch, None) \<Rightarrow> Some (Failed (io1\<lparr>chain := ch\<rparr>))
                       | (ch, Some (complete, b)) \<Rightarrow>
                           Some (Done (io1\<lparr>chain := ch, rbuf := b, eof := (if complete then eof io1 + 1 else eof io1)\<rparr>))))
                 else Option.bind (io_transfer E IO_RD_BUFSZ u (chain io1)) (\<lambda>r. case r of
                         (ch, None) \<Rightarrow> Some (Failed (io1\<lparr>chain := ch, ubuf := u\<rparr>))
                       | (ch, Some (c, b)) \<Rightarrow>
                           (if c = 0 \<and> b = [] then Some (Failed (io1\<lparr>chain := ch, ubuf := u\<rparr>))
                            else underflow_loop E (io1\<lparr>chain := ch, ubuf := drop c u, rbuf := b\<rparr>))))))"

definition io_underflow :: "libu \<Rightarrow> ('d, 'c) io_ops \<Rightarrow> ('d, 'c) io \<Rightarrow> ('d, 'c) io step option" where
  "io_underflow L E io =
     (case (if rballoc io then Done io else io_rbuf_alloc L io) of
        Done io1 \<Rightarrow> underflow_loop E io1
      | Failed io1 \<Rightarrow> Some (Failed io1)
      | Crash \<Rightarrow> Some Crash)"

definition rbuf_take :: "nat \<Rightarrow> ('d, 'c) io \<Rightarrow> ('d, 'c) io" where
  "rbuf_take n io = io\<lparr>rbuf := drop n (rbuf io), rtot := rtot io + n\<rparr>"

partial_function (option) read_loop ::
  "libu \<Rightarrow> ('d, 'c) io_ops \<Rightarrow> nat \<Rightarrow> char list \<Rightarrow> ('d, 'c) io \<Rightarrow> (char list option \<times> ('d, 'c) io) option" where
  "read_loop L E n acc io =
     (if n = 0 then Some (Some acc, io)
      else Option.bind (if rbuf io = [] then io_underflow L E io else Some (Done io)) (\<lambda>r. case r of
        Failed io1 \<Rightarrow> Some (None, io1)
      | Crash \<Rightarrow> None
      | Done io1 \<Rightarrow>
          (if rbuf io1 = [] then Some (Some acc, io1)
           else
             (let wr = min (length (rbuf io1)) n
              in read_loop L E (n - wr) (acc @ take wr (rbuf io1)) (rbuf_take wr io1)))))"

definition io_read :: "libu \<Rightarrow> ('d, 'c) io_ops \<Rightarrow> nat \<Rightarrow> ('d, 'c) io \<Rightarrow> (char list option \<times> ('d, 'c) io) option" where
  "io_read L E n io = (if eof io \<noteq> 0 then Some (Some [], io) else read_loop L E n [] io)"

definition io_getc :: "libu \<Rightarrow> ('d, 'c) io_ops \<Rightarrow> ('d, 'c) io \<Rightarrow> (char list option \<times> ('d, 'c) io) option" where
  "io_getc L E io = io_read L E 1 io"

text \<open>\<^verbatim>\<open>io_strnchr\<close>: the number of bytes up to and including the first occurrence.\<close>

fun io_strnchr :: "char list \<Rightarrow> char \<Rightarrow> nat option" where
  "io_strnchr [] c = None"
| "io_strnchr (x # b) c = (if x = c then Some 1 else map_option Suc (io_strnchr b c))"

partial_function (option) get_until_loop ::
  "libu \<Rightarrow> ('d, 'c) io_ops \<Rightarrow> char \<Rightarrow> nat \<Rightarrow> char list \<Rightarrow> ('d, 'c) io \<Rightarrow> (char list option \<times> ('d, 'c) io) option" where
  "get_until_loop L E stop room acc io =
     (case io_strnchr (rbuf io) stop of
        Some p \<Rightarrow>
          (let wr = min p room in Some (Some (acc @ take wr (rbuf io)), rbuf_take wr io))
      | None \<Rightarrow>
          (if length (rbuf io) \<le> room
           then Option.bind (io_underflow L E (rbuf_take (length (rbuf io)) io)) (\<lambda>r. case r of
                  Failed io1 \<Rightarrow> Some (None, io1)
                | Crash \<Rightarrow> None
                | Done io1 \<Rightarrow>
                    (if rbuf io1 = [] then Some (Some (acc @ rbuf io), io1)
                     else get_until_loop L E stop (room - length (rbuf io)) (acc @ rbuf io) io1))
           else Some (Some (acc @ take room (rbuf io)), rbuf_take room io)))"

definition io_get_until ::
  "libu \<Rightarrow> ('d, 'c) io_ops \<Rightarrow> char \<Rightarrow> nat \<Rightarrow> ('d, 'c) io \<Rightarrow> (char list option \<times> ('d, 'c) io) option" where
  "io_get_until L E stop sz io =
     (if sz < 2 then Some (None, io)
      else Option.bind (if rbuf io = [] then io_underflow L E io else Some (Done io)) (\<lambda>r. case r of
        Failed io1 \<Rightarrow> Some (None, io1)
      | Crash \<Rightarrow> None
      | Done io1 \<Rightarrow>
          (if rbuf io1 = [] then Some (Some [], io1)
           else get_until_loop L E stop (sz - 1) [] io1)))"

definition io_gets :: "libu \<Rightarrow> ('d, 'c) io_ops \<Rightarrow> nat \<Rightarrow> ('d, 'c) io \<Rightarrow> (char list option \<times> ('d, 'c) io) option" where
  "io_gets L E sz io = io_get_until L E LF sz io"

subsection \<open>Copying between streams\<close>

text \<open>The result is the number of bytes copied (\<open>None\<close>: an error) and both objects.\<close>

partial_function (option) copy_loop ::
  "libu \<Rightarrow> ('d, 'c) io_ops \<Rightarrow> ('e, 'f) io_ops \<Rightarrow> nat option \<Rightarrow> nat \<Rightarrow> ('d, 'c) io \<Rightarrow> ('e, 'f) io \<Rightarrow>
   (nat option \<times> ('d, 'c) io step \<times> ('e, 'f) io) option" where
  "copy_loop L Eo Ei rem n out inp =
     (if rem = Some 0 then Some (Some n, Done out, inp)
      else Option.bind (io_read L Ei (case rem of None \<Rightarrow> 4096 | Some k \<Rightarrow> min 4096 k) inp) (\<lambda>r. case r of
        (None, inp1) \<Rightarrow> Some (None, Done out, inp1)
      | (Some b, inp1) \<Rightarrow>
          (if b = [] then Some (Some n, Done out, inp1)
           else Option.bind (io_write L Eo b out) (\<lambda>q. case q of
             Done out1 \<Rightarrow>
               copy_loop L Eo Ei (map_option (\<lambda>k. k - length b) rem) (n + length b) out1 inp1
           | other \<Rightarrow> Some (None, other, inp1)))))"

definition io_pipe ::
  "libu \<Rightarrow> ('d, 'c) io_ops \<Rightarrow> ('e, 'f) io_ops \<Rightarrow> ('d, 'c) io \<Rightarrow> ('e, 'f) io \<Rightarrow>
   (nat option \<times> ('d, 'c) io step \<times> ('e, 'f) io) option" where
  "io_pipe L Eo Ei out inp = copy_loop L Eo Ei None 0 out inp"

definition io_copy ::
  "libu \<Rightarrow> ('d, 'c) io_ops \<Rightarrow> ('e, 'f) io_ops \<Rightarrow> nat \<Rightarrow> ('d, 'c) io \<Rightarrow> ('e, 'f) io \<Rightarrow>
   (nat option \<times> ('d, 'c) io step \<times> ('e, 'f) io) option" where
  "io_copy L Eo Ei sz out inp = copy_loop L Eo Ei (Some sz) 0 out inp"

end
