(* ===== verification/Io_Device.thy ===== *)
theory Io_Device
  imports Io
begin

text \<open>
  What the stream layer relies on from a device, as locales: a source hands out its pending
  bytes in order and at least one of them per read, a sink appends at least one byte of each
  write while it has room.  The lemmas on streams without codecs are proved here once; the
  devices interpret the locales.
\<close>

text \<open>A line: up to and including the stop character, or as much as the caller's buffer holds.\<close>

fun upto_stop :: "char \<Rightarrow> char list \<Rightarrow> char list" where
  "upto_stop c [] = []"
| "upto_stop c (x # b) = (if x = c then [x] else x # upto_stop c b)"

lemma strnchr_Some: "io_strnchr b c = Some p \<Longrightarrow> p \<le> length b \<and> upto_stop c (b @ r) = take p b"
  by (induction b arbitrary: p) (auto split: if_splits)

lemma strnchr_None: "io_strnchr b c = None \<Longrightarrow> upto_stop c (b @ r) = b @ upto_stop c r"
  by (induction b) (auto split: if_splits)

lemma upto_stop_take: "take (length (upto_stop c b)) b = upto_stop c b"
  by (induction b) auto

section \<open>Streams to read from\<close>

text \<open>
  What the reading functions rely on: \<open>avail\<close> is what a stream still has to deliver, and an
  underflow moves some of it to the read buffer unless nothing is left.
\<close>

locale read_stream =
  fixes E :: "('d, 'c) io_ops"
    and plain :: "('d, 'c) io \<Rightarrow> bool"
    and avail :: "('d, 'c) io \<Rightarrow> char list"
    and same_out :: "('d, 'c) io \<Rightarrow> ('d, 'c) io \<Rightarrow> bool"
  assumes underflow_loop_ok: "plain io \<Longrightarrow> rbuf io = [] \<Longrightarrow>
      \<exists>io'. underflow_loop E io = Some (Done io') \<and> plain io' \<and> avail io' = avail io \<and>
        (rbuf io' = [] \<longleftrightarrow> avail io = []) \<and> same_out io io' \<and> rtot io' = rtot io"
    and alloc_ok: "plain (io\<lparr>rballoc := r\<rparr>) = plain io" "avail (io\<lparr>rballoc := r\<rparr>) = avail io"
      "same_out (io\<lparr>rballoc := r\<rparr>) x = same_out io x"
    and rbuf_take_ok: "n \<le> length (rbuf io) \<Longrightarrow> plain io \<Longrightarrow>
      plain (rbuf_take n io) \<and> avail (rbuf_take n io) = drop n (avail io) \<and> same_out io (rbuf_take n io)"
    and rbuf_avail: "plain io \<Longrightarrow> \<exists>r. avail io = rbuf io @ r"
    and same_out_refl: "same_out io io"
    and same_out_trans: "same_out io io1 \<Longrightarrow> same_out io1 io2 \<Longrightarrow> same_out io io2"
begin

lemma rbuf_prefix: "plain io \<Longrightarrow> length (rbuf io) \<le> length (avail io) \<and> (n \<le> length (rbuf io) \<longrightarrow> take n (rbuf io) = take n (avail io))"
  using rbuf_avail [of io] by auto

lemma io_underflow_ok:
  assumes "libu_ok L" "libu_mem L" "plain io" "rbuf io = []"
  shows "\<exists>io'. io_underflow L E io = Some (Done io') \<and> plain io' \<and> avail io' = avail io \<and>
     (rbuf io' = [] \<longleftrightarrow> avail io = []) \<and> same_out io io' \<and> rtot io' = rtot io"
proof -
  let ?a = "io\<lparr>rballoc := True\<rparr>"
  have a: "plain ?a" "avail ?a = avail io" "same_out ?a x = same_out io x" for x
    using assms(3) alloc_ok by simp_all
  have "io_underflow L E io = underflow_loop E (if rballoc io then io else ?a)"
    by (simp add: io_underflow_def io_rbuf_alloc_def libu_memD [OF assms(1,2)])
  then show ?thesis
    using underflow_loop_ok [OF assms(3,4)] underflow_loop_ok [OF a(1)] assms(4) a(2,3) by auto
qed

text \<open>The next block: what \<^verbatim>\<open>io_read\<close> and \<^verbatim>\<open>io_get_until\<close> do when the buffer is empty.\<close>

lemma refill_ok:
  assumes "libu_ok L" "libu_mem L" "plain io"
  shows "\<exists>io'. (if rbuf io = [] then io_underflow L E io else Some (Done io)) = Some (Done io') \<and> plain io' \<and>
     avail io' = avail io \<and> (rbuf io' = [] \<longleftrightarrow> avail io = []) \<and> same_out io io' \<and> rtot io' = rtot io"
  using io_underflow_ok [OF assms] assms(3)
  by (cases "rbuf io = []") (use rbuf_avail [of io] same_out_refl in auto)

lemma read_loop_ok:
  assumes "libu_ok L" "libu_mem L" "plain io"
  shows "\<exists>io'. read_loop L E n acc io = Some (Some (acc @ take n (avail io)), io') \<and> plain io' \<and>
     avail io' = drop n (avail io) \<and> same_out io io' \<and> rtot io' = rtot io + min n (length (avail io))"
  using assms(3)
proof (induction n arbitrary: acc io rule: less_induct)
  case (less n)
  show ?case
  proof (cases "n = 0")
    case True
    with less.prems show ?thesis by (subst read_loop.simps) (simp add: same_out_refl)
  next
    case False
    from refill_ok [OF assms(1,2) less.prems] obtain io1 where
      io1: "(if rbuf io = [] then io_underflow L E io else Some (Done io)) = Some (Done io1)" "plain io1"
        "avail io1 = avail io" "rbuf io1 = [] \<longleftrightarrow> avail io = []" "same_out io io1" "rtot io1 = rtot io" by blast
    show ?thesis
    proof (cases "rbuf io1 = []")
      case True
      with False io1 show ?thesis by (subst read_loop.simps) auto
    next
      case ne: False
      let ?wr = "min (length (rbuf io1)) n"
      have wr: "0 < ?wr" "n - ?wr < n" using ne False by auto
      from rbuf_take_ok [OF _ io1(2), of ?wr] have
        t: "plain (rbuf_take ?wr io1)" "avail (rbuf_take ?wr io1) = drop ?wr (avail io)" "same_out io1 (rbuf_take ?wr io1)"
        using io1(3) by simp_all
      from less.IH [OF wr(2) t(1), of "acc @ take ?wr (rbuf io1)"] obtain io' where
        io': "read_loop L E (n - ?wr) (acc @ take ?wr (rbuf io1)) (rbuf_take ?wr io1) =
          Some (Some ((acc @ take ?wr (rbuf io1)) @ take (n - ?wr) (drop ?wr (avail io))), io')" "plain io'"
          "avail io' = drop (n - ?wr) (drop ?wr (avail io))" "same_out (rbuf_take ?wr io1) io'"
          "rtot io' = rtot (rbuf_take ?wr io1) + min (n - ?wr) (length (drop ?wr (avail io)))"
        using t(2) by auto
      have eq: "read_loop L E n acc io =
          read_loop L E (n - ?wr) (acc @ take ?wr (rbuf io1)) (rbuf_take ?wr io1)"
        using False io1(1) ne by (subst read_loop.simps) (simp add: Let_def)
      have pre: "take ?wr (rbuf io1) = take ?wr (avail io)" "?wr \<le> length (avail io)"
        using rbuf_prefix [OF io1(2), of ?wr] unfolding io1(3) by auto
      have tk: "take ?wr (avail io) @ take (n - ?wr) (drop ?wr (avail io)) = take n (avail io)"
        by (metis le_add_diff_inverse min.cobounded2 take_add)
      have "read_loop L E n acc io = Some (Some (acc @ take n (avail io)), io')"
        using eq io'(1) tk unfolding pre(1) append.assoc by simp
      moreover have "avail io' = drop n (avail io)" using io'(3) by simp
      moreover have "rtot io' = rtot io + min n (length (avail io))"
        using io'(5) io1(6) pre(2) by (simp add: rbuf_take_def) arith
      moreover have "same_out io io'" using io1(5) t(3) io'(4) same_out_trans by blast
      ultimately show ?thesis using io'(2) by blast
    qed
  qed
qed

lemma get_until_loop_ok:
  assumes "libu_ok L" "libu_mem L" "plain io" "rbuf io \<noteq> []"
  shows "\<exists>io' n. get_until_loop L E stop room acc io = Some (Some (acc @ take room (upto_stop stop (avail io))), io') \<and>
     plain io' \<and> n = min room (length (upto_stop stop (avail io))) \<and> avail io' = drop n (avail io) \<and> same_out io io'"
  using assms(3,4)
proof (induction "length (avail io)" arbitrary: room acc io rule: less_induct)
  case less
  obtain r where av: "avail io = rbuf io @ r" using rbuf_avail [OF less.prems(1)] by blast
  consider (found) p where "io_strnchr (rbuf io) stop = Some p"
    | (short) "io_strnchr (rbuf io) stop = None" "room < length (rbuf io)"
    | (more) "io_strnchr (rbuf io) stop = None" "length (rbuf io) \<le> room"
    by (cases "io_strnchr (rbuf io) stop"; cases "room < length (rbuf io)") auto
  then show ?case
  proof cases
    case found
    from strnchr_Some [OF found] have p: "p \<le> length (rbuf io)" "upto_stop stop (avail io) = take p (rbuf io)"
      unfolding av by auto
    let ?wr = "min p room"
    have "get_until_loop L E stop room acc io = Some (Some (acc @ take ?wr (rbuf io)), rbuf_take ?wr io)"
      using found by (subst get_until_loop.simps) (simp add: Let_def)
    moreover have "take ?wr (rbuf io) = take room (upto_stop stop (avail io))"
      "?wr = min room (length (upto_stop stop (avail io)))"
      using p by (simp_all add: min.commute)
    ultimately show ?thesis using rbuf_take_ok [OF _ less.prems(1), of ?wr] p(1) by auto
  next
    case short
    have u: "upto_stop stop (avail io) = rbuf io @ upto_stop stop r"
      unfolding av by (rule strnchr_None [OF short(1)])
    have "get_until_loop L E stop room acc io = Some (Some (acc @ take room (rbuf io)), rbuf_take room io)"
      using short by (subst get_until_loop.simps) simp
    with short(2) u rbuf_take_ok [OF _ less.prems(1), of room] show ?thesis by simp
  next
    case more
    have u: "upto_stop stop (avail io) = rbuf io @ upto_stop stop r"
      unfolding av by (rule strnchr_None [OF more(1)])
    let ?e = "rbuf_take (length (rbuf io)) io"
    have e: "plain ?e" "rbuf ?e = []" "avail ?e = r" "same_out io ?e"
      using rbuf_take_ok [OF order_refl less.prems(1)] av by (simp_all add: rbuf_take_def)
    from io_underflow_ok [OF assms(1,2) e(1,2)] obtain io1 where
      io1: "io_underflow L E ?e = Some (Done io1)" "plain io1" "avail io1 = avail ?e"
        "rbuf io1 = [] \<longleftrightarrow> avail ?e = []" "same_out ?e io1" by blast
    show ?thesis
    proof (cases "rbuf io1 = []")
      case True
      with more io1 have "get_until_loop L E stop room acc io = Some (Some (acc @ rbuf io), io1)"
        by (subst get_until_loop.simps) simp
      with True more(2) u e io1 av same_out_trans [OF e(4) io1(5)] show ?thesis by simp
    next
      case False
      let ?room = "room - length (rbuf io)"
      have "length (avail io1) < length (avail io)" using io1(3) e(3) less.prems(2) av by simp
      from less.hyps [OF this io1(2) False, of ?room "acc @ rbuf io"] obtain io' where
        io': "get_until_loop L E stop ?room (acc @ rbuf io) io1 =
            Some (Some ((acc @ rbuf io) @ take ?room (upto_stop stop (avail io1))), io')" "plain io'"
          "avail io' = drop (min ?room (length (upto_stop stop (avail io1)))) (avail io1)" "same_out io1 io'" by blast
      have "get_until_loop L E stop room acc io = get_until_loop L E stop ?room (acc @ rbuf io) io1"
        using more io1(1) False by (subst get_until_loop.simps) simp
      moreover have "same_out io io'" using e(4) io1(5) io'(4) same_out_trans by blast
      moreover have "avail io' = drop (min room (length (upto_stop stop (avail io)))) (avail io)"
        using io'(3) io1(3) e(3) u more(2) av by (auto simp: min_def)
      ultimately show ?thesis using io' io1(3) e(3) u more(2) by simp
    qed
  qed
qed

lemma io_get_until_ok:
  assumes "libu_ok L" "libu_mem L" "plain io" "2 \<le> sz"
  shows "\<exists>io' line. io_get_until L E stop sz io = Some (Some line, io') \<and>
     line = take (sz - 1) (upto_stop stop (avail io)) \<and> plain io' \<and> avail io = line @ avail io' \<and> same_out io io'"
proof -
  from refill_ok [OF assms(1-3)] obtain io1 where
    io1: "(if rbuf io = [] then io_underflow L E io else Some (Done io)) = Some (Done io1)" "plain io1"
      "avail io1 = avail io" "rbuf io1 = [] \<longleftrightarrow> avail io = []" "same_out io io1" by blast
  show ?thesis
  proof (cases "rbuf io1 = []")
    case True
    with io1 assms(4) show ?thesis by (auto simp: io_get_until_def)
  next
    case False
    from get_until_loop_ok [OF assms(1,2) io1(2) False, of stop "sz - 1" "[]"] obtain io' where
      io': "get_until_loop L E stop (sz - 1) [] io1 = Some (Some (take (sz - 1) (upto_stop stop (avail io))), io')"
        "plain io'" "avail io' = drop (min (sz - 1) (length (upto_stop stop (avail io)))) (avail io)" "same_out io1 io'"
      using io1(3) by auto
    have pre: "take k (upto_stop stop b) = take (min k (length (upto_stop stop b))) b" for k b
      by (metis upto_stop_take take_take)
    have "avail io = take (sz - 1) (upto_stop stop (avail io)) @ avail io'"
      using io'(3) pre by (metis append_take_drop_id)
    with io1 io' False assms(4) same_out_trans show ?thesis by (auto simp: io_get_until_def)
  qed
qed

lemma io_read_ok:
  assumes "libu_ok L" "libu_mem L" "plain io" "eof io = 0"
  shows "\<exists>io'. io_read L E n io = Some (Some (take n (avail io)), io') \<and> plain io' \<and>
     avail io' = drop n (avail io) \<and> same_out io io' \<and> rtot io' = rtot io + min n (length (avail io))"
  using read_loop_ok [OF assms(1-3), of n "[]"] assms(4) by (simp add: io_read_def)

end

section \<open>Sources\<close>

locale source_device =
  fixes E :: "('d, 'c) io_ops"
    and pending :: "'d \<Rightarrow> char list"
    and good :: "'d \<Rightarrow> bool"
  assumes read_law: "good d \<Longrightarrow> 0 < n \<Longrightarrow>
    \<exists>k d'. d_read E n d = (Some (take k (pending d)), d') \<and> k \<le> n \<and> (pending d \<noteq> [] \<longrightarrow> 0 < k) \<and>
           pending d' = drop k (pending d) \<and> good d'"
begin

text \<open>The bytes the stream still has to deliver.\<close>

definition avail :: "('d, 'c) io \<Rightarrow> char list" where
  "avail io = rbuf io @ ubuf io @ pending (dev io)"

definition plain :: "('d, 'c) io \<Rightarrow> bool" where
  "plain io \<longleftrightarrow> chain io = [] \<and> good (dev io)"

definition same_out :: "('d, 'c) io \<Rightarrow> ('d, 'c) io \<Rightarrow> bool" where
  "same_out io io' \<longleftrightarrow> eof io' = eof io \<and> refcnt io' = refcnt io \<and> wbuf io' = wbuf io \<and> wballoc io' = wballoc io \<and> wcount io' = wcount io"

lemma underflow_loop_rbuf: "rbuf io \<noteq> [] \<Longrightarrow> underflow_loop E io = Some (Done io)"
  by (subst underflow_loop.simps) simp

lemma plain_underflow:
  assumes "plain io" "rbuf io = []"
  shows "\<exists>io'. underflow_loop E io = Some (Done io') \<and> plain io' \<and> avail io' = avail io \<and>
     (rbuf io' = [] \<longleftrightarrow> avail io = []) \<and> same_out io io' \<and> rtot io' = rtot io"
proof -
  have c: "chain io = []" and g: "good (dev io)" using assms(1) by (simp_all add: plain_def)
  have pos: "0 < IO_RD_BUFSZ" by (simp add: IO_RD_BUFSZ_def)
  obtain u d where u: "(if ubuf io \<noteq> [] then (Some (ubuf io), dev io) else d_read E IO_RD_BUFSZ (dev io)) = (Some u, d)"
    "u @ pending d = ubuf io @ pending (dev io)" "good d" "u = [] \<longrightarrow> ubuf io = [] \<and> pending (dev io) = []"
    using read_law [OF g pos] g by (cases "ubuf io = []") force+
  show ?thesis
  proof (cases "u = []")
    case True
    then have "underflow_loop E io = Some (Done (io\<lparr>dev := d\<rparr>))"
      using u(1) c assms(2) by (subst underflow_loop.simps) (simp add: Let_def)
    with True u c assms(2) show ?thesis by (auto simp: plain_def avail_def same_out_def)
  next
    case False
    define n where "n = min (length u) IO_RD_BUFSZ"
    let ?io' = "io\<lparr>dev := d, chain := [], ubuf := drop n u, rbuf := take n u\<rparr>"
    have ne: "take n u \<noteq> []" "n \<noteq> 0" using False pos by (auto simp: n_def)
    have "underflow_loop E io = underflow_loop E ?io'"
      using u(1) c False ne assms(2)
      by (subst underflow_loop.simps) (simp add: Let_def io_transfer_def n_def [symmetric])
    also have "\<dots> = Some (Done ?io')" using ne(1) by (intro underflow_loop_rbuf) simp
    finally have eq: "underflow_loop E io = Some (Done ?io')" .
    have "avail ?io' = avail io" using u(2) assms(2)
      by (simp add: avail_def) (metis append.assoc append_take_drop_id)
    moreover have "avail io \<noteq> []" using u(2) False assms(2) by (auto simp: avail_def)
    ultimately show ?thesis using eq ne u(3) by (auto simp: plain_def same_out_def)
  qed
qed

end

sublocale source_device \<subseteq> read_stream E plain avail same_out
proof
  show "\<exists>io'. underflow_loop E io = Some (Done io') \<and> plain io' \<and> avail io' = avail io \<and>
        (rbuf io' = [] \<longleftrightarrow> avail io = []) \<and> same_out io io' \<and> rtot io' = rtot io" if "plain io" "rbuf io = []" for io
    by (rule plain_underflow [OF that])
qed (auto simp: plain_def avail_def same_out_def rbuf_take_def)

section \<open>Sinks\<close>

locale sink_device =
  fixes E :: "('d, 'c) io_ops"
    and sunk :: "'d \<Rightarrow> char list"
    and space :: "'d \<Rightarrow> nat"
    and good :: "'d \<Rightarrow> bool"
  assumes write_law: "good d \<Longrightarrow> b \<noteq> [] \<Longrightarrow> length b \<le> space d \<Longrightarrow>
    \<exists>k d'. d_write E b d = (Some k, d') \<and> 0 < k \<and> k \<le> length b \<and> sunk d' = sunk d @ take k b \<and>
           space d' = space d - k \<and> good d'"
begin

text \<open>What has been written to the stream: the device's bytes and the buffered ones.\<close>

definition written :: "('d, 'c) io \<Rightarrow> char list" where
  "written io = sunk (dev io) @ take (wcount io) (wbuf io)"

text \<open>The bytes the stream can still take without an error.\<close>

definition room :: "('d, 'c) io \<Rightarrow> nat" where
  "room io = space (dev io) - wcount io"

definition wok :: "('d, 'c) io \<Rightarrow> bool" where
  "wok io \<longleftrightarrow> chain io = [] \<and> good (dev io) \<and> wcount io \<le> space (dev io) \<and> wcount io \<le> length (wbuf io) \<and>
     (if wballoc io then length (wbuf io) = IO_WR_BUFSZ else wbuf io = [])"

definition same_in :: "('d, 'c) io \<Rightarrow> ('d, 'c) io \<Rightarrow> bool" where
  "same_in io io' \<longleftrightarrow> eof io' = eof io \<and> refcnt io' = refcnt io \<and> rbuf io' = rbuf io \<and> ubuf io' = ubuf io \<and> rtot io' = rtot io"

lemma same_in_trans: "same_in a b \<Longrightarrow> same_in b c \<Longrightarrow> same_in a c"
  by (simp add: same_in_def)

lemma flush_loop_ok:
  assumes "good (dev io)" "wcount io \<le> space (dev io)" "off + wcount io \<le> length (wbuf io)"
  shows "\<exists>d'. flush_loop E off io = Done (io\<lparr>dev := d', wcount := 0\<rparr>) \<and> good d' \<and>
     sunk d' = sunk (dev io) @ take (wcount io) (drop off (wbuf io)) \<and> space d' = space (dev io) - wcount io"
  using assms
proof (induction "wcount io" arbitrary: io off rule: less_induct)
  case less
  show ?case
  proof (cases "wcount io = 0")
    case True
    then have "io\<lparr>dev := dev io, wcount := 0\<rparr> = io" by simp
    with True less.prems show ?thesis by (subst flush_loop.simps) (auto intro: exI [of _ "dev io"])
  next
    case False
    let ?b = "take (wcount io) (drop off (wbuf io))"
    have b: "?b \<noteq> []" "length ?b = wcount io" using False less.prems(3) by auto
    with write_law [OF less.prems(1) b(1)] less.prems(2) obtain k d' where
      k: "d_write E ?b (dev io) = (Some k, d')" "0 < k" "k \<le> wcount io" "sunk d' = sunk (dev io) @ take k ?b"
        "space d' = space (dev io) - k" "good d'" by auto
    let ?io = "io\<lparr>dev := d', wcount := wcount io - k\<rparr>"
    have step: "flush_loop E off io = flush_loop E (off + k) ?io"
      using False k(1-3) by (subst flush_loop.simps) simp
    have "wcount ?io < wcount io" "good (dev ?io)" "wcount ?io \<le> space (dev ?io)" "off + k + wcount ?io \<le> length (wbuf ?io)"
      using k False less.prems by auto
    from less.hyps [OF this] obtain d'' where
      d'': "flush_loop E (off + k) ?io = Done (?io\<lparr>dev := d'', wcount := 0\<rparr>)" "good d''"
        "sunk d'' = sunk d' @ take (wcount io - k) (drop (off + k) (wbuf io))" "space d'' = space d' - (wcount io - k)"
      by auto
    have "take k ?b @ take (wcount io - k) (drop (off + k) (wbuf io)) = ?b"
      using k(3) by (simp add: min.absorb1) (metis add.commute drop_drop le_add_diff_inverse take_add)
    then have "sunk d'' = sunk (dev io) @ ?b" using d''(3) k(4) by simp
    moreover have "space d'' = space (dev io) - wcount io" using d''(4) k(3,5) by simp
    ultimately show ?thesis using step d''(1,2) by auto
  qed
qed

lemma io_flush_ok:
  assumes "wok io"
  shows "\<exists>io'. io_flush E io = Done io' \<and> wok io' \<and> wcount io' = 0 \<and> written io' = written io \<and>
     sunk (dev io') = written io \<and> room io' = room io \<and> same_in io io' \<and> wballoc io' = wballoc io"
proof -
  have "good (dev io)" "wcount io \<le> space (dev io)" "0 + wcount io \<le> length (wbuf io)"
    using assms by (simp_all add: wok_def)
  from flush_loop_ok [OF this] obtain d' where d': "flush_loop E 0 io = Done (io\<lparr>dev := d', wcount := 0\<rparr>)" "good d'"
    "sunk d' = written io" "space d' = room io" by (auto simp: written_def room_def)
  with assms show ?thesis by (auto simp: io_flush_def wok_def written_def room_def same_in_def)
qed

lemma write_loop_ok:
  assumes "wok io" "wballoc io" "length b \<le> room io"
  shows "\<exists>io'. write_loop E b io = Some (Done io') \<and> wok io' \<and> wballoc io' \<and> written io' = written io @ b \<and>
     room io' = room io - length b \<and> same_in io io'"
  using assms
proof (induction "length b" arbitrary: b io rule: less_induct)
  case less
  show ?case
  proof (cases "b = []")
    case True
    with less.prems show ?thesis by (subst write_loop.simps) (simp add: same_in_def)
  next
    case False
    obtain io1 where io1: "flush_if_full E io = Done io1" "wok io1" "wballoc io1" "written io1 = written io"
        "room io1 = room io" "same_in io io1" "wcount io1 < length (wbuf io1)"
    proof (cases "length (wbuf io) = wcount io")
      case True
      from io_flush_ok [OF less.prems(1)] obtain io1 where "io_flush E io = Done io1" "wok io1" "wcount io1 = 0"
          "written io1 = written io" "room io1 = room io" "same_in io io1" "wballoc io1" using less.prems(2) by auto
      with True that [of io1] show ?thesis by (simp add: flush_if_full_def wok_def IO_WR_BUFSZ_def)
    next
      case False
      with less.prems that [of io] show ?thesis by (auto simp: flush_if_full_def wok_def same_in_def)
    qed
    define n where "n = min (length b) (length (wbuf io1) - wcount io1)"
    let ?io2 = "wbuf_put (take n b) (io1\<lparr>chain := []\<rparr>)"
    have n: "0 < n" "n \<le> length b" using False io1(7) by (auto simp: n_def)
    have c: "chain io1 = []" using io1(2) by (simp add: wok_def)
    have step: "write_loop E b io = write_loop E (drop n b) ?io2"
      using False io1(1) c n by (subst write_loop.simps) (simp add: io_transfer_def n_def [symmetric])
    have len: "length (take n b) = n" "wcount io1 + n \<le> length (wbuf io1)" using io1(7) n(2) by (auto simp: n_def)
    have io2: "wok ?io2" "wballoc ?io2" "written ?io2 = written io @ take n b" "room ?io2 = room io - n" "same_in io1 ?io2"
      using io1 c len less.prems(3)
      by (auto simp: wok_def wbuf_put_def written_def room_def same_in_def)
    have "length (drop n b) < length b" "length (drop n b) \<le> room ?io2"
      using False n io2(4) less.prems(3) by auto
    from less.hyps [OF this(1) io2(1,2) this(2)] obtain io' where
      io': "write_loop E (drop n b) ?io2 = Some (Done io')" "wok io'" "wballoc io'"
        "written io' = written ?io2 @ drop n b" "room io' = room ?io2 - length (drop n b)" "same_in ?io2 io'" by blast
    have "written io' = written io @ b" using io'(4) io2(3) by simp
    moreover have "room io' = room io - length b" using io'(5) io2(4) n(2) by auto
    moreover have "same_in io io'" using io1(6) io2(5) io'(6) same_in_trans by blast
    ultimately show ?thesis using step io'(1-3) by metis
  qed
qed

lemma io_write_ok:
  assumes "libu_ok L" "libu_mem L" "wok io" "length b \<le> room io"
  shows "\<exists>io'. io_write L E b io = Some (Done io') \<and> wok io' \<and> written io' = written io @ b \<and>
     room io' = room io - length b \<and> same_in io io'"
proof (cases "wballoc io")
  case True
  with write_loop_ok [OF assms(3) True assms(4)] show ?thesis by (auto simp: io_write_def)
next
  case False
  let ?io = "io\<lparr>wballoc := True, wbuf := replicate IO_WR_BUFSZ NUL\<rparr>"
  have w: "wcount io = 0" using assms(3) False by (auto simp: wok_def)
  have a: "wok ?io" "written ?io = written io" "room ?io = room io" "same_in ?io x = same_in io x" for x
    using assms(3) w by (auto simp: wok_def written_def room_def same_in_def)
  have "io_write L E b io = write_loop E b ?io"
    using False by (simp add: io_write_def io_wbuf_alloc_def libu_memD [OF assms(1,2)])
  with write_loop_ok [of ?io b] a assms(4) show ?thesis by auto
qed

end

section \<open>From a source to a sink\<close>

locale copy_devices = src: source_device Ei pending good_in + snk: sink_device Eo sunk space good_out
  for Ei :: "('e, 'f) io_ops" and pending good_in and Eo :: "('d, 'c) io_ops" and sunk space good_out
begin

text \<open>How many bytes a copy moves: all that are left, or at most the given number.\<close>

definition quota :: "nat option \<Rightarrow> char list \<Rightarrow> char list" where
  "quota r b = (case r of None \<Rightarrow> b | Some k \<Rightarrow> take k b)"

lemma copy_loop_ok:
  assumes "libu_ok L" "libu_mem L" "src.plain inp" "eof inp = 0" "snk.wok out"
    "length (quota r (src.avail inp)) \<le> snk.room out"
  shows "\<exists>out' inp'. copy_loop L Eo Ei r n out inp = Some (Some (n + length (quota r (src.avail inp))), Done out', inp') \<and>
     snk.wok out' \<and> snk.written out' = snk.written out @ quota r (src.avail inp) \<and>
     src.plain inp' \<and> src.avail inp' = drop (length (quota r (src.avail inp))) (src.avail inp)"
  using assms(3-6)
proof (induction "length (src.avail inp)" arbitrary: r n out inp rule: less_induct)
  case less
  show ?case
  proof (cases "r = Some 0")
    case True
    with less.prems show ?thesis by (subst copy_loop.simps) (simp add: quota_def)
  next
    case False
    define k where "k = (case r of None \<Rightarrow> 4096 | Some k \<Rightarrow> min 4096 k)"
    have k: "0 < k" using False by (auto simp: k_def split: option.split)
    let ?a = "src.avail inp"
    from src.io_read_ok [OF assms(1,2) less.prems(1,2), of k] obtain inp1 where
      inp1: "io_read L Ei k inp = Some (Some (take k ?a), inp1)" "src.plain inp1" "src.avail inp1 = drop k ?a" "src.same_out inp inp1"
      by blast
    show ?thesis
    proof (cases "?a = []")
      case True
      then have "copy_loop L Eo Ei r n out inp = Some (Some n, Done out, inp1)"
        using False inp1(1) by (subst copy_loop.simps) (simp add: k_def [symmetric])
      with True inp1 less.prems show ?thesis by (auto simp: quota_def split: option.split)
    next
      case ne: False
      let ?b = "take k ?a"
      let ?r = "map_option (\<lambda>m. m - length ?b) r"
      have q: "quota r ?a = ?b @ quota ?r (drop k ?a)"
      proof (cases r)
        case None
        then show ?thesis by (simp add: quota_def)
      next
        case (Some m)
        then have "k \<le> m" by (simp add: k_def)
        then have "take m ?a = take k ?a @ take (m - k) (drop k ?a)" by (metis le_add_diff_inverse take_add)
        then show ?thesis using Some by (simp add: quota_def min_def)
      qed
      have "length ?b \<le> snk.room out" using less.prems(4) q by simp
      from snk.io_write_ok [OF assms(1,2) less.prems(3) this] obtain out1 where
        out1: "io_write L Eo ?b out = Some (Done out1)" "snk.wok out1" "snk.written out1 = snk.written out @ ?b"
          "snk.room out1 = snk.room out - length ?b" by blast
      have "length (src.avail inp1) < length ?a" "eof inp1 = 0" "length (quota ?r (src.avail inp1)) \<le> snk.room out1"
        using inp1(3,4) ne k less.prems(2,4) q out1(4) by (auto simp: src.same_out_def)
      from less.hyps [OF this(1) inp1(2) this(2) out1(2) this(3), of "n + length ?b"] obtain out' inp' where
        o': "copy_loop L Eo Ei ?r (n + length ?b) out1 inp1 =
             Some (Some (n + length ?b + length (quota ?r (drop k ?a))), Done out', inp')"
          "snk.wok out'" "snk.written out' = snk.written out1 @ quota ?r (drop k ?a)" "src.plain inp'"
          "src.avail inp' = drop (length (quota ?r (drop k ?a))) (drop k ?a)"
        unfolding inp1(3) by blast
      have bne: "?b \<noteq> []" using ne k by simp
      have "copy_loop L Eo Ei r n out inp = copy_loop L Eo Ei ?r (n + length ?b) out1 inp1"
        using False inp1(1) bne out1(1) by (subst copy_loop.simps) (simp add: k_def [symmetric])
      moreover have "src.avail inp' = drop (length (quota r ?a)) ?a"
      proof (cases "k \<le> length ?a")
        case True
        then show ?thesis using o'(5) q by (simp add: add.commute)
      next
        case False
        then show ?thesis using o'(5) q by simp
      qed
      ultimately show ?thesis using o'(1-4) out1(3) q by auto
    qed
  qed
qed

end

end
