(* ===== verification/Io_Mem.thy ===== *)
theory Io_Mem
  imports Io_Device
begin

text \<open>
  \<^verbatim>\<open>src/libio/iomem.c\<close>, the in-memory device, and \<^verbatim>\<open>src/libcodec/null.c\<close>, the identity
  codec.  A device is its buffer (of the size given at creation), the common read and write
  offset, and the flag that asks for the buffer to be freed.
\<close>

section \<open>Definitions\<close>

record io_mem =
  mbuf :: "char list"
  moff :: nat
  free_buf :: bool

definition io_mem_tell :: "io_mem \<Rightarrow> nat option" where
  "io_mem_tell im = Some (moff im)"

definition io_mem_seek :: "nat \<Rightarrow> io_mem \<Rightarrow> nat option \<times> io_mem" where
  "io_mem_seek off im = (if length (mbuf im) \<le> off then (None, im) else (Some off, im\<lparr>moff := off\<rparr>))"

definition io_mem_read :: "nat \<Rightarrow> io_mem \<Rightarrow> char list option \<times> io_mem" where
  "io_mem_read n im =
     (let sz = min n (size_sub (length (mbuf im)) (moff im))
      in (Some (take sz (drop (moff im) (mbuf im))), im\<lparr>moff := moff im + sz\<rparr>))"

definition io_mem_write :: "char list \<Rightarrow> io_mem \<Rightarrow> nat option \<times> io_mem" where
  "io_mem_write b im =
     (let sz = min (length b) (size_sub (length (mbuf im)) (moff im))
      in (Some sz, im\<lparr>mbuf := take (moff im) (mbuf im) @ take sz b @ drop (moff im + sz) (mbuf im),
                      moff := moff im + sz\<rparr>))"

definition io_mem_close :: "io_mem \<Rightarrow> bool \<times> io_mem" where
  "io_mem_close im = (True, im)"

definition io_mem_free :: "io_mem \<Rightarrow> bool \<times> io_mem" where
  "io_mem_free im = (True, if free_buf im then im\<lparr>mbuf := [], moff := 0\<rparr> else im)"

definition mem_ops ::
  "(nat \<Rightarrow> char list \<Rightarrow> 'c \<Rightarrow> (nat \<times> char list) option \<times> 'c) \<Rightarrow>
   (nat \<Rightarrow> 'c \<Rightarrow> (bool \<times> char list) option \<times> 'c) \<Rightarrow> (io_mem, 'c) io_ops" where
  "mem_ops tr fl =
     \<lparr>d_read = io_mem_read, d_write = io_mem_write, d_seek = io_mem_seek, d_tell = io_mem_tell,
      d_close = io_mem_close, d_free = io_mem_free, c_transform = tr, c_flush = fl\<rparr>"

definition io_mem_create :: "libu \<Rightarrow> char list \<Rightarrow> bool \<Rightarrow> (io_mem, 'c) io option" where
  "io_mem_create L buf fr = io_prv_create L 232 \<lparr>mbuf = buf, moff = 0, free_buf = fr\<rparr>"

definition io_mem_get_bufsz :: "(io_mem, 'c) io \<Rightarrow> nat" where
  "io_mem_get_bufsz io = length (mbuf (dev io))"

definition io_mem_get_buf :: "(io_mem, 'c) io \<Rightarrow> char list" where
  "io_mem_get_buf io = mbuf (dev io)"

text \<open>The null codec has no state of its own.\<close>

definition null_transform :: "nat \<Rightarrow> char list \<Rightarrow> unit \<Rightarrow> (nat \<times> char list) option \<times> unit" where
  "null_transform cap src u =
     (if cap = 0 \<or> src = [] then (None, u)
      else
        (let wr = min (length src) cap
         in if wr = 0 then (None, u) else (Some (wr, take wr src), u)))"

definition null_flush :: "nat \<Rightarrow> unit \<Rightarrow> (bool \<times> char list) option \<times> unit" where
  "null_flush cap u = (Some (True, []), u)"

definition codec_null_create :: "libu \<Rightarrow> unit codec option" where
  "codec_null_create L = (if u_malloc L 4160 then Some \<lparr>cstate = (), cdata = [], coff = 0\<rparr> else None)"

section \<open>The device keeps the contracts\<close>

definition mem_pending :: "io_mem \<Rightarrow> char list" where
  "mem_pending im = drop (moff im) (mbuf im)"

definition mem_sunk :: "io_mem \<Rightarrow> char list" where
  "mem_sunk im = take (moff im) (mbuf im)"

definition mem_space :: "io_mem \<Rightarrow> nat" where
  "mem_space im = length (mbuf im) - moff im"

definition mem_good :: "io_mem \<Rightarrow> bool" where
  "mem_good im \<longleftrightarrow> moff im \<le> length (mbuf im) \<and> length (mbuf im) < SIZE_LIMIT"

lemma mem_size_sub: "mem_good im \<Longrightarrow> size_sub (length (mbuf im)) (moff im) = mem_space im"
  by (simp add: mem_good_def mem_space_def)

interpretation mem_src: source_device "mem_ops tr fl" mem_pending mem_good for tr fl
proof
  fix d :: io_mem and n :: nat
  assume g: "mem_good d" and n: "0 < n"
  let ?k = "min n (mem_space d)"
  have "io_mem_read n d = (Some (take ?k (mem_pending d)), d\<lparr>moff := moff d + ?k\<rparr>)"
    using mem_size_sub [OF g] by (simp add: io_mem_read_def mem_pending_def Let_def)
  moreover have "mem_pending d \<noteq> [] \<longrightarrow> 0 < ?k" using n by (simp add: mem_pending_def mem_space_def)
  moreover have "mem_good (d\<lparr>moff := moff d + ?k\<rparr>)" using g by (auto simp: mem_good_def mem_space_def)
  ultimately show "\<exists>k d'. d_read (mem_ops tr fl) n d = (Some (take k (mem_pending d)), d') \<and> k \<le> n \<and>
      (mem_pending d \<noteq> [] \<longrightarrow> 0 < k) \<and> mem_pending d' = drop k (mem_pending d) \<and> mem_good d'" for tr fl
    by (intro exI [of _ ?k] exI [of _ "d\<lparr>moff := moff d + ?k\<rparr>"])
       (simp add: mem_ops_def mem_pending_def add.commute)
qed

interpretation mem_snk: sink_device "mem_ops tr fl" mem_sunk mem_space mem_good for tr fl
proof
  fix d :: io_mem and b :: "char list"
  assume g: "mem_good d" and b: "b \<noteq> []" "length b \<le> mem_space d"
  let ?d = "d\<lparr>mbuf := take (moff d) (mbuf d) @ b @ drop (moff d + length b) (mbuf d), moff := moff d + length b\<rparr>"
  have "io_mem_write b d = (Some (length b), ?d)"
    using mem_size_sub [OF g] b(2) by (simp add: io_mem_write_def Let_def)
  moreover have "mem_good ?d" "mem_sunk ?d = mem_sunk d @ b" "mem_space ?d = mem_space d - length b"
    using g b(2) by (auto simp: mem_good_def mem_sunk_def mem_space_def)
  ultimately show "\<exists>k d'. d_write (mem_ops tr fl) b d = (Some k, d') \<and> 0 < k \<and> k \<le> length b \<and>
      mem_sunk d' = mem_sunk d @ take k b \<and> mem_space d' = mem_space d - k \<and> mem_good d'" for tr fl
    using b(1) by (intro exI [of _ "length b"] exI [of _ ?d]) (simp add: mem_ops_def)
qed

interpretation mem_copy: copy_devices "mem_ops tr fl" mem_pending mem_good "mem_ops tr' fl'" mem_sunk mem_space mem_good
  for tr fl tr' fl'
  by unfold_locales

text \<open>A stream just created on a buffer.\<close>

definition mem_io :: "char list \<Rightarrow> (io_mem, 'c) io" where
  "mem_io buf = \<lparr>dev = \<lparr>mbuf = buf, moff = 0, free_buf = False\<rparr>, chain = [], eof = 0, refcnt = 1, rbuf = [], ubuf = [],
     rballoc = False, rtot = 0, wbuf = [], wballoc = False, wcount = 0\<rparr>"

lemma io_mem_create_eq: "libu_ok L \<Longrightarrow> libu_mem L \<Longrightarrow> io_mem_create L buf False = Some (mem_io buf)"
  by (simp add: io_mem_create_def io_prv_create_def mem_io_def libu_memD)

lemma mem_io_ok:
  assumes "length buf < SIZE_LIMIT"
  shows "mem_src.plain (mem_io buf)" "mem_snk.wok (mem_io buf)" "mem_src.avail (mem_io buf) = buf"
    "mem_snk.written (mem_io buf) = []" "mem_snk.room (mem_io buf) = length buf" "eof (mem_io buf) = 0"
  using assms by (simp_all add: mem_io_def mem_src.plain_def mem_snk.wok_def mem_src.avail_def mem_snk.written_def
      mem_snk.room_def mem_pending_def mem_sunk_def mem_space_def mem_good_def)

text \<open>Through a null codec, a transfer is the plain copy.\<close>

lemma null_codec_transparent:
  assumes "0 < cap" "src \<noteq> []"
  shows "io_transfer (mem_ops null_transform null_flush) cap src [\<lparr>cstate = (), cdata = d, coff = k\<rparr>] =
     map_option (\<lambda>(_, r). ([\<lparr>cstate = (), cdata = d, coff = k\<rparr>], r)) (io_transfer E cap src [])"
  using assms
  by (simp add: io_transfer_def, subst io_transform.simps)
     (simp add: mem_ops_def null_transform_def Let_def min_def)

text \<open>A run of writes.\<close>

fun write_all :: "libu \<Rightarrow> ('d, 'c) io_ops \<Rightarrow> char list list \<Rightarrow> ('d, 'c) io \<Rightarrow> ('d, 'c) io step option" where
  "write_all L E [] io = Some (Done io)"
| "write_all L E (b # bs) io =
     Option.bind (io_write L E b io) (\<lambda>r. case r of Done io1 \<Rightarrow> write_all L E bs io1 | other \<Rightarrow> Some other)"

lemma write_all_ok:
  assumes "libu_ok L" "libu_mem L" "mem_snk.wok io" "length (concat bs) \<le> mem_snk.room io"
  shows "\<exists>io'. write_all L (mem_ops tr fl) bs io = Some (Done io') \<and> mem_snk.wok io' \<and>
     mem_snk.written io' = mem_snk.written io @ concat bs"
  using assms(3,4)
proof (induction bs arbitrary: io)
  case (Cons b bs)
  then have "length b \<le> mem_snk.room io" by simp
  from mem_snk.io_write_ok [OF assms(1,2) Cons.prems(1) this, of tr fl] obtain io1 where
    io1: "io_write L (mem_ops tr fl) b io = Some (Done io1)" "mem_snk.wok io1"
      "mem_snk.written io1 = mem_snk.written io @ b" "mem_snk.room io1 = mem_snk.room io - length b" by blast
  have "length (concat bs) \<le> mem_snk.room io1" using Cons.prems(2) io1(4) by simp
  from Cons.IH [OF io1(2) this] io1 show ?case by auto
qed simp

lemma mem_sunk_buf: "mem_good d \<Longrightarrow> mem_sunk d = b \<Longrightarrow> moff d = length b \<and> take (length b) (mbuf d) = b"
  by (auto simp: mem_good_def mem_sunk_def)

lemma set_butlast_take: "set (butlast (take k xs)) \<subseteq> set (butlast xs)"
proof (cases "k < length xs")
  case True
  have "butlast (take k xs) = take (k - 1) xs" by (rule butlast_take) (use True in simp)
  also have "\<dots> = take (k - 1) (butlast xs)" by (rule take_butlast [symmetric]) (use True in simp)
  finally show ?thesis using set_take_subset by metis
qed simp

lemma upto_stop_butlast: "c \<notin> set (butlast (take k (upto_stop c b)))"
proof -
  have "c \<notin> set (butlast (upto_stop c b))" by (induction b) auto
  then show ?thesis using set_butlast_take [of k "upto_stop c b"] by blast
qed

lemma upto_stop_last: "upto_stop c b = b \<or> upto_stop c b \<noteq> [] \<and> last (upto_stop c b) = c"
  by (induction b) auto

lemma drop_min_length: "drop (min n (length b)) b = drop n b"
  by (cases "n \<le> length b") auto

lemma mem_write_full: "mem_good d \<Longrightarrow> moff d = length (mbuf d) \<Longrightarrow> io_mem_write c d = (Some 0, d)"
  by (simp add: io_mem_write_def mem_good_def)

section \<open>Properties\<close>

text \<open>
  C22.  What is written to an in-memory stream is read back: any run of writes that fits the
  buffer succeeds, after a flush the tell position is the number of bytes written and the buffer
  starts with exactly those bytes, and a second stream opened on them returns, for any read
  size, the next bytes and then the end of the stream.
\<close>

theorem mem_stream_roundtrip:
  assumes "libu_ok L" "libu_mem L" "length (concat bs) \<le> length buf" "length buf < SIZE_LIMIT"
  shows "\<exists>w f. write_all L (mem_ops tr fl) bs (mem_io buf) = Some (Done w) \<and>
     io_tell (mem_ops tr fl) w = (Some (length (concat bs)), Done f) \<and>
     take (length (concat bs)) (io_mem_get_buf f) = concat bs \<and>
     (\<exists>r. io_read L (mem_ops tr fl) n (mem_io (take (length (concat bs)) (io_mem_get_buf f))) = Some (Some (take n (concat bs)), r))"
proof -
  let ?E = "mem_ops tr fl" and ?all = "concat bs"
  note ok = mem_io_ok [OF assms(4)]
  have "length ?all \<le> mem_snk.room (mem_io buf)" using assms(3) by (simp add: ok)
  from write_all_ok [OF assms(1,2) ok(2) this, of tr fl] obtain w where
    w: "write_all L ?E bs (mem_io buf) = Some (Done w)" "mem_snk.wok w" "mem_snk.written w = ?all" by (auto simp: ok)
  from mem_snk.io_flush_ok [OF w(2), of tr fl] w(3) obtain f where
    f: "io_flush ?E w = Done f" "mem_snk.wok f" "mem_sunk (dev f) = ?all" by auto
  from mem_sunk_buf [OF _ f(3)] f(2) have d: "moff (dev f) = length ?all" "take (length ?all) (mbuf (dev f)) = ?all"
    by (simp_all add: mem_snk.wok_def)
  have len: "length ?all < SIZE_LIMIT" using assms(3,4) by simp
  from mem_src.io_read_ok [OF assms(1,2) mem_io_ok(1,6) [OF len], of tr fl n]
  obtain r where r: "io_read L ?E n (mem_io ?all) = Some (Some (take n ?all), r)" by (auto simp: mem_io_ok(3) [OF len])
  have "io_tell ?E w = (Some (length ?all), Done f)"
    using f(1) d(1) by (simp add: io_tell_def mem_ops_def io_mem_tell_def)
  with w(1) r d(2) show ?thesis by (simp add: io_mem_get_buf_def)
qed

theorem mem_stream_roundtrip_witness:
  "\<exists>w f. write_all libu_ref (mem_ops null_transform null_flush) [''ab'', ''cde''] (mem_io ''-------'') = Some (Done w) \<and>
     io_tell (mem_ops null_transform null_flush) w = (Some 5, Done f) \<and> take 5 (io_mem_get_buf f) = ''abcde''"
proof -
  have h: "length (concat [''ab'', ''cde'']) \<le> length ''-------''" "length ''-------'' < SIZE_LIMIT" by simp_all
  have five: "length (concat [''ab'', ''cde'']) = 5" and all: "concat [''ab'', ''cde''] = ''abcde''" by simp_all
  from mem_stream_roundtrip [OF libu_ref_ok libu_ref_mem h, of null_transform null_flush 3] show ?thesis
    unfolding five unfolding all by blast
qed

text \<open>
  Reading a line from an in-memory stream stays inside the caller's buffer and loses
  nothing: the line is shorter than the buffer, holds a newline only at its end, the stream
  continues right after it, and a line that neither ends in a newline nor fills the buffer is
  the last one.
\<close>

theorem io_gets_line:
  assumes "libu_ok L" "libu_mem L" "mem_src.plain io" "2 \<le> sz"
  shows "\<exists>line io'. io_gets L (mem_ops tr fl) sz io = Some (Some line, io') \<and>
     length line < sz \<and> LF \<notin> set (butlast line) \<and> mem_src.avail io = line @ mem_src.avail io' \<and>
     (length line < sz - 1 \<and> mem_src.avail io' \<noteq> [] \<longrightarrow> line \<noteq> [] \<and> last line = LF)"
proof -
  from mem_src.io_get_until_ok [OF assms, of tr fl LF] obtain io' line where
    l: "io_gets L (mem_ops tr fl) sz io = Some (Some line, io')"
      and take: "line = take (sz - 1) (upto_stop LF (mem_src.avail io))"
      and rest: "mem_src.avail io = line @ mem_src.avail io'"
    unfolding io_gets_def by blast
  have "line \<noteq> [] \<and> last line = LF" if short: "length line < sz - 1" and more: "mem_src.avail io' \<noteq> []"
  proof -
    have "line = upto_stop LF (mem_src.avail io)" using take short by (simp add: min_def split: if_splits)
    moreover have "line \<noteq> mem_src.avail io" using rest more by simp
    ultimately show ?thesis using upto_stop_last by metis
  qed
  moreover have "length line < sz" using take assms(4) by simp
  moreover have "LF \<notin> set (butlast line)" unfolding take by (rule upto_stop_butlast)
  ultimately show ?thesis using l rest by blast
qed

theorem io_gets_line_witness:
  "\<exists>line io'. io_gets libu_ref (mem_ops null_transform null_flush) 16 (mem_io [CHR ''a'', LF, CHR ''b'']) = Some (Some line, io') \<and>
     length line < 16 \<and> LF \<notin> set (butlast line)"
proof -
  have h: "mem_src.plain (mem_io [CHR ''a'', LF, CHR ''b''] :: (io_mem, unit) io)" "2 \<le> (16 :: nat)"
    by (rule mem_io_ok) simp_all
  from io_gets_line [OF libu_ref_ok libu_ref_mem h, of null_transform null_flush] show ?thesis by blast
qed

text \<open>
  Copying between in-memory streams moves exactly the requested bytes, or all that are left
  if there are fewer: the count returned, the bytes appended to the output and the rest of the
  input agree.
\<close>

theorem io_copy_exact:
  assumes "libu_ok L" "libu_mem L" "mem_src.plain inp" "eof inp = 0" "mem_snk.wok out"
    and "min n (length (mem_src.avail inp)) \<le> mem_snk.room out"
  shows "\<exists>out' inp'. io_copy L (mem_ops tr fl) (mem_ops tr' fl') n out inp =
        Some (Some (min n (length (mem_src.avail inp))), Done out', inp') \<and>
     mem_snk.written out' = mem_snk.written out @ take n (mem_src.avail inp) \<and>
     mem_src.avail inp' = drop n (mem_src.avail inp)"
proof -
  have q: "mem_copy.quota (Some n) b = take n b" for b by (simp add: mem_copy.quota_def)
  have "length (mem_copy.quota (Some n) (mem_src.avail inp)) \<le> mem_snk.room out"
    using assms(6) by (simp add: q min.commute)
  from mem_copy.copy_loop_ok [OF assms(1-5) this, of tr fl tr' fl' 0] show ?thesis
    by (auto simp: io_copy_def q min.commute drop_min_length)
qed

theorem io_copy_exact_witness:
  "\<exists>out' inp'. io_copy libu_ref (mem_ops null_transform null_flush) (mem_ops null_transform null_flush) 3
      (mem_io ''-----'') (mem_io ''abcde'') = Some (Some 3, Done out', inp') \<and> mem_snk.written out' = ''abc''"
proof -
  have l: "length ''abcde'' < SIZE_LIMIT" "length ''-----'' < SIZE_LIMIT" by simp_all
  note o = mem_io_ok [OF l(2)] and i = mem_io_ok [OF l(1)]
  have m: "min 3 (length (mem_src.avail (mem_io ''abcde'' :: (io_mem, unit) io))) = 3" by (simp add: i(3))
  have le: "min 3 (length (mem_src.avail (mem_io ''abcde'' :: (io_mem, unit) io))) \<le> mem_snk.room (mem_io ''-----'' :: (io_mem, unit) io)"
    unfolding m by (simp add: o(5))
  have "take 3 (mem_src.avail (mem_io ''abcde'' :: (io_mem, unit) io)) = ''abc''" by (simp add: i(3))
  with io_copy_exact [OF libu_ref_ok libu_ref_mem i(1,6) o(2) le, of null_transform null_flush null_transform null_flush]
  show ?thesis unfolding m by (auto simp: o(4))
qed

text \<open>A flush into less space than there is to write fills the device and keeps the rest of the count.\<close>

lemma mem_flush_short:
  assumes "mem_good (dev io)" "mem_space (dev io) = k" "0 < k" "k < wcount io" "wcount io \<le> length (wbuf io)"
  shows "\<exists>d'. io_flush (mem_ops tr fl) io = Done (io\<lparr>dev := d', wcount := wcount io - k\<rparr>) \<and> mem_good d' \<and>
     mem_sunk d' = mem_sunk (dev io) @ take k (wbuf io) \<and> moff d' = length (mbuf d') \<and> length (mbuf d') = length (mbuf (dev io))"
proof -
  let ?d = "dev io" and ?b = "take (wcount io) (wbuf io)"
  let ?d' = "?d\<lparr>mbuf := take (moff ?d) (mbuf ?d) @ take k ?b @ drop (moff ?d + k) (mbuf ?d), moff := moff ?d + k\<rparr>"
  let ?io = "io\<lparr>dev := ?d', wcount := wcount io - k\<rparr>"
  have len: "length ?b = wcount io" using assms(5) by simp
  have w1: "io_mem_write ?b ?d = (Some k, ?d')"
    using assms(2,4) len mem_size_sub [OF assms(1)] by (simp add: io_mem_write_def Let_def min_def)
  have g: "moff ?d' = length (mbuf ?d')" "mem_good ?d'"
    using assms(1,2,4) len by (auto simp: mem_good_def mem_space_def)
  have w2: "io_mem_write c ?d' = (Some 0, ?d')" for c using g by (rule mem_write_full [rotated])
  have "flush_loop (mem_ops tr fl) 0 io = flush_loop (mem_ops tr fl) k ?io"
    using assms(3,4) w1 by (subst flush_loop.simps) (simp add: mem_ops_def)
  also have "\<dots> = Done ?io"
    using assms(4) w2 by (subst flush_loop.simps) (simp add: mem_ops_def)
  finally have "io_flush (mem_ops tr fl) io = Done ?io" by (simp add: io_flush_def)
  moreover have "mem_sunk ?d' = mem_sunk ?d @ take k (wbuf io)"
    using assms(1,4,5) by (simp add: mem_sunk_def mem_good_def min_absorb1 min_absorb2 less_imp_le)
  moreover have "length (mbuf ?d') = length (mbuf ?d)" using assms(1,2,4,5) by (auto simp: mem_good_def mem_space_def)
  ultimately show ?thesis using g by blast
qed

text \<open>
  A flush that the device cuts short leaves the wrong bytes in the buffer.  \<^verbatim>\<open>io_flush\<close>
  reports success when the device stops accepting data, but it has only lowered the count: the
  bytes that stay buffered are again the first ones, already delivered, and the tail is lost.
\<close>

theorem partial_flush_replays:
  assumes "mem_good (dev io)" "mem_space (dev io) = k" "0 < k" "k < wcount io" "wcount io \<le> length (wbuf io)"
  shows "\<exists>io'. io_flush (mem_ops tr fl) io = Done io' \<and>
     mem_sunk (dev io') = mem_sunk (dev io) @ take k (wbuf io) \<and>
     wcount io' = wcount io - k \<and> take (wcount io') (wbuf io') = take (wcount io - k) (wbuf io)"
  using mem_flush_short [OF assms, of tr fl] by auto

theorem partial_flush_replays_witness:
  "\<exists>io'. io_flush (mem_ops null_transform null_flush) ((mem_io ''---'')\<lparr>wballoc := True, wbuf := ''abcde'', wcount := 5\<rparr>) = Done io' \<and>
     mem_sunk (dev io') = ''abc'' \<and> take (wcount io') (wbuf io') = ''ab''"
proof -
  let ?io = "(mem_io ''---'' :: (io_mem, unit) io)\<lparr>wballoc := True, wbuf := ''abcde'', wcount := 5\<rparr>"
  have h: "mem_good (dev ?io)" "mem_space (dev ?io) = 3" "(0::nat) < 3" "3 < wcount ?io" "wcount ?io \<le> length (wbuf ?io)"
    by (simp_all add: mem_good_def mem_space_def mem_io_def)
  have "mem_sunk (dev ?io) @ take 3 (wbuf ?io) = ''abc''" "take (wcount ?io - 3) (wbuf ?io) = ''ab''"
    by (simp_all add: mem_sunk_def mem_io_def)
  with partial_flush_replays [OF h, of null_transform null_flush] show ?thesis by metis
qed

end
