(* ===== verification/Counted_List.thy ===== *)
theory Counted_List
  imports Klone_Prelude "HOL-Library.Multiset"
begin

text \<open>
  The contract several KLone containers share: a BSD list of nodes and a counter kept beside
  it (the atom list, the header's field list, the server's child list, the in-memory log).
  A node is added at most once (it is freshly allocated) and only linked nodes are removed.
\<close>

datatype 'n list_op = Add 'n | Del 'n

locale counted_list =
  fixes items :: "'s \<Rightarrow> 'n list"
    and counter :: "'s \<Rightarrow> nat"
    and add :: "'n \<Rightarrow> 's \<Rightarrow> 's"
    and del :: "'n \<Rightarrow> 's \<Rightarrow> 's outcome"
    and room :: "'n \<Rightarrow> 's \<Rightarrow> bool"
    and invar :: "'s \<Rightarrow> bool"
  assumes counter_items: "invar s \<Longrightarrow> counter s = length (items s)"
    and add_items: "invar s \<Longrightarrow> mset (items (add n s)) = add_mset n (mset (items s))"
    and add_invar: "invar s \<Longrightarrow> room n s \<Longrightarrow> invar (add n s)"
    and del_items: "invar s \<Longrightarrow> n \<in> set (items s) \<Longrightarrow>
      \<exists>s'. del n s = Ok s' \<and> mset (items s') = mset (items s) - {#n#} \<and> invar s'"
begin

fun legal :: "'n list_op list \<Rightarrow> 's \<Rightarrow> bool" where
  "legal [] s \<longleftrightarrow> True"
| "legal (Add n # ops) s \<longleftrightarrow> room n s \<and> legal ops (add n s)"
| "legal (Del n # ops) s \<longleftrightarrow> n \<in> set (items s) \<and> (case del n s of Ok s' \<Rightarrow> legal ops s' | _ \<Rightarrow> False)"

fun run :: "'n list_op list \<Rightarrow> 's \<Rightarrow> 's outcome" where
  "run [] s = Ok s"
| "run (Add n # ops) s = run ops (add n s)"
| "run (Del n # ops) s = bind_outcome (del n s) (run ops)"

fun tally :: "'n list_op list \<Rightarrow> 'n multiset \<Rightarrow> 'n multiset" where
  "tally [] m = m"
| "tally (Add n # ops) m = tally ops (add_mset n m)"
| "tally (Del n # ops) m = tally ops (m - {#n#})"

text \<open>Any legal history keeps the counter equal to the number of linked nodes and loses none.\<close>

lemma run_invar:
  "invar s \<Longrightarrow> legal ops s \<Longrightarrow>
   \<exists>s'. run ops s = Ok s' \<and> invar s' \<and> counter s' = length (items s') \<and>
        mset (items s') = tally ops (mset (items s))"
proof (induction ops arbitrary: s rule: list.induct)
  case Nil
  then show ?case by (simp add: counter_items)
next
  case (Cons op ops)
  show ?case
  proof (cases op)
    case (Add n)
    with Cons.prems have "invar (add n s)" "legal ops (add n s)" by (auto intro: add_invar)
    from Cons.IH [OF this] Add Cons.prems(1) show ?thesis by (simp add: add_items)
  next
    case (Del n)
    with Cons.prems have n: "n \<in> set (items s)" by simp
    with del_items [OF Cons.prems(1)] obtain s' where s': "del n s = Ok s'"
        "mset (items s') = mset (items s) - {#n#}" "invar s'" by blast
    with Del Cons.prems have "legal ops s'" by simp
    from Cons.IH [OF s'(3) this] Del s' show ?thesis by simp
  qed
qed

lemma counter_add: "invar s \<Longrightarrow> room n s \<Longrightarrow> counter (add n s) = Suc (counter s)"
  using counter_items [of s] counter_items [of "add n s"] add_invar [of s n]
    arg_cong [OF add_items [of s n], of size] by simp

lemma counter_del:
  assumes "invar s" "n \<in> set (items s)" "del n s = Ok s'"
  shows "invar s' \<and> counter s = Suc (counter s')"
proof -
  from del_items [OF assms(1,2)] assms(3) have m: "mset (items s') = mset (items s) - {#n#}" "invar s'"
    by auto
  have "size (mset (items s)) = Suc (size (mset (items s')))"
    using assms(2) m(1) by (metis insert_DiffM set_mset_mset size_add_mset)
  then show ?thesis using m(2) assms(1) by (simp add: counter_items)
qed

end

end
