(* ===== verification/Named_Store.thy ===== *)
theory Named_Store
  imports Klone_Prelude
begin

text \<open>
  The contract that header fields and session variables share: values are assigned to names and
  read back under any capitalisation.  \<open>room n s\<close> says that the object is well formed and takes
  \<open>n\<close> more assignments; \<open>fit\<close> says which names and values the object takes.
\<close>

fun latest :: "(string \<times> string) list \<Rightarrow> string \<Rightarrow> string option" where
  "latest [] m = None"
| "latest (p # ps) m =
     (case latest ps m of Some v \<Rightarrow> Some v | None \<Rightarrow> if strcaseeq m (fst p) then Some (snd p) else None)"

lemma latest_append: "latest (ps @ qs) n = (case latest qs n of Some v \<Rightarrow> Some v | None \<Rightarrow> latest ps n)"
  by (induction ps) (auto split: option.splits)

locale named_store =
  fixes lookup :: "'s \<Rightarrow> string \<Rightarrow> string option outcome"
    and assign :: "string \<Rightarrow> string \<Rightarrow> 's \<Rightarrow> 's step"
    and room :: "nat \<Rightarrow> 's \<Rightarrow> bool"
    and fit :: "string \<Rightarrow> string \<Rightarrow> bool"
  assumes assign_law: "room (Suc k) s \<Longrightarrow> fit n v \<Longrightarrow>
    \<exists>s'. assign n v s = Done s' \<and> room k s' \<and>
         (\<forall>m. lookup s' m = (if strcaseeq m n then Ok (Some v) else lookup s m))"
begin

fun assign_all :: "(string \<times> string) list \<Rightarrow> 's \<Rightarrow> 's step" where
  "assign_all [] s = Done s"
| "assign_all (p # ps) s = and_then (assign (fst p) (snd p) s) (assign_all ps)"

lemma assign_all_append: "assign_all (ps @ qs) s = and_then (assign_all ps s) (assign_all qs)"
proof (induction ps arbitrary: s)
  case (Cons p ps)
  then show ?case by (cases "assign (fst p) (snd p) s") simp_all
qed simp

text \<open>After any run of assignments a name reads as the last value assigned to it.\<close>

lemma assign_all_room:
  assumes "room (length ps + k) s" "\<forall>p \<in> set ps. fit (fst p) (snd p)"
  shows "\<exists>s'. assign_all ps s = Done s' \<and> room k s' \<and>
     (\<forall>m. lookup s' m = (case latest ps m of Some v \<Rightarrow> Ok (Some v) | None \<Rightarrow> lookup s m))"
  using assms
proof (induction ps arbitrary: s)
  case (Cons p ps)
  from assign_law [of "length ps + k" s "fst p" "snd p"] Cons.prems obtain s1 where
    s1: "assign (fst p) (snd p) s = Done s1" "room (length ps + k) s1"
      "\<And>m. lookup s1 m = (if strcaseeq m (fst p) then Ok (Some (snd p)) else lookup s m)" by auto
  from Cons.IH [OF s1(2)] Cons.prems(2) obtain s2 where
    s2: "assign_all ps s1 = Done s2" "room k s2"
      "\<forall>m. lookup s2 m = (case latest ps m of Some v \<Rightarrow> Ok (Some v) | None \<Rightarrow> lookup s1 m)" by auto
  then show ?case using s1 by (auto split: option.splits)
qed simp

lemmas assign_all_lookup = assign_all_room [where k = 0, simplified]

text \<open>Assigning twice is assigning once.\<close>

lemma assign_again:
  assumes "room (Suc (Suc k)) s" "fit n v" "fit n' v'" "strcaseeq n' n"
  shows "\<exists>s1 s2 s3. assign n v s = Done s1 \<and> assign n' v' s1 = Done s2 \<and> assign n' v' s = Done s3 \<and>
     lookup s2 = lookup s3"
proof -
  from assign_law [OF assms(1,2)] obtain s1 where s1: "assign n v s = Done s1" "room (Suc k) s1"
    "\<forall>m. lookup s1 m = (if strcaseeq m n then Ok (Some v) else lookup s m)" by blast
  from assign_law [OF s1(2) assms(3)] obtain s2 where s2: "assign n' v' s1 = Done s2"
    "\<forall>m. lookup s2 m = (if strcaseeq m n' then Ok (Some v') else lookup s1 m)" by blast
  from assign_law [OF assms(1,3)] obtain s3 where s3: "assign n' v' s = Done s3"
    "\<forall>m. lookup s3 m = (if strcaseeq m n' then Ok (Some v') else lookup s m)" by blast
  have "strcaseeq m n \<Longrightarrow> strcaseeq m n'" for m using assms(4) strcaseeq_trans strcaseeq_sym by blast
  then have "lookup s2 = lookup s3" using s1(3) s2(2) s3(2) by (intro ext) auto
  with s1(1) s2(1) s3(1) show ?thesis by blast
qed

end

end
