(* ===== verification/Header.thy ===== *)
theory Header
  imports Io_Mem Counted_List Named_Store
begin

text \<open>
  \<^verbatim>\<open>src/libpage/field.c\<close>, \<^verbatim>\<open>src/libpage/header.c\<close> and \<^verbatim>\<open>u_getline\<close> of
  \<^verbatim>\<open>src/libutils/utils.c\<close>: HTTP header fields, the list that holds them, and its loading from
  a stream.  A field is the address of a \<^verbatim>\<open>field_t\<close> with its contents; name and value may be
  \<^verbatim>\<open>NULL\<close> (\<open>None\<close>).  \<^verbatim>\<open>h_next\<close> is the address the next \<^verbatim>\<open>u_zalloc\<close> of a field
  returns.
\<close>

section \<open>Definitions\<close>

subsection \<open>Fields\<close>

record field =
  f_name :: "string option"
  f_value :: "string option"

definition field_set :: "libu \<Rightarrow> string \<Rightarrow> string \<Rightarrow> field option" where
  "field_set L name value =
     (case u_strdup L name of
        None \<Rightarrow> None
      | Some n \<Rightarrow> (case u_strdup L value of
          None \<Rightarrow> None
        | Some v \<Rightarrow> Some \<lparr>f_name = Some n, f_value = Some v\<rparr>))"

text \<open>The line is read as a C string, up to its first NUL.\<close>

definition field_set_from_line :: "libu \<Rightarrow> string \<Rightarrow> field option" where
  "field_set_from_line L s =
     (let ln = cstr s in
      if ln = [] then None
      else case strchr_split ln (CHR '':'') of
        None \<Rightarrow> None
      | Some (before, after) \<Rightarrow>
          (case u_strndup L ln (length before) of
             None \<Rightarrow> None
           | Some name \<Rightarrow> field_set L name (dropWhile (u_isblank L) after)))"

text \<open>\<^verbatim>\<open>u_strdup\<close> of an argument that may be \<^verbatim>\<open>NULL\<close>: the outer \<open>None\<close> is the failure.\<close>

definition dup_opt :: "libu \<Rightarrow> string option \<Rightarrow> string option option" where
  "dup_opt L s = (case s of None \<Rightarrow> Some None | Some x \<Rightarrow> map_option Some (u_strdup L x))"

definition field_create :: "libu \<Rightarrow> string option \<Rightarrow> string option \<Rightarrow> field option" where
  "field_create L name value =
     (if \<not> u_malloc L 40 then None
      else case dup_opt L name of
        None \<Rightarrow> None
      | Some n \<Rightarrow> (case dup_opt L value of
          None \<Rightarrow> None
        | Some v \<Rightarrow> Some \<lparr>f_name = n, f_value = v\<rparr>))"

subsection \<open>Headers\<close>

type_synonym field_node = "addr \<times> field"

record header =
  h_fields :: "field_node list"
  nfields :: nat
  h_next :: addr

definition header_create :: "libu \<Rightarrow> addr \<Rightarrow> header option" where
  "header_create L a = (if u_malloc L 24 then Some \<lparr>h_fields = [], nfields = 0, h_next = a\<rparr> else None)"

definition header_add_field :: "field_node \<Rightarrow> header \<Rightarrow> header" where
  "header_add_field f h = h\<lparr>h_fields := h_fields h @ [f], nfields := size_add (nfields h) 1\<rparr>"

definition header_del_field :: "field_node \<Rightarrow> header \<Rightarrow> header outcome" where
  "header_del_field f h =
     (if f \<in> set (h_fields h)
      then Ok (h\<lparr>h_fields := remove1 f (h_fields h), nfields := size_sub (nfields h) 1\<rparr>) else Fault)"

text \<open>Adding a field that was just allocated.\<close>

definition header_add_new :: "field \<Rightarrow> header \<Rightarrow> header" where
  "header_add_new f h = header_add_field (h_next h, f) (h\<lparr>h_next := Suc (h_next h)\<rparr>)"

text \<open>\<^verbatim>\<open>header_get_field\<close>: comparing with a field that has no name is a fault.\<close>

fun find_field :: "field_node list \<Rightarrow> string \<Rightarrow> field_node option outcome" where
  "find_field [] name = Ok None"
| "find_field (f # fs) name =
     (case f_name (snd f) of
        None \<Rightarrow> Fault
      | Some n \<Rightarrow> if strcaseeq n name then Ok (Some f) else find_field fs name)"

definition header_get_field :: "header \<Rightarrow> string \<Rightarrow> field_node option outcome" where
  "header_get_field h name = find_field (h_fields h) name"

definition header_get_field_value :: "header \<Rightarrow> string \<Rightarrow> string option outcome" where
  "header_get_field_value h name =
     map_ok (\<lambda>r. case r of None \<Rightarrow> None | Some f \<Rightarrow> f_value (snd f)) (header_get_field h name)"

definition header_field_count :: "header \<Rightarrow> nat" where
  "header_field_count h = nfields h"

fun fieldn_loop :: "field_node list \<Rightarrow> nat \<Rightarrow> nat \<Rightarrow> field_node option" where
  "fieldn_loop [] i idx = None"
| "fieldn_loop (f # fs) i idx = (if i = idx then Some f else fieldn_loop fs (Suc i) idx)"

definition header_get_fieldn :: "header \<Rightarrow> nat \<Rightarrow> field_node option" where
  "header_get_fieldn h idx = (if nfields h \<le> idx then None else fieldn_loop (h_fields h) 0 idx)"

text \<open>Assigning through the pointer to a field of the list.\<close>

definition field_update :: "addr \<Rightarrow> field \<Rightarrow> header \<Rightarrow> header" where
  "field_update a f h = h\<lparr>h_fields := map (\<lambda>n. if fst n = a then (a, f) else n) (h_fields h)\<rparr>"

definition header_set_field :: "libu \<Rightarrow> string \<Rightarrow> string \<Rightarrow> header \<Rightarrow> header step" where
  "header_set_field L name value h =
     (case header_get_field h name of
        Ok None \<Rightarrow>
          (case field_create L (Some name) (Some value) of
             None \<Rightarrow> Failed h
           | Some n \<Rightarrow> Done (header_add_new n h))
      | Ok (Some ex) \<Rightarrow>
          (case field_set L name value of
             None \<Rightarrow> Failed h
           | Some f \<Rightarrow> Done (field_update (fst ex) f h))
      | Fail \<Rightarrow> Failed h
      | Fault \<Rightarrow> Crash)"

fun header_clear_loop :: "field_node list \<Rightarrow> header \<Rightarrow> header outcome" where
  "header_clear_loop [] h = Ok h"
| "header_clear_loop (f # fs) h = bind_outcome (header_del_field f h) (header_clear_loop fs)"

definition header_clear :: "header \<Rightarrow> header outcome" where
  "header_clear h = header_clear_loop (h_fields h) h"

datatype load_mode = HLM_OVERRIDE | HLM_KEEP | HLM_ADD

definition add_by_mode :: "load_mode \<Rightarrow> field \<Rightarrow> header \<Rightarrow> header step" where
  "add_by_mode mode f h =
     (let name = (case f_name f of None \<Rightarrow> [] | Some n \<Rightarrow> n) in
      case mode of
        HLM_ADD \<Rightarrow> Done (header_add_new f h)
      | HLM_OVERRIDE \<Rightarrow>
          (case header_get_field h name of
             Ok None \<Rightarrow> Done (header_add_new f h)
           | Ok (Some ex) \<Rightarrow>
               (case header_del_field ex h of Ok h1 \<Rightarrow> Done (header_add_new f h1) | _ \<Rightarrow> Crash)
           | _ \<Rightarrow> Crash)
      | HLM_KEEP \<Rightarrow>
          (case header_get_field h name of
             Ok None \<Rightarrow> Done (header_add_new f h)
           | Ok (Some ex) \<Rightarrow> Done h
           | _ \<Rightarrow> Crash))"

text \<open>The test is on the length of the string object, the field is set from its bytes as a C string.\<close>

definition header_process_line :: "libu \<Rightarrow> load_mode \<Rightarrow> string \<Rightarrow> header \<Rightarrow> header step" where
  "header_process_line L mode line h =
     (if line = [] then Done h
      else case field_create L None None of
        None \<Rightarrow> Failed h
      | Some _ \<Rightarrow>
          (case field_set_from_line L (cstr line) of
             None \<Rightarrow> Failed h
           | Some f \<Rightarrow> add_by_mode mode f h))"

text \<open>
  \<^verbatim>\<open>u_getline\<close> over a stream: the flag is a zero return; the string holds what was
  appended so far in both cases.
\<close>

partial_function (option) getline_loop ::
  "libu \<Rightarrow> ('d, 'c) io_ops \<Rightarrow> string \<Rightarrow> ('d, 'c) io \<Rightarrow> (bool \<times> string \<times> ('d, 'c) io) option" where
  "getline_loop L E ln io =
     Option.bind (io_gets L E 1024 io) (\<lambda>r. case r of
       (None, io1) \<Rightarrow> Some (False, ln, io1)
     | (Some b, io1) \<Rightarrow>
         (if b = [] then Some (False, ln, io1)
          else case u_string_append L ln (butlast b) of
            None \<Rightarrow> Some (True, ln, io1)
          | Some ln1 \<Rightarrow> if u_isnl L (last b) then Some (True, ln1, io1) else getline_loop L E ln1 io1))"

definition u_getline :: "libu \<Rightarrow> ('d, 'c) io_ops \<Rightarrow> ('d, 'c) io \<Rightarrow> (bool \<times> string \<times> ('d, 'c) io) option" where
  "u_getline L E io = getline_loop L E [] io"

definition strip_nl :: "libu \<Rightarrow> string \<Rightarrow> string" where
  "strip_nl L ln = rev (dropWhile (u_isnl L) (rev ln))"

text \<open>
  The loop of \<^verbatim>\<open>header_load_ex\<close>: \<open>c\<close> counts the lines still allowed.  The result is a
  success flag, the header, the line being unfolded and the stream.
\<close>

definition keep_step :: "'s \<Rightarrow> 's step \<Rightarrow> 's outcome" where
  "keep_step s r = (case r of Done s' \<Rightarrow> Ok s' | Failed s' \<Rightarrow> Ok s' | Crash \<Rightarrow> Fault)"

fun load_loop ::
  "libu \<Rightarrow> ('d, 'c) io_ops \<Rightarrow> load_mode \<Rightarrow> nat \<Rightarrow> string \<Rightarrow> header \<Rightarrow> ('d, 'c) io \<Rightarrow>
   ((header \<times> string) outcome \<times> header \<times> ('d, 'c) io) option" where
  "load_loop L E mode c unf h io =
     Option.bind (u_getline L E io) (\<lambda>(ok, raw, io1).
       if \<not> ok then Some (Ok (h, unf), h, io1)
       else case c of
         0 \<Rightarrow> Some (Fail, h, io1)
       | Suc c' \<Rightarrow>
           (let line = strip_nl L raw in
            if line = [] then Some (Ok (h, unf), h, io1)
            else if u_isblank L (hd line)
            then (case u_string_append L unf line of
                    None \<Rightarrow> Some (Fail, h, io1)
                  | Some unf1 \<Rightarrow> load_loop L E mode c' unf1 h io1)
            else
              (case keep_step h (if unf = [] then Done h else header_process_line L mode unf h) of
                 Ok h1 \<Rightarrow> load_loop L E mode c' line h1 io1
               | _ \<Rightarrow> Some (Fault, h, io1))))"

declare load_loop.simps [simp del]

definition HEADER_MAX_FIELD_COUNT :: nat where
  "HEADER_MAX_FIELD_COUNT = 256"

definition header_load_ex ::
  "libu \<Rightarrow> ('d, 'c) io_ops \<Rightarrow> load_mode \<Rightarrow> header \<Rightarrow> ('d, 'c) io \<Rightarrow> (header step \<times> ('d, 'c) io) option" where
  "header_load_ex L E mode h io =
     (if u_string_create L [] = None then Some (Failed h, io)
      else Option.bind (load_loop L E mode HEADER_MAX_FIELD_COUNT [] h io) (\<lambda>(r, h', io1).
        Some (case r of
          Ok (h1, unf) \<Rightarrow>
            (case keep_step h1 (if unf = [] then Done h1 else header_process_line L mode unf h1) of
               Ok h2 \<Rightarrow> Done h2 | _ \<Rightarrow> Crash)
        | Fail \<Rightarrow> Failed h'
        | Fault \<Rightarrow> Crash, io1)))"

definition header_load ::
  "libu \<Rightarrow> ('d, 'c) io_ops \<Rightarrow> header \<Rightarrow> ('d, 'c) io \<Rightarrow> (header step \<times> ('d, 'c) io) option" where
  "header_load L E h io = header_load_ex L E HLM_ADD h io"

text \<open>
  \<^verbatim>\<open>header_load_from_cgienv\<close>: every \<^verbatim>\<open>HTTP_name=value\<close> of the environment becomes a
  field, truncated to the 256-byte copy.
\<close>

definition cgi_name :: "string \<Rightarrow> string" where
  "cgi_name s = map (\<lambda>c. if c = CHR ''_'' then CHR ''-'' else c) s"

fun header_load_from_cgienv :: "libu \<Rightarrow> string list \<Rightarrow> header \<Rightarrow> header outcome" where
  "header_load_from_cgienv L [] h = Ok h"
| "header_load_from_cgienv L (e # es) h =
     (if 5 < length e \<and> take 5 e = ''HTTP_''
      then (case strchr_split (fst (u_strlcpy L (drop 5 e) 256)) (CHR ''='') of
              None \<Rightarrow> header_load_from_cgienv L es h
            | Some (n, v) \<Rightarrow>
                bind_outcome (keep_step h (header_set_field L (cgi_name n) v h))
                  (header_load_from_cgienv L es))
      else header_load_from_cgienv L es h)"

section \<open>Invariant\<close>

definition header_ok :: "header \<Rightarrow> bool" where
  "header_ok h \<longleftrightarrow> nfields h = length (h_fields h) \<and> length (h_fields h) < SIZE_LIMIT \<and>
     distinct (map fst (h_fields h)) \<and> (\<forall>f \<in> set (h_fields h). fst f < h_next h \<and> f_name (snd f) \<noteq> None)"

definition header_room :: "field_node \<Rightarrow> header \<Rightarrow> bool" where
  "header_room f h \<longleftrightarrow> fst f \<notin> fst ` set (h_fields h) \<and> fst f < h_next h \<and> f_name (snd f) \<noteq> None \<and>
     Suc (length (h_fields h)) < SIZE_LIMIT"

lemma header_add_ok: "header_ok h \<Longrightarrow> header_room f h \<Longrightarrow> header_ok (header_add_field f h)"
  by (auto simp: header_ok_def header_room_def header_add_field_def)

lemma distinct_map_fst_remove1: "distinct (map fst xs) \<Longrightarrow> distinct (map fst (remove1 x xs))"
proof (induction xs)
  case (Cons y xs)
  have "fst y \<notin> fst ` set (remove1 x xs)" using Cons.prems set_remove1_subset [of x xs] by auto
  with Cons show ?case by simp
qed simp

lemma header_del_ok:
  assumes "header_ok h" "f \<in> set (h_fields h)"
  shows "\<exists>h'. header_del_field f h = Ok h' \<and> h_fields h' = remove1 f (h_fields h) \<and> h_next h' = h_next h \<and> header_ok h'"
proof -
  let ?h = "h\<lparr>h_fields := remove1 f (h_fields h), nfields := nfields h - 1\<rparr>"
  have one: "Suc 0 \<le> length (h_fields h)" using assms(2) by (cases "h_fields h") auto
  then have "header_del_field f h = Ok ?h"
    using assms size_sub_le [OF one] by (simp add: header_del_field_def header_ok_def)
  moreover have "header_ok ?h"
    using assms set_remove1_subset [of f "h_fields h"]
    by (auto simp: header_ok_def length_remove1 distinct_map_fst_remove1)
  ultimately show ?thesis by simp
qed

interpretation header_list: counted_list h_fields header_field_count header_add_field header_del_field header_room header_ok
proof unfold_locales
  show "header_ok s \<Longrightarrow> header_field_count s = length (h_fields s)" for s
    by (simp add: header_ok_def header_field_count_def)
  show "mset (h_fields (header_add_field n s)) = add_mset n (mset (h_fields s))" for n s
    by (simp add: header_add_field_def)
  show "header_ok s \<Longrightarrow> header_room n s \<Longrightarrow> header_ok (header_add_field n s)" for n s
    by (rule header_add_ok)
  show "\<exists>s'. header_del_field n s = Ok s' \<and> mset (h_fields s') = mset (h_fields s) - {#n#} \<and> header_ok s'"
    if "header_ok s" "n \<in> set (h_fields s)" for n s
    using header_del_ok [OF that] that(2) by auto
qed

lemma header_add_new_ok:
  assumes "header_ok h" "f_name f = Some n" "Suc (length (h_fields h)) < SIZE_LIMIT"
  shows "header_ok (header_add_new f h) \<and> h_fields (header_add_new f h) = h_fields h @ [(h_next h, f)]"
proof -
  have "header_ok (h\<lparr>h_next := Suc (h_next h)\<rparr>)" "header_room (h_next h, f) (h\<lparr>h_next := Suc (h_next h)\<rparr>)"
    using assms by (fastforce simp: header_ok_def header_room_def)+
  from header_add_ok [OF this] show ?thesis by (simp add: header_add_new_def header_add_field_def)
qed

section \<open>Lookup\<close>

abbreviation values_of :: "field_node option outcome \<Rightarrow> string option outcome" where
  "values_of r \<equiv> map_ok (\<lambda>r. case r of None \<Rightarrow> None | Some f \<Rightarrow> f_value (snd f)) r"

lemma find_field_total: "\<forall>f \<in> set fs. f_name (snd f) \<noteq> None \<Longrightarrow> \<exists>r. find_field fs name = Ok r"
  by (induction fs) auto

lemma find_field_Some:
  "find_field fs name = Ok (Some ex) \<Longrightarrow> ex \<in> set fs \<and> (\<exists>n. f_name (snd ex) = Some n \<and> strcaseeq n name)"
  by (induction fs) (auto split: option.splits if_splits)

lemma find_field_append:
  "find_field fs name = Ok None \<Longrightarrow> find_field (fs @ gs) name = find_field gs name"
  by (induction fs) (auto split: option.splits if_splits)

lemma find_field_append_Some:
  "find_field fs name = Ok (Some ex) \<Longrightarrow> find_field (fs @ gs) name = Ok (Some ex)"
  by (induction fs) (auto split: option.splits if_splits)

lemma find_field_update:
  assumes "distinct (map fst fs)" "find_field fs name = Ok (Some ex)" "f_name f = Some name" "g = (fst ex, f)"
  shows "find_field (map (\<lambda>n. if fst n = fst ex then g else n) fs) name = Ok (Some g)"
  using assms(1,2)
proof (induction fs)
  case (Cons x fs)
  obtain n where n: "f_name (snd x) = Some n" using Cons.prems(2) by (cases "f_name (snd x)") auto
  show ?case
  proof (cases "strcaseeq n name")
    case True
    with n Cons.prems(2) have "x = ex" by simp
    with assms(3,4) show ?thesis by (simp add: strcaseeq_def)
  next
    case False
    with n Cons.prems(2) have f: "find_field fs name = Ok (Some ex)" by simp
    then have "ex \<in> set fs" using find_field_Some by blast
    with Cons.prems(1) have "fst x \<noteq> fst ex" by auto
    with Cons.IH [OF _ f] Cons.prems(1) n False show ?thesis by simp
  qed
qed simp

lemma find_field_update_other:
  assumes "\<forall>f \<in> set fs. f_name (snd f) \<noteq> None" "\<forall>x \<in> set fs. fst x = fst ex \<longrightarrow> (\<exists>n. f_name (snd x) = Some n \<and> strcaseeq n name)"
    "f_name f = Some name" "g = (fst ex, f)" "\<not> strcaseeq other name"
  shows "values_of (find_field (map (\<lambda>n. if fst n = fst ex then g else n) fs) other) = values_of (find_field fs other)"
  using assms(1,2)
proof (induction fs)
  case (Cons x fs)
  have skip: "\<not> strcaseeq n other" if "strcaseeq n name" for n
    using that assms(5) by (simp add: strcaseeq_def)
  have "\<not> strcaseeq name other" using skip by (simp add: strcaseeq_def)
  then show ?case
    using Cons assms(3,4) skip by (cases "fst x = fst ex") (auto split: option.splits)
qed simp

section \<open>Reading lines\<close>

lemma upto_stop_line: "c \<notin> set l \<Longrightarrow> upto_stop c (l @ c # r) = l @ [c]"
  by (induction l) auto

context read_stream
begin

lemma line_chunk:
  assumes "libu_ok L" "libu_mem L" "plain io" "avail io = l @ LF # r" "LF \<notin> set l"
  shows "\<exists>io'. io_gets L E 1024 io = Some (Some (take 1023 (l @ [LF])), io') \<and>
     plain io' \<and> take 1023 (l @ [LF]) @ avail io' = l @ LF # r \<and> same_out io io'"
proof -
  have two: "2 \<le> (1024 :: nat)" and k: "(1024 :: nat) - 1 = 1023" by simp_all
  have u: "upto_stop LF (avail io) = l @ [LF]" using assms(4) upto_stop_line [OF assms(5)] by simp
  from io_get_until_ok [OF assms(1-3) two, of LF] obtain io' where
    io': "io_get_until L E LF 1024 io = Some (Some (take 1023 (l @ [LF])), io')" "plain io'"
    "avail io = take 1023 (l @ [LF]) @ avail io'" "same_out io io'" unfolding k u by blast
  then show ?thesis unfolding io_gets_def using assms(4) by metis
qed

lemma line_rest:
  assumes "libu_ok L" "libu_mem L" "plain io" "avail io = l @ LF # r" "LF \<notin> set l" "length l \<le> 1022"
  shows "\<exists>io'. getline_loop L E ln io = Some (True, ln @ l, io') \<and> plain io' \<and> avail io' = r \<and> same_out io io'"
proof -
  have t: "take 1023 (l @ [LF]) = l @ [LF]" using assms(6) by simp
  from line_chunk [OF assms(1-5)] obtain io' where
    io': "io_gets L E 1024 io = Some (Some (l @ [LF]), io')" "plain io'" "avail io' = r" "same_out io io'"
    unfolding t by auto
  have "getline_loop L E ln io = Some (True, ln @ l, io')"
    by (subst getline_loop.simps) (simp add: io'(1) libu_memD [OF assms(1,2)] libu_ok_ctype [OF assms(1)])
  with io' show ?thesis by blast
qed

end

lemma gets_chunk:
  assumes "libu_ok L" "libu_mem L" "mem_src.plain io" "mem_src.avail io = l @ LF # r" "LF \<notin> set l"
  shows "\<exists>io'. io_gets L (mem_ops tr fl) 1024 io = Some (Some (take 1023 (l @ [LF])), io') \<and>
     mem_src.plain io' \<and> take 1023 (l @ [LF]) @ mem_src.avail io' = l @ LF # r \<and> mem_src.same_out io io'"
  by (rule mem_src.line_chunk [OF assms])

lemma getline_rest:
  assumes "libu_ok L" "libu_mem L" "mem_src.plain io" "mem_src.avail io = l @ LF # r" "LF \<notin> set l" "length l \<le> 1022"
  shows "\<exists>io'. getline_loop L (mem_ops tr fl) ln io = Some (True, ln @ l, io') \<and> mem_src.plain io' \<and> mem_src.avail io' = r \<and> mem_src.same_out io io'"
  by (rule mem_src.line_rest [OF assms])

section \<open>Loading a printed header\<close>

text \<open>The fields of a header, in order, without their addresses.\<close>

definition contents :: "header \<Rightarrow> (string option \<times> string option) list" where
  "contents h = map (\<lambda>x. (f_name (snd x), f_value (snd x))) (h_fields h)"

definition field_line :: "string \<times> string \<Rightarrow> string" where
  "field_line p = fst p @ '': '' @ snd p"

definition header_text :: "(string \<times> string) list \<Rightarrow> string" where
  "header_text ps = concat (map (\<lambda>p. field_line p @ [CR, LF]) ps) @ [CR, LF]"

text \<open>
  A field that a line can carry: a name, no separators where they would be misread, no newline or
  NUL anywhere, no leading blank, and short enough for one read of \<^verbatim>\<open>u_getline\<close>.
\<close>

definition plain_field :: "string \<times> string \<Rightarrow> bool" where
  "plain_field p \<longleftrightarrow> fst p \<noteq> [] \<and> hd (fst p) \<notin> {CHR '' '', TAB} \<and> CHR '':'' \<notin> set (fst p) \<and>
     {LF, CR, NUL} \<inter> (set (fst p) \<union> set (snd p)) = {} \<and>
     (snd p \<noteq> [] \<longrightarrow> hd (snd p) \<notin> {CHR '' '', TAB}) \<and> length (fst p) + length (snd p) \<le> 1019"

lemma field_line_cstr: "plain_field p \<Longrightarrow> cstr (field_line p) = field_line p"
  by (rule cstr_id) (auto simp: plain_field_def field_line_def)

lemma field_from_line:
  assumes "libu_ok L" "libu_mem L" "plain_field p"
  shows "field_set_from_line L (field_line p) = Some \<lparr>f_name = Some (fst p), f_value = Some (snd p)\<rparr>"
proof -
  have "dropWhile (u_isblank L) ('' '' @ snd p) = snd p"
    using assms(3) by (cases "snd p") (auto simp: libu_ok_ctype [OF assms(1)] plain_field_def)
  moreover have "strchr_split (field_line p) (CHR '':'') = Some (fst p, '' '' @ snd p)"
    using assms(3) strchr_split_append [of "CHR '':''" "fst p" "'' '' @ snd p"] by (simp add: plain_field_def field_line_def)
  ultimately show ?thesis
    using assms(3)
    by (simp add: field_set_from_line_def Let_def field_line_cstr [OF assms(3)])
      (simp add: field_line_def field_set_def libu_memD [OF assms(1,2)] plain_field_def)
qed

lemma process_field_line:
  assumes "libu_ok L" "libu_mem L" "plain_field p"
  shows "\<exists>h'. header_process_line L HLM_ADD (field_line p) h = Done h' \<and>
     contents h' = contents h @ [(Some (fst p), Some (snd p))]"
proof -
  have "field_line p \<noteq> []" by (simp add: field_line_def)
  then show ?thesis
    using field_from_line [OF assms]
    by (simp add: header_process_line_def field_line_cstr [OF assms(3)] field_create_def dup_opt_def libu_memD [OF assms(1,2)] add_by_mode_def
        header_add_new_def header_add_field_def contents_def)
qed

lemma strip_field_line:
  assumes "libu_ok L" "plain_field p" shows "strip_nl L (field_line p @ [CR]) = field_line p"
proof -
  have "\<not> u_isnl L (last (field_line p))" "field_line p \<noteq> []"
    using assms(2) by (cases "snd p" rule: rev_cases; auto simp: libu_ok_ctype [OF assms(1)] field_line_def plain_field_def)+
  then have "dropWhile (u_isnl L) (rev (field_line p)) = rev (field_line p)"
    by (cases "rev (field_line p)") (auto simp: last_rev hd_rev rev_swap)
  then show ?thesis by (simp add: strip_nl_def libu_ok_ctype [OF assms(1)])
qed

definition pend :: "(string \<times> string) option \<Rightarrow> string" where
  "pend q = (case q of None \<Rightarrow> [] | Some p \<Rightarrow> field_line p)"

definition owed :: "(string \<times> string) list \<Rightarrow> (string option \<times> string option) list" where
  "owed ps = map (\<lambda>p. (Some (fst p), Some (snd p))) ps"

lemma process_pending:
  assumes "libu_ok L" "libu_mem L" "\<forall>p \<in> set_option q. plain_field p"
  shows "\<exists>h'. keep_step h (if pend q = [] then Done h else header_process_line L HLM_ADD (pend q) h) = Ok h' \<and>
     contents h' = contents h @ owed (case q of None \<Rightarrow> [] | Some p \<Rightarrow> [p])"
proof (cases q)
  case None
  then show ?thesis by (simp add: pend_def keep_step_def owed_def)
next
  case (Some p)
  with assms(3) process_field_line [OF assms(1,2), of p h] show ?thesis
    by (auto simp: pend_def keep_step_def owed_def field_line_def)
qed

lemma load_loop_fields:
  assumes "libu_ok L" "libu_mem L"
  shows "mem_src.plain io \<Longrightarrow> mem_src.avail io = header_text ps @ body \<Longrightarrow> \<forall>p \<in> set ps. plain_field p \<Longrightarrow>
     \<forall>p \<in> set_option q. plain_field p \<Longrightarrow> length ps < c \<Longrightarrow>
     \<exists>h' q' io'. load_loop L (mem_ops tr fl) HLM_ADD c (pend q) h io = Some (Ok (h', pend q'), h', io') \<and>
       (\<forall>p \<in> set_option q'. plain_field p) \<and> mem_src.avail io' = body \<and> mem_src.plain io' \<and> mem_src.same_out io io' \<and>
       contents h' @ owed (case q' of None \<Rightarrow> [] | Some p \<Rightarrow> [p]) =
       contents h @ owed (case q of None \<Rightarrow> [] | Some p \<Rightarrow> [p]) @ owed ps"
proof (induction ps arbitrary: c q h io)
  case Nil
  have "mem_src.avail io = [CR] @ LF # body" using Nil.prems(2) by (simp add: header_text_def)
  from getline_rest [OF assms Nil.prems(1) this, of tr fl "[]"] obtain io' where
    io': "u_getline L (mem_ops tr fl) io = Some (True, [CR], io')" "mem_src.avail io' = body" "mem_src.plain io'" "mem_src.same_out io io'"
    by (auto simp: u_getline_def)
  have "strip_nl L [CR] = []" by (simp add: strip_nl_def libu_ok_ctype [OF assms(1)])
  with io' Nil.prems(4,5) show ?case
    by (subst load_loop.simps) (auto simp: owed_def intro!: exI [of _ q] split: nat.split)
next
  case (Cons p ps)
  have good: "plain_field p" "\<forall>p \<in> set ps. plain_field p" using Cons.prems(3) by auto
  have av: "mem_src.avail io = (field_line p @ [CR]) @ LF # (header_text ps @ body)"
    using Cons.prems(2) by (simp add: header_text_def)
  have "LF \<notin> set (field_line p @ [CR])" "length (field_line p @ [CR]) \<le> 1022"
    using good(1) by (auto simp: field_line_def plain_field_def)
  from getline_rest [OF assms Cons.prems(1) av this, of tr fl "[]"] obtain io1 where
    io1: "u_getline L (mem_ops tr fl) io = Some (True, field_line p @ [CR], io1)" "mem_src.plain io1"
      "mem_src.avail io1 = header_text ps @ body" "mem_src.same_out io io1" by (auto simp: u_getline_def)
  from process_pending [OF assms Cons.prems(4), of h] obtain h1 where
    h1: "keep_step h (if pend q = [] then Done h else header_process_line L HLM_ADD (pend q) h) = Ok h1"
      "contents h1 = contents h @ owed (case q of None \<Rightarrow> [] | Some p \<Rightarrow> [p])" by blast
  obtain c' where c: "c = Suc c'" "length ps < c'" using Cons.prems(5) by (cases c) auto
  have line: "field_line p \<noteq> []" "\<not> u_isblank L (hd (field_line p))" "pend (Some p) = field_line p"
    using good(1) by (auto simp: field_line_def plain_field_def pend_def libu_ok_ctype [OF assms(1)])
  have step: "load_loop L (mem_ops tr fl) HLM_ADD c (pend q) h io =
      load_loop L (mem_ops tr fl) HLM_ADD c' (pend (Some p)) h1 io1"
    using io1(1) h1(1) c(1) line strip_field_line [OF assms(1) good(1)]
    by (subst load_loop.simps) (simp add: Let_def)
  have "\<forall>x \<in> set_option (Some p). plain_field x" using good(1) by simp
  from Cons.IH [OF io1(2,3) good(2) this c(2), of h1] show ?case
    unfolding step using h1(2) mem_src.same_out_trans [OF io1(4)] by (fastforce simp: owed_def)
qed

lemma header_load_fields:
  assumes "libu_ok L" "libu_mem L" "mem_src.plain io" "mem_src.avail io = header_text ps @ body"
    and "\<forall>p \<in> set ps. plain_field p" "length ps \<le> 255"
  shows "\<exists>h' io'. header_load L (mem_ops tr fl) h io = Some (Done h', io') \<and> contents h' = contents h @ owed ps \<and>
     mem_src.avail io' = body \<and> mem_src.plain io' \<and> mem_src.same_out io io'"
proof -
  have none: "\<forall>p \<in> set_option (None :: (string \<times> string) option). plain_field p" "pend None = []" by (simp_all add: pend_def)
  have "length ps < HEADER_MAX_FIELD_COUNT" using assms(6) by (simp add: HEADER_MAX_FIELD_COUNT_def)
  from load_loop_fields [OF assms(1-5) none(1) this, of tr fl h] obtain h1 q io1 where
    l: "load_loop L (mem_ops tr fl) HLM_ADD HEADER_MAX_FIELD_COUNT [] h io = Some (Ok (h1, pend q), h1, io1)"
      "\<forall>p \<in> set_option q. plain_field p" "mem_src.avail io1 = body" "mem_src.plain io1" "mem_src.same_out io io1"
      "contents h1 @ owed (case q of None \<Rightarrow> [] | Some p \<Rightarrow> [p]) = contents h @ owed ps"
    unfolding none(2) by (auto simp: owed_def)
  from process_pending [OF assms(1,2) l(2), of h1] obtain h2 where
    h2: "keep_step h1 (if pend q = [] then Done h1 else header_process_line L HLM_ADD (pend q) h1) = Ok h2"
      "contents h2 = contents h1 @ owed (case q of None \<Rightarrow> [] | Some p \<Rightarrow> [p])" by blast
  have "header_load L (mem_ops tr fl) h io = Some (Done h2, io1)"
    using l(1) h2(1) by (simp add: header_load_def header_load_ex_def libu_memD [OF assms(1,2)])
  with l(3-6) h2(2) show ?thesis by auto
qed

section \<open>Assignment\<close>

lemma header_set_field_ok:
  assumes "libu_ok L" "libu_mem L" "header_ok h" "Suc (length (h_fields h)) < SIZE_LIMIT"
  shows "\<exists>h'. header_set_field L name value h = Done h' \<and> header_ok h' \<and>
     (\<forall>n. strcaseeq n name \<longrightarrow> header_get_field_value h' n = Ok (Some value)) \<and>
     (\<forall>n. \<not> strcaseeq n name \<longrightarrow> header_get_field_value h' n = header_get_field_value h n) \<and>
     header_field_count h' =
       (if header_get_field h name = Ok None then Suc (header_field_count h) else header_field_count h)"
proof -
  have names: "\<forall>f \<in> set (h_fields h). f_name (snd f) \<noteq> None" using assms(3) by (simp add: header_ok_def)
  have cong: "find_field fs n = find_field fs name" if "strcaseeq n name" for fs n
    using that by (induction fs) (auto simp: strcaseeq_def split: option.splits)
  let ?f = "\<lparr>f_name = Some name, f_value = Some value\<rparr>"
  from find_field_total [OF names] obtain r where r: "find_field (h_fields h) name = Ok r" by blast
  show ?thesis
  proof (cases r)
    case None
    let ?h = "header_add_new ?f h"
    from header_add_new_ok [OF assms(3) _ assms(4), of ?f name]
    have h': "header_ok ?h" "h_fields ?h = h_fields h @ [(h_next h, ?f)]" by auto
    have "header_set_field L name value h = Done ?h"
      using r None by (simp add: header_set_field_def header_get_field_def field_create_def dup_opt_def libu_memD [OF assms(1,2)])
    moreover have "header_get_field_value ?h n = Ok (Some value)" if "strcaseeq n name" for n
      using that r None find_field_append [of "h_fields h" name]
      by (simp add: header_get_field_value_def header_get_field_def h'(2) cong [OF that] strcaseeq_def)
    moreover have "header_get_field_value ?h n = header_get_field_value h n" if n: "\<not> strcaseeq n name" for n
    proof -
      from find_field_total [OF names, of n] obtain q where q: "find_field (h_fields h) n = Ok q" by blast
      have "\<not> strcaseeq name n" using n strcaseeq_sym by blast
      with q find_field_append [of "h_fields h" n] find_field_append_Some [of "h_fields h" n] show ?thesis
        by (cases q) (auto simp: header_get_field_value_def header_get_field_def h'(2))
    qed
    moreover have "header_field_count ?h = Suc (header_field_count h)"
      using h' assms(3) by (simp add: header_field_count_def header_ok_def)
    moreover have "header_get_field h name = Ok None" using r None by (simp add: header_get_field_def)
    ultimately show ?thesis using h'(1) by simp
  next
    case (Some ex)
    let ?h = "field_update (fst ex) ?f h"
    let ?m = "\<lambda>n. if fst n = fst ex then (fst ex, ?f) else n"
    have ex: "find_field (h_fields h) name = Ok (Some ex)" using r Some by simp
    have m: "map fst (map ?m xs) = map fst xs" for xs by (induction xs) auto
    have ok: "header_ok ?h"
      using assms(3) m [of "h_fields h"] by (auto simp: header_ok_def field_update_def simp del: map_map)
    have "header_set_field L name value h = Done ?h"
      using ex by (simp add: header_set_field_def header_get_field_def field_set_def libu_memD [OF assms(1,2)])
    moreover have "header_get_field_value ?h n = Ok (Some value)" if "strcaseeq n name" for n
      using find_field_update [OF _ ex, of ?f "(fst ex, ?f)"] that assms(3)
      by (simp add: header_get_field_value_def header_get_field_def field_update_def cong [OF that] header_ok_def)
    moreover have "header_get_field_value ?h n = header_get_field_value h n" if n: "\<not> strcaseeq n name" for n
    proof -
      from find_field_Some [OF ex] have exin: "ex \<in> set (h_fields h)" "\<exists>k. f_name (snd ex) = Some k \<and> strcaseeq k name" by auto
      have "\<forall>x \<in> set (h_fields h). fst x = fst ex \<longrightarrow> x = ex"
        using assms(3) exin(1) by (auto simp: header_ok_def distinct_map inj_on_def)
      with exin(2) have "\<forall>x \<in> set (h_fields h). fst x = fst ex \<longrightarrow> (\<exists>k. f_name (snd x) = Some k \<and> strcaseeq k name)" by blast
      from find_field_update_other [OF names this, of ?f "(fst ex, ?f)" n] n show ?thesis
        by (simp add: header_get_field_value_def header_get_field_def field_update_def)
    qed
    moreover have "header_field_count ?h = header_field_count h" by (simp add: header_field_count_def field_update_def)
    moreover have "header_get_field h name \<noteq> Ok None" using ex by (simp add: header_get_field_def)
    ultimately show ?thesis using ok by simp
  qed
qed

interpretation header_store: named_store header_get_field_value "header_set_field L"
  "\<lambda>k h. libu_ok L \<and> libu_mem L \<and> header_ok h \<and> length (h_fields h) + k < SIZE_LIMIT" "\<lambda>n v. True" for L
proof
  fix k h n v
  assume h: "libu_ok L \<and> libu_mem L \<and> header_ok h \<and> length (h_fields h) + Suc k < SIZE_LIMIT"
  then have "Suc (length (h_fields h)) < SIZE_LIMIT" by simp
  from header_set_field_ok [of L h n v] this h obtain h' where
    h': "header_set_field L n v h = Done h'" "header_ok h'"
      "\<forall>m. strcaseeq m n \<longrightarrow> header_get_field_value h' m = Ok (Some v)"
      "\<forall>m. \<not> strcaseeq m n \<longrightarrow> header_get_field_value h' m = header_get_field_value h m"
      "header_field_count h' \<le> Suc (header_field_count h)" by (auto split: if_splits)
  moreover have "length (h_fields h') + k < SIZE_LIMIT"
    using h h'(2,5) by (simp add: header_ok_def header_field_count_def)
  ultimately show "\<exists>s'. header_set_field L n v h = Done s' \<and>
      (libu_ok L \<and> libu_mem L \<and> header_ok s' \<and> length (h_fields s') + k < SIZE_LIMIT) \<and>
      (\<forall>m. header_get_field_value s' m = (if strcaseeq m n then Ok (Some v) else header_get_field_value h m))"
    using h by auto
qed

section \<open>Properties\<close>

text \<open>
  Setting header fields: after any run of \<^verbatim>\<open>header_set_field\<close> calls the header is well
  formed, every name that was set reads, under any capitalisation, as the last value set for it,
  and every other name as before.
\<close>

theorem header_set_get:
  assumes "libu_ok L" "libu_mem L" "header_ok h" "length (h_fields h) + length ps < SIZE_LIMIT"
  shows "\<exists>h'. named_store.assign_all (header_set_field L) ps h = Done h' \<and> header_ok h' \<and>
     (\<forall>n. header_get_field_value h' n =
        (case latest ps n of Some v \<Rightarrow> Ok (Some v) | None \<Rightarrow> header_get_field_value h n))"
  using header_store.assign_all_lookup [of L h ps] assms by auto

theorem header_set_get_witness:
  "\<exists>h'. named_store.assign_all (header_set_field libu_ref) [(''host'', ''b''), (''HOST'', ''c'')]
       \<lparr>h_fields = [(0, \<lparr>f_name = Some ''Host'', f_value = Some ''a''\<rparr>)], nfields = 1, h_next = 1\<rparr> = Done h' \<and>
     header_get_field_value h' ''Host'' = Ok (Some ''c'')"
proof -
  let ?h = "\<lparr>h_fields = [(0, \<lparr>f_name = Some ''Host'', f_value = Some ''a''\<rparr>)], nfields = 1, h_next = 1\<rparr>"
  let ?ps = "[(''host'', ''b''), (''HOST'', ''c'')]"
  have h: "header_ok ?h" "length (h_fields ?h) + length ?ps < SIZE_LIMIT" by (simp_all add: header_ok_def)
  have "strcaseeq ''Host'' ''HOST''"
    by (simp add: strcaseeq_def c_tolower_def c_isupper_def ord_def chr_def char_of_def bit_0)
  then have "latest ?ps ''Host'' = Some ''c''" by simp
  with header_set_get [OF libu_ref_ok libu_ref_mem h] show ?thesis by fastforce
qed

text \<open>
  C23.  Loading is the inverse of printing: from a stream that holds the printed form of up to
  255 fields followed by a body, \<^verbatim>\<open>header_load\<close> appends exactly these fields in order and
  leaves the stream at the body.  The fields are those a line can carry (\<open>plain_field\<close>): a name
  without a colon, no newline and no NUL in name or value, neither starting with a blank, and a line
  of at most 1021 bytes.
\<close>

theorem header_load_roundtrip:
  assumes "libu_ok L" "libu_mem L" "mem_src.plain io" "mem_src.avail io = header_text ps @ body"
    and "\<forall>p \<in> set ps. plain_field p" "length ps \<le> 255"
  shows "\<exists>h' io'. header_load L (mem_ops tr fl) h io = Some (Done h', io') \<and>
     contents h' = contents h @ map (\<lambda>p. (Some (fst p), Some (snd p))) ps \<and> mem_src.avail io' = body"
  using header_load_fields [OF assms, of tr fl h] by (auto simp: owed_def)

theorem header_load_roundtrip_witness:
  "\<exists>h' io'. header_load libu_ref (mem_ops null_transform null_flush) \<lparr>h_fields = [], nfields = 0, h_next = 0\<rparr>
      (mem_io (header_text [(''Host'', ''a''), (''Via'', ''b'')] @ ''body'')) = Some (Done h', io') \<and>
     contents h' = [(Some ''Host'', Some ''a''), (Some ''Via'', Some ''b'')] \<and> mem_src.avail io' = ''body''"
proof -
  let ?ps = "[(''Host'', ''a''), (''Via'', ''b'')]"
  let ?io = "mem_io (header_text ?ps @ ''body'') :: (io_mem, unit) io"
  have len: "length (header_text ?ps @ ''body'') < SIZE_LIMIT" by (rule SIZE_LIMIT_gt) (simp add: header_text_def field_line_def)
  have h: "mem_src.plain ?io" "mem_src.avail ?io = header_text ?ps @ ''body''" "\<forall>p \<in> set ?ps. plain_field p" "length ?ps \<le> 255"
    using mem_io_ok(1,3) [OF len] by (simp_all add: plain_field_def)
  have "contents \<lparr>h_fields = [], nfields = 0, h_next = 0\<rparr> = []" by (simp add: contents_def)
  with header_load_roundtrip [OF libu_ref_ok libu_ref_mem h, of null_transform null_flush "\<lparr>h_fields = [], nfields = 0, h_next = 0\<rparr>"]
  show ?thesis by auto
qed

text \<open>
  A line longer than 1023 bytes loses a byte: \<^verbatim>\<open>u_getline\<close> drops the last character
  of every chunk it reads, which is the newline only for the chunk that ends the line.
\<close>

theorem getline_drops_byte:
  assumes "libu_ok L" "libu_mem L" "mem_src.plain io" "mem_src.avail io = l @ LF # r" "LF \<notin> set l"
    and "1023 \<le> length l" "length l \<le> 2045" "l ! 1022 \<noteq> CR"
  shows "\<exists>io'. u_getline L (mem_ops tr fl) io = Some (True, take 1022 l @ drop 1023 l, io') \<and> mem_src.avail io' = r"
proof -
  have t: "take 1023 (l @ [LF]) = take 1023 l" using assms(6) by simp
  from gets_chunk [OF assms(1-5), of tr fl] obtain io1 where
    io1: "io_gets L (mem_ops tr fl) 1024 io = Some (Some (take 1023 l), io1)" "mem_src.plain io1"
      "take 1023 l @ mem_src.avail io1 = l @ LF # r" unfolding t by blast
  have av: "mem_src.avail io1 = drop 1023 l @ LF # r"
  proof -
    have "take 1023 l @ mem_src.avail io1 = take 1023 l @ (drop 1023 l @ LF # r)"
      using io1(3) by (metis append.assoc append_take_drop_id)
    then show ?thesis by simp
  qed
  have s: "take 1023 l = take 1022 l @ [l ! 1022]" using assms(6) take_Suc_conv_app_nth [of 1022 l] by simp
  have nl: "\<not> u_isnl L (l ! 1022)" using assms(5,6,8) by (auto simp: libu_ok_ctype [OF assms(1)] in_set_conv_nth)
  have "LF \<notin> set (drop 1023 l)" "length (drop 1023 l) \<le> 1022" using assms(5,7) by (auto dest: in_set_dropD)
  from getline_rest [OF assms(1,2) io1(2) av this, of tr fl "take 1022 l"] obtain io' where
    io': "getline_loop L (mem_ops tr fl) (take 1022 l) io1 = Some (True, take 1022 l @ drop 1023 l, io')" "mem_src.avail io' = r"
    by blast
  have "u_getline L (mem_ops tr fl) io = getline_loop L (mem_ops tr fl) (take 1022 l) io1"
    unfolding u_getline_def
    by (subst getline_loop.simps) (simp add: io1(1) s nl libu_memD [OF assms(1,2)])
  with io' show ?thesis by simp
qed

theorem getline_drops_byte_witness:
  "\<exists>io'. u_getline libu_ref (mem_ops null_transform null_flush) (mem_io (replicate 1100 (CHR ''x'') @ LF # ''y'')) =
     Some (True, replicate 1099 (CHR ''x''), io') \<and> mem_src.avail io' = ''y''"
proof -
  let ?l = "replicate 1100 (CHR ''x'')"
  have len: "length (?l @ LF # ''y'') < SIZE_LIMIT" by (rule SIZE_LIMIT_gt) simp
  have h: "mem_src.plain (mem_io (?l @ LF # ''y'') :: (io_mem, unit) io)" "mem_src.avail (mem_io (?l @ LF # ''y'')) = ?l @ LF # ''y''"
    "LF \<notin> set ?l" "1023 \<le> length ?l" "length ?l \<le> 2045" "?l ! 1022 \<noteq> CR"
    using mem_io_ok(1,3) [OF len] by simp_all
  have "take 1022 ?l @ drop 1023 ?l = replicate 1099 (CHR ''x'')"
    by (simp add: replicate_add [symmetric])
  with getline_drops_byte [OF libu_ref_ok libu_ref_mem h, of null_transform null_flush] show ?thesis by simp
qed

end
