(* ===== verification/Date.thy ===== *)
theory Date
  imports Libu "HOL-Library.Monad_Syntax"
begin

text \<open>
  \<^verbatim>\<open>src/libutils/date.c\<close>: times as RFC 822 dates and back, and the two older date formats of
  HTTP.  \<open>gmtime\<close> and \<open>timegm\<close> are the Gregorian calendar as the C library computes it:
  the first counts years and months off the days since the epoch, the second adds up the days
  before a date.  \<open>scan_*\<close> are the conversions of \<^verbatim>\<open>sscanf\<close> the parsers use.
\<close>

section \<open>Definitions\<close>

subsection \<open>The calendar\<close>

record tm =
  tm_sec :: nat
  tm_min :: nat
  tm_hour :: nat
  tm_mday :: nat
  tm_mon :: nat
  tm_year :: int
  tm_wday :: nat

definition leap :: "int \<Rightarrow> bool" where
  "leap y \<longleftrightarrow> 4 dvd y \<and> \<not> 100 dvd y \<or> 400 dvd y"

definition year_days :: "int \<Rightarrow> nat" where
  "year_days y = (if leap y then 366 else 365)"

definition month_days :: "int \<Rightarrow> nat list" where
  "month_days y = [31, if leap y then 29 else 28, 31, 30, 31, 30, 31, 31, 30, 31, 30, 31]"

lemma year_days_pos [simp, termination_simp]: "0 < year_days y"
  by (simp add: year_days_def)

function civil_year :: "int \<Rightarrow> nat \<Rightarrow> int \<times> nat" where
  "civil_year y d = (if d < year_days y then (y, d) else civil_year (y + 1) (d - year_days y))"
  by pat_completeness auto
termination
  by (relation "measure snd") (auto simp: year_days_def)

declare civil_year.simps [simp del]

fun civil_month :: "nat list \<Rightarrow> nat \<Rightarrow> nat \<Rightarrow> nat \<times> nat" where
  "civil_month [] m d = (m, d)"
| "civil_month (k # ks) m d = (if d < k then (m, d) else civil_month ks (Suc m) (d - k))"

definition gmtime :: "nat \<Rightarrow> tm" where
  "gmtime ts =
     (let days = ts div 86400; s = ts mod 86400;
          (y, doy) = civil_year 1970 days;
          (m, d) = civil_month (month_days y) 0 doy in
      \<lparr>tm_sec = s mod 60, tm_min = s div 60 mod 60, tm_hour = s div 3600, tm_mday = d + 1, tm_mon = m,
       tm_year = y - 1900, tm_wday = (days + 4) mod 7\<rparr>)"

text \<open>The days before the first of January of a year, counted from the epoch.\<close>

definition days_before :: "int \<Rightarrow> int" where
  "days_before y = 365 * (y - 1) + (y - 1) div 4 - (y - 1) div 100 + (y - 1) div 400 - 719162"

definition timegm :: "int \<Rightarrow> nat \<Rightarrow> int \<Rightarrow> int \<Rightarrow> int \<Rightarrow> int \<Rightarrow> int" where
  "timegm year mon mday hour mins secs =
     (let y = year + 1900;
          days = days_before y + int (sum_list (take mon (month_days y))) + (mday - 1)
      in days * 86400 + hour * 3600 + mins * 60 + secs)"

subsection \<open>Conversions of \<^verbatim>\<open>sscanf\<close>\<close>

definition scan_ws :: "string \<Rightarrow> string" where
  "scan_ws s = dropWhile c_isspace s"

definition scan_lit :: "char \<Rightarrow> string \<Rightarrow> string option" where
  "scan_lit c s = (case s of [] \<Rightarrow> None | x # t \<Rightarrow> if x = c then Some t else None)"

definition scan_char :: "string \<Rightarrow> (char \<times> string) option" where
  "scan_char s = (case s of [] \<Rightarrow> None | x # t \<Rightarrow> Some (x, t))"

definition scan_run :: "(char \<Rightarrow> bool) \<Rightarrow> string \<Rightarrow> (string \<times> string) option" where
  "scan_run P s = (if takeWhile P s = [] then None else Some (takeWhile P s, dropWhile P s))"

definition scan_word :: "string \<Rightarrow> (string \<times> string) option" where
  "scan_word s = scan_run (\<lambda>c. \<not> c_isspace c) (scan_ws s)"

definition scan_until :: "char \<Rightarrow> string \<Rightarrow> (string \<times> string) option" where
  "scan_until c s = scan_run (\<lambda>x. x \<noteq> c) s"

text \<open>\<^verbatim>\<open>%u\<close>: white space, a sign, digits; the value is kept to 32 bits.\<close>

definition scan_uint :: "string \<Rightarrow> (int \<times> string) option" where
  "scan_uint s =
     (let t = scan_ws s;
          neg = (t \<noteq> [] \<and> hd t = CHR ''-'');
          u = (if t \<noteq> [] \<and> (hd t = CHR ''-'' \<or> hd t = CHR ''+'') then tl t else t)
      in do {
           (ds, r) \<leftarrow> scan_run c_isdigit u;
           let v = min (2 ^ 64 - 1) (digits_value 0 ds);
           Some ((if neg then - v else v) mod 2 ^ 32, r)
         })"

definition scan_clock :: "string \<Rightarrow> ((int \<times> int \<times> int) \<times> string) option" where
  "scan_clock s = do {
     (hour, s) \<leftarrow> scan_uint s; s \<leftarrow> scan_lit (CHR '':'') s;
     (mins, s) \<leftarrow> scan_uint s; s \<leftarrow> scan_lit (CHR '':'') s;
     (secs, s) \<leftarrow> scan_uint s;
     Some ((hour, mins, secs), s)
   }"

subsection \<open>Dates\<close>

definition days3 :: "string list" where
  "days3 = [''Sun'', ''Mon'', ''Tue'', ''Wed'', ''Thu'', ''Fri'', ''Sat'']"

definition months :: "string list" where
  "months = [''Jan'', ''Feb'', ''Mar'', ''Apr'', ''May'', ''Jun'', ''Jul'', ''Aug'', ''Sep'', ''Oct'', ''Nov'', ''Dec'']"

fun month_scan :: "string list \<Rightarrow> nat \<Rightarrow> string \<Rightarrow> nat option" where
  "month_scan [] i mon = None"
| "month_scan (m # ms) i mon = (if strcaseeq m mon then Some i else month_scan ms (Suc i) mon)"

definition month_idx :: "string \<Rightarrow> nat option" where
  "month_idx mon = month_scan months 0 mon"

text \<open>Filling in the \<^verbatim>\<open>struct tm\<close>: the subtraction from the year is one of \<^verbatim>\<open>unsigned int\<close>.\<close>

definition make_time :: "int \<Rightarrow> string \<Rightarrow> int \<Rightarrow> int \<times> int \<times> int \<Rightarrow> int option" where
  "make_time year mon mday clock =
     (case clock of (hour, mins, secs) \<Rightarrow>
        map_option (\<lambda>m. timegm (to_int32 (year - 1900)) m (to_int32 mday) (to_int32 hour) (to_int32 mins) (to_int32 secs))
          (month_idx mon))"

definition DATE_BUFSZ :: nat where
  "DATE_BUFSZ = 64"

definition u_asctime_to_tt :: "string \<Rightarrow> int option" where
  "u_asctime_to_tt str =
     (if DATE_BUFSZ \<le> length str then None
      else do {
        (wday, s) \<leftarrow> scan_word str;
        (mon, s) \<leftarrow> scan_word s;
        (day, s) \<leftarrow> scan_uint s;
        (clock, s) \<leftarrow> scan_clock s;
        (year, s) \<leftarrow> scan_uint s;
        make_time year mon day clock
      })"

definition u_rfc850_to_tt :: "string \<Rightarrow> int option" where
  "u_rfc850_to_tt str =
     (if DATE_BUFSZ \<le> length str then None
      else do {
        (wday, s) \<leftarrow> scan_until (CHR '','') str; s \<leftarrow> scan_lit (CHR '','') s;
        (day, s) \<leftarrow> scan_uint s;
        (c, s) \<leftarrow> scan_char s;
        (mon, s) \<leftarrow> scan_until (CHR ''-'') s;
        (c, s) \<leftarrow> scan_char s;
        (year, s) \<leftarrow> scan_uint s;
        (clock, s) \<leftarrow> scan_clock s;
        (tzone, s) \<leftarrow> scan_word s;
        make_time year mon day clock
      })"

definition u_rfc822_to_tt :: "string \<Rightarrow> int option" where
  "u_rfc822_to_tt str =
     (if DATE_BUFSZ \<le> length str then None
      else do {
        (wday, s) \<leftarrow> scan_until (CHR '','') str; s \<leftarrow> scan_lit (CHR '','') s;
        (day, s) \<leftarrow> scan_uint s;
        (mon, s) \<leftarrow> scan_word s;
        (year, s) \<leftarrow> scan_uint s;
        (clock, s) \<leftarrow> scan_clock s;
        (tzone, s) \<leftarrow> scan_word s;
        make_time year mon day clock
      })"

definition u_httpdate_to_tt :: "string \<Rightarrow> int option" where
  "u_httpdate_to_tt str =
     (if length str < 4 then None
      else if str ! 3 = CHR '','' then u_rfc822_to_tt str
      else if str ! 3 = CHR '' '' then u_asctime_to_tt str
      else u_rfc850_to_tt str)"

definition RFC822_DATE_BUFSZ :: nat where
  "RFC822_DATE_BUFSZ = 32"

definition u_tt_to_rfc822 :: "libu \<Rightarrow> nat \<Rightarrow> string option" where
  "u_tt_to_rfc822 L ts =
     (let tm = gmtime ts in
      if 6 < tm_wday tm then None
      else if 11 < tm_mon tm then None
      else
        (let text = days3 ! tm_wday tm @ '', '' @ dec2 (tm_mday tm) @ '' '' @ months ! tm_mon tm @ '' '' @
                    dec2 (nat (tm_year tm + 1900)) @ '' '' @ dec2 (tm_hour tm) @ '':'' @ dec2 (tm_min tm) @ '':'' @
                    dec2 (tm_sec tm) @ '' GMT'';
             (buf, truncated) = u_snprintf L text RFC822_DATE_BUFSZ
         in if truncated then None else Some (fst (u_strlcpy L buf RFC822_DATE_BUFSZ))))"

section \<open>The calendar inverts itself\<close>

lemma div_pred:
  assumes "0 < k"
  shows "(y :: int) div k = (y - 1) div k + (if k dvd y then 1 else 0)"
proof -
  have "y - 1 = (y mod k - 1) + y div k * k" by (simp add: div_mult_mod_eq [symmetric] algebra_simps)
  then have "(y - 1) div k = (y mod k - 1) div k + y div k" using assms by (metis div_mult_self1 less_irrefl add.commute)
  moreover have "(y mod k - 1) div k = (if k dvd y then -1 else 0)"
  proof (cases "k dvd y")
    case True
    then have "y mod k - 1 = -1" by simp
    moreover have "(-1 :: int) div k = -1" using assms by (intro int_div_pos_eq [of _ _ _ "k - 1"]) auto
    ultimately show ?thesis using True by metis
  next
    case False
    then have "0 \<le> y mod k - 1" "y mod k - 1 < k"
      using assms pos_mod_bound [OF assms, of y] pos_mod_sign [OF assms, of y] by (auto simp: dvd_eq_mod_eq_0)
    then show ?thesis using False by (simp add: div_pos_pos_trivial)
  qed
  ultimately show ?thesis by simp
qed

lemma days_before_Suc: "days_before (y + 1) = days_before y + int (year_days y)"
proof -
  have d: "400 dvd y \<Longrightarrow> 100 dvd y" "100 dvd y \<Longrightarrow> 4 dvd y"
    using dvd_trans [of 100 400 y] dvd_trans [of 4 100 y] by simp_all
  have e: "days_before (y + 1) = 365 * y + y div 4 - y div 100 + y div 400 - 719162" by (simp add: days_before_def)
  have p: "y div 4 = (y - 1) div 4 + (if 4 dvd y then 1 else 0)" "y div 100 = (y - 1) div 100 + (if 100 dvd y then 1 else 0)"
    "y div 400 = (y - 1) div 400 + (if 400 dvd y then 1 else 0)" by (rule div_pred, simp)+
  have l: "int (year_days y) = (if 400 dvd y then 366 else if 100 dvd y then 365 else if 4 dvd y then 366 else 365)"
    unfolding year_days_def leap_def using d by (simp only: if_split) auto
  have b: "days_before y = 365 * (y - 1) + (y - 1) div 4 - (y - 1) div 100 + (y - 1) div 400 - 719162" by (rule days_before_def)
  have "365 * y + (u + (if R then 1 else 0)) - (v + (if Q then 1 else 0)) + (w + (if P then 1 else 0)) - 719162 =
      365 * (y - 1) + u - v + w - 719162 + (if P then 366 else if Q then 365 else if R then 366 else 365)"
    if "P \<Longrightarrow> Q" "Q \<Longrightarrow> R" for P Q R and u v w :: int
    using that by (cases P; cases Q; cases R) auto
  from this [OF d] show ?thesis unfolding e p l b .
qed

lemma days_before_epoch: "days_before 1970 = 0"
  by (simp add: days_before_def)

lemma civil_year_days:
  "civil_year y d = (y', r) \<Longrightarrow> days_before y + int d = days_before y' + int r \<and> r < year_days y' \<and> y \<le> y'"
proof (induction y d rule: civil_year.induct)
  case (1 y d)
  show ?case
  proof (cases "d < year_days y")
    case False
    then have "civil_year (y + 1) (d - year_days y) = (y', r)" using 1(2) by (simp add: civil_year.simps [of y d])
    from 1(1) [OF False this] False show ?thesis by (auto simp: days_before_Suc)
  qed (use 1(2) in \<open>auto simp: civil_year.simps [of y d]\<close>)
qed

lemma civil_month_days:
  "civil_month ks m d = (m', r) \<Longrightarrow> d < sum_list ks \<Longrightarrow>
   m \<le> m' \<and> m' - m < length ks \<and> d = sum_list (take (m' - m) ks) + r \<and> r < ks ! (m' - m)"
proof (induction ks m d rule: civil_month.induct)
  case (2 k ks m d)
  show ?case
  proof (cases "d < k")
    case False
    then have "Suc m \<le> m' \<and> m' - Suc m < length ks \<and> d - k = sum_list (take (m' - Suc m) ks) + r \<and> r < ks ! (m' - Suc m)"
      using 2 by auto
    moreover from this obtain j where "m' - m = Suc j" "m' - Suc m = j" by (metis Suc_diff_Suc Suc_le_eq)
    ultimately show ?thesis using False by auto
  qed (use 2(2) in auto)
qed simp

lemma month_days_sum: "sum_list (month_days y) = year_days y"
  by (simp add: month_days_def year_days_def)

lemma month_days_bound: "m < 12 \<Longrightarrow> month_days y ! m \<le> 31"
  by (auto simp: month_days_def less_Suc_eq numeral_eq_Suc)

text \<open>The calendar date of a time: its fields are in range and \<open>timegm\<close> gives the time back.\<close>

lemma timegm_gmtime:
  assumes "t = gmtime ts"
  shows "timegm (tm_year t) (tm_mon t) (int (tm_mday t)) (int (tm_hour t)) (int (tm_min t)) (int (tm_sec t)) = int ts"
    and "tm_mon t < 12" "tm_mday t \<le> 31" "tm_hour t < 24" "tm_min t < 60" "tm_sec t < 60" "tm_wday t < 7" "70 \<le> tm_year t"
proof -
  obtain y doy where y: "civil_year 1970 (ts div 86400) = (y, doy)" by fastforce
  obtain m d where m: "civil_month (month_days y) 0 doy = (m, d)" by fastforce
  from civil_year_days [OF y] have yd: "int (ts div 86400) = days_before y + int doy" "doy < year_days y" "1970 \<le> y"
    by (simp_all add: days_before_epoch)
  from civil_month_days [OF m] yd(2) have md: "m < 12" "doy = sum_list (take m (month_days y)) + d" "d < month_days y ! m"
    unfolding month_days_sum by (simp_all add: month_days_def)
  have t: "t = \<lparr>tm_sec = ts mod 86400 mod 60, tm_min = ts mod 86400 div 60 mod 60, tm_hour = ts mod 86400 div 3600,
      tm_mday = d + 1, tm_mon = m, tm_year = y - 1900, tm_wday = (ts div 86400 + 4) mod 7\<rparr>"
    by (simp add: assms gmtime_def y m Let_def)
  show "tm_mon t < 12" "tm_mday t \<le> 31" "tm_hour t < 24" "tm_min t < 60" "tm_sec t < 60" "tm_wday t < 7" "70 \<le> tm_year t"
    using md month_days_bound [OF md(1), of y] yd(3) by (auto simp: t)
  define s where "s = ts mod 86400"
  have "s div 3600 = s div 60 div 60" by (simp add: div_mult2_eq [symmetric])
  then have "s = s div 3600 * 3600 + s div 60 mod 60 * 60 + s mod 60"
    using div_mult_mod_eq [of "s div 60" 60] div_mult_mod_eq [of s 60] by linarith
  from arg_cong [OF this, of int]
  have "int s = int (s div 3600) * 3600 + int (s div 60 mod 60) * 60 + int (s mod 60)"
    by (simp only: of_nat_add of_nat_mult of_nat_numeral)
  moreover have "int ts = int (ts div 86400) * 86400 + int s"
    using arg_cong [OF div_mult_mod_eq [of ts 86400], of int] by (simp only: s_def of_nat_add of_nat_mult of_nat_numeral)
  ultimately show "timegm (tm_year t) (tm_mon t) (int (tm_mday t)) (int (tm_hour t)) (int (tm_min t)) (int (tm_sec t)) = int ts"
    using yd(1) md(2) by (simp add: t timegm_def Let_def s_def [symmetric])
qed

section \<open>Parsing what was printed\<close>

lemma digit_chr: "n < 10 \<Longrightarrow> c_isdigit (chr (48 + n)) \<and> \<not> c_isspace (chr (48 + n)) \<and> chr (48 + n) \<noteq> CHR ''-'' \<and> chr (48 + n) \<noteq> CHR ''+''"
proof -
  assume "n < 10"
  moreover from this have "ord (chr (48 + n)) = 48 + n" by simp
  moreover have "ord (CHR ''-'') = 45" "ord (CHR ''+'') = 43" by (simp_all add: ord_def)
  ultimately show ?thesis by (auto simp: c_isdigit_def c_isspace_def chr_eq_iff)
qed

lemma dec_digits: "set (dec n) \<subseteq> Collect c_isdigit"
proof (induction n rule: dec.induct)
  case (1 n)
  then show ?case using digit_chr [of n] digit_chr [of "n mod 10"] by (subst dec.simps) auto
qed

lemma dec2_digits: "set (dec2 n) \<subseteq> Collect c_isdigit" "dec2 n \<noteq> []"
  using dec_digits [of n] dec_nonempty [of n] by (auto simp: dec2_def c_isdigit_def ord_def)

lemma digits_value_append: "set s \<subseteq> Collect c_isdigit \<Longrightarrow> digits_value acc (s @ t) = digits_value (digits_value acc s) t"
  by (induction s arbitrary: acc) auto

lemma digits_value_dec: "digits_value 0 (dec n) = int n"
proof (induction n rule: dec.induct)
  case (1 n)
  show ?case
  proof (cases "n < 10")
    case True
    then show ?thesis using digit_chr [OF True] by (subst dec.simps) simp
  next
    case False
    have m: "n mod 10 < 10" by simp
    have "digits_value 0 (dec n) = digits_value (int (n div 10)) [chr (48 + n mod 10)]"
      using False 1 [OF False] dec_digits [of "n div 10"] by (subst dec.simps) (simp add: digits_value_append)
    also have "\<dots> = int (n div 10 * 10 + n mod 10)" using digit_chr [OF m] by simp presburger
    finally show ?thesis by (simp only: div_mult_mod_eq)
  qed
qed

lemma digits_value_dec2: "digits_value 0 (dec2 n) = int n"
proof -
  have "c_isdigit (CHR ''0'')" "ord (CHR ''0'') = 48" by (simp_all add: c_isdigit_def ord_def)
  then show ?thesis by (simp add: dec2_def digits_value_dec)
qed

text \<open>A string that starts with a digit is neither a sign nor white space.\<close>

lemma digit_hd: "c_isdigit c \<Longrightarrow> \<not> c_isspace c \<and> c \<noteq> CHR ''-'' \<and> c \<noteq> CHR ''+''"
  by (auto simp: c_isdigit_def c_isspace_def ord_def)

definition stops :: "string \<Rightarrow> bool" where
  "stops r \<longleftrightarrow> r = [] \<or> \<not> c_isdigit (hd r)"

lemma scan_run_append:
  assumes "set a \<subseteq> Collect P" "a \<noteq> []" "r = [] \<or> \<not> P (hd r)"
  shows "scan_run P (a @ r) = Some (a, r)"
proof -
  have "takeWhile P (a @ r) = a" "dropWhile P (a @ r) = r"
    using assms(1,3) by (cases r; auto simp: takeWhile_append dropWhile_append)+
  with assms(2) show ?thesis by (simp add: scan_run_def)
qed

lemma scan_uint_dec2:
  assumes "n < 2 ^ 32" "stops r"
  shows "scan_uint (dec2 n @ r) = Some (int n, r)" "scan_uint (CHR '' '' # dec2 n @ r) = Some (int n, r)"
proof -
  obtain c t where c: "dec2 n = c # t" "c_isdigit c" using dec2_digits [of n] by (cases "dec2 n") auto
  have "c_isspace (CHR '' '')" by (simp add: c_isspace_def ord_def)
  then have ws: "scan_ws (dec2 n @ r) = dec2 n @ r" "scan_ws (CHR '' '' # dec2 n @ r) = dec2 n @ r"
    using c digit_hd [OF c(2)] by (simp_all add: scan_ws_def)
  have run: "scan_run c_isdigit (dec2 n @ r) = Some (dec2 n, r)"
    using scan_run_append [OF dec2_digits] assms(2) by (auto simp: stops_def)
  have hd: "dec2 n @ r \<noteq> []" "hd (dec2 n @ r) \<noteq> CHR ''-''" "hd (dec2 n @ r) \<noteq> CHR ''+''"
    using c(1) digit_hd [OF c(2)] by simp_all
  have "min (2 ^ 64 - 1) (int n) = int n" "int n mod 2 ^ 32 = int n" using assms(1) by auto
  then show "scan_uint (dec2 n @ r) = Some (int n, r)" "scan_uint (CHR '' '' # dec2 n @ r) = Some (int n, r)"
    using hd run unfolding scan_uint_def ws Let_def by (simp_all add: digits_value_dec2)
qed

lemma months_words: "list_all (\<lambda>w. length w = 3 \<and> list_all (\<lambda>c. \<not> c_isspace c \<and> c \<noteq> CHR ''-'') w) months"
  by code_simp

lemma months_lower: "map (map c_tolower) months =
    [''jan'', ''feb'', ''mar'', ''apr'', ''may'', ''jun'', ''jul'', ''aug'', ''sep'', ''oct'', ''nov'', ''dec'']"
  by (simp add: months_def c_tolower_def c_isupper_def ord_def chr_eq_iff)

lemma month_scan_nth:
  "distinct (map (map c_tolower) ms) \<Longrightarrow> i < length ms \<Longrightarrow> month_scan ms k (ms ! i) = Some (k + i)"
proof (induction ms arbitrary: i k)
  case (Cons w ms)
  show ?case
  proof (cases i)
    case (Suc j)
    then have "ms ! j \<in> set ms" using Cons.prems(2) by simp
    then have "\<not> strcaseeq w (ms ! j)" using Cons.prems(1) by (auto simp: strcaseeq_def)
    then show ?thesis using Suc Cons by simp
  qed simp
qed simp

lemma month_word:
  assumes "m < 12"
  shows "scan_word (CHR '' '' # months ! m @ CHR '' '' # r) = Some (months ! m, CHR '' '' # r)" "month_idx (months ! m) = Some m"
    "length (months ! m) = 3" "CHR ''-'' \<notin> set (months ! m)"
proof -
  have l: "length months = 12" by (simp add: months_def)
  have "months ! m \<in> set months" using assms l by (simp only: nth_mem)
  with months_words have "length (months ! m) = 3 \<and> (\<forall>c \<in> set (months ! m). \<not> c_isspace c \<and> c \<noteq> CHR ''-'')"
    unfolding list_all_iff by blast
  then have w: "length (months ! m) = 3" "set (months ! m) \<subseteq> Collect (\<lambda>c. \<not> c_isspace c)" "CHR ''-'' \<notin> set (months ! m)"
    by auto
  then show "length (months ! m) = 3" "CHR ''-'' \<notin> set (months ! m)" by simp_all
  have sp: "c_isspace (CHR '' '')" by (simp add: c_isspace_def ord_def)
  obtain c t where c: "months ! m = c # t" "\<not> c_isspace c" using w by (cases "months ! m") auto
  have "scan_ws (CHR '' '' # months ! m @ CHR '' '' # r) = months ! m @ CHR '' '' # r"
    using c sp by (simp add: scan_ws_def)
  moreover have "scan_run (\<lambda>c. \<not> c_isspace c) (months ! m @ CHR '' '' # r) = Some (months ! m, CHR '' '' # r)"
    using w sp by (intro scan_run_append) auto
  ultimately show "scan_word (CHR '' '' # months ! m @ CHR '' '' # r) = Some (months ! m, CHR '' '' # r)"
    by (simp add: scan_word_def)
  have "distinct (map (map c_tolower) months)" unfolding months_lower by simp
  from month_scan_nth [OF this, of m 0] show "month_idx (months ! m) = Some m"
    using assms l by (simp add: month_idx_def)
qed

lemma day_name: "d < 7 \<Longrightarrow> \<exists>a b c. days3 ! d = [a, b, c] \<and> CHR '','' \<notin> set (days3 ! d)"
  by (auto simp: days3_def less_Suc_eq numeral_eq_Suc)

lemma days_before_mono: "y \<le> y' \<Longrightarrow> days_before y \<le> days_before y'"
  by (induction y' rule: int_ge_induct) (auto simp: days_before_Suc)

lemma gmtime_before_10000:
  assumes "ts < 253402300800"
  shows "tm_year (gmtime ts) < 8100"
proof -
  obtain y doy where y: "civil_year 1970 (ts div 86400) = (y, doy)" by fastforce
  from civil_year_days [OF y] have yd: "int (ts div 86400) = days_before y + int doy" by (simp add: days_before_epoch)
  have "ts div 86400 < 2932897" using assms by (simp add: less_mult_imp_div_less)
  then have lt: "days_before y < days_before 10000" using yd by (simp add: days_before_def)
  have "y < 10000" by (rule ccontr) (use days_before_mono [of 10000 y] lt in simp)
  then show ?thesis by (simp add: gmtime_def y Let_def split: prod.splits)
qed

lemma length_dec2: "n < 100 \<Longrightarrow> length (dec2 n) = 2"
  by (auto simp: dec2_def dec.simps)

lemma to_int32_id: "0 \<le> v \<Longrightarrow> v < 2 ^ 31 \<Longrightarrow> to_int32 v = v"
  by (simp add: to_int32_def)

definition rfc822_text :: "tm \<Rightarrow> string" where
  "rfc822_text t = days3 ! tm_wday t @ CHR '','' # CHR '' '' # dec2 (tm_mday t) @ CHR '' '' # months ! tm_mon t @ CHR '' '' #
     dec2 (nat (tm_year t + 1900)) @ CHR '' '' # dec2 (tm_hour t) @ CHR '':'' # dec2 (tm_min t) @ CHR '':'' #
     dec2 (tm_sec t) @ '' GMT''"

lemma tt_to_rfc822_eq:
  assumes "libu_ok L" "ts < 253402300800"
  shows "u_tt_to_rfc822 L ts = Some (rfc822_text (gmtime ts))" "length (rfc822_text (gmtime ts)) \<le> 29"
proof -
  let ?t = "gmtime ts"
  note r = timegm_gmtime(2-8) [OF refl, of ts]
  have len2: "length (dec2 (tm_mday ?t)) = 2" "length (dec2 (tm_hour ?t)) = 2" "length (dec2 (tm_min ?t)) = 2" "length (dec2 (tm_sec ?t)) = 2"
    using r by (simp_all add: length_dec2)
  have "nat (tm_year ?t + 1900) < 10 ^ Suc 3" using gmtime_before_10000 [OF assms(2)] by simp
  from length_dec [OF this] have y: "length (dec2 (nat (tm_year ?t + 1900))) \<le> 4"
    using length_dec2 [of "nat (tm_year ?t + 1900)"] by (cases "nat (tm_year ?t + 1900) < 10") (auto simp: dec2_def)
  have d: "length (days3 ! tm_wday ?t) = 3" using day_name [OF r(6)] by auto
  show len: "length (rfc822_text ?t) \<le> 29" using len2 y d month_word(3) [OF r(1)] by (simp add: rfc822_text_def)
  have "u_snprintf L (rfc822_text ?t) RFC822_DATE_BUFSZ = (rfc822_text ?t, False)"
    "u_strlcpy L (rfc822_text ?t) RFC822_DATE_BUFSZ = (rfc822_text ?t, False)"
    using len by (simp_all add: libu_ok_snprintf [OF assms(1)] libu_ok_strlcpy [OF assms(1)] RFC822_DATE_BUFSZ_def)
  with r show "u_tt_to_rfc822 L ts = Some (rfc822_text ?t)" by (simp add: u_tt_to_rfc822_def rfc822_text_def Let_def)
qed

lemma stops_sep [simp]: "stops (CHR '' '' # r)" "stops (CHR '':'' # r)"
  by (simp_all add: stops_def c_isdigit_def ord_def)

lemma scan_clock_dec2:
  assumes "h < 2 ^ 32" "m < 2 ^ 32" "s < 2 ^ 32"
  shows "scan_clock (CHR '' '' # dec2 h @ CHR '':'' # dec2 m @ CHR '':'' # dec2 s @ CHR '' '' # r) =
    Some ((int h, int m, int s), CHR '' '' # r)"
  by (simp add: scan_clock_def scan_lit_def scan_uint_dec2 [OF assms(1)] scan_uint_dec2 [OF assms(2)] scan_uint_dec2 [OF assms(3)])

section \<open>Properties\<close>

text \<open>
  C33.  Dates round-trip: every time from the epoch to the end of the year 9999 is printed as an
  RFC 822 date, and \<^verbatim>\<open>u_httpdate_to_tt\<close> reads that date as the same time.
\<close>

theorem httpdate_roundtrip:
  assumes "libu_ok L" "ts < 253402300800"
  shows "\<exists>s. u_tt_to_rfc822 L ts = Some s \<and> u_httpdate_to_tt s = Some (int ts)"
proof -
  define t where "t = gmtime ts"
  note r = timegm_gmtime [OF t_def]
  have yr: "tm_year t < 8100" using gmtime_before_10000 [OF assms(2)] by (simp add: t_def)
  obtain a b c where day: "days3 ! tm_wday t = [a, b, c]" "CHR '','' \<notin> set [a, b, c]" using day_name [OF r(7)] by auto
  let ?clock = "CHR '' '' # dec2 (tm_hour t) @ CHR '':'' # dec2 (tm_min t) @ CHR '':'' # dec2 (tm_sec t) @ '' GMT''"
  let ?year = "nat (tm_year t + 1900)"
  have sd: "scan_until (CHR '','') (days3 ! tm_wday t @ CHR '','' # s) = Some (days3 ! tm_wday t, CHR '','' # s)" for s
    unfolding scan_until_def by (rule scan_run_append) (use day in auto)
  have m: "tm_mday t < 2 ^ 32" "?year < 2 ^ 32" "tm_hour t < 2 ^ 32" "tm_min t < 2 ^ 32" "tm_sec t < 2 ^ 32"
    using r yr by auto
  have z: "scan_word '' GMT'' = Some (''GMT'', [])" by code_simp
  have mk: "make_time (int ?year) (months ! tm_mon t) (int (tm_mday t)) (int (tm_hour t), int (tm_min t), int (tm_sec t)) = Some (int ts)"
    using r yr by (simp add: make_time_def month_word(2) to_int32_id)
  have "length (rfc822_text t) \<le> 29" "u_tt_to_rfc822 L ts = Some (rfc822_text t)"
    using tt_to_rfc822_eq [OF assms] by (simp_all add: t_def)
  moreover have "u_rfc822_to_tt (rfc822_text t) = Some (int ts)" if "length (rfc822_text t) \<le> 29"
    using that mk
    by (simp add: u_rfc822_to_tt_def DATE_BUFSZ_def rfc822_text_def sd scan_lit_def scan_uint_dec2 [OF m(1)]
        scan_uint_dec2 [OF m(2)] month_word(1) [OF r(2)] scan_clock_dec2 [OF m(3-5)] z)
  moreover have "u_httpdate_to_tt (rfc822_text t) = u_rfc822_to_tt (rfc822_text t)"
    by (simp add: u_httpdate_to_tt_def rfc822_text_def day(1))
  ultimately show ?thesis by auto
qed

theorem httpdate_roundtrip_witness:
  "\<exists>s. u_tt_to_rfc822 libu_ref 784111777 = Some s \<and> u_httpdate_to_tt s = Some (int 784111777)"
  by (rule httpdate_roundtrip [OF libu_ref_ok]) simp

text \<open>
  An RFC 850 date, the format HTTP keeps for old clients, has a two-digit year, and
  \<^verbatim>\<open>u_rfc850_to_tt\<close> takes it for a year of the first century: the result lies more than
  1850 years before the epoch.
\<close>

theorem rfc850_first_century:
  assumes "d < 32" "m < 12" "y < 100" "hh < 24" "mm < 60" "ss < 60"
  shows "\<exists>t. u_httpdate_to_tt (''Sunday, '' @ dec2 d @ CHR ''-'' # months ! m @ CHR ''-'' # dec2 y @ CHR '' '' # dec2 hh @
      CHR '':'' # dec2 mm @ CHR '':'' # dec2 ss @ '' GMT'') = Some t \<and> t < - 58000000000"
proof -
  have n: "d < 2 ^ 32" "y < 2 ^ 32" "hh < 2 ^ 32" "mm < 2 ^ 32" "ss < 2 ^ 32" using assms by auto
  let ?rest = "CHR ''-'' # months ! m @ CHR ''-'' # dec2 y @ CHR '' '' # dec2 hh @ CHR '':'' # dec2 mm @ CHR '':'' # dec2 ss @ '' GMT''"
  have dash: "stops (CHR ''-'' # r)" for r by (simp add: stops_def c_isdigit_def ord_def)
  have sm: "scan_until (CHR ''-'') (months ! m @ CHR ''-'' # r) = Some (months ! m, CHR ''-'' # r)" for r
    unfolding scan_until_def by (rule scan_run_append) (use month_word(3,4) [OF assms(2)] in auto)
  have sd: "scan_until (CHR '','') (''Sunday'' @ CHR '','' # r) = Some (''Sunday'', CHR '','' # r)" for r
    unfolding scan_until_def by (rule scan_run_append) auto
  have z: "scan_word '' GMT'' = Some (''GMT'', [])" by code_simp
  have len: "length (''Sunday'' @ CHR '','' # CHR '' '' # dec2 d @ ?rest) < DATE_BUFSZ"
    using assms month_word(3) [OF assms(2)] by (simp add: DATE_BUFSZ_def length_dec2)
  have y32: "to_int32 (int y - 1900) = int y - 1900" using assms(3) by (simp add: to_int32_def)
  let ?t = "timegm (int y - 1900) m (int d) (int hh) (int mm) (int ss)"
  have "u_rfc850_to_tt (''Sunday'' @ CHR '','' # CHR '' '' # dec2 d @ ?rest) = Some ?t"
    using len assms sd [of "CHR '' '' # dec2 d @ ?rest"] y32
    by (simp add: u_rfc850_to_tt_def scan_lit_def scan_uint_dec2(2) [OF n(1) dash] scan_char_def sm scan_uint_dec2(1) [OF n(2)]
        scan_clock_dec2 [OF n(3-5)] z make_time_def month_word(2) to_int32_id)
  moreover have "?t < - 58000000000"
  proof -
    have "sum_list (take m (month_days (int y))) \<le> sum_list (month_days (int y))"
      by (metis append_take_drop_id le_add1 sum_list_append)
    then have s: "int (sum_list (take m (month_days (int y)))) \<le> 366" by (simp add: month_days_sum year_days_def split: if_splits)
    have "days_before (int y) \<le> days_before 100" using assms(3) by (intro days_before_mono) simp
    then have "days_before (int y) \<le> - 683003" by (simp add: days_before_def)
    with s assms show ?thesis by (simp add: timegm_def Let_def)
  qed
  ultimately show ?thesis by (simp add: u_httpdate_to_tt_def)
qed

theorem rfc850_first_century_witness:
  "\<exists>t. u_httpdate_to_tt (''Sunday, '' @ dec2 6 @ CHR ''-'' # months ! 10 @ CHR ''-'' # dec2 94 @ CHR '' '' # dec2 8 @
      CHR '':'' # dec2 49 @ CHR '':'' # dec2 37 @ '' GMT'') = Some t \<and> t < - 58000000000"
  by (rule rfc850_first_century) simp_all

end
