(* ===== verification/Response.thy ===== *)
theory Response
  imports Header Utils_Codec Date
begin

text \<open>
  \<^verbatim>\<open>src/libpage/response.c\<close>: the HTTP response under construction.  The output stream
  (\<^verbatim>\<open>rs->io\<close>) is an argument of the printing functions; the other fields of
  \<^verbatim>\<open>response_t\<close> are those of the record.  The status table is that of
  \<^verbatim>\<open>src/libhttp/http.c\<close>.
\<close>

section \<open>Definitions\<close>

datatype http_method = HM_UNKNOWN | HM_GET | HM_HEAD | HM_POST | HM_PUT | HM_DELETE

record response =
  rs_header :: header
  rs_status :: nat
  rs_method :: http_method
  rs_cgi :: bool

definition http_status_map :: "(nat \<times> string) list" where
  "http_status_map =
     [(200, ''OK''), (304, ''Not Modified''), (404, ''Not Found''), (500, ''Internal Server Error''),
      (301, ''Moved Permanently''), (302, ''Moved Temporarily''), (201, ''Created''), (202, ''Accepted''),
      (204, ''No Content''), (400, ''Bad Request''), (401, ''Unauthorized''), (403, ''Forbidden''),
      (411, ''Content-Length required''), (413, ''Request data too big''), (430, ''Key needed''),
      (501, ''Not Implemented''), (502, ''Bad Gateway''), (503, ''Service Unavailable'')]"

definition http_get_status_desc :: "nat \<Rightarrow> string" where
  "http_get_status_desc status =
     (case map_of http_status_map status of None \<Rightarrow> ''Unknown Status Code'' | Some d \<Rightarrow> d)"

definition response_create :: "libu \<Rightarrow> addr \<Rightarrow> response option" where
  "response_create L a =
     (if u_malloc L 40
      then map_option (\<lambda>h. \<lparr>rs_header = h, rs_status = 0, rs_method = HM_UNKNOWN, rs_cgi = False\<rparr>) (header_create L a)
      else None)"

text \<open>Lifting an operation on the header to the response.\<close>

definition on_header :: "(header \<Rightarrow> header step) \<Rightarrow> response \<Rightarrow> response step" where
  "on_header f rs =
     (case f (rs_header rs) of
        Done h \<Rightarrow> Done (rs\<lparr>rs_header := h\<rparr>)
      | Failed h \<Rightarrow> Failed (rs\<lparr>rs_header := h\<rparr>)
      | Crash \<Rightarrow> Crash)"

definition response_set_field :: "libu \<Rightarrow> string \<Rightarrow> string \<Rightarrow> response \<Rightarrow> response step" where
  "response_set_field L name value rs = on_header (header_set_field L name value) rs"

definition response_del_field :: "string \<Rightarrow> response \<Rightarrow> response step" where
  "response_del_field name rs = on_header (\<lambda>h.
     case header_get_field h name of
       Ok None \<Rightarrow> Failed h
     | Ok (Some f) \<Rightarrow> (case header_del_field f h of Ok h1 \<Rightarrow> Done h1 | Fail \<Rightarrow> Failed h | Fault \<Rightarrow> Crash)
     | Fail \<Rightarrow> Failed h
     | Fault \<Rightarrow> Crash) rs"

definition response_get_field_value :: "response \<Rightarrow> string \<Rightarrow> string option outcome" where
  "response_get_field_value rs name = header_get_field_value (rs_header rs) name"

definition response_set_content_encoding :: "libu \<Rightarrow> string \<Rightarrow> response \<Rightarrow> response step" where
  "response_set_content_encoding L enc rs = on_header (header_set_field L ''Content-Encoding'' enc) rs"

definition response_set_content_type :: "libu \<Rightarrow> string \<Rightarrow> response \<Rightarrow> response step" where
  "response_set_content_type L mime rs = on_header (header_set_field L ''Content-Type'' mime) rs"

definition response_disable_caching :: "libu \<Rightarrow> response \<Rightarrow> response step" where
  "response_disable_caching L rs =
     and_then (response_set_field L ''Cache-Control'' ''no-cache, must-revalidate'' rs) (\<lambda>rs.
     and_then (response_set_field L ''Expires'' ''Mon, 1 Jan 1990 05:00:00 GMT'' rs) (\<lambda>rs.
       response_set_field L ''Pragma'' ''no-cache'' rs))"

definition response_enable_caching :: "response \<Rightarrow> response step" where
  "response_enable_caching rs =
     and_then (response_del_field ''Cache-Control'' rs) (\<lambda>rs.
     and_then (response_del_field ''Expires'' rs) (\<lambda>rs.
       response_del_field ''Pragma'' rs))"

definition response_set_date :: "libu \<Rightarrow> nat \<Rightarrow> response \<Rightarrow> response step" where
  "response_set_date L date rs =
     (case u_tt_to_rfc822 L date of
        None \<Rightarrow> Failed rs
      | Some d \<Rightarrow> on_header (header_set_field L ''Date'' d) rs)"

definition response_set_last_modified :: "libu \<Rightarrow> nat \<Rightarrow> response \<Rightarrow> response step" where
  "response_set_last_modified L mtime rs =
     (case u_tt_to_rfc822 L mtime of
        None \<Rightarrow> Failed rs
      | Some d \<Rightarrow> on_header (header_set_field L ''Last-Modified'' d) rs)"

text \<open>\<^verbatim>\<open>%u\<close> prints the low 32 bits of the size.\<close>

definition response_set_content_length :: "libu \<Rightarrow> nat \<Rightarrow> response \<Rightarrow> response step" where
  "response_set_content_length L sz rs =
     (case u_snprintf L (dec (sz mod 2 ^ 32)) 64 of
        (b, truncated) \<Rightarrow>
          if truncated then Failed rs else on_header (header_set_field L ''Content-Length'' b) rs)"

definition response_set_status :: "nat \<Rightarrow> response \<Rightarrow> response" where
  "response_set_status status rs = rs\<lparr>rs_status := status\<rparr>"

definition response_add_field :: "libu \<Rightarrow> string \<Rightarrow> string \<Rightarrow> response \<Rightarrow> response step" where
  "response_add_field L name value rs =
     (case field_create L (Some name) (Some value) of
        None \<Rightarrow> Failed rs
      | Some f \<Rightarrow> Done (rs\<lparr>rs_header := header_add_new f (rs_header rs)\<rparr>))"

definition response_redirect :: "libu \<Rightarrow> string \<Rightarrow> response \<Rightarrow> response step" where
  "response_redirect L url rs = response_add_field L ''Location'' url (response_set_status 302 rs)"

text \<open>
  \<^verbatim>\<open>response_set_cookie\<close> builds the field in a 4096-byte array.  \<^verbatim>\<open>u_snprintf\<close> is
  given the space left; \<^verbatim>\<open>u_urlncpy\<close> is not, and writing its result with the terminating
  NUL past the end of the array is a fault.
\<close>

definition COOKIE_BUFSZ :: nat where
  "COOKIE_BUFSZ = 4096"

definition cookie_append :: "libu \<Rightarrow> string \<Rightarrow> string \<Rightarrow> string outcome" where
  "cookie_append L t buf =
     (case u_snprintf L t (COOKIE_BUFSZ - length buf) of
        (s, truncated) \<Rightarrow> if truncated then Fail else Ok (buf @ s))"

definition cookie_value :: "libu \<Rightarrow> string \<Rightarrow> string \<Rightarrow> string outcome" where
  "cookie_value L value buf =
     bind_outcome (u_urlncpy L value (length value) CPY_ENCODE) (\<lambda>(enc, n).
       if COOKIE_BUFSZ < length buf + length enc + 1 then Fault
       else if n = 0 then Fail
       else Ok (buf @ enc))"

definition cookie_attr :: "libu \<Rightarrow> string \<Rightarrow> string option \<Rightarrow> string \<Rightarrow> string outcome" where
  "cookie_attr L key v buf = (case v of None \<Rightarrow> Ok buf | Some x \<Rightarrow> cookie_append L (key @ x) buf)"

definition cookie_expires :: "libu \<Rightarrow> nat \<Rightarrow> string \<Rightarrow> string outcome" where
  "cookie_expires L expire buf =
     (if expire = 0 then Ok buf
      else case u_tt_to_rfc822 L expire of
        None \<Rightarrow> Fail
      | Some d \<Rightarrow> cookie_append L (''; expires='' @ d) buf)"

definition cookie_text ::
  "libu \<Rightarrow> string \<Rightarrow> string option \<Rightarrow> nat \<Rightarrow> string option \<Rightarrow> string option \<Rightarrow> bool \<Rightarrow> string outcome" where
  "cookie_text L name value expire path domain secure =
     (case value of
        None \<Rightarrow> cookie_append L (name @ ''=; expires=Wed, 01-Jan-1990 10:10:10 GMT'') []
      | Some v \<Rightarrow>
          bind_outcome (cookie_append L (name @ ''='') []) (\<lambda>b.
          bind_outcome (cookie_value L v b) (\<lambda>b.
          bind_outcome (cookie_expires L expire b) (\<lambda>b.
          bind_outcome (cookie_attr L ''; path='' path b) (\<lambda>b.
          bind_outcome (cookie_attr L ''; domain='' domain b) (\<lambda>b.
            if secure then cookie_append L ''; secure'' b else Ok b))))))"

definition response_set_cookie ::
  "libu \<Rightarrow> string \<Rightarrow> string option \<Rightarrow> nat \<Rightarrow> string option \<Rightarrow> string option \<Rightarrow> bool \<Rightarrow> response \<Rightarrow> response step" where
  "response_set_cookie L name value expire path domain secure rs =
     (case cookie_text L name value expire path domain secure of
        Ok b \<Rightarrow> response_add_field L ''Set-Cookie'' b rs
      | Fail \<Rightarrow> Failed rs
      | Fault \<Rightarrow> Crash)"

subsection \<open>Printing\<close>

definition response_print_status ::
  "libu \<Rightarrow> ('d, 'c) io_ops \<Rightarrow> response \<Rightarrow> ('d, 'c) io \<Rightarrow> ('d, 'c) io step option" where
  "response_print_status L E rs io =
     io_vprintf L E (''HTTP/1.0 '' @ dec (rs_status rs) @ '' '' @ http_get_status_desc (rs_status rs) @ [CR, LF]) io"

text \<open>Printing a field whose name or value is \<^verbatim>\<open>NULL\<close> with \<^verbatim>\<open>%s\<close> has no defined meaning.\<close>

definition response_print_field ::
  "libu \<Rightarrow> ('d, 'c) io_ops \<Rightarrow> field \<Rightarrow> ('d, 'c) io \<Rightarrow> ('d, 'c) io step option" where
  "response_print_field L E f io =
     (case (f_name f, f_value f) of
        (Some n, Some v) \<Rightarrow> io_vprintf L E (n @ '': '' @ v @ [CR, LF]) io
      | _ \<Rightarrow> Some Crash)"

fun print_fields ::
  "libu \<Rightarrow> ('d, 'c) io_ops \<Rightarrow> header \<Rightarrow> nat list \<Rightarrow> ('d, 'c) io \<Rightarrow> ('d, 'c) io step option" where
  "print_fields L E h [] io = Some (Done io)"
| "print_fields L E h (i # is) io =
     (case header_get_fieldn h i of
        None \<Rightarrow> Some Crash
      | Some f \<Rightarrow> io_seq (response_print_field L E (snd f) io) (print_fields L E h is))"

definition response_print_header_to_io ::
  "libu \<Rightarrow> ('d, 'c) io_ops \<Rightarrow> response \<Rightarrow> ('d, 'c) io \<Rightarrow> ('d, 'c) io step option" where
  "response_print_header_to_io L E rs io =
     io_seq (if rs_cgi rs then Some (Done io) else response_print_status L E rs io) (\<lambda>io.
     io_seq (print_fields L E (rs_header rs) [0..<header_field_count (rs_header rs)] io) (\<lambda>io.
       io_vprintf L E [CR, LF] io))"

text \<open>The accessors of a missing field or string give \<^verbatim>\<open>NULL\<close>, which counts as empty.\<close>

definition opt_len :: "string option \<Rightarrow> nat" where
  "opt_len s = (case s of None \<Rightarrow> 0 | Some x \<Rightarrow> length x)"

fun max_fields_size :: "header \<Rightarrow> nat list \<Rightarrow> nat" where
  "max_fields_size h [] = 0"
| "max_fields_size h (i # is) =
     (case header_get_fieldn h i of
        None \<Rightarrow> 0
      | Some f \<Rightarrow> opt_len (f_name (snd f)) + opt_len (f_value (snd f))) + 4 + max_fields_size h is"

definition response_get_max_header_size :: "response \<Rightarrow> nat" where
  "response_get_max_header_size rs =
     16 + length (http_get_status_desc (rs_status rs)) +
     max_fields_size (rs_header rs) [0..<header_field_count (rs_header rs)] + 2 + 64"

section \<open>The printed header\<close>

definition status_line :: "response \<Rightarrow> string" where
  "status_line rs =
     (if rs_cgi rs then []
      else ''HTTP/1.0 '' @ dec (rs_status rs) @ '' '' @ http_get_status_desc (rs_status rs) @ [CR, LF])"

definition print_line :: "field_node \<Rightarrow> string" where
  "print_line f = (case (f_name (snd f), f_value (snd f)) of (Some n, Some v) \<Rightarrow> n @ '': '' @ v @ [CR, LF] | _ \<Rightarrow> [])"

definition header_bytes :: "response \<Rightarrow> string" where
  "header_bytes rs = status_line rs @ concat (map print_line (h_fields (rs_header rs))) @ [CR, LF]"

definition printable :: "response \<Rightarrow> bool" where
  "printable rs \<longleftrightarrow> header_ok (rs_header rs) \<and> (\<forall>f \<in> set (h_fields (rs_header rs)). f_value (snd f) \<noteq> None) \<and>
     rs_status rs < 10000"

lemma fieldn_loop_eq: "i \<le> n \<Longrightarrow> fieldn_loop fs i n = (if n - i < length fs then Some (fs ! (n - i)) else None)"
  by (induction fs arbitrary: i) (auto simp: nth_Cons' Suc_diff_le)

lemma header_get_fieldn_eq: "header_ok h \<Longrightarrow> i < length (h_fields h) \<Longrightarrow> header_get_fieldn h i = Some (h_fields h ! i)"
  by (simp add: header_get_fieldn_def header_ok_def fieldn_loop_eq)

lemma vprintf_ok:
  assumes "libu_ok L" "libu_mem L" "mem_snk.wok io" "length t \<le> mem_snk.room io"
  shows "\<exists>io'. io_vprintf L (mem_ops tr fl) t io = Some (Done io') \<and> mem_snk.wok io' \<and>
     mem_snk.written io' = mem_snk.written io @ t \<and> mem_snk.room io' = mem_snk.room io - length t"
proof (cases "t = []")
  case True
  with assms(3) show ?thesis by (simp add: io_vprintf_def)
next
  case False
  then have "io_vprintf L (mem_ops tr fl) t io = io_write L (mem_ops tr fl) t io"
    by (simp add: io_vprintf_def libu_memD [OF assms(1,2)])
  with mem_snk.io_write_ok [OF assms, of tr fl] show ?thesis by auto
qed

lemma print_field_ok:
  assumes "libu_ok L" "libu_mem L" "mem_snk.wok io" "f_name (snd f) \<noteq> None" "f_value (snd f) \<noteq> None"
    "length (print_line f) \<le> mem_snk.room io"
  shows "\<exists>io'. response_print_field L (mem_ops tr fl) (snd f) io = Some (Done io') \<and> mem_snk.wok io' \<and>
     mem_snk.written io' = mem_snk.written io @ print_line f \<and> mem_snk.room io' = mem_snk.room io - length (print_line f)"
proof -
  from assms(4,5) obtain n v where nv: "f_name (snd f) = Some n" "f_value (snd f) = Some v" by auto
  with vprintf_ok [OF assms(1-3), of "print_line f" tr fl] assms(6) show ?thesis
    by (simp add: response_print_field_def print_line_def)
qed

lemma print_fields_ok:
  assumes "libu_ok L" "libu_mem L" "header_ok h" "\<forall>f \<in> set (h_fields h). f_value (snd f) \<noteq> None"
  shows "mem_snk.wok io \<Longrightarrow> \<forall>i \<in> set is. i < length (h_fields h) \<Longrightarrow>
     length (concat (map (\<lambda>i. print_line (h_fields h ! i)) is)) \<le> mem_snk.room io \<Longrightarrow>
     \<exists>io'. print_fields L (mem_ops tr fl) h is io = Some (Done io') \<and> mem_snk.wok io' \<and>
       mem_snk.written io' = mem_snk.written io @ concat (map (\<lambda>i. print_line (h_fields h ! i)) is) \<and>
       mem_snk.room io' = mem_snk.room io - length (concat (map (\<lambda>i. print_line (h_fields h ! i)) is))"
proof (induction "is" arbitrary: io)
  case Nil
  then show ?case by simp
next
  case (Cons i "is")
  let ?f = "h_fields h ! i"
  have i: "i < length (h_fields h)" using Cons.prems(2) by simp
  then have "?f \<in> set (h_fields h)" by simp
  then have nv: "f_name (snd ?f) \<noteq> None" "f_value (snd ?f) \<noteq> None" using assms(3,4) unfolding header_ok_def by blast+
  have len: "length (print_line ?f) \<le> mem_snk.room io" using Cons.prems(3) by simp
  from print_field_ok [OF assms(1,2) Cons.prems(1) nv len, of tr fl] obtain io1 where
    io1: "response_print_field L (mem_ops tr fl) (snd ?f) io = Some (Done io1)" "mem_snk.wok io1"
      "mem_snk.written io1 = mem_snk.written io @ print_line ?f" "mem_snk.room io1 = mem_snk.room io - length (print_line ?f)"
    by blast
  have "length (concat (map (\<lambda>i. print_line (h_fields h ! i)) is)) \<le> mem_snk.room io1" "\<forall>i \<in> set is. i < length (h_fields h)"
    using Cons.prems(2,3) io1(4) by auto
  from Cons.IH [OF io1(2) this(2,1)] io1 show ?case
    by (auto simp: header_get_fieldn_eq [OF assms(3) i] io_seq_def)
qed

lemma max_fields_size_ge:
  "header_ok h \<Longrightarrow> \<forall>i \<in> set is. i < length (h_fields h) \<Longrightarrow>
   length (concat (map (\<lambda>i. print_line (h_fields h ! i)) is)) \<le> max_fields_size h is"
proof (induction "is")
  case (Cons i "is")
  have "length (print_line f) \<le> opt_len (f_name (snd f)) + opt_len (f_value (snd f)) + 4" for f
    by (auto simp: print_line_def opt_len_def split: option.split)
  from this [of "h_fields h ! i"] Cons show ?case
    by (simp add: header_get_fieldn_eq)
qed simp

lemma map_nth_upt: "map (\<lambda>i. g (xs ! i)) [0..<length xs] = map g xs"
  by (rule nth_equalityI) auto

lemma header_bytes_fit:
  assumes "printable rs"
  shows "length (header_bytes rs) + 64 \<le> response_get_max_header_size rs"
proof -
  have ok: "header_ok (rs_header rs)" and st: "rs_status rs < 10 ^ Suc 3" using assms by (simp_all add: printable_def)
  have "header_field_count (rs_header rs) = length (h_fields (rs_header rs))"
    using ok by (simp add: header_ok_def header_field_count_def)
  moreover from max_fields_size_ge [OF ok, of "[0..<length (h_fields (rs_header rs))]"]
  have "length (concat (map print_line (h_fields (rs_header rs)))) \<le> max_fields_size (rs_header rs) [0..<length (h_fields (rs_header rs))]"
    by (simp only: map_nth_upt) simp
  moreover have "length (status_line rs) \<le> 16 + length (http_get_status_desc (rs_status rs))"
    using length_dec [OF st] by (simp add: status_line_def)
  ultimately show ?thesis by (simp add: header_bytes_def response_get_max_header_size_def)
qed

lemma print_header_ok:
  assumes "libu_ok L" "libu_mem L" "printable rs" "mem_snk.wok io" "length (header_bytes rs) \<le> mem_snk.room io"
  shows "\<exists>io'. response_print_header_to_io L (mem_ops tr fl) rs io = Some (Done io') \<and> mem_snk.wok io' \<and>
     mem_snk.written io' = mem_snk.written io @ header_bytes rs \<and> mem_snk.room io' = mem_snk.room io - length (header_bytes rs)"
proof -
  let ?h = "rs_header rs" and ?E = "mem_ops tr fl"
  have ok: "header_ok ?h" "\<forall>f \<in> set (h_fields ?h). f_value (snd f) \<noteq> None" using assms(3) by (simp_all add: printable_def)
  have n: "header_field_count ?h = length (h_fields ?h)" using ok(1) by (simp add: header_ok_def header_field_count_def)
  have len: "length (status_line rs) \<le> mem_snk.room io" using assms(5) by (simp add: header_bytes_def)
  obtain io1 where io1: "(if rs_cgi rs then Some (Done io) else response_print_status L ?E rs io) = Some (Done io1)"
      "mem_snk.wok io1" "mem_snk.written io1 = mem_snk.written io @ status_line rs"
      "mem_snk.room io1 = mem_snk.room io - length (status_line rs)"
    using vprintf_ok [OF assms(1,2,4) len, of tr fl] assms(4)
    by (cases "rs_cgi rs") (auto simp: response_print_status_def status_line_def)
  let ?fs = "concat (map print_line (h_fields ?h))"
  have "length ?fs \<le> mem_snk.room io1" using assms(5) io1(4) by (simp add: header_bytes_def)
  then have "length (concat (map (\<lambda>i. print_line (h_fields ?h ! i)) [0..<length (h_fields ?h)])) \<le> mem_snk.room io1"
    by (simp only: map_nth_upt)
  from print_fields_ok [OF assms(1,2) ok io1(2) _ this, of tr fl] obtain io2 where
    io2: "print_fields L ?E ?h [0..<length (h_fields ?h)] io1 = Some (Done io2)" "mem_snk.wok io2"
      "mem_snk.written io2 = mem_snk.written io1 @ ?fs" "mem_snk.room io2 = mem_snk.room io1 - length ?fs"
    unfolding map_nth_upt by auto
  have "length [CR, LF] \<le> mem_snk.room io2" using assms(5) io1(4) io2(4) by (simp add: header_bytes_def)
  from vprintf_ok [OF assms(1,2) io2(2) this, of tr fl] obtain io3 where
    io3: "io_vprintf L ?E [CR, LF] io2 = Some (Done io3)" "mem_snk.wok io3" "mem_snk.written io3 = mem_snk.written io2 @ [CR, LF]"
      "mem_snk.room io3 = mem_snk.room io2 - 2" by auto
  have "response_print_header_to_io L ?E rs io = Some (Done io3)"
    using io1(1) io2(1) io3(1) n by (simp add: response_print_header_to_io_def io_seq_def)
  moreover have "mem_snk.written io3 = mem_snk.written io @ header_bytes rs"
    using io1(3) io2(3) io3(3) by (simp add: header_bytes_def)
  moreover have "mem_snk.room io3 = mem_snk.room io - length (header_bytes rs)"
    using io1(4) io2(4) io3(4) by (simp add: header_bytes_def)
  ultimately show ?thesis using io3(2) by blast
qed

section \<open>Properties\<close>

text \<open>
  C27.  The header always fits the memory reserved for it: for a well-formed response,
  \<^verbatim>\<open>response_get_max_header_size\<close> is at least 64 bytes more than the printed header, and
  printing to an in-memory stream of that size succeeds and writes the status line, every field
  in order and the empty line.
\<close>

theorem response_header_fits:
  assumes "libu_ok L" "libu_mem L" "printable rs" "length buf = response_get_max_header_size rs" "length buf < SIZE_LIMIT"
  shows "length (header_bytes rs) + 64 \<le> response_get_max_header_size rs \<and>
     (\<exists>io'. response_print_header_to_io L (mem_ops tr fl) rs (mem_io buf) = Some (Done io') \<and>
       mem_snk.written io' = status_line rs @ concat (map print_line (h_fields (rs_header rs))) @ [CR, LF])"
proof -
  note fit = header_bytes_fit [OF assms(3)]
  have "length (header_bytes rs) \<le> mem_snk.room (mem_io buf)" using fit assms(4) by (simp add: mem_io_ok(5) [OF assms(5)])
  from print_header_ok [OF assms(1-3) mem_io_ok(2) [OF assms(5)] this, of tr fl] fit show ?thesis
    by (auto simp: mem_io_ok(4) [OF assms(5)] header_bytes_def)
qed

text \<open>
  A cookie value of 4096 bytes or more overflows the stack buffer of
  \<^verbatim>\<open>response_set_cookie\<close>: the URL encoding is copied after the name without a bound, and it
  is never shorter than the value.
\<close>

theorem cookie_overflow:
  assumes "libu_ok L" "length name + 1 < COOKIE_BUFSZ" "COOKIE_BUFSZ \<le> length v"
  shows "response_set_cookie L name (Some v) expire path domain secure rs = Crash"
proof -
  have "cookie_append L (name @ ''='') [] = Ok (name @ ''='')"
    using assms(2) by (simp add: cookie_append_def libu_ok_snprintf [OF assms(1)] COOKIE_BUFSZ_def)
  moreover have "u_urlncpy L v (length v) CPY_ENCODE = Ok (url_escape v, length (url_escape v))"
    using url_encode_eq [of v "[]"] by (simp add: u_urlncpy_def counted_def)
  moreover have "COOKIE_BUFSZ < length (name @ ''='') + length (url_escape v) + 1"
    using assms(3) length_url_escape [of v] by simp
  ultimately show ?thesis
    by (simp add: response_set_cookie_def cookie_text_def cookie_value_def)
qed

theorem response_header_fits_witness:
  "\<exists>io'. response_print_header_to_io libu_ref (mem_ops null_transform null_flush)
      \<lparr>rs_header = \<lparr>h_fields = [(0, \<lparr>f_name = Some ''A'', f_value = Some ''b''\<rparr>)], nfields = 1, h_next = 1\<rparr>,
       rs_status = 200, rs_method = HM_GET, rs_cgi = True\<rparr> (mem_io (replicate 90 NUL)) = Some (Done io') \<and>
     mem_snk.written io' = ''A: b'' @ [CR, LF, CR, LF]"
proof -
  let ?rs = "\<lparr>rs_header = \<lparr>h_fields = [(0, \<lparr>f_name = Some ''A'', f_value = Some ''b''\<rparr>)], nfields = 1, h_next = 1\<rparr>,
       rs_status = 200, rs_method = HM_GET, rs_cgi = True\<rparr>"
  have m: "response_get_max_header_size ?rs = 90"
    by (simp add: response_get_max_header_size_def http_get_status_desc_def http_status_map_def header_field_count_def
        header_get_fieldn_def opt_len_def)
  have h: "printable ?rs" "length (replicate 90 NUL) = response_get_max_header_size ?rs" "length (replicate 90 NUL) < SIZE_LIMIT"
    unfolding m by (simp_all add: printable_def header_ok_def)
  from response_header_fits [OF libu_ref_ok libu_ref_mem h, of null_transform null_flush] show ?thesis
    by (auto simp: status_line_def print_line_def)
qed

theorem cookie_overflow_witness:
  "response_set_cookie libu_ref ''sid'' (Some (replicate 4096 (CHR ''x''))) 0 None None False
     \<lparr>rs_header = \<lparr>h_fields = [], nfields = 0, h_next = 0\<rparr>, rs_status = 200, rs_method = HM_GET, rs_cgi = False\<rparr> = Crash"
  by (rule cookie_overflow [OF libu_ref_ok]) (simp_all add: COOKIE_BUFSZ_def)

end
