(* ===== verification/Rsfilter.thy ===== *)
theory Rsfilter
  imports Response
begin

text \<open>
  \<^verbatim>\<open>src/libpage/rsfilter.c\<close>: the codec that holds back the first 4096 bytes of a page so that
  the header can still change, then emits the header, the held bytes and the rest.  The state has
  the fields of \<^verbatim>\<open>response_filter_t\<close> that change; \<^verbatim>\<open>iob\<close> is an in-memory stream.
  \<^verbatim>\<open>new_session\<close> says that the page has a session without an identifier, and the function
  argument \<open>set_id\<close> is what \<^verbatim>\<open>session_priv_set_id\<close> then does to the response.
\<close>

section \<open>Definitions\<close>

definition RFBUFSZ :: nat where
  "RFBUFSZ = 4096"

datatype rf_state = RFS_BUFFERING | RFS_FLUSHING

record response_filter =
  rf_rs :: response
  new_session :: bool
  rf_st :: rf_state
  feeded :: bool
  rf_buf :: "char list"
  iob :: "(io_mem, unit) io option"

abbreviation memE :: "(io_mem, unit) io_ops" where
  "memE \<equiv> mem_ops null_transform null_flush"

definition response_filter_create :: "libu \<Rightarrow> response \<Rightarrow> bool \<Rightarrow> response_filter option" where
  "response_filter_create L rs newss =
     (if u_malloc L 8320
      then Some \<lparr>rf_rs = rs, new_session = newss, rf_st = RFS_BUFFERING, feeded = False, rf_buf = [], iob = None\<rparr>
      else None)"

definition response_filter_feeded :: "response_filter \<Rightarrow> bool" where
  "response_filter_feeded rf = feeded rf"

text \<open>
  \<^verbatim>\<open>rf_init_iob\<close>: print header and held bytes to a memory stream, then open the written
  part for reading.  The result of the header printing is ignored.
\<close>

definition rf_fill :: "libu \<Rightarrow> response \<Rightarrow> char list \<Rightarrow> (io_mem, unit) io \<Rightarrow> (io_mem, unit) io step option" where
  "rf_fill L rs held io =
     Option.bind (response_print_header_to_io L memE rs io) (\<lambda>r. case r of
       Crash \<Rightarrow> Some Crash
     | Done io1 \<Rightarrow> if rs_method rs \<noteq> HM_HEAD then io_write L memE held io1 else Some (Done io1)
     | Failed io1 \<Rightarrow> if rs_method rs \<noteq> HM_HEAD then io_write L memE held io1 else Some (Done io1))"

definition rf_init_iob :: "libu \<Rightarrow> response_filter \<Rightarrow> response_filter option" where
  "rf_init_iob L rf =
     (let hsz = response_get_max_header_size (rf_rs rf) + length (rf_buf rf) in
      if \<not> u_malloc L hsz then None
      else case io_mem_create L (replicate hsz NUL) False of
        None \<Rightarrow> None
      | Some io \<Rightarrow>
          (case rf_fill L (rf_rs rf) (rf_buf rf) io of
             Some (Done io1) \<Rightarrow>
               (case io_flush memE io1 of
                  Done io2 \<Rightarrow>
                    (case io_tell memE io2 of
                       (Some htell, _) \<Rightarrow>
                         (case io_mem_create L (take htell (io_mem_get_buf io2)) True of
                            None \<Rightarrow> None
                          | Some io3 \<Rightarrow> Some (rf\<lparr>iob := Some io3\<rparr>))
                     | _ \<Rightarrow> None)
                | _ \<Rightarrow> None)
           | _ \<Rightarrow> None))"

text \<open>Reading from \<^verbatim>\<open>iob\<close>: the stream is freed at its end.\<close>

definition rf_drain :: "libu \<Rightarrow> nat \<Rightarrow> response_filter \<Rightarrow> char list option \<times> response_filter" where
  "rf_drain L cap rf =
     (case iob rf of
        None \<Rightarrow> (Some [], rf)
      | Some io \<Rightarrow>
          (case io_read L memE cap io of
             Some (Some b, io1) \<Rightarrow> (Some b, rf\<lparr>iob := (if b = [] then None else Some io1)\<rparr>)
           | Some (None, io1) \<Rightarrow> (None, rf\<lparr>iob := Some io1\<rparr>)
           | None \<Rightarrow> (None, rf)))"

definition rf_flush :: "libu \<Rightarrow> nat \<Rightarrow> response_filter \<Rightarrow> (bool \<times> char list) option \<times> response_filter" where
  "rf_flush L cap rf =
     (case (if rf_st rf = RFS_BUFFERING then rf_init_iob L (rf\<lparr>rf_st := RFS_FLUSHING\<rparr>) else Some rf) of
        None \<Rightarrow> (None, rf\<lparr>rf_st := RFS_FLUSHING\<rparr>)
      | Some rf1 \<Rightarrow>
          (case rf_drain L cap rf1 of
             (None, rf2) \<Rightarrow> (None, rf2)
           | (Some b, rf2) \<Rightarrow> (Some (b = [], b), rf2)))"

text \<open>The last chance to change the header: give a new session its identifier.\<close>

definition rf_start :: "libu \<Rightarrow> (response \<Rightarrow> response option) \<Rightarrow> response_filter \<Rightarrow> response_filter option" where
  "rf_start L set_id rf =
     (case (if new_session rf then set_id (rf_rs rf) else Some (rf_rs rf)) of
        None \<Rightarrow> None
      | Some rs \<Rightarrow> rf_init_iob L (rf\<lparr>rf_st := RFS_FLUSHING, rf_rs := rs, new_session := False\<rparr>))"

definition rf_transform ::
  "libu \<Rightarrow> (response \<Rightarrow> response option) \<Rightarrow> nat \<Rightarrow> char list \<Rightarrow> response_filter \<Rightarrow>
   (nat \<times> char list) option \<times> response_filter" where
  "rf_transform L set_id cap src rf0 =
     (let rf = rf0\<lparr>feeded := True\<rparr> in
      if rs_method (rf_rs rf) = HM_HEAD then (Some (length src, []), rf)
      else if rf_st rf = RFS_BUFFERING \<and> length (rf_buf rf) + length src < RFBUFSZ
      then (Some (length src, []), rf\<lparr>rf_buf := rf_buf rf @ src\<rparr>)
      else
        (case (if rf_st rf = RFS_BUFFERING then rf_start L set_id rf else Some rf) of
           None \<Rightarrow> (None, rf\<lparr>rf_st := RFS_FLUSHING\<rparr>)
         | Some rf1 \<Rightarrow>
             (case rf_drain L cap rf1 of
                (None, rf2) \<Rightarrow> (None, rf2)
              | (Some b, rf2) \<Rightarrow>
                  (if b \<noteq> [] then (Some (0, b), rf2)
                   else (Some (min cap (length src), take (min cap (length src)) src), rf2)))))"

section \<open>What the filter still owes\<close>

text \<open>The part of the output that has been accepted and not yet emitted.\<close>

definition held :: "response_filter \<Rightarrow> char list" where
  "held rf = (if rs_method (rf_rs rf) = HM_HEAD then [] else rf_buf rf)"

definition owed_bytes :: "response_filter \<Rightarrow> char list" where
  "owed_bytes rf =
     (case rf_st rf of
        RFS_BUFFERING \<Rightarrow> header_bytes (rf_rs rf) @ held rf
      | RFS_FLUSHING \<Rightarrow> (case iob rf of None \<Rightarrow> [] | Some io \<Rightarrow> mem_src.avail io))"

definition rf_ok :: "response_filter \<Rightarrow> bool" where
  "rf_ok rf \<longleftrightarrow> printable (rf_rs rf) \<and> \<not> new_session rf \<and>
     (case rf_st rf of
        RFS_BUFFERING \<Rightarrow> iob rf = None \<and> length (rf_buf rf) < RFBUFSZ \<and>
          response_get_max_header_size (rf_rs rf) + RFBUFSZ < SIZE_LIMIT
      | RFS_FLUSHING \<Rightarrow> (case iob rf of None \<Rightarrow> True | Some io \<Rightarrow> mem_src.plain io \<and> eof io = 0))"

lemma io_mem_create_free:
  "libu_ok L \<Longrightarrow> libu_mem L \<Longrightarrow> \<exists>io. io_mem_create L buf fr = Some io \<and> chain io = [] \<and> eof io = 0 \<and> rbuf io = [] \<and> ubuf io = [] \<and>
     mbuf (dev io) = buf \<and> moff (dev io) = 0"
  by (simp add: io_mem_create_def io_prv_create_def libu_memD)

lemma rf_init_iob_ok:
  assumes "libu_ok L" "libu_mem L" "printable (rf_rs rf)"
    "response_get_max_header_size (rf_rs rf) + length (rf_buf rf) < SIZE_LIMIT"
  shows "\<exists>io. rf_init_iob L rf = Some (rf\<lparr>iob := Some io\<rparr>) \<and> mem_src.plain io \<and> eof io = 0 \<and>
     mem_src.avail io = header_bytes (rf_rs rf) @ held rf"
proof -
  let ?rs = "rf_rs rf" and ?hb = "header_bytes (rf_rs rf)"
  let ?hsz = "response_get_max_header_size ?rs + length (rf_buf rf)"
  let ?buf = "replicate ?hsz NUL"
  let ?io = "mem_io ?buf :: (io_mem, unit) io"
  have len: "length ?buf < SIZE_LIMIT" using assms(4) by simp
  have room: "mem_snk.room ?io = ?hsz" "mem_snk.wok ?io" "mem_snk.written ?io = []"
    by (simp_all add: mem_io_ok [OF len])
  note fit = header_bytes_fit [OF assms(3)]
  have "length ?hb \<le> mem_snk.room ?io" using fit room(1) by linarith
  from print_header_ok [OF assms(1-3) room(2) this, of null_transform null_flush] obtain io1 where
    io1: "response_print_header_to_io L memE ?rs ?io = Some (Done io1)" "mem_snk.wok io1"
      "mem_snk.written io1 = ?hb" "mem_snk.room io1 = ?hsz - length ?hb"
    unfolding room(1,3) by auto
  have "length (rf_buf rf) \<le> mem_snk.room io1" using fit io1(4) by linarith
  from mem_snk.io_write_ok [OF assms(1,2) io1(2) this, of null_transform null_flush] io1(2,3) obtain io2 where
    io2: "rf_fill L ?rs (rf_buf rf) ?io = Some (Done io2)" "mem_snk.wok io2" "mem_snk.written io2 = ?hb @ held rf"
    by (cases "rs_method ?rs = HM_HEAD") (auto simp: rf_fill_def io1(1) held_def)
  from mem_snk.io_flush_ok [OF io2(2), of null_transform null_flush] io2(3) obtain io3 where
    io3: "io_flush memE io2 = Done io3" "mem_snk.wok io3" "wcount io3 = 0" "mem_sunk (dev io3) = ?hb @ held rf" by auto
  from mem_sunk_buf [OF _ io3(4)] io3(2) have d: "moff (dev io3) = length (?hb @ held rf)"
      "take (length (?hb @ held rf)) (mbuf (dev io3)) = ?hb @ held rf" by (simp_all add: mem_snk.wok_def)
  have fl: "io_flush memE io3 = Done io3" using io3(3) by (simp add: io_flush_def flush_loop.simps)
  then have tell: "io_tell memE io3 = (Some (length (?hb @ held rf)), Done io3)"
    using d(1) by (simp add: io_tell_def mem_ops_def io_mem_tell_def)
  from io_mem_create_free [OF assms(1,2), of "?hb @ held rf" True] obtain io4 :: "(io_mem, unit) io" where
    io4: "io_mem_create L (?hb @ held rf) True = Some io4" "chain io4 = []" "eof io4 = 0" "rbuf io4 = []" "ubuf io4 = []"
      "mbuf (dev io4) = ?hb @ held rf" "moff (dev io4) = 0" by blast
  have "length (?hb @ held rf) < SIZE_LIMIT" using fit assms(4) by (simp add: held_def)
  with io4 have "mem_src.plain io4" "mem_src.avail io4 = ?hb @ held rf"
    by (simp_all add: mem_src.plain_def mem_src.avail_def mem_good_def mem_pending_def)
  moreover have "rf_init_iob L rf = Some (rf\<lparr>iob := Some io4\<rparr>)"
    unfolding rf_init_iob_def Let_def io_mem_create_eq [OF assms(1,2)]
    using io2(1) io3(1) tell d(2) io4(1) by (simp add: libu_memD [OF assms(1,2)] io_mem_get_buf_def)
  ultimately show ?thesis using io4(3) by blast
qed

lemma rf_drain_ok:
  assumes "libu_ok L" "libu_mem L" "rf_ok rf" "rf_st rf = RFS_FLUSHING" "0 < cap"
  shows "\<exists>b rf'. rf_drain L cap rf = (Some b, rf') \<and> rf_ok rf' \<and> rf_st rf' = RFS_FLUSHING \<and> rf_rs rf' = rf_rs rf \<and>
     owed_bytes rf = b @ owed_bytes rf' \<and> (b = [] \<longleftrightarrow> owed_bytes rf = []) \<and> length b \<le> cap"
proof (cases "iob rf")
  case None
  with assms show ?thesis by (simp add: rf_drain_def owed_bytes_def)
next
  case (Some io)
  with assms(3,4) have p: "mem_src.plain io" "eof io = 0" by (simp_all add: rf_ok_def)
  from mem_src.io_read_ok [OF assms(1,2) p, of null_transform null_flush cap] obtain io' where
    io': "io_read L memE cap io = Some (Some (take cap (mem_src.avail io)), io')" "mem_src.plain io'"
      "mem_src.avail io' = drop cap (mem_src.avail io)" "eof io' = 0" using p(2) by (auto simp: mem_src.same_out_def)
  let ?b = "take cap (mem_src.avail io)"
  have "rf_drain L cap rf = (Some ?b, rf\<lparr>iob := (if ?b = [] then None else Some io')\<rparr>)"
    using Some io'(1) by (simp add: rf_drain_def)
  moreover have "owed_bytes rf = mem_src.avail io" using Some assms(4) by (simp add: owed_bytes_def)
  moreover have "rf_ok (rf\<lparr>iob := (if ?b = [] then None else Some io')\<rparr>)"
    using assms(3,4) io'(2,4) by (simp add: rf_ok_def)
  ultimately show ?thesis using assms(4,5) io'(3) by (auto simp: owed_bytes_def)
qed

lemma rf_start_ok:
  assumes "libu_ok L" "libu_mem L" "rf_ok rf"
  shows "\<exists>rf1. (if rf_st rf = RFS_BUFFERING then rf_start L set_id rf else Some rf) = Some rf1 \<and>
      rf_ok rf1 \<and> rf_st rf1 = RFS_FLUSHING \<and> rf_rs rf1 = rf_rs rf \<and> owed_bytes rf1 = owed_bytes rf"
proof (cases "rf_st rf")
  case RFS_BUFFERING
  let ?r = "rf\<lparr>rf_st := RFS_FLUSHING, rf_rs := rf_rs rf, new_session := False\<rparr>"
  have "printable (rf_rs ?r)" "response_get_max_header_size (rf_rs ?r) + length (rf_buf ?r) < SIZE_LIMIT"
    using assms(3) RFS_BUFFERING by (auto simp: rf_ok_def)
  from rf_init_iob_ok [OF assms(1,2) this] obtain io where
    io: "rf_init_iob L ?r = Some (?r\<lparr>iob := Some io\<rparr>)" "mem_src.plain io" "eof io = 0"
      "mem_src.avail io = header_bytes (rf_rs rf) @ held ?r" by auto
  have "rf_start L set_id rf = Some (?r\<lparr>iob := Some io\<rparr>)"
    using io(1) assms(3) by (simp add: rf_start_def rf_ok_def)
  moreover have "rf_ok (?r\<lparr>iob := Some io\<rparr>)" using assms(3) io(2,3) by (simp add: rf_ok_def)
  moreover have "owed_bytes (?r\<lparr>iob := Some io\<rparr>) = owed_bytes rf"
    using io(4) RFS_BUFFERING by (simp add: owed_bytes_def held_def)
  ultimately show ?thesis using RFS_BUFFERING by simp
next
  case RFS_FLUSHING
  with assms(3) show ?thesis by simp
qed

lemma rf_transform_ok:
  assumes "libu_ok L" "libu_mem L" "rf_ok rf" "0 < cap" "src \<noteq> []"
  shows "\<exists>n b rf'. rf_transform L set_id cap src rf = (Some (n, b), rf') \<and> rf_ok rf' \<and> rf_rs rf' = rf_rs rf \<and>
     n \<le> length src \<and> length b \<le> cap \<and> (n \<noteq> 0 \<or> b \<noteq> []) \<and>
     b @ owed_bytes rf' = owed_bytes rf @ (if rs_method (rf_rs rf) = HM_HEAD then [] else take n src)"
proof -
  let ?rf = "rf\<lparr>feeded := True\<rparr>"
  have ok: "rf_ok ?rf" "owed_bytes ?rf = owed_bytes rf" "rf_rs ?rf = rf_rs rf" "rf_st ?rf = rf_st rf"
    using assms(3) by (cases "rf_st rf"; simp add: rf_ok_def owed_bytes_def held_def)+
  consider (head) "rs_method (rf_rs rf) = HM_HEAD"
    | (buffer) "rs_method (rf_rs rf) \<noteq> HM_HEAD" "rf_st rf = RFS_BUFFERING" "length (rf_buf rf) + length src < RFBUFSZ"
    | (flush) "rs_method (rf_rs rf) \<noteq> HM_HEAD" "\<not> (rf_st rf = RFS_BUFFERING \<and> length (rf_buf rf) + length src < RFBUFSZ)" by blast
  then show ?thesis
  proof cases
    case head
    then have "rf_transform L set_id cap src rf = (Some (length src, []), ?rf)" by (simp add: rf_transform_def Let_def)
    with head ok assms(5) show ?thesis by simp
  next
    case buffer
    let ?rf' = "?rf\<lparr>rf_buf := rf_buf rf @ src\<rparr>"
    have "rf_transform L set_id cap src rf = (Some (length src, []), ?rf')"
      using buffer by (simp add: rf_transform_def Let_def)
    moreover have "rf_ok ?rf'" using assms(3) buffer by (simp add: rf_ok_def)
    moreover have "owed_bytes ?rf' = owed_bytes rf @ src" using buffer by (simp add: owed_bytes_def held_def)
    ultimately show ?thesis using buffer(1) assms(5) by simp
  next
    case flush
    from rf_start_ok [OF assms(1,2) ok(1), of set_id] obtain rf1 where
      rf1: "(if rf_st ?rf = RFS_BUFFERING then rf_start L set_id ?rf else Some ?rf) = Some rf1"
      "rf_ok rf1" "rf_st rf1 = RFS_FLUSHING" "rf_rs rf1 = rf_rs rf" "owed_bytes rf1 = owed_bytes rf"
      unfolding ok(2,3) by blast
    from rf_drain_ok [OF assms(1,2) rf1(2,3) assms(4)] obtain b rf2 where
      rf2: "rf_drain L cap rf1 = (Some b, rf2)" "rf_ok rf2" "rf_rs rf2 = rf_rs rf1" "owed_bytes rf1 = b @ owed_bytes rf2"
        "b = [] \<longleftrightarrow> owed_bytes rf1 = []" "length b \<le> cap" by blast
    define k where "k = min cap (length src)"
    have k: "k \<noteq> 0" "k \<le> length src" "length (take k src) \<le> cap" using assms(4,5) by (simp_all add: k_def)
    have c1: "\<not> (rf_st ?rf = RFS_BUFFERING \<and> length (rf_buf ?rf) + length src < RFBUFSZ)"
      and c2: "rs_method (rf_rs ?rf) \<noteq> HM_HEAD" using flush by simp_all
    have eq: "rf_transform L set_id cap src rf = (if b \<noteq> [] then (Some (0, b), rf2) else (Some (k, take k src), rf2))"
      unfolding rf_transform_def Let_def if_not_P [OF c1] if_not_P [OF c2] rf1(1) by (simp add: rf2(1) k_def)
    have rs: "rf_rs rf2 = rf_rs rf" using rf2(3) rf1(4) by simp
    have owed: "owed_bytes rf = b @ owed_bytes rf2" using rf2(4) rf1(5) by simp
    show ?thesis
    proof (cases "b = []")
      case True
      with rf2(5) rf1(5) owed have e: "owed_bytes rf = []" "owed_bytes rf2 = []" by simp_all
      have "take k src @ owed_bytes rf2 = owed_bytes rf @ (if rs_method (rf_rs rf) = HM_HEAD then [] else take k src)"
        unfolding e if_not_P [OF flush(1)] by simp
      moreover have "rf_transform L set_id cap src rf = (Some (k, take k src), rf2)" using eq True by simp
      ultimately show ?thesis using rf2(2) rs k by blast
    next
      case False
      have "b @ owed_bytes rf2 = owed_bytes rf @ (if rs_method (rf_rs rf) = HM_HEAD then [] else take 0 src)"
        unfolding owed by simp
      moreover have "rf_transform L set_id cap src rf = (Some (0, b), rf2)" using eq False by simp
      ultimately show ?thesis using rf2(2,6) rs False by blast
    qed
  qed
qed

lemma rf_flush_ok:
  assumes "libu_ok L" "libu_mem L" "rf_ok rf" "0 < cap"
  shows "\<exists>b rf'. rf_flush L cap rf = (Some (b = [], b), rf') \<and> rf_ok rf' \<and> rf_rs rf' = rf_rs rf \<and>
     owed_bytes rf = b @ owed_bytes rf' \<and> (b = [] \<longleftrightarrow> owed_bytes rf = []) \<and> length b \<le> cap"
proof -
  obtain rf1 where rf1: "(if rf_st rf = RFS_BUFFERING then rf_init_iob L (rf\<lparr>rf_st := RFS_FLUSHING\<rparr>) else Some rf) = Some rf1"
    "rf_ok rf1" "rf_st rf1 = RFS_FLUSHING" "rf_rs rf1 = rf_rs rf" "owed_bytes rf1 = owed_bytes rf"
  proof (cases "rf_st rf = RFS_BUFFERING")
    case True
    let ?r = "rf\<lparr>rf_st := RFS_FLUSHING\<rparr>"
    have "printable (rf_rs ?r)" "response_get_max_header_size (rf_rs ?r) + length (rf_buf ?r) < SIZE_LIMIT"
      using assms(3) True by (auto simp: rf_ok_def)
    from rf_init_iob_ok [OF assms(1,2) this] obtain io where
      io: "rf_init_iob L ?r = Some (?r\<lparr>iob := Some io\<rparr>)" "mem_src.plain io" "eof io = 0"
        "mem_src.avail io = header_bytes (rf_rs rf) @ held ?r" by auto
    have "rf_ok (?r\<lparr>iob := Some io\<rparr>)" "owed_bytes (?r\<lparr>iob := Some io\<rparr>) = owed_bytes rf"
      using assms(3) io True by (simp_all add: rf_ok_def owed_bytes_def held_def)
    with io(1) True that [of "?r\<lparr>iob := Some io\<rparr>"] show ?thesis by simp
  next
    case False
    then have "rf_st rf = RFS_FLUSHING" by (cases "rf_st rf") auto
    with False assms(3) that [of rf] show ?thesis by simp
  qed
  from rf_drain_ok [OF assms(1,2) rf1(2,3) assms(4)] obtain b rf2 where
    rf2: "rf_drain L cap rf1 = (Some b, rf2)" "rf_ok rf2" "rf_rs rf2 = rf_rs rf1" "owed_bytes rf1 = b @ owed_bytes rf2"
      "b = [] \<longleftrightarrow> owed_bytes rf1 = []" "length b \<le> cap" by blast
  then have "rf_flush L cap rf = (Some (b = [], b), rf2)" using rf1(1) by (simp add: rf_flush_def)
  with rf2 rf1(4,5) show ?thesis by metis
qed

text \<open>
  The stream layer's use of the codec: it offers the filter some bytes and some space, keeps
  what comes out and what was consumed, and at the end flushes until the flush is complete.
\<close>

fun feed :: "libu \<Rightarrow> (response \<Rightarrow> response option) \<Rightarrow> (nat \<times> char list) list \<Rightarrow> response_filter \<Rightarrow>
   (char list \<times> char list \<times> response_filter) option" where
  "feed L set_id [] rf = Some ([], [], rf)"
| "feed L set_id ((cap, src) # calls) rf =
     (case rf_transform L set_id cap src rf of
        (None, _) \<Rightarrow> None
      | (Some (n, b), rf1) \<Rightarrow>
          map_option (\<lambda>(eaten, out, rf2). (take n src @ eaten, b @ out, rf2)) (feed L set_id calls rf1))"

partial_function (option) drain_all :: "libu \<Rightarrow> nat \<Rightarrow> response_filter \<Rightarrow> char list option" where
  "drain_all L cap rf =
     (case rf_flush L cap rf of
        (None, _) \<Rightarrow> None
      | (Some (complete, b), rf1) \<Rightarrow>
          (if complete then Some [] else Option.bind (drain_all L cap rf1) (\<lambda>out. Some (b @ out))))"

lemma feed_ok:
  assumes "libu_ok L" "libu_mem L"
  shows "rf_ok rf \<Longrightarrow> \<forall>(cap, src) \<in> set calls. 0 < cap \<and> src \<noteq> [] \<Longrightarrow>
     \<exists>eaten out rf'. feed L set_id calls rf = Some (eaten, out, rf') \<and> rf_ok rf' \<and> rf_rs rf' = rf_rs rf \<and>
       out @ owed_bytes rf' = owed_bytes rf @ (if rs_method (rf_rs rf) = HM_HEAD then [] else eaten)"
proof (induction calls arbitrary: rf)
  case Nil
  then show ?case by simp
next
  case (Cons call calls)
  obtain cap src where c: "call = (cap, src)" by (cases call)
  with Cons.prems(2) have cs: "0 < cap" "src \<noteq> []" "\<forall>(cap, src) \<in> set calls. 0 < cap \<and> src \<noteq> []" by auto
  from rf_transform_ok [OF assms Cons.prems(1) cs(1,2), of set_id] obtain n b rf1 where
    rf1: "rf_transform L set_id cap src rf = (Some (n, b), rf1)" "rf_ok rf1" "rf_rs rf1 = rf_rs rf"
      "b @ owed_bytes rf1 = owed_bytes rf @ (if rs_method (rf_rs rf) = HM_HEAD then [] else take n src)" by blast
  from Cons.IH [OF rf1(2) cs(3)] obtain eaten out rf2 where
    rf2: "feed L set_id calls rf1 = Some (eaten, out, rf2)" "rf_ok rf2" "rf_rs rf2 = rf_rs rf1"
      "out @ owed_bytes rf2 = owed_bytes rf1 @ (if rs_method (rf_rs rf1) = HM_HEAD then [] else eaten)" by blast
  have "feed L set_id (call # calls) rf = Some (take n src @ eaten, b @ out, rf2)" using c rf1(1) rf2(1) by simp
  moreover have "(b @ out) @ owed_bytes rf2 = owed_bytes rf @ (if rs_method (rf_rs rf) = HM_HEAD then [] else take n src @ eaten)"
  proof -
    have "(b @ out) @ owed_bytes rf2 = (b @ owed_bytes rf1) @ (if rs_method (rf_rs rf) = HM_HEAD then [] else eaten)"
      using rf2(4) rf1(3) by simp
    then show ?thesis unfolding rf1(4) by simp
  qed
  ultimately show ?case using rf2(2,3) rf1(3) by auto
qed

lemma drain_all_ok:
  assumes "libu_ok L" "libu_mem L" "0 < cap"
  shows "rf_ok rf \<Longrightarrow> drain_all L cap rf = Some (owed_bytes rf)"
proof (induction "length (owed_bytes rf)" arbitrary: rf rule: less_induct)
  case less
  from rf_flush_ok [OF assms(1,2) less.prems assms(3)] obtain b rf' where
    rf': "rf_flush L cap rf = (Some (b = [], b), rf')" "rf_ok rf'" "owed_bytes rf = b @ owed_bytes rf'"
      "b = [] \<longleftrightarrow> owed_bytes rf = []" by blast
  show ?case
  proof (cases "b = []")
    case True
    with rf' show ?thesis by (subst drain_all.simps) simp
  next
    case False
    then have "length (owed_bytes rf') < length (owed_bytes rf)" using rf'(3) by simp
    from less.hyps [OF this rf'(2)] False rf'(1,3) show ?thesis by (subst drain_all.simps) simp
  qed
qed

section \<open>Properties\<close>

text \<open>
  C16.  The response filter emits the header exactly once and before everything else, and loses
  and reorders nothing: whatever buffer sizes and pieces the stream layer uses, the output of the
  calls followed by the output of the final flush is the header of the response followed by the
  bytes consumed (by nothing, for a \<^verbatim>\<open>HEAD\<close> request); the flush terminates.
\<close>

theorem rsfilter_header_then_body:
  assumes "libu_ok L" "libu_mem L" "printable rs" "response_get_max_header_size rs + RFBUFSZ < SIZE_LIMIT"
    and "\<forall>(cap, src) \<in> set calls. 0 < cap \<and> src \<noteq> []" "0 < cap"
  shows "\<exists>rf eaten out rf' tail. response_filter_create L rs False = Some rf \<and>
     feed L set_id calls rf = Some (eaten, out, rf') \<and> drain_all L cap rf' = Some tail \<and>
     out @ tail = header_bytes rs @ (if rs_method rs = HM_HEAD then [] else eaten)"
proof -
  let ?rf = "\<lparr>rf_rs = rs, new_session = False, rf_st = RFS_BUFFERING, feeded = False, rf_buf = [], iob = None\<rparr>"
  have c: "response_filter_create L rs False = Some ?rf"
    by (simp add: response_filter_create_def libu_memD [OF assms(1,2)])
  have "rf_ok ?rf" using assms(3,4) by (simp add: rf_ok_def RFBUFSZ_def)
  from feed_ok [OF assms(1,2) this assms(5), of set_id] obtain eaten out rf' where
    f: "feed L set_id calls ?rf = Some (eaten, out, rf')" "rf_ok rf'"
      "out @ owed_bytes rf' = owed_bytes ?rf @ (if rs_method rs = HM_HEAD then [] else eaten)" by auto
  have "owed_bytes ?rf = header_bytes rs" by (simp add: owed_bytes_def held_def)
  with f drain_all_ok [OF assms(1,2,6) f(2)] c show ?thesis by auto
qed

theorem rsfilter_header_then_body_witness:
  "\<exists>rf eaten out rf' tail. response_filter_create libu_ref
      \<lparr>rs_header = \<lparr>h_fields = [(0, \<lparr>f_name = Some ''A'', f_value = Some ''b''\<rparr>)], nfields = 1, h_next = 1\<rparr>,
       rs_status = 200, rs_method = HM_GET, rs_cgi = True\<rparr> False = Some rf \<and>
     feed libu_ref Some [(4096, ''hello'')] rf = Some (eaten, out, rf') \<and> drain_all libu_ref 16 rf' = Some tail \<and>
     out @ tail = ''A: b'' @ [CR, LF, CR, LF] @ eaten"
proof -
  let ?rs = "\<lparr>rs_header = \<lparr>h_fields = [(0, \<lparr>f_name = Some ''A'', f_value = Some ''b''\<rparr>)], nfields = 1, h_next = 1\<rparr>,
       rs_status = 200, rs_method = HM_GET, rs_cgi = True\<rparr>"
  have m: "response_get_max_header_size ?rs = 90"
    by (simp add: response_get_max_header_size_def http_get_status_desc_def http_status_map_def header_field_count_def
        header_get_fieldn_def opt_len_def)
  have h: "printable ?rs" "response_get_max_header_size ?rs + RFBUFSZ < SIZE_LIMIT"
      "\<forall>(cap, src) \<in> set [(4096 :: nat, ''hello'')]. 0 < cap \<and> src \<noteq> []" "0 < (16 :: nat)"
    unfolding m by (simp_all add: printable_def header_ok_def RFBUFSZ_def)
  have "header_bytes ?rs = ''A: b'' @ [CR, LF, CR, LF]" by (simp add: header_bytes_def status_line_def print_line_def)
  with rsfilter_header_then_body [OF libu_ref_ok libu_ref_mem h, of Some] show ?thesis by auto
qed

end
