(* ===== verification/Vars.thy ===== *)
theory Vars
  imports Utils_Codec
begin

text \<open>
  \<^verbatim>\<open>src/libpage/var.c\<close> and \<^verbatim>\<open>src/libpage/vars.c\<close>: named variables and lists of them.  The
  same \<^verbatim>\<open>var_t\<close> can be linked in several lists (a request keeps its arguments in
  \<^verbatim>\<open>args\<close> and again in \<^verbatim>\<open>args_get\<close> or \<^verbatim>\<open>args_post\<close>), so a list holds addresses and
  the variables live in a store, \<open>vmem\<close>; using an address whose variable was freed is a fault.

  The \<^verbatim>\<open>data\<close> buffer of a variable is the list of its \<^verbatim>\<open>size\<close> bytes; a NUL follows it,
  so the C string that \<^verbatim>\<open>var_get_value\<close> returns is \<open>cstr\<close> of it.
\<close>

section \<open>Definitions\<close>

subsection \<open>Variables\<close>

record var =
  sname :: string
  svalue :: "string option"
  vdata :: "char list option"
  vsize :: nat
  opaque :: "addr option"

definition var_empty :: "string \<Rightarrow> var" where
  "var_empty n = \<lparr>sname = n, svalue = None, vdata = None, vsize = 0, opaque = None\<rparr>"

text \<open>The value string is kept in step with the data once it exists.\<close>

definition var_sync :: "libu \<Rightarrow> var \<Rightarrow> var step" where
  "var_sync L v =
     (case svalue v of
        None \<Rightarrow> Done v
      | Some s \<Rightarrow>
          (case u_string_set L s (case vdata v of None \<Rightarrow> [] | Some d \<Rightarrow> d) of
             None \<Rightarrow> Failed v
           | Some s' \<Rightarrow> Done (v\<lparr>svalue := Some s'\<rparr>)))"

definition var_set_bin_value :: "libu \<Rightarrow> char list \<Rightarrow> nat \<Rightarrow> var \<Rightarrow> var step" where
  "var_set_bin_value L data sz v =
     (if sz \<noteq> 0
      then (if \<not> u_malloc L (size_add sz 1) then Failed (v\<lparr>vsize := sz, vdata := None\<rparr>)
            else if length data < sz then Crash
            else var_sync L (v\<lparr>vsize := sz, vdata := Some (take sz data)\<rparr>))
      else var_sync L (v\<lparr>vsize := 0, vdata := None\<rparr>))"

definition var_bin_create :: "libu \<Rightarrow> string \<Rightarrow> char list \<Rightarrow> nat \<Rightarrow> var outcome" where
  "var_bin_create L name data sz =
     (if \<not> u_malloc L 56 then Fail
      else case u_string_create L name of
        None \<Rightarrow> Fail
      | Some n \<Rightarrow>
          (case var_set_bin_value L data sz (var_empty n) of
             Done v \<Rightarrow> Ok v | Failed v \<Rightarrow> Fail | Crash \<Rightarrow> Fault))"

definition var_create :: "libu \<Rightarrow> string \<Rightarrow> string \<Rightarrow> var outcome" where
  "var_create L name val = var_bin_create L name (val @ [NUL]) (1 + length val)"

definition var_set_value :: "libu \<Rightarrow> string \<Rightarrow> var \<Rightarrow> var step" where
  "var_set_value L val v = var_set_bin_value L (val @ [NUL]) (1 + length val) v"

definition var_set_name :: "libu \<Rightarrow> string \<Rightarrow> var \<Rightarrow> var step" where
  "var_set_name L name v =
     (case u_string_set L (sname v) name of None \<Rightarrow> Failed v | Some n \<Rightarrow> Done (v\<lparr>sname := n\<rparr>))"

definition var_set :: "libu \<Rightarrow> string \<Rightarrow> string \<Rightarrow> var \<Rightarrow> var step" where
  "var_set L name val v = and_then (var_set_name L name v) (var_set_value L val)"

definition var_set_opaque :: "addr option \<Rightarrow> var \<Rightarrow> var" where
  "var_set_opaque p v = v\<lparr>opaque := p\<rparr>"

text \<open>The C string a reader of \<^verbatim>\<open>var_get_value\<close> sees (\<open>None\<close> is \<^verbatim>\<open>NULL\<close>).\<close>

definition var_get_value :: "var \<Rightarrow> string option" where
  "var_get_value v = map_option cstr (vdata v)"

definition var_get_value_size :: "var \<Rightarrow> nat" where
  "var_get_value_size v = vsize v"

definition var_get_value_s :: "libu \<Rightarrow> var \<Rightarrow> string option \<times> var" where
  "var_get_value_s L v =
     (case svalue v of
        Some s \<Rightarrow> (Some s, v)
      | None \<Rightarrow>
          (case u_string_create L (case vdata v of None \<Rightarrow> [] | Some d \<Rightarrow> d) of
             None \<Rightarrow> (None, v)
           | Some s \<Rightarrow> (Some s, v\<lparr>svalue := Some s\<rparr>)))"

subsection \<open>The store\<close>

record vmem =
  vheap :: "addr \<Rightarrow> var option"
  vnext :: addr

definition vmem_empty :: vmem where
  "vmem_empty = \<lparr>vheap = (\<lambda>_. None), vnext = 0\<rparr>"

text \<open>A variable just created gets a fresh address; \<^verbatim>\<open>var_free\<close> gives it back.\<close>

definition var_alloc :: "var \<Rightarrow> vmem \<Rightarrow> addr \<times> vmem" where
  "var_alloc v m = (vnext m, \<lparr>vheap = (vheap m)(vnext m \<mapsto> v), vnext = Suc (vnext m)\<rparr>)"

definition var_put :: "addr \<Rightarrow> var \<Rightarrow> vmem \<Rightarrow> vmem" where
  "var_put a v m = m\<lparr>vheap := (vheap m)(a \<mapsto> v)\<rparr>"

definition var_free :: "addr \<Rightarrow> vmem \<Rightarrow> vmem outcome" where
  "var_free a m =
     (if vheap m a = None then Fault else Ok (m\<lparr>vheap := (vheap m)(a := None)\<rparr>))"

subsection \<open>Lists of variables\<close>

record vars =
  vlist :: "addr list"
  foreign :: bool

definition vars_create :: "libu \<Rightarrow> vars option" where
  "vars_create L =
     (if u_malloc L 16 then map_option (\<lambda>l. \<lparr>vlist = l, foreign = False\<rparr>) (u_list_create L) else None)"

definition vars_set_flags :: "bool \<Rightarrow> vars \<Rightarrow> vars" where
  "vars_set_flags f vs = vs\<lparr>foreign := f\<rparr>"

fun free_loop :: "addr list \<Rightarrow> vmem \<Rightarrow> vmem outcome" where
  "free_loop [] m = Ok m"
| "free_loop (a # as) m = bind_outcome (var_free a m) (free_loop as)"

definition vars_free :: "vars \<Rightarrow> vmem \<Rightarrow> vmem outcome" where
  "vars_free vs m = (if foreign vs then Ok m else free_loop (vlist vs) m)"

definition vars_add :: "libu \<Rightarrow> addr \<Rightarrow> vars \<Rightarrow> vars step" where
  "vars_add L a vs = (case u_list_add L (vlist vs) a of None \<Rightarrow> Failed vs | Some l \<Rightarrow> Done (vs\<lparr>vlist := l\<rparr>))"

definition vars_del :: "libu \<Rightarrow> addr \<Rightarrow> vars \<Rightarrow> vars step" where
  "vars_del L a vs = (case u_list_del L (vlist vs) a of None \<Rightarrow> Failed vs | Some l \<Rightarrow> Done (vs\<lparr>vlist := l\<rparr>))"

definition vars_getn :: "vars \<Rightarrow> nat \<Rightarrow> addr option" where
  "vars_getn vs i = (if length (vlist vs) \<le> i then None else Some (vlist vs ! i))"

definition vars_count :: "vars \<Rightarrow> nat" where
  "vars_count vs = length (vlist vs)"

fun countn_loop :: "(addr \<Rightarrow> var option) \<Rightarrow> string \<Rightarrow> addr list \<Rightarrow> nat \<Rightarrow> nat outcome" where
  "countn_loop h name [] c = Ok c"
| "countn_loop h name (a # as) c =
     (case h a of
        None \<Rightarrow> Fault
      | Some v \<Rightarrow> countn_loop h name as (if strcaseeq (sname v) name then Suc c else c))"

definition vars_countn :: "vars \<Rightarrow> vmem \<Rightarrow> string \<Rightarrow> nat outcome" where
  "vars_countn vs m name = countn_loop (vheap m) name (vlist vs) 0"

fun geti_loop :: "(addr \<Rightarrow> var option) \<Rightarrow> string \<Rightarrow> addr list \<Rightarrow> nat \<Rightarrow> addr option outcome" where
  "geti_loop h name [] i = Ok None"
| "geti_loop h name (a # as) i =
     (case h a of
        None \<Rightarrow> Fault
      | Some v \<Rightarrow>
          if strcaseeq (sname v) name
          then (case i of 0 \<Rightarrow> Ok (Some a) | Suc j \<Rightarrow> geti_loop h name as j)
          else geti_loop h name as i)"

definition vars_geti :: "vars \<Rightarrow> vmem \<Rightarrow> string \<Rightarrow> nat \<Rightarrow> addr option outcome" where
  "vars_geti vs m name i = geti_loop (vheap m) name (vlist vs) i"

definition vars_get :: "vars \<Rightarrow> vmem \<Rightarrow> string \<Rightarrow> addr option outcome" where
  "vars_get vs m name = vars_geti vs m name 0"

definition vars_geti_value :: "vars \<Rightarrow> vmem \<Rightarrow> string \<Rightarrow> nat \<Rightarrow> string option outcome" where
  "vars_geti_value vs m name i =
     map_ok (\<lambda>r. case r of None \<Rightarrow> None | Some a \<Rightarrow> Option.bind (vheap m a) var_get_value) (vars_geti vs m name i)"

definition vars_get_value :: "vars \<Rightarrow> vmem \<Rightarrow> string \<Rightarrow> string option outcome" where
  "vars_get_value vs m name = vars_geti_value vs m name 0"

definition vars_geti_value_i :: "vars \<Rightarrow> vmem \<Rightarrow> string \<Rightarrow> nat \<Rightarrow> int outcome" where
  "vars_geti_value_i vs m name i =
     map_ok (\<lambda>r. case r of None \<Rightarrow> 0 | Some s \<Rightarrow> c_atoi s) (vars_geti_value vs m name i)"

definition vars_get_value_i :: "vars \<Rightarrow> vmem \<Rightarrow> string \<Rightarrow> int outcome" where
  "vars_get_value_i vs m name = vars_geti_value_i vs m name 0"

text \<open>The \<^verbatim>\<open>u_string_t\<close> variants create the value string on first use.\<close>

definition vars_geti_value_s :: "libu \<Rightarrow> vars \<Rightarrow> string \<Rightarrow> nat \<Rightarrow> vmem \<Rightarrow> (string option \<times> vmem) outcome" where
  "vars_geti_value_s L vs name i m =
     map_ok (\<lambda>r. case r of
         None \<Rightarrow> (None, m)
       | Some a \<Rightarrow>
           (case vheap m a of
              None \<Rightarrow> (None, m)
            | Some v \<Rightarrow> (case var_get_value_s L v of (s, v') \<Rightarrow> (s, var_put a v' m)))) (vars_geti vs m name i)"

definition vars_get_value_s :: "libu \<Rightarrow> vars \<Rightarrow> string \<Rightarrow> vmem \<Rightarrow> (string option \<times> vmem) outcome" where
  "vars_get_value_s L vs name m = vars_geti_value_s L vs name 0 m"

text \<open>
  \<^verbatim>\<open>vars_foreach\<close> over a list the callback does not change: the callback's state is passed
  along, a non-zero return (the flag) ends the loop.
\<close>

fun vars_foreach :: "(addr \<Rightarrow> 's \<Rightarrow> (bool \<times> 's) outcome) \<Rightarrow> addr list \<Rightarrow> 's \<Rightarrow> 's outcome" where
  "vars_foreach cb [] s = Ok s"
| "vars_foreach cb (a # as) s =
     bind_outcome (cb a s) (\<lambda>(stop, s'). if stop then Ok s' else vars_foreach cb as s')"

subsection \<open>Variables from text\<close>

text \<open>
  \<^verbatim>\<open>vars_add_urlvar\<close>: the result is the list, the store and the new variable.  Name and
  value buffers have one byte more than the text that is decoded into them.
\<close>

datatype 'a added = Added vars vmem 'a | NotAdded vars vmem | AddCrash

definition add_created :: "libu \<Rightarrow> var outcome \<Rightarrow> vars \<Rightarrow> vmem \<Rightarrow> addr added" where
  "add_created L r vs m =
     (case r of
        Ok v \<Rightarrow>
          (case var_alloc v m of (a, m1) \<Rightarrow>
             (case vars_add L a vs of
                Done vs' \<Rightarrow> Added vs' m1 a
              | Failed vs' \<Rightarrow> NotAdded vs' (m1\<lparr>vheap := (vheap m1)(a := None)\<rparr>)
              | Crash \<Rightarrow> AddCrash))
      | Fail \<Rightarrow> NotAdded vs m
      | Fault \<Rightarrow> AddCrash)"

definition url_part :: "libu \<Rightarrow> string \<Rightarrow> char list outcome" where
  "url_part L s =
     bind_outcome (u_urlncpy L (s @ [NUL]) (length s) CPY_DECODE) (\<lambda>(d, n). if n = 0 then Fail else Ok d)"

definition urlvar_create :: "libu \<Rightarrow> string \<Rightarrow> var outcome" where
  "urlvar_create L cs =
     (case u_strdup L cs of
        None \<Rightarrow> Fail
      | Some str \<Rightarrow>
          (case strchr_split str (CHR ''='') of
             None \<Rightarrow> Fail
           | Some (nam, val) \<Rightarrow>
               (if 256 \<le> length nam \<and> \<not> u_malloc L (1 + length nam) then Fail
                else if 4096 \<le> length val \<and> \<not> u_malloc L (1 + length val) then Fail
                else
                  bind_outcome (url_part L nam) (\<lambda>name.
                  bind_outcome (if val = [] then Ok [NUL] else url_part L val) (\<lambda>d.
                    var_bin_create L (cstr name) (d @ [NUL]) (length d))))))"

definition vars_add_urlvar :: "libu \<Rightarrow> string \<Rightarrow> vars \<Rightarrow> vmem \<Rightarrow> addr added" where
  "vars_add_urlvar L cs vs m = add_created L (urlvar_create L cs) vs m"

definition strvar_create :: "libu \<Rightarrow> string \<Rightarrow> var outcome" where
  "strvar_create L s =
     (case u_strdup L s of
        None \<Rightarrow> Fail
      | Some dups \<Rightarrow>
          (case strchr_split dups (CHR ''='') of
             None \<Rightarrow> Fail
           | Some (nam, val) \<Rightarrow> var_create L nam val))"

definition vars_add_strvar :: "libu \<Rightarrow> string \<Rightarrow> vars \<Rightarrow> vmem \<Rightarrow> addr added" where
  "vars_add_strvar L s vs m = add_created L (strvar_create L s) vs m"

section \<open>Invariant\<close>

definition var_ok :: "var \<Rightarrow> bool" where
  "var_ok v \<longleftrightarrow> vsize v = (case vdata v of None \<Rightarrow> 0 | Some d \<Rightarrow> length d) \<and> vdata v \<noteq> Some [] \<and>
     (\<forall>s. svalue v = Some s \<longrightarrow> s = (case vdata v of None \<Rightarrow> [] | Some d \<Rightarrow> d))"

definition vmem_ok :: "vmem \<Rightarrow> bool" where
  "vmem_ok m \<longleftrightarrow> (\<forall>a v. vheap m a = Some v \<longrightarrow> a < vnext m \<and> var_ok v)"

definition vars_ok :: "vars \<Rightarrow> vmem \<Rightarrow> bool" where
  "vars_ok vs m \<longleftrightarrow> vmem_ok m \<and> distinct (vlist vs) \<and> (\<forall>a \<in> set (vlist vs). vheap m a \<noteq> None)"

text \<open>What a list holds: names and data, in order.\<close>

definition var_pair :: "var \<Rightarrow> string \<times> char list option" where
  "var_pair v = (sname v, vdata v)"

definition vars_view :: "vars \<Rightarrow> vmem \<Rightarrow> (string \<times> char list option) list" where
  "vars_view vs m = map (\<lambda>a. var_pair (the (vheap m a))) (vlist vs)"

lemma vars_okD: "vars_ok vs m \<Longrightarrow> a \<in> set (vlist vs) \<Longrightarrow> \<exists>v. vheap m a = Some v \<and> a < vnext m \<and> var_ok v"
  by (auto simp: vars_ok_def vmem_ok_def)

section \<open>Looking up\<close>

definition named :: "vmem \<Rightarrow> string \<Rightarrow> addr list \<Rightarrow> addr list" where
  "named m name as = filter (\<lambda>a. strcaseeq (sname (the (vheap m a))) name) as"

lemma geti_loop_eq:
  "\<forall>a \<in> set as. vheap m a \<noteq> None \<Longrightarrow>
   geti_loop (vheap m) name as i = Ok (if i < length (named m name as) then Some (named m name as ! i) else None)"
  by (induction as arbitrary: i) (auto simp: named_def split: nat.splits)

lemma countn_loop_eq:
  "\<forall>a \<in> set as. vheap m a \<noteq> None \<Longrightarrow> countn_loop (vheap m) name as c = Ok (c + length (named m name as))"
  by (induction as arbitrary: c) (auto simp: named_def)

lemma vars_geti_ok:
  "vars_ok vs m \<Longrightarrow> vars_geti vs m name i =
     Ok (if i < length (named m name (vlist vs)) then Some (named m name (vlist vs) ! i) else None)"
  by (simp add: vars_geti_def geti_loop_eq vars_ok_def)

lemma vars_countn_ok: "vars_ok vs m \<Longrightarrow> vars_countn vs m name = Ok (length (named m name (vlist vs)))"
  by (simp add: vars_countn_def countn_loop_eq vars_ok_def)

lemma vars_get_Some:
  assumes "vars_ok vs m" "vars_get vs m name = Ok (Some a)"
  shows "\<exists>v. a \<in> set (vlist vs) \<and> vheap m a = Some v \<and> strcaseeq (sname v) name \<and> var_ok v"
proof -
  have n: "named m name (vlist vs) \<noteq> []" "a = named m name (vlist vs) ! 0"
    using assms by (auto simp: vars_get_def vars_geti_ok split: if_splits)
  then have "a \<in> set (named m name (vlist vs))" by (metis length_greater_0_conv nth_mem)
  then have a: "a \<in> set (vlist vs)" "strcaseeq (sname (the (vheap m a))) name" by (auto simp: named_def)
  with vars_okD [OF assms(1) a(1)] show ?thesis by auto
qed

lemma vars_get_None:
  "vars_ok vs m \<Longrightarrow> vars_get vs m name = Ok None \<longleftrightarrow>
     (\<forall>a \<in> set (vlist vs). \<not> strcaseeq (sname (the (vheap m a))) name)"
  by (auto simp: vars_get_def vars_geti_ok named_def filter_empty_conv split: if_splits)

section \<open>Creating\<close>

lemma var_set_bin_ok:
  assumes "libu_ok L" "libu_mem L" "sz \<le> length data"
  shows "\<exists>v'. var_set_bin_value L data sz v = Done v' \<and> sname v' = sname v \<and>
     vdata v' = (if sz = 0 then None else Some (take sz data)) \<and> opaque v' = opaque v \<and>
     (var_ok v \<longrightarrow> var_ok v')"
  using assms(3) by (auto simp: var_set_bin_value_def var_sync_def libu_memD [OF assms(1,2)] var_ok_def split: option.splits)

lemma var_bin_create_ok:
  assumes "libu_ok L" "libu_mem L" "sz \<le> length data"
  shows "var_bin_create L name data sz =
     Ok \<lparr>sname = name, svalue = None, vdata = (if sz = 0 then None else Some (take sz data)), vsize = sz, opaque = None\<rparr>"
  using assms(3) by (simp add: var_bin_create_def var_set_bin_value_def var_sync_def var_empty_def libu_memD [OF assms(1,2)])

definition var_of :: "string \<Rightarrow> char list \<Rightarrow> var" where
  "var_of name d = \<lparr>sname = name, svalue = None, vdata = (if d = [] then None else Some d), vsize = length d, opaque = None\<rparr>"

lemma var_of_ok [simp]: "var_ok (var_of name d)" "var_pair (var_of name d) = (name, if d = [] then None else Some d)"
  "sname (var_of name d) = name" "vdata (var_of name d) = (if d = [] then None else Some d)"
  by (simp_all add: var_of_def var_ok_def var_pair_def)

lemma var_create_ok: "libu_ok L \<Longrightarrow> libu_mem L \<Longrightarrow> var_create L name val = Ok (var_of name (val @ [NUL]))"
  by (simp add: var_create_def var_bin_create_ok var_of_def)

lemma vmem_alloc_ok: "vmem_ok m \<Longrightarrow> var_ok v \<Longrightarrow> vmem_ok (snd (var_alloc v m))"
  by (auto simp: vmem_ok_def var_alloc_def intro: less_SucI)

lemma vars_ok_alloc:
  assumes "vars_ok vs m" "var_ok v"
  shows "vars_ok vs (snd (var_alloc v m))" "vars_view vs (snd (var_alloc v m)) = vars_view vs m"
    "vars_ok (vs\<lparr>vlist := vlist vs @ [vnext m]\<rparr>) (snd (var_alloc v m))"
    "vars_view (vs\<lparr>vlist := vlist vs @ [vnext m]\<rparr>) (snd (var_alloc v m)) = vars_view vs m @ [var_pair v]"
proof -
  have fresh: "vnext m \<notin> set (vlist vs)" using vars_okD [OF assms(1)] by blast
  have "vmem_ok m" using assms(1) by (simp add: vars_ok_def)
  from vmem_alloc_ok [OF this assms(2)] fresh assms(1)
  show "vars_ok vs (snd (var_alloc v m))" "vars_ok (vs\<lparr>vlist := vlist vs @ [vnext m]\<rparr>) (snd (var_alloc v m))"
    by (auto simp: vars_ok_def var_alloc_def)
  show "vars_view vs (snd (var_alloc v m)) = vars_view vs m"
    "vars_view (vs\<lparr>vlist := vlist vs @ [vnext m]\<rparr>) (snd (var_alloc v m)) = vars_view vs m @ [var_pair v]"
    using fresh by (auto simp: vars_view_def var_alloc_def)
qed

lemma add_created_Ok:
  assumes "libu_ok L" "libu_mem L"
  shows "add_created L (Ok v) vs m =
     Added (vs\<lparr>vlist := vlist vs @ [vnext m]\<rparr>) (snd (var_alloc v m)) (vnext m)"
  by (simp add: add_created_def var_alloc_def vars_add_def libu_memD [OF assms])

text \<open>Escaped text contains no separator.\<close>

lemma url_escape_set: "x \<in> set (url_escape s) \<Longrightarrow> url_plain x \<or> x = CHR ''%'' \<or> x = CHR ''+''"
proof -
  have hex: "url_plain (hexc ! k)" if "k < 16" for k
    using that by (auto simp: url_plain_def ctype_defs ord_hexc)
  have "x \<in> set (url_enc_char c) \<Longrightarrow> url_plain x \<or> x = CHR ''%'' \<or> x = CHR ''+''" for c
    using hex [of "ord c div 16 mod 16"] hex [of "ord c mod 16"] by (auto simp: url_enc_char_def split: if_splits)
  then show "x \<in> set (url_escape s) \<Longrightarrow> url_plain x \<or> x = CHR ''%'' \<or> x = CHR ''+''"
    by (auto simp: url_escape_def)
qed

lemma url_escape_clean:
  "CHR ''='' \<notin> set (url_escape s)" "CHR ''&'' \<notin> set (url_escape s)" "LF \<notin> set (url_escape s)"
  "CR \<notin> set (url_escape s)" "NUL \<notin> set (url_escape s)" "CHR '';'' \<notin> set (url_escape s)" "CHR '' '' \<notin> set (url_escape s)"
  by (auto dest!: url_escape_set simp: url_plain_def ctype_defs ord_def)

lemma url_escape_Nil [simp]: "url_escape s = [] \<longleftrightarrow> s = []"
  using length_url_escape [of s] by auto

lemma url_part_escape:
  assumes "3 * length s < SIZE_LIMIT"
  shows "url_part L (url_escape s) = (if s = [] then Fail else Ok s)"
proof -
  have "length (url_escape s) < SIZE_LIMIT" using length_url_escape [of s] assms by linarith
  then show ?thesis by (simp add: url_part_def u_urlncpy_def counted_def url_decode_escape)
qed

text \<open>Parsing a printed pair.\<close>

definition url_pair :: "string \<times> char list \<Rightarrow> string" where
  "url_pair p = url_escape (fst p) @ CHR ''='' # url_escape (snd p)"

definition pair_ok :: "string \<times> char list \<Rightarrow> bool" where
  "pair_ok p \<longleftrightarrow> fst p \<noteq> [] \<and> NUL \<notin> set (fst p) \<and> snd p \<noteq> [] \<and> 3 * length (fst p) < SIZE_LIMIT \<and> 3 * length (snd p) < SIZE_LIMIT"

lemma urlvar_create_pair:
  assumes "libu_ok L" "libu_mem L" "pair_ok p"
  shows "urlvar_create L (url_pair p) = Ok (var_of (fst p) (snd p))"
  using assms(3)
  by (simp add: urlvar_create_def url_pair_def strchr_split_append url_escape_clean libu_memD [OF assms(1,2)]
      url_part_escape pair_ok_def var_bin_create_ok [OF assms(1,2)] var_of_def)

lemma vars_add_urlvar_pair:
  assumes "libu_ok L" "libu_mem L" "pair_ok p"
  shows "vars_add_urlvar L (url_pair p) vs m =
     Added (vs\<lparr>vlist := vlist vs @ [vnext m]\<rparr>) (snd (var_alloc (var_of (fst p) (snd p)) m)) (vnext m)"
  by (simp add: vars_add_urlvar_def urlvar_create_pair [OF assms] add_created_Ok [OF assms(1,2)])

end
