(* ===== verification/Request.thy ===== *)
theory Request
  imports Response Vars Path Timer
begin

text \<open>
  \<^verbatim>\<open>src/libpage/request.c\<close>: the HTTP request object, its string fields and the request
  line.  \<^verbatim>\<open>rq->io\<close> is an argument of the functions that read it; the variables of the five
  lists live in \<open>rq_mem\<close>.  U_FILENAME_MAX is LibU's limit for file names.
\<close>

section \<open>Definitions\<close>

record upload_info =
  u_mime :: string
  u_fname :: string
  u_fsize :: nat

record request =
  rq_header :: header
  rq_method :: http_method
  rq_cli_rq :: "string option"
  rq_uri :: "string option"
  rq_protocol :: "string option"
  rq_path_info :: "string option"
  rq_query :: "string option"
  rq_filename :: "string option"
  rq_resolved_path_info :: "string option"
  rq_resolved_filename :: "string option"
  rq_args :: vars
  rq_args_get :: vars
  rq_args_post :: vars
  rq_cookies :: vars
  rq_uploads :: vars
  rq_mem :: vmem
  rq_infos :: "addr \<Rightarrow> upload_info option"
  rq_content_type :: "string option"
  rq_content_encoding :: "string option"
  rq_content_length :: nat
  rq_if_modified_since :: int
  rq_local_addr :: string
  rq_peer_addr :: string
  rq_cgi :: bool
  rq_idle_timeout :: nat
  rq_post_timeout :: nat
  rq_post_maxsize :: nat
  rq_temp_dir :: "string option"
  rq_body_off :: nat

subsection \<open>String fields\<close>

text \<open>\<^verbatim>\<open>REQUEST_SET_STRING_FIELD\<close>: the old value is freed first.\<close>

definition set_string :: "libu \<Rightarrow> (string option \<Rightarrow> request \<Rightarrow> request) \<Rightarrow> string \<Rightarrow> request \<Rightarrow> request step" where
  "set_string L upd s rq =
     (case u_strdup L s of None \<Rightarrow> Failed (upd None rq) | Some t \<Rightarrow> Done (upd (Some t) rq))"

definition request_set_filename :: "libu \<Rightarrow> string \<Rightarrow> request \<Rightarrow> request step" where
  "request_set_filename L s rq = set_string L (\<lambda>x. rq_filename_update (\<lambda>_. x)) s rq"

definition request_set_resolved_filename :: "libu \<Rightarrow> string \<Rightarrow> request \<Rightarrow> request step" where
  "request_set_resolved_filename L s rq = set_string L (\<lambda>x. rq_resolved_filename_update (\<lambda>_. x)) s rq"

definition request_set_query_string :: "libu \<Rightarrow> string \<Rightarrow> request \<Rightarrow> request step" where
  "request_set_query_string L s rq = set_string L (\<lambda>x. rq_query_update (\<lambda>_. x)) s rq"

definition request_set_path_info :: "libu \<Rightarrow> string \<Rightarrow> request \<Rightarrow> request step" where
  "request_set_path_info L s rq = set_string L (\<lambda>x. rq_path_info_update (\<lambda>_. x)) s rq"

definition request_set_resolved_path_info :: "libu \<Rightarrow> string \<Rightarrow> request \<Rightarrow> request step" where
  "request_set_resolved_path_info L s rq = set_string L (\<lambda>x. rq_resolved_path_info_update (\<lambda>_. x)) s rq"

definition request_clear_uri :: "request \<Rightarrow> request" where
  "request_clear_uri rq =
     rq\<lparr>rq_uri := None, rq_protocol := None, rq_path_info := None, rq_query := None, rq_filename := None,
        rq_resolved_path_info := None, rq_resolved_filename := None, rq_content_type := None,
        rq_content_encoding := None\<rparr>"

definition request_set_field :: "libu \<Rightarrow> string \<Rightarrow> string \<Rightarrow> request \<Rightarrow> request step" where
  "request_set_field L name val rq =
     (case header_set_field L name val (rq_header rq) of
        Done h \<Rightarrow> Done (rq\<lparr>rq_header := h\<rparr>) | Failed h \<Rightarrow> Failed (rq\<lparr>rq_header := h\<rparr>) | Crash \<Rightarrow> Crash)"

definition request_get_field_value :: "request \<Rightarrow> string \<Rightarrow> string option outcome" where
  "request_get_field_value rq name = header_get_field_value (rq_header rq) name"

text \<open>The tokens of \<^verbatim>\<open>Accept-Encoding\<close> are compared whole, quality values included.\<close>

definition request_is_encoding_accepted :: "libu \<Rightarrow> string \<Rightarrow> request \<Rightarrow> bool outcome" where
  "request_is_encoding_accepted L encoding rq =
     map_ok (\<lambda>v. case Option.bind v (u_strdup L) of
         None \<Rightarrow> False
       | Some buf \<Rightarrow> (\<exists>tok \<in> set (strtok_all '' ,'' buf). strcaseeq tok encoding))
       (header_get_field_value (rq_header rq) ''Accept-Encoding'')"

text \<open>\<^verbatim>\<open>If-Modified-Since\<close>: a date that is not well formed is ignored.\<close>

definition request_parse_ims :: "request \<Rightarrow> request outcome" where
  "request_parse_ims rq =
     map_ok (\<lambda>v. case Option.bind v u_httpdate_to_tt of
         None \<Rightarrow> rq\<lparr>rq_if_modified_since := 0\<rparr>
       | Some t \<Rightarrow> rq\<lparr>rq_if_modified_since := t\<rparr>)
       (header_get_field_value (rq_header rq) ''If-Modified-Since'')"

definition request_set_addr :: "libu \<Rightarrow> string \<Rightarrow> request \<Rightarrow> request step" where
  "request_set_addr L a rq =
     (case u_strlcpy L a 256 of (s, truncated) \<Rightarrow>
        if truncated then Failed (rq\<lparr>rq_local_addr := s\<rparr>) else Done (rq\<lparr>rq_local_addr := s\<rparr>))"

definition request_set_peer_addr :: "libu \<Rightarrow> string \<Rightarrow> request \<Rightarrow> request step" where
  "request_set_peer_addr L a rq =
     (case u_strlcpy L a 256 of (s, truncated) \<Rightarrow>
        if truncated then Failed (rq\<lparr>rq_peer_addr := s\<rparr>) else Done (rq\<lparr>rq_peer_addr := s\<rparr>))"

subsection \<open>The URI\<close>

text \<open>\<^verbatim>\<open>u_strnrchr\<close> of \<^verbatim>\<open>src/libutils/utils.c\<close>: the last occurrence among the first characters.\<close>

fun u_strnrchr :: "string \<Rightarrow> char \<Rightarrow> nat \<Rightarrow> nat option" where
  "u_strnrchr s c 0 = None"
| "u_strnrchr s c (Suc i) = (if s ! i = c then Some i else u_strnrchr s c i)"

lemma u_strnrchr_less: "u_strnrchr s c n = Some i \<Longrightarrow> i < n \<and> s ! i = c \<and> (\<forall>j. i < j \<longrightarrow> j < n \<longrightarrow> s ! j \<noteq> c)"
  by (induction n) (auto simp: less_Suc_eq split: if_splits)

text \<open>
  The search for the path info: \<open>valid\<close> is the supplier's answer for the first characters of
  the path (\<open>None\<close> when no function is given).
\<close>

type_synonym uri_check = "(string \<Rightarrow> nat \<Rightarrow> bool) option"

definition accepts :: "uri_check \<Rightarrow> string \<Rightarrow> nat \<Rightarrow> bool" where
  "accepts valid fn k \<longleftrightarrow> (case valid of None \<Rightarrow> True | Some f \<Rightarrow> f fn k)"

definition split_at :: "libu \<Rightarrow> string \<Rightarrow> nat \<Rightarrow> request \<Rightarrow> request step" where
  "split_at L fn k rq =
     and_then (request_set_filename L fn rq) (\<lambda>rq.
       let rq1 = rq\<lparr>rq_filename := map_option (take k) (rq_filename rq)\<rparr>
       in if drop k fn \<noteq> [] then request_set_path_info L (drop k fn) rq1 else Done rq1)"

function path_info_loop :: "libu \<Rightarrow> uri_check \<Rightarrow> string \<Rightarrow> nat \<Rightarrow> request \<Rightarrow> request step" where
  "path_info_loop L valid fn k rq =
     (if accepts valid fn k then split_at L fn k rq
      else case u_strnrchr fn (CHR ''/'') k of
        None \<Rightarrow> Done rq
      | Some j \<Rightarrow> path_info_loop L valid fn j rq)"
  by pat_completeness auto
termination
  by (relation "measure (\<lambda>(L, valid, fn, k, rq). k)") (auto dest: u_strnrchr_less)

declare path_info_loop.simps [simp del]

definition cut_query :: "string \<Rightarrow> string" where
  "cut_query s = (case strchr_split s (CHR ''?'') of None \<Rightarrow> s | Some (a, _) \<Rightarrow> a)"

definition URI_BUFSZ :: nat where
  "URI_BUFSZ = 4096"

definition request_set_uri :: "libu \<Rightarrow> uri_check \<Rightarrow> string \<Rightarrow> request \<Rightarrow> request step" where
  "request_set_uri L valid uri rq =
     (let rq = request_clear_uri rq in
      if URI_BUFSZ \<le> length uri then Failed rq
      else
        and_then (set_string L (\<lambda>x. rq_uri_update (\<lambda>_. x)) uri rq) (\<lambda>rq.
        and_then (case strchr_split uri (CHR ''?'') of
            None \<Rightarrow> Done rq
          | Some (_, q) \<Rightarrow> request_set_query_string L q rq) (\<lambda>rq.
          case u_urlncpy L (uri @ [NUL]) (length uri) CPY_DECODE of
            Fault \<Rightarrow> Crash
          | Fail \<Rightarrow> Failed rq
          | Ok (cp, n) \<Rightarrow>
              (if n = 0 then Failed rq
               else case u_uri_normalize L (cut_query (cstr cp)) of
                 Fault \<Rightarrow> Crash
               | Fail \<Rightarrow> Failed rq
               | Ok fn \<Rightarrow>
                   and_then (request_set_filename L fn rq) (path_info_loop L valid fn (length fn))))))"

subsection \<open>The request line\<close>

definition request_set_proto :: "libu \<Rightarrow> string \<Rightarrow> request \<Rightarrow> request step" where
  "request_set_proto L proto rq =
     (if \<not> strncaseprefix proto ''http'' then Failed rq
      else set_string L (\<lambda>x. rq_protocol_update (\<lambda>_. x)) proto rq)"

definition request_set_client_request :: "libu \<Rightarrow> string \<Rightarrow> request \<Rightarrow> request step" where
  "request_set_client_request L ln rq =
     (case u_strdup L ln of
        None \<Rightarrow> Failed (rq\<lparr>rq_cli_rq := None\<rparr>)
      | Some s \<Rightarrow> Done (rq\<lparr>rq_cli_rq := Some (takeWhile (\<lambda>c. c \<noteq> CR \<and> c \<noteq> LF) s)\<rparr>))"

definition request_set_method :: "string \<Rightarrow> request \<Rightarrow> request step" where
  "request_set_method m rq =
     (if strcaseeq m ''get'' then Done (rq\<lparr>rq_method := HM_GET\<rparr>)
      else if strcaseeq m ''head'' then Done (rq\<lparr>rq_method := HM_HEAD\<rparr>)
      else if strcaseeq m ''post'' then Done (rq\<lparr>rq_method := HM_POST\<rparr>)
      else if strcaseeq m ''put'' then Done (rq\<lparr>rq_method := HM_PUT\<rparr>)
      else if strcaseeq m ''delete'' then Done (rq\<lparr>rq_method := HM_DELETE\<rparr>)
      else Failed (rq\<lparr>rq_method := HM_UNKNOWN\<rparr>))"

text \<open>
  \<^verbatim>\<open>request_set_content_length\<close>: the test for a negative length is one of an unsigned
  value, so a negative number becomes a very large length.
\<close>

definition request_set_content_length :: "request \<Rightarrow> request step" where
  "request_set_content_length rq =
     (case header_get_field_value (rq_header rq) ''Content-Length'' of
        Ok None \<Rightarrow> Failed rq
      | Ok (Some v) \<Rightarrow> Done (rq\<lparr>rq_content_length := size_of_int (c_atoi v)\<rparr>)
      | Fail \<Rightarrow> Failed rq
      | Fault \<Rightarrow> Crash)"

subsection \<open>Life cycle\<close>

text \<open>\<^verbatim>\<open>request_load_config\<close>: the values of the virtual host's configuration, if present.\<close>

record rq_config =
  cfg_idle_timeout :: "string option"
  cfg_post_timeout :: "string option"
  cfg_post_maxsize :: "string option"
  cfg_temp_dir :: "string option"

definition limit_of :: "int \<Rightarrow> nat \<Rightarrow> string option \<Rightarrow> nat" where
  "limit_of lo dflt v = (case v of None \<Rightarrow> dflt | Some s \<Rightarrow> size_of_int (max lo (c_atoi s)))"

definition request_load_config :: "rq_config \<Rightarrow> request \<Rightarrow> request" where
  "request_load_config c rq =
     rq\<lparr>rq_idle_timeout := limit_of 1 10 (cfg_idle_timeout c),
        rq_post_timeout := limit_of 5 600 (cfg_post_timeout c),
        rq_post_maxsize := limit_of 1024 5120000 (cfg_post_maxsize c),
        rq_temp_dir := cfg_temp_dir c\<rparr>"

definition request_create :: "libu \<Rightarrow> rq_config option \<Rightarrow> addr \<Rightarrow> request option" where
  "request_create L cfg a0 =
     (if \<not> u_malloc L 800 then None
      else do {
        h \<leftarrow> header_create L a0;
        args \<leftarrow> vars_create L;
        cookies \<leftarrow> vars_create L;
        uploads \<leftarrow> vars_create L;
        args_get \<leftarrow> vars_create L;
        args_post \<leftarrow> vars_create L;
        c \<leftarrow> cfg;
        Some (request_load_config c
          \<lparr>rq_header = h, rq_method = HM_UNKNOWN, rq_cli_rq = None, rq_uri = None, rq_protocol = None,
           rq_path_info = None, rq_query = None, rq_filename = None, rq_resolved_path_info = None,
           rq_resolved_filename = None, rq_args = args, rq_args_get = vars_set_flags True args_get,
           rq_args_post = vars_set_flags True args_post, rq_cookies = cookies, rq_uploads = uploads,
           rq_mem = vmem_empty, rq_infos = (\<lambda>_. None), rq_content_type = None, rq_content_encoding = None,
           rq_content_length = 0, rq_if_modified_since = 0, rq_local_addr = [], rq_peer_addr = [], rq_cgi = False,
           rq_idle_timeout = 0, rq_post_timeout = 0, rq_post_maxsize = 0, rq_temp_dir = None, rq_body_off = 0\<rparr>)
      })"

text \<open>
  \<^verbatim>\<open>request_free\<close>: the lists are freed in the order of the code; the result is the store
  with what was not given back, and the files to remove.
\<close>

fun unlink_loop :: "addr list \<Rightarrow> vmem \<Rightarrow> string list outcome" where
  "unlink_loop [] m = Ok []"
| "unlink_loop (a # as) m =
     (case vheap m a of
        None \<Rightarrow> Fault
      | Some v \<Rightarrow>
          map_ok (\<lambda>fs. (case var_get_value v of Some f \<Rightarrow> if opaque v \<noteq> None then [f] else [] | None \<Rightarrow> []) @ fs)
            (unlink_loop as m))"

definition request_free :: "request \<Rightarrow> (string list \<times> vmem) outcome" where
  "request_free rq =
     bind_outcome (unlink_loop (vlist (rq_uploads rq)) (rq_mem rq)) (\<lambda>fs.
     bind_outcome (vars_free (rq_uploads rq) (rq_mem rq)) (\<lambda>m.
     bind_outcome (vars_free (rq_cookies rq) m) (\<lambda>m.
     bind_outcome (vars_free (rq_args_get rq) m) (\<lambda>m.
     bind_outcome (vars_free (rq_args_post rq) m) (\<lambda>m.
     map_ok (\<lambda>m. (fs, m)) (vars_free (rq_args rq) m))))))"

section \<open>Splitting the path\<close>

text \<open>The positions the loop tries: the whole path, then every slash from the right.\<close>

definition slash_below :: "string \<Rightarrow> nat \<Rightarrow> nat list" where
  "slash_below fn k = rev (filter (\<lambda>i. fn ! i = CHR ''/'') [0..<k])"

lemma slash_below_step:
  "slash_below fn k = (case u_strnrchr fn (CHR ''/'') k of None \<Rightarrow> [] | Some j \<Rightarrow> j # slash_below fn j)"
  by (induction k) (auto simp: slash_below_def)

lemma path_info_loop_eq:
  "path_info_loop L valid fn k rq =
     (case find (accepts valid fn) (k # slash_below fn k) of None \<Rightarrow> Done rq | Some j \<Rightarrow> split_at L fn j rq)"
proof (induction L valid fn k rq rule: path_info_loop.induct)
  case (1 L valid fn k rq)
  show ?case
  proof (cases "accepts valid fn k")
    case False
    with 1 show ?thesis
      by (subst path_info_loop.simps, subst slash_below_step) (auto split: option.splits)
  qed (simp add: path_info_loop.simps)
qed

lemma find_slash_le:
  assumes "find P (length fn # slash_below fn (length fn)) = Some k"
  shows "k \<le> length fn"
proof -
  have "k \<in> set (length fn # slash_below fn (length fn))" using assms by (metis find_Some_iff nth_mem)
  then show ?thesis by (auto simp: slash_below_def)
qed

lemma strings_set [simp]:
  assumes "libu_ok L" "libu_mem L"
  shows "set_string L upd s rq = Done (upd (Some s) rq)"
  by (simp add: set_string_def libu_memD [OF assms])

lemma split_at_ok:
  assumes "libu_ok L" "libu_mem L"
  shows "split_at L fn k rq = Done (let rq1 = rq\<lparr>rq_filename := Some (take k fn)\<rparr> in
     if length fn \<le> k then rq1 else rq1\<lparr>rq_path_info := Some (drop k fn)\<rparr>)"
  using strings_set [OF assms] by (simp add: split_at_def request_set_filename_def request_set_path_info_def Let_def)

text \<open>Where a path is cut: the longest prefix the supplier accepts.\<close>

definition path_cut :: "uri_check \<Rightarrow> string \<Rightarrow> string \<times> string option" where
  "path_cut valid fn =
     (case find (accepts valid fn) (length fn # slash_below fn (length fn)) of
        None \<Rightarrow> (fn, None)
      | Some k \<Rightarrow> (take k fn, if k = length fn then None else Some (drop k fn)))"

lemma path_cut_join: "path_cut valid fn = (f, i) \<Longrightarrow> fn = f @ (case i of None \<Rightarrow> [] | Some t \<Rightarrow> t)"
  by (auto simp: path_cut_def split: option.splits if_splits dest!: find_slash_le)

lemma path_info_loop_cut:
  assumes "libu_ok L" "libu_mem L" "rq_filename rq = Some fn" "rq_path_info rq = None" "path_cut valid fn = (f, i)"
  shows "path_info_loop L valid fn (length fn) rq = Done (rq\<lparr>rq_filename := Some f, rq_path_info := i\<rparr>)"
proof (cases "find (accepts valid fn) (length fn # slash_below fn (length fn))")
  case None
  then have "f = fn" "i = None" using assms(5) by (simp_all add: path_cut_def)
  with assms(3,4) have "rq\<lparr>rq_filename := Some f, rq_path_info := i\<rparr> = rq" by simp
  then show ?thesis unfolding path_info_loop_eq None by simp
next
  case (Some k)
  then have fi: "f = take k fn" "i = (if k = length fn then None else Some (drop k fn))"
    using assms(5) unfolding path_cut_def Some by simp_all
  have "rq\<lparr>rq_filename := Some fn\<rparr> = rq\<lparr>rq_filename := Some fn, rq_path_info := None\<rparr>"
    using assms(4) by (cases rq) simp
  then show ?thesis
    using find_slash_le [OF Some] unfolding path_info_loop_eq Some
    by (auto simp: split_at_ok [OF assms(1,2)] fi Let_def)
qed

lemma set_uri_parts:
  assumes "libu_ok L" "libu_mem L" "request_set_uri L valid uri rq = Done rq'"
  shows "\<exists>d fn. u_urlncpy L (uri @ [NUL]) (length uri) CPY_DECODE = Ok (d, length d) \<and>
     absolute (cut_query (cstr d)) \<and> fn = norm_spec (cut_query (cstr d)) \<and>
     ''..'' \<notin> set (strtok_all ''/'' fn) \<and> ''.'' \<notin> set (strtok_all ''/'' fn) \<and> CHR 0x5C \<notin> set fn \<and>
     (rq_filename rq', rq_path_info rq') = map_prod Some id (path_cut valid fn) \<and>
     rq_query rq' = map_option snd (strchr_split uri (CHR ''?''))"
proof -
  define rq1 where "rq1 = (request_clear_uri rq)\<lparr>rq_uri := Some uri, rq_query := map_option snd (strchr_split uri (CHR ''?''))\<rparr>"
  have short: "length uri < URI_BUFSZ" using assms(3) by (auto simp: request_set_uri_def Let_def split: if_splits)
  have clear: "rq_query (request_clear_uri rq) = None" by (simp add: request_clear_uri_def)
  have q: "(case strchr_split uri (CHR ''?'') of None \<Rightarrow> Done r | Some (_, q) \<Rightarrow> request_set_query_string L q r) =
      Done (r\<lparr>rq_query := map_option snd (strchr_split uri (CHR ''?''))\<rparr>)" if "rq_query r = None" for r
    using that strings_set [OF assms(1,2)] by (cases r) (auto simp: request_set_query_string_def split: option.splits)
  have eq: "request_set_uri L valid uri rq =
      (case u_urlncpy L (uri @ [NUL]) (length uri) CPY_DECODE of
         Fault \<Rightarrow> Crash | Fail \<Rightarrow> Failed rq1
       | Ok (cp, n) \<Rightarrow>
           (if n = 0 then Failed rq1
            else case u_uri_normalize L (cut_query (cstr cp)) of
              Fault \<Rightarrow> Crash | Fail \<Rightarrow> Failed rq1
            | Ok fn \<Rightarrow> path_info_loop L valid fn (length fn) (rq1\<lparr>rq_filename := Some fn\<rparr>)))"
    using short strings_set [OF assms(1,2)] q [of "(request_clear_uri rq)\<lparr>rq_uri := Some uri\<rparr>"] clear
    by (simp add: request_set_uri_def rq1_def request_set_filename_def Let_def split: outcome.split)
  obtain cp n where cp: "u_urlncpy L (uri @ [NUL]) (length uri) CPY_DECODE = Ok (cp, n)"
    using assms(3) eq by (auto split: outcome.splits)
  then have n: "n = length cp" by (auto simp: u_urlncpy_def counted_def)
  obtain fn where fn: "u_uri_normalize L (cut_query (cstr cp)) = Ok fn"
    using assms(3) eq cp by (auto split: outcome.splits if_splits)
  from normalize_sound [OF assms(1) fn] have norm: "absolute (cut_query (cstr cp))" "fn = norm_spec (cut_query (cstr cp))" by simp_all
  obtain f i where fi: "path_cut valid fn = (f, i)" by fastforce
  have "rq_path_info (rq1\<lparr>rq_filename := Some fn\<rparr>) = None" by (simp add: rq1_def request_clear_uri_def)
  from path_info_loop_cut [OF assms(1,2) _ this fi] assms(3) eq cp fn
  have rq': "rq' = rq1\<lparr>rq_filename := Some f, rq_path_info := i\<rparr>" by (simp split: if_splits)
  have "''.'' \<notin> set (strtok_all ''/'' fn)" "''..'' \<notin> set (strtok_all ''/'' fn)" "CHR 0x5C \<notin> set fn"
    unfolding norm(2) strtok_norm_spec using segments_good [of "cut_query (cstr cp)"] norm_spec_no_backslash
    by (auto simp: good_segment_def)
  with cp n norm fi show ?thesis by (auto simp: rq' rq1_def)
qed

section \<open>Properties\<close>

text \<open>
  C20.  What a request path is: when \<^verbatim>\<open>request_set_uri\<close> succeeds, file name and path info
  together are the normal form of the decoded path up to its first question mark, cut at the
  longest prefix that the supplier accepts, so no sequence of escapes, dots and backslashes in the
  URI gives a name with a parent segment; the query string is the raw text after the first
  question mark.
\<close>

theorem set_uri_path:
  assumes "libu_ok L" "libu_mem L" "request_set_uri L valid uri rq = Done rq'"
  shows "\<exists>d fn. u_urlncpy L (uri @ [NUL]) (length uri) CPY_DECODE = Ok (d, length d) \<and>
     absolute (cut_query (cstr d)) \<and> fn = norm_spec (cut_query (cstr d)) \<and>
     ''..'' \<notin> set (strtok_all ''/'' fn) \<and> ''.'' \<notin> set (strtok_all ''/'' fn) \<and> CHR 0x5C \<notin> set fn \<and>
     (rq_filename rq', rq_path_info rq') = map_prod Some id (path_cut valid fn) \<and>
     rq_query rq' = map_option snd (strchr_split uri (CHR ''?''))"
  by (rule set_uri_parts [OF assms])

theorem set_uri_path_witness:
  "\<exists>rq rq'. request_set_uri libu_ref None ''/a/..%2fb?q=1'' rq = Done rq' \<and> rq_filename rq' = Some ''/b'' \<and>
     rq_query rq' = Some ''q=1''"
proof -
  obtain rq :: request where True by simp
  let ?uri = "''/a/..%2fb?q=1''"
  have "chr 47 = CHR ''/''" by (simp add: chr_eq_iff ord_def)
  then have d: "u_urlncpy libu_ref (?uri @ [NUL]) (length ?uri) CPY_DECODE = Ok (''/a/../b?q=1'', 11)"
    by (simp add: u_urlncpy_def counted_def htoi_def c_tolower_def ctype_defs ord_def)
  have c: "cut_query ''/a/../b?q=1'' = ''/a/../b''" by (simp add: cut_query_def)
  have n: "u_uri_normalize libu_ref ''/a/../b'' = Ok ''/b''"
    by (simp add: u_uri_normalize_def slashes_def libu_ref_def Let_def)
  have "\<exists>rq'. request_set_uri libu_ref None ?uri rq = Done rq'"
    by (simp only: request_set_uri_def d Let_def)
       (simp add: URI_BUFSZ_def path_info_loop_eq request_set_filename_def request_set_query_string_def
        strings_set [OF libu_ref_ok libu_ref_mem] split_at_ok [OF libu_ref_ok libu_ref_mem] accepts_def c n)
  then obtain rq' where rq': "request_set_uri libu_ref None ?uri rq = Done rq'" by blast
  from set_uri_path [OF libu_ref_ok libu_ref_mem this] d c have
    "(rq_filename rq', rq_path_info rq') = map_prod Some id (path_cut None (norm_spec ''/a/../b''))"
    "rq_query rq' = map_option snd (strchr_split ?uri (CHR ''?''))" by auto
  moreover have "norm_spec ''/a/../b'' = ''/b''" using normalize_sound [OF libu_ref_ok n] by simp
  ultimately show ?thesis using rq' by (auto simp: path_cut_def accepts_def)
qed

end
