(* ===== verification/Multipart.thy ===== *)
theory Multipart
  imports Header Utils_Codec "HOL-Library.Sublist"
begin

text \<open>
  The part of \<^verbatim>\<open>src/libpage/request.c\<close> that takes \<^verbatim>\<open>multipart/form-data\<close> bodies apart:
  the search for the boundary, the collection of a field's value, the
  \<^verbatim>\<open>Content-Disposition\<close> parameters.  The bytes written to the caller's buffer are the
  accumulator, \<open>room\<close> the space left in it; a byte stored when there is no space is a fault.
\<close>

section \<open>Definitions\<close>

subsection \<open>\<^verbatim>\<open>read_until\<close>\<close>

text \<open>One character of the comparison loop; \<open>p\<close> is \<^verbatim>\<open>ptr - stop_at\<close>.\<close>

definition match_step :: "string \<Rightarrow> nat \<Rightarrow> char \<Rightarrow> nat" where
  "match_step stop p c =
     (let q = (if (stop @ [NUL]) ! p \<noteq> c then 0 else p)
      in if (stop @ [NUL]) ! q = c then Suc q else q)"

fun read_until_loop ::
  "libu \<Rightarrow> ('d, 'c) io_ops \<Rightarrow> string \<Rightarrow> nat \<Rightarrow> nat \<Rightarrow> char list \<Rightarrow> ('d, 'c) io \<Rightarrow>
   ((char list \<times> bool) outcome \<times> ('d, 'c) io) option" where
  "read_until_loop L E stop room p acc io =
     (if p = 0 \<and> room < length stop + 1 then Some (Ok (acc, False), io)
      else Option.bind (io_read L E 1 io) (\<lambda>r. case r of
        (None, io1) \<Rightarrow> Some (Fail, io1)
      | (Some [], io1) \<Rightarrow> Some (Ok (acc, False), io1)
      | (Some (c # _), io1) \<Rightarrow>
          (case room of
             0 \<Rightarrow> Some (Fault, io1)
           | Suc room' \<Rightarrow>
               (let q = match_step stop p c in
                if q = length stop then Some (Ok (acc @ [c], True), io1)
                else read_until_loop L E stop room' q (acc @ [c]) io1))))"

declare read_until_loop.simps [simp del]

definition read_until ::
  "libu \<Rightarrow> ('d, 'c) io_ops \<Rightarrow> string \<Rightarrow> nat \<Rightarrow> ('d, 'c) io \<Rightarrow> ((char list \<times> bool) outcome \<times> ('d, 'c) io) option" where
  "read_until L E stop sz io =
     (if sz < length stop then Some (Fail, io) else read_until_loop L E stop sz 0 [] io)"

subsection \<open>\<^verbatim>\<open>request_read_until_boundary\<close>\<close>

text \<open>
  The value is in the stack buffer when the first call finds the boundary and in a
  \<^verbatim>\<open>u_buf_t\<close> otherwise; in both cases the caller uses the bytes returned here.
\<close>

definition ubuf_get :: "libu \<Rightarrow> nat \<Rightarrow> char list option \<Rightarrow> char list option" where
  "ubuf_get L sz ub =
     (case ub of Some b \<Rightarrow> Some b | None \<Rightarrow> Option.bind (u_buf_create L) (\<lambda>b. u_buf_reserve L b (2 * sz)))"

partial_function (option) boundary_loop ::
  "libu \<Rightarrow> ('d, 'c) io_ops \<Rightarrow> nat \<Rightarrow> string \<Rightarrow> nat \<Rightarrow> char list option \<Rightarrow> nat \<Rightarrow> ('d, 'c) io \<Rightarrow>
   (char list outcome \<times> ('d, 'c) io) option" where
  "boundary_loop L E maxsz bound sz ub trb io =
     Option.bind (read_until L E bound sz io) (\<lambda>r. case r of
       (Fault, io1) \<Rightarrow> Some (Fault, io1)
     | (Fail, io1) \<Rightarrow> Some (Fail, io1)
     | (Ok (b, found), io1) \<Rightarrow>
         (if b = [] then Some (Fail, io1)
          else if found
          then (if length b < length bound then Some (Fail, io1)
                else
                  (let d = take (length b - length bound) b in
                   if maxsz < trb + length d then Some (Fail, io1)
                   else case ub of
                     None \<Rightarrow> Some (Ok d, io1)
                   | Some u \<Rightarrow>
                       (if d = [] then Some (Ok u, io1)
                        else case u_buf_append L u d of None \<Rightarrow> Some (Fail, io1) | Some u' \<Rightarrow> Some (Ok u', io1))))
          else
            (case ubuf_get L sz ub of
               None \<Rightarrow> Some (Fail, io1)
             | Some u \<Rightarrow>
                 (if maxsz < trb + length b then Some (Fail, io1)
                  else case u_buf_append L u b of
                    None \<Rightarrow> Some (Fail, io1)
                  | Some u' \<Rightarrow> boundary_loop L E maxsz bound sz (Some u') (trb + length b) io1))))"

definition request_read_until_boundary ::
  "libu \<Rightarrow> ('d, 'c) io_ops \<Rightarrow> nat \<Rightarrow> string \<Rightarrow> nat \<Rightarrow> ('d, 'c) io \<Rightarrow> (char list outcome \<times> ('d, 'c) io) option" where
  "request_read_until_boundary L E maxsz bound sz io = boundary_loop L E maxsz bound sz None 0 io"

subsection \<open>Part headers\<close>

definition match_content_type :: "header \<Rightarrow> string \<Rightarrow> bool outcome" where
  "match_content_type h mime =
     map_ok (\<lambda>ct. case ct of None \<Rightarrow> False | Some t \<Rightarrow> strncaseprefix t mime)
       (header_get_field_value h ''Content-Type'')"

definition is_multipart_mixed :: "header \<Rightarrow> bool outcome" where
  "is_multipart_mixed h = match_content_type h ''multipart/mixed''"

definition is_encoded :: "header \<Rightarrow> bool outcome" where
  "is_encoded h =
     map_ok (\<lambda>cte. case cte of None \<Rightarrow> False | Some t \<Rightarrow> \<not> strcaseeq t ''binary'')
       (header_get_field_value h ''Content-Transfer-Encoding'')"

definition is_quote :: "char \<Rightarrow> bool" where
  "is_quote c \<longleftrightarrow> c = CHR 0x22 \<or> c = CHR 0x27"

text \<open>The quotes around a parameter are removed, the closing one only if it matches.\<close>

definition unquote :: "string \<Rightarrow> string" where
  "unquote tok =
     (if tok \<noteq> [] \<and> is_quote (hd tok)
      then (if tl tok \<noteq> [] \<and> last (tl tok) = hd tok then butlast (tl tok) else tl tok)
      else tok)"

definition has_prefix :: "string \<Rightarrow> string \<Rightarrow> bool" where
  "has_prefix s p \<longleftrightarrow> take (length p) s = p"

fun cd_loop :: "libu \<Rightarrow> nat \<Rightarrow> string list \<Rightarrow> string \<times> string \<Rightarrow> string \<times> string" where
  "cd_loop L prmsz [] nf = nf"
| "cd_loop L prmsz (t # ts) nf =
     (let tok = dropWhile c_isspace t in
      if has_prefix tok ''form-data'' then cd_loop L prmsz ts nf
      else if has_prefix tok ''name=''
      then cd_loop L prmsz ts (fst (u_strlcpy L (unquote (drop 5 tok)) prmsz), snd nf)
      else if has_prefix tok ''filename=''
      then cd_loop L prmsz ts (fst nf, fst (u_strlcpy L (unquote (drop 9 tok)) prmsz))
      else cd_loop L prmsz ts nf)"

definition parse_content_disposition :: "libu \<Rightarrow> nat \<Rightarrow> header \<Rightarrow> (string \<times> string) outcome" where
  "parse_content_disposition L prmsz h =
     bind_outcome (header_get_field_value h ''Content-Disposition'') (\<lambda>cd. case cd of
       None \<Rightarrow> Fail
     | Some cd \<Rightarrow>
         (if 512 \<le> length cd then Fail
          else if \<not> has_prefix cd ''form-data'' then Fail
          else Ok (cd_loop L prmsz (strtok_all [CHR '';''] (fst (u_strlcpy L cd 512))) ([], []))))"

section \<open>The search as a function on lists\<close>

text \<open>
  \<open>lone stop\<close>: the first character of the string searched for does not occur again in it (a
  boundary is CR, LF, two dashes and a parameter value without white space).  \<open>first_at stop d\<close>:
  in \<open>d @ stop\<close> the string occurs at the end only.
\<close>

definition lone :: "string \<Rightarrow> bool" where
  "lone stop \<longleftrightarrow> stop \<noteq> [] \<and> hd stop \<notin> set (tl stop)"

definition first_at :: "string \<Rightarrow> string \<Rightarrow> bool" where
  "first_at stop d \<longleftrightarrow> (\<forall>x y. d @ stop = x @ stop @ y \<longrightarrow> y = [])"

definition scan :: "string \<Rightarrow> char list \<Rightarrow> nat" where
  "scan stop x = foldl (match_step stop) 0 x"

lemma first_at_lone:
  assumes "lone stop" "hd stop \<notin> set d"
  shows "first_at stop d"
  unfolding first_at_def
proof (intro allI impI)
  fix x y assume eq: "d @ stop = x @ stop @ y"
  obtain c cs where c: "stop = c # cs" "c \<notin> set cs" using assms(1) by (cases stop) (auto simp: lone_def)
  have ne: "stop \<noteq> []" "\<And>i. 0 < i \<Longrightarrow> i < length stop \<Longrightarrow> stop ! i \<noteq> hd stop"
    using c by (auto simp: nth_Cons' in_set_conv_nth)
  have "(d @ stop) ! length x = hd stop" using eq ne(1) by (simp add: nth_append hd_conv_nth)
  moreover have "length x < length d + length stop" using arg_cong [OF eq, of length] ne(1) by (cases stop) simp_all
  ultimately have "length x = length d"
    using assms(2) ne(2) by (cases "length x" "length d" rule: linorder_cases) (auto simp: nth_append in_set_conv_nth)
  then show "y = []" using arg_cong [OF eq, of length] by simp
qed

lemma scan_simps [simp]: "scan stop [] = 0" "scan stop (x @ [c]) = match_step stop (scan stop x) c"
  by (simp_all add: scan_def)

lemma lone_nth: "lone stop \<Longrightarrow> i < length stop \<Longrightarrow> stop ! i = stop ! 0 \<Longrightarrow> i = 0"
  by (cases stop; cases i) (auto simp: lone_def)

text \<open>At most one proper prefix of a lone string ends a given list.\<close>

lemma lone_suffix_unique:
  assumes "lone stop" "suffix (take j stop) x" "suffix (take k stop) x" "0 < j" "j \<le> k" "k \<le> length stop"
  shows "j = k"
proof (rule ccontr)
  assume "j \<noteq> k"
  then have jk: "0 < k - j" "k - j < length stop" using assms(4-6) by auto
  have "suffix (take j stop) (take k stop)"
    using suffix_length_suffix [OF assms(2,3)] assms(5,6) by simp
  then obtain u where u: "take k stop = u @ take j stop" by (auto simp: suffix_def)
  then have "length u = k - j" using assms(5,6) by (metis add_diff_cancel_right' length_append length_take min_absorb2 order_trans)
  then have "take k stop ! (k - j) = take j stop ! 0" using u by (simp add: nth_append)
  then have "stop ! (k - j) = stop ! 0" using assms(4,5) jk by simp
  with lone_nth [OF assms(1) jk(2)] jk(1) show False by simp
qed

lemma suffix_snoc_take:
  "k < length stop \<Longrightarrow> suffix (take (Suc k) stop) (x @ [c]) \<longleftrightarrow> stop ! k = c \<and> suffix (take k stop) x"
  by (auto simp: take_Suc_conv_app_nth suffix_def)

text \<open>The comparison pointer is the longest prefix of the string that ends what was read.\<close>

lemma scan_inv:
  assumes "lone stop" "\<forall>a b. x \<noteq> a @ stop @ b"
  shows "scan stop x < length stop \<and> suffix (take (scan stop x) stop) x \<and>
     (\<forall>k < length stop. suffix (take k stop) x \<longrightarrow> k \<le> scan stop x)"
  using assms(2)
proof (induction x rule: rev_induct)
  case Nil
  then show ?case using assms(1) by (auto simp: lone_def)
next
  case (snoc c x)
  define p where "p = scan stop x"
  have "\<forall>a b. x \<noteq> a @ stop @ b" using snoc.prems by (metis append.assoc)
  then have ih: "p < length stop" "suffix (take p stop) x" "\<And>k. k < length stop \<Longrightarrow> suffix (take k stop) x \<Longrightarrow> k \<le> p"
    using snoc.IH by (auto simp: p_def)
  have no: "\<not> suffix stop (x @ [c])" using snoc.prems by (metis append_Nil2 suffix_def)
  have len: "0 < length stop" using ih(1) by linarith
  have ms: "match_step stop p c = (if stop ! p = c then Suc p else if stop ! 0 = c then 1 else 0)"
    using ih(1) len by (simp add: match_step_def nth_append)
  have step: "match_step stop p c < length stop \<and> suffix (take (match_step stop p c) stop) (x @ [c])"
  proof -
    consider "stop ! p = c" | "stop ! p \<noteq> c" "stop ! 0 = c" | "stop ! p \<noteq> c" "stop ! 0 \<noteq> c" by blast
    then show ?thesis
    proof cases
      case 1
      then have suf: "suffix (take (Suc p) stop) (x @ [c])" using suffix_snoc_take [OF ih(1), of x c] ih(2) by blast
      have "Suc p \<noteq> length stop" using suf no by auto
      then show ?thesis using 1 suf ih(1) ms by simp
    next
      case 2
      have suf: "suffix (take 1 stop) (x @ [c])" using suffix_snoc_take [OF len, of x c] 2(2) by (metis One_nat_def suffix_bot.extremum take0)
      have "1 \<noteq> length stop" using suf no by auto
      then have "1 < length stop" using len by linarith
      then show ?thesis using 2 suf ms by simp
    next
      case 3
      then show ?thesis using len ms by simp
    qed
  qed
  have "k \<le> match_step stop p c" if k: "k < length stop" "suffix (take k stop) (x @ [c])" for k
  proof (cases k)
    case (Suc j)
    then have j: "stop ! j = c" "suffix (take j stop) x" using suffix_snoc_take [of j stop x c] k by simp_all
    have jp: "j \<le> p" using ih(3) [OF _ j(2)] k(1) Suc by simp
    have "j = p \<or> j = 0" using lone_suffix_unique [OF assms(1) j(2) ih(2) _ jp] ih(1) by fastforce
    then show ?thesis using j(1) Suc ms by auto
  qed simp
  with step show ?case unfolding scan_simps p_def [symmetric] by blast
qed

text \<open>What a call of \<^verbatim>\<open>read_until\<close> does to the bytes ahead.\<close>

fun ru :: "string \<Rightarrow> nat \<Rightarrow> nat \<Rightarrow> char list \<Rightarrow> char list \<Rightarrow> (char list \<times> bool) outcome \<times> char list" where
  "ru stop room p acc s =
     (if p = 0 \<and> room < length stop + 1 then (Ok (acc, False), s)
      else case s of
        [] \<Rightarrow> (Ok (acc, False), [])
      | c # s' \<Rightarrow>
          (case room of
             0 \<Rightarrow> (Fault, s')
           | Suc room' \<Rightarrow>
               (let q = match_step stop p c in
                if q = length stop then (Ok (acc @ [c], True), s')
                else ru stop room' q (acc @ [c]) s')))"

declare ru.simps [simp del]

context source_device
begin

lemma read_until_loop_ru:
  assumes "libu_ok L" "libu_mem L" "plain io" "eof io = 0"
  shows "\<exists>io'. read_until_loop L E stop room p acc io = Some (fst (ru stop room p acc (avail io)), io') \<and>
     plain io' \<and> avail io' = snd (ru stop room p acc (avail io)) \<and> same_out io io' \<and>
     rtot io' + length (avail io') = rtot io + length (avail io)"
  using assms(3,4)
proof (induction room arbitrary: p acc io)
  case 0
  then show ?case using io_read_ok [OF assms(1,2) 0, of 1]
    by (cases "avail io"; subst (1) read_until_loop.simps; subst (1 2) ru.simps) (auto simp: same_out_def split: list.splits)
next
  case (Suc room)
  show ?case
  proof (cases "p = 0 \<and> Suc room < length stop + 1")
    case True
    then show ?thesis using Suc.prems by (subst (1) read_until_loop.simps, subst (1 2) ru.simps) (auto simp: same_out_def)
  next
    case go: False
    from io_read_ok [OF assms(1,2) Suc.prems, of 1] obtain io1 where
      io1: "io_read L E 1 io = Some (Some (take 1 (avail io)), io1)" "plain io1" "avail io1 = drop 1 (avail io)"
        "same_out io io1" "rtot io1 = rtot io + min 1 (length (avail io))" by blast
    have e1: "eof io1 = 0" using io1(4) Suc.prems(2) by (simp add: same_out_def)
    show ?thesis
    proof (cases "avail io")
      case Nil
      then show ?thesis using go io1 by (subst (1) read_until_loop.simps, subst (1 2) ru.simps) auto
    next
      case (Cons c s)
      let ?q = "match_step stop p c"
      show ?thesis
      proof (cases "?q = length stop")
        case True
        then show ?thesis using go io1 Cons by (subst (1) read_until_loop.simps, subst (1 2) ru.simps) (auto simp: Let_def)
      next
        case False
        have r: "read_until_loop L E stop (Suc room) p acc io = read_until_loop L E stop room ?q (acc @ [c]) io1"
          using go io1(1) Cons False by (subst (1) read_until_loop.simps) (auto simp: Let_def)
        have u: "ru stop (Suc room) p acc (avail io) = ru stop room ?q (acc @ [c]) (avail io1)"
          using go Cons False io1(3) by (subst (1) ru.simps) (auto simp: Let_def)
        from Suc.IH [OF io1(2) e1, of ?q "acc @ [c]"] obtain io' where
          io': "read_until_loop L E stop room ?q (acc @ [c]) io1 = Some (fst (ru stop room ?q (acc @ [c]) (avail io1)), io')"
            "plain io'" "avail io' = snd (ru stop room ?q (acc @ [c]) (avail io1))" "same_out io1 io'"
            "rtot io' + length (avail io') = rtot io1 + length (avail io1)" by blast
        have "rtot io1 + length (avail io1) = rtot io + length (avail io)" using io1(3,5) Cons by simp
        then show ?thesis unfolding r u using io' same_out_trans [OF io1(4) io'(4)] by auto
      qed
    qed
  qed
qed

end

section \<open>Finding the boundary\<close>

text \<open>
  \<open>calm stop s\<close>: no partial match of the string is cut off by its first character, that is, the
  comparison pointer returns to the start before it is set off again.
\<close>

definition calm :: "string \<Rightarrow> char list \<Rightarrow> bool" where
  "calm stop s \<longleftrightarrow> (\<forall>k a b. 0 < k \<longrightarrow> k < length stop \<longrightarrow> s \<noteq> a @ take k stop @ hd stop # b)"

lemma no_occurrence: "first_at stop d \<Longrightarrow> d @ stop = x @ y \<Longrightarrow> y \<noteq> [] \<Longrightarrow> \<forall>a b. x \<noteq> a @ stop @ b"
  unfolding first_at_def by (metis append.assoc append_is_Nil_conv)

lemma scan_last:
  assumes "lone stop" "first_at stop d" "d @ stop = x @ [c]"
  shows "match_step stop (scan stop x) c = length stop"
proof -
  let ?n = "length stop - 1"
  have n: "?n < length stop" using assms(1) by (simp add: lone_def)
  have inv: "scan stop x < length stop" "\<And>k. k < length stop \<Longrightarrow> suffix (take k stop) x \<Longrightarrow> k \<le> scan stop x"
    using scan_inv [OF assms(1) no_occurrence [OF assms(2,3)]] by auto
  have "suffix (take (Suc ?n) stop) (x @ [c])" using assms(3) n by (simp add: suffix_def) metis
  then have s: "stop ! ?n = c" "suffix (take ?n stop) x" using suffix_snoc_take [OF n] by blast+
  have "scan stop x = ?n" using inv(1) inv(2) [OF n s(2)] by simp
  then show ?thesis using s(1) n by (simp add: match_step_def nth_append)
qed

lemma scan_next:
  assumes "lone stop" "first_at stop d" "d @ stop = x @ c # y" "y \<noteq> []"
  shows "match_step stop (scan stop x) c = scan stop (x @ [c])" "scan stop (x @ [c]) \<noteq> length stop"
proof -
  have "d @ stop = (x @ [c]) @ y" using assms(3) by simp
  from scan_inv [OF assms(1) no_occurrence [OF assms(2) this assms(4)]]
  show "match_step stop (scan stop x) c = scan stop (x @ [c])" "scan stop (x @ [c]) \<noteq> length stop" by auto
qed

text \<open>While the pointer is at the start, the whole string is still ahead.\<close>

lemma ahead:
  assumes "lone stop" "first_at stop d" "d @ stop = x @ y" "y \<noteq> []" "scan stop x = 0"
  shows "length stop \<le> length y"
proof (rule ccontr)
  assume "\<not> ?thesis"
  then have lt: "length y < length stop" by simp
  define k where "k = length stop - length y"
  have k: "0 < k" "k < length stop" using lt assms(4) by (cases y; simp add: k_def)+
  have "length x = length d + k" using arg_cong [OF assms(3), of length] lt by (simp add: k_def)
  then have "x = d @ take k stop" using arg_cong [OF assms(3), of "take (length x)"] by simp
  then have "suffix (take k stop) x" by (simp add: suffix_def)
  then show False using scan_inv [OF assms(1) no_occurrence [OF assms(2-4)]] k assms(5) by auto
qed

lemma ru_step:
  assumes "lone stop" "first_at stop d" "d @ stop = x @ c # y" "0 < room"
    "scan stop x = 0 \<longrightarrow> length stop < room"
  shows "ru stop room (scan stop x) x (c # y @ rest) =
    (if y = [] then (Ok (d @ stop, True), rest)
     else ru stop (room - 1) (scan stop (x @ [c])) (x @ [c]) (y @ rest))"
proof -
  obtain r where r: "room = Suc r" using assms(4) by (cases room) auto
  have go: "\<not> (scan stop x = 0 \<and> room < length stop + 1)" using assms(5) by auto
  show ?thesis
  proof (cases "y = []")
    case True
    with assms(3) scan_last [OF assms(1,2)] have "match_step stop (scan stop x) c = length stop" by simp
    with True go r assms(3) show ?thesis by (subst ru.simps) (auto simp: Let_def)
  next
    case False
    with scan_next [OF assms(1-3)] go r show ?thesis by (subst ru.simps) (auto simp: Let_def)
  qed
qed

text \<open>A buffer that takes everything.\<close>

lemma ru_found:
  assumes "lone stop" "first_at stop d"
  shows "d @ stop = x @ y \<Longrightarrow> y \<noteq> [] \<Longrightarrow> length y < room \<Longrightarrow>
    ru stop room (scan stop x) x (y @ rest) = (Ok (d @ stop, True), rest)"
proof (induction y arbitrary: x room)
  case (Cons c y)
  have room: "0 < room" "scan stop x = 0 \<longrightarrow> length stop < room"
    using ahead [OF assms Cons.prems(1) Cons.prems(2)] Cons.prems(3) by (simp, linarith)
  note step = ru_step [OF assms Cons.prems(1) room, of rest]
  show ?case
  proof (cases "y = []")
    case False
    have "ru stop (room - 1) (scan stop (x @ [c])) (x @ [c]) (y @ rest) = (Ok (d @ stop, True), rest)"
      using Cons.prems False by (intro Cons.IH) auto
    with step False show ?thesis by simp
  qed (use step in simp)
qed simp

text \<open>A buffer of any size: the boundary is found, or the buffer holds bytes before it.\<close>

lemma ru_chunk:
  assumes "lone stop" "first_at stop d" "calm stop (d @ stop)"
  shows "d @ stop = x @ y \<Longrightarrow> y \<noteq> [] \<Longrightarrow> (x = [] \<longrightarrow> length stop < room) \<Longrightarrow>
    (0 < scan stop x \<longrightarrow> length stop < room + scan stop x) \<Longrightarrow>
    ru stop room (scan stop x) x (y @ rest) = (Ok (d @ stop, True), rest) \<or>
    (\<exists>u d'. ru stop room (scan stop x) x (y @ rest) = (Ok (u, False), d' @ stop @ rest) \<and> d = u @ d' \<and> u \<noteq> [])"
proof (induction y arbitrary: x room)
  case (Cons c y)
  let ?p = "scan stop x"
  have inv: "?p < length stop" "suffix (take ?p stop) x"
    using scan_inv [OF assms(1) no_occurrence [OF assms(2) Cons.prems(1,2)]] by auto
  show ?case
  proof (cases "?p = 0 \<and> room < length stop + 1")
    case True
    then have "ru stop room ?p x ((c # y) @ rest) = (Ok (x, False), (c # y) @ rest)" by (subst ru.simps) simp
    moreover have "length x \<le> length d"
      using ahead [OF assms(1,2) Cons.prems(1,2)] True arg_cong [OF Cons.prems(1), of length] by simp
    then have "\<exists>d'. d = x @ d' \<and> c # y = d' @ stop"
      using Cons.prems(1) by (metis append_eq_append_conv_if append_take_drop_id)
    moreover have "x \<noteq> []" using True Cons.prems(3) by auto
    ultimately show ?thesis by auto
  next
    case False
    then have room: "0 < room" "?p = 0 \<longrightarrow> length stop < room" using Cons.prems(4) inv(1) by auto
    note step = ru_step [OF assms(1,2) Cons.prems(1) room, of rest]
    show ?thesis
    proof (cases "y = []")
      case y: False
      let ?q = "scan stop (x @ [c])"
      have ms: "?q = match_step stop ?p c" by simp
      have calm: "\<not> (0 < ?p \<and> c = stop ! 0)"
      proof
        assume h: "0 < ?p \<and> c = stop ! 0"
        obtain a where "x = a @ take ?p stop" using inv(2) by (auto simp: suffix_def)
        moreover have "c = hd stop" using h assms(1) by (simp add: lone_def hd_conv_nth)
        ultimately have "d @ stop = a @ take ?p stop @ hd stop # y" using Cons.prems(1) by simp
        then show False using assms(3) h inv(1) unfolding calm_def by blast
      qed
      have "0 < ?q \<longrightarrow> length stop < (room - 1) + ?q"
        using calm room Cons.prems(4) inv(1) unfolding ms by (auto simp: match_step_def nth_append Let_def)
      from Cons.IH [OF _ y _ this] Cons.prems(1) have
        "ru stop (room - 1) ?q (x @ [c]) (y @ rest) = (Ok (d @ stop, True), rest) \<or>
         (\<exists>u d'. ru stop (room - 1) ?q (x @ [c]) (y @ rest) = (Ok (u, False), d' @ stop @ rest) \<and> d = u @ d' \<and> u \<noteq> [])"
        by simp
      then show ?thesis using step y by simp
    qed (use step in simp)
  qed
qed simp

lemma first_at_suffix: "first_at stop (u @ d) \<Longrightarrow> first_at stop d"
  unfolding first_at_def by (metis append.assoc)

lemma calm_suffix: "calm stop (u @ s) \<Longrightarrow> calm stop s"
  unfolding calm_def by (metis append.assoc)

text \<open>A run of the first character keeps the pointer off the start, so the space is not looked at.\<close>

lemma ru_run:
  assumes "lone stop" "2 \<le> length stop"
  shows "room < n \<Longrightarrow> fst (ru stop room 1 acc (replicate n (hd stop) @ r)) = Fault"
proof (induction room arbitrary: n acc)
  case 0
  then obtain k where "n = Suc k" by (cases n) auto
  then show ?case by (subst ru.simps) simp
next
  case (Suc room)
  then obtain k where k: "n = Suc k" "room < k" by (cases n) auto
  have h: "hd stop = stop ! 0" using assms(1) by (simp add: lone_def hd_conv_nth)
  have "stop ! 1 \<noteq> stop ! 0" using lone_nth [OF assms(1), of 1] assms(2) by auto
  then have "match_step stop 1 (hd stop) = 1" using assms(2) h by (auto simp: match_step_def nth_append Let_def)
  then have "ru stop (Suc room) 1 acc (replicate n (hd stop) @ r) = ru stop room 1 (acc @ [hd stop]) (replicate k (hd stop) @ r)"
    using k(1) assms(2) by (subst ru.simps) (simp add: Let_def)
  then show ?case using Suc.IH [OF k(2)] by simp
qed

lemma ru_overflow:
  assumes "lone stop" "2 \<le> length stop" "length stop < sz" "sz < n"
  shows "fst (ru stop sz 0 [] (replicate n (hd stop) @ r)) = Fault"
proof -
  obtain m k where m: "sz = Suc m" "n = Suc k" "m < k" using assms(3,4) by (cases sz; cases n) auto
  have "match_step stop 0 (hd stop) = 1" using assms(1) by (simp add: match_step_def lone_def hd_conv_nth nth_append)
  then have "ru stop sz 0 [] (replicate n (hd stop) @ r) = ru stop m 1 [hd stop] (replicate k (hd stop) @ r)"
    using m assms(2,3) by (subst ru.simps) (simp add: Let_def)
  then show ?thesis using ru_run [OF assms(1,2) m(3)] by simp
qed

context source_device
begin

lemma read_until_ru:
  assumes "libu_ok L" "libu_mem L" "plain io" "eof io = 0" "length stop \<le> sz"
  shows "\<exists>io'. read_until L E stop sz io = Some (fst (ru stop sz 0 [] (avail io)), io') \<and>
     plain io' \<and> avail io' = snd (ru stop sz 0 [] (avail io)) \<and> same_out io io' \<and>
     rtot io' + length (avail io') = rtot io + length (avail io)"
  using read_until_loop_ru [OF assms(1-4), of stop sz 0 "[]"] assms(5) by (simp add: read_until_def)

lemma boundary_loop_ok:
  assumes "libu_ok L" "libu_mem L" "lone bound" "length bound < sz"
  shows "plain io \<Longrightarrow> eof io = 0 \<Longrightarrow> avail io = d @ bound @ rest \<Longrightarrow> first_at bound d \<Longrightarrow>
    trb + length d \<le> maxsz \<Longrightarrow> length d + length bound < sz \<or> calm bound (d @ bound) \<Longrightarrow>
    \<exists>io'. boundary_loop L E maxsz bound sz ub trb io =
        Some (Ok ((case ub of None \<Rightarrow> [] | Some u \<Rightarrow> u) @ d), io') \<and>
      plain io' \<and> avail io' = rest \<and> same_out io io' \<and> rtot io' + length rest = rtot io + length (avail io)"
proof (induction "length d" arbitrary: d ub trb io rule: less_induct)
  case less
  have ne: "d @ bound = [] @ (d @ bound)" "d @ bound \<noteq> []" using assms(3) by (auto simp: lone_def)
  have "ru bound sz 0 [] (avail io) = (Ok (d @ bound, True), rest) \<or>
    (\<exists>u d'. ru bound sz 0 [] (avail io) = (Ok (u, False), d' @ bound @ rest) \<and> d = u @ d' \<and> u \<noteq> [] \<and> calm bound (d @ bound))"
    using ru_found [OF assms(3) less.prems(4) ne, of sz rest] ru_chunk [OF assms(3) less.prems(4) _ ne, of sz rest]
      less.prems(3,6) assms(4) by auto
  moreover from read_until_ru [OF assms(1,2) less.prems(1,2), of bound sz] assms(4) obtain io1 where
    io1: "read_until L E bound sz io = Some (fst (ru bound sz 0 [] (avail io)), io1)" "plain io1"
      "avail io1 = snd (ru bound sz 0 [] (avail io))" "same_out io io1" "rtot io1 + length (avail io1) = rtot io + length (avail io)"
    by auto
  ultimately consider
      (found) "read_until L E bound sz io = Some (Ok (d @ bound, True), io1)" "avail io1 = rest"
    | (more) u d' where "read_until L E bound sz io = Some (Ok (u, False), io1)" "avail io1 = d' @ bound @ rest"
        "d = u @ d'" "u \<noteq> []" "calm bound (d @ bound)"
    by auto
  then show ?case
  proof cases
    case found
    then show ?thesis
      using less.prems(5) io1(2,4,5) ne(2)
      by (subst boundary_loop.simps) (auto simp: Let_def libu_memD [OF assms(1,2)] split: option.splits)
  next
    case more
    let ?ub = "Some ((case ub of None \<Rightarrow> [] | Some u \<Rightarrow> u) @ u)"
    have "boundary_loop L E maxsz bound sz ub trb io = boundary_loop L E maxsz bound sz ?ub (trb + length u) io1"
      using more(1,3,4) less.prems(5)
      by (subst boundary_loop.simps) (auto simp: ubuf_get_def libu_memD [OF assms(1,2)] split: option.splits)
    moreover have "length d' < length d" "eof io1 = 0" "first_at bound d'" "trb + length u + length d' \<le> maxsz" "calm bound (d' @ bound)"
      using more(3-5) io1(4) less.prems(2,4,5) first_at_suffix calm_suffix [of bound u] by (auto simp: same_out_def)
    ultimately show ?thesis
      using less.hyps [of d' io1 "trb + length u" ?ub] io1(2,4,5) more(2,3) same_out_trans [OF io1(4)] by fastforce
  qed
qed

end

section \<open>Properties\<close>

text \<open>
  The value of a form field is read exactly: from a stream that holds the value, the boundary
  and more, \<^verbatim>\<open>request_read_until_boundary\<close> returns the bytes before the first boundary,
  for values up to \<^verbatim>\<open>post_maxsize\<close>, and leaves the stream just after the boundary.  The
  value and the boundary fit the buffer together, or no partial boundary in the value is cut off
  by another carriage return.
\<close>

theorem multipart_value:
  assumes "libu_ok L" "libu_mem L" "mem_src.plain io" "eof io = 0" "mem_src.avail io = d @ bound @ rest"
    and "lone bound" "first_at bound d" "length bound < sz" "length d \<le> maxsz"
    and "length d + length bound < sz \<or> calm bound (d @ bound)"
  shows "\<exists>io'. request_read_until_boundary L (mem_ops tr fl) maxsz bound sz io = Some (Ok d, io') \<and> mem_src.avail io' = rest"
  using mem_src.boundary_loop_ok [OF assms(1,2,6,8,3,4,5,7) _ assms(10), of 0 maxsz tr fl None] assms(9)
  by (auto simp: request_read_until_boundary_def)

theorem multipart_value_witness:
  "\<exists>io'. request_read_until_boundary libu_ref (mem_ops null_transform null_flush) 100 [CR, LF, CHR ''-'', CHR ''B''] 8
     (mem_io ([CHR ''x'', CR, CHR ''y''] @ [CR, LF, CHR ''-'', CHR ''B''] @ ''--'')) = Some (Ok [CHR ''x'', CR, CHR ''y''], io') \<and>
     mem_src.avail io' = ''--''"
proof -
  let ?d = "[CHR ''x'', CR, CHR ''y'']" and ?b = "[CR, LF, CHR ''-'', CHR ''B'']"
  let ?io = "mem_io (?d @ ?b @ ''--'') :: (io_mem, unit) io"
  have len: "length (?d @ ?b @ ''--'') < SIZE_LIMIT" by (rule SIZE_LIMIT_gt) simp
  have "y = []" if "?d @ ?b = x @ ?b @ y" for x y
    using that by (auto simp: append_eq_Cons_conv Cons_eq_append_conv)
  then have "first_at ?b ?d" by (simp add: first_at_def)
  moreover have "lone ?b" by (simp add: lone_def)
  ultimately show ?thesis
    using multipart_value [OF libu_ref_ok libu_ref_mem mem_io_ok(1) [OF len] mem_io_ok(6) [OF len] mem_io_ok(3) [OF len],
      of 8 100 null_transform null_flush] by simp
qed

text \<open>
  C30.  A body of carriage returns overruns the buffer: the space left is looked at only when no
  comparison is under way, and each carriage return starts the next comparison as it ends the
  last one, so a run of them longer than the buffer is stored past its end.
\<close>

theorem boundary_overrun:
  assumes "libu_ok L" "libu_mem L" "mem_src.plain io" "eof io = 0" "mem_src.avail io = replicate n (hd bound) @ r"
    and "lone bound" "2 \<le> length bound" "length bound < sz" "sz < n"
  shows "\<exists>io'. request_read_until_boundary L (mem_ops tr fl) maxsz bound sz io = Some (Fault, io')"
proof -
  from mem_src.read_until_ru [OF assms(1-4), of bound sz tr fl] assms(8) ru_overflow [OF assms(6-9), of r] assms(5)
  obtain io' where "read_until L (mem_ops tr fl) bound sz io = Some (Fault, io')" by auto
  then show ?thesis by (simp add: request_read_until_boundary_def boundary_loop.simps)
qed

theorem boundary_overrun_witness:
  "\<exists>io'. request_read_until_boundary libu_ref (mem_ops null_transform null_flush) 5120000 [CR, LF, CHR ''-'', CHR ''B''] 4096
     (mem_io (replicate 4097 CR @ ''x'')) = Some (Fault, io')"
proof -
  let ?b = "[CR, LF, CHR ''-'', CHR ''B'']"
  have len: "length (replicate 4097 CR @ ''x'') < SIZE_LIMIT" by (rule SIZE_LIMIT_gt) simp
  have "lone ?b" by (simp add: lone_def)
  then show ?thesis
    using boundary_overrun [OF libu_ref_ok libu_ref_mem mem_io_ok(1) [OF len] mem_io_ok(6) [OF len], of 4097 ?b "''x''" 4096]
      mem_io_ok(3) [OF len] by simp
qed

end
