(* ===== verification/Request_Data.thy ===== *)
theory Request_Data
  imports Request Multipart
begin

text \<open>
  The second half of \<^verbatim>\<open>src/libpage/request.c\<close>: cookies, query and form variables, multipart
  bodies, and the two entry points \<^verbatim>\<open>request_parse_header\<close> and
  \<^verbatim>\<open>request_parse_data\<close>.  Time outs are set and cleared through the timer of
  \<^verbatim>\<open>src/libutils/timer.c\<close>; the alarm's callback closes the connection from the signal
  handler and is not interleaved here.  The temporary file of an upload is a stream of its own,
  given by the environment together with its name and the size \<^verbatim>\<open>stat(2)\<close> reports.
\<close>

section \<open>Definitions\<close>

subsection \<open>Cookies and variables\<close>

fun foreach_tok :: "(string \<Rightarrow> 's \<Rightarrow> 's step) \<Rightarrow> string list \<Rightarrow> 's \<Rightarrow> 's step" where
  "foreach_tok f [] s = Done s"
| "foreach_tok f (t # ts) s = and_then (f t s) (foreach_tok f ts)"

definition add_cookie :: "libu \<Rightarrow> string \<Rightarrow> request \<Rightarrow> request step" where
  "add_cookie L tok rq =
     (case vars_add_urlvar L tok (rq_cookies rq) (rq_mem rq) of
        Added vs m a \<Rightarrow> Done (rq\<lparr>rq_cookies := vs, rq_mem := m\<rparr>)
      | NotAdded vs m \<Rightarrow> Done (rq\<lparr>rq_cookies := vs, rq_mem := m\<rparr>)
      | AddCrash \<Rightarrow> Crash)"

definition request_parse_cookie :: "libu \<Rightarrow> field \<Rightarrow> request \<Rightarrow> request step" where
  "request_parse_cookie L f rq =
     (case f_value f of
        None \<Rightarrow> Failed rq
      | Some v \<Rightarrow> foreach_tok (add_cookie L) (strtok_all '' ;'' (fst (u_strlcpy L v 4096))) rq)"

fun parse_cookies_loop :: "libu \<Rightarrow> nat list \<Rightarrow> request \<Rightarrow> request step" where
  "parse_cookies_loop L [] rq = Done rq"
| "parse_cookies_loop L (i # is) rq =
     (case header_get_fieldn (rq_header rq) i of
        None \<Rightarrow> Failed rq
      | Some (_, f) \<Rightarrow>
          (case f_name f of
             None \<Rightarrow> Crash
           | Some n \<Rightarrow>
               and_then (if strcaseeq n ''cookie'' then request_parse_cookie L f rq else Done rq)
                 (parse_cookies_loop L is)))"

definition request_parse_cookies :: "libu \<Rightarrow> request \<Rightarrow> request step" where
  "request_parse_cookies L rq = parse_cookies_loop L [0..<header_field_count (rq_header rq)] rq"

definition request_get_cookie :: "request \<Rightarrow> string \<Rightarrow> string option outcome" where
  "request_get_cookie rq name = vars_get_value (rq_cookies rq) (rq_mem rq) name"

definition request_get_arg :: "request \<Rightarrow> string \<Rightarrow> string option outcome" where
  "request_get_arg rq name = vars_get_value (rq_args rq) (rq_mem rq) name"

definition request_get_getarg :: "request \<Rightarrow> string \<Rightarrow> string option outcome" where
  "request_get_getarg rq name = vars_get_value (rq_args_get rq) (rq_mem rq) name"

definition request_get_postarg :: "request \<Rightarrow> string \<Rightarrow> string option outcome" where
  "request_get_postarg rq name = vars_get_value (rq_args_post rq) (rq_mem rq) name"

text \<open>
  \<^verbatim>\<open>request_cb_add_var\<close>: the variable is linked in \<^verbatim>\<open>args\<close> and in a second list; text
  that is not a pair is skipped.  The selectors say which list is the second.
\<close>

definition request_cb_add_var ::
  "libu \<Rightarrow> (request \<Rightarrow> vars) \<Rightarrow> (vars \<Rightarrow> request \<Rightarrow> request) \<Rightarrow> string \<Rightarrow> request \<Rightarrow> request step" where
  "request_cb_add_var L get put tok rq =
     (case vars_add_urlvar L tok (rq_args rq) (rq_mem rq) of
        Added vs m a \<Rightarrow>
          (let rq1 = rq\<lparr>rq_args := vs, rq_mem := m\<rparr> in
           case vars_add L a (get rq1) of
             Done also \<Rightarrow> Done (put also rq1)
           | Failed also \<Rightarrow> Failed (put also rq1)
           | Crash \<Rightarrow> Crash)
      | NotAdded vs m \<Rightarrow> Done (rq\<lparr>rq_args := vs, rq_mem := m\<rparr>)
      | AddCrash \<Rightarrow> Crash)"

definition request_cb_add_get_var :: "libu \<Rightarrow> string \<Rightarrow> request \<Rightarrow> request step" where
  "request_cb_add_get_var L tok rq = request_cb_add_var L rq_args_get (\<lambda>v. rq_args_get_update (\<lambda>_. v)) tok rq"

definition request_cb_add_post_var :: "libu \<Rightarrow> string \<Rightarrow> request \<Rightarrow> request step" where
  "request_cb_add_post_var L tok rq = request_cb_add_var L rq_args_post (\<lambda>v. rq_args_post_update (\<lambda>_. v)) tok rq"

definition foreach_query_var ::
  "libu \<Rightarrow> (string \<Rightarrow> request \<Rightarrow> request step) \<Rightarrow> string option \<Rightarrow> nat \<Rightarrow> request \<Rightarrow> request step" where
  "foreach_query_var L f urlquery offset rq =
     (case urlquery of
        None \<Rightarrow> Done rq
      | Some q \<Rightarrow>
          (case u_strdup L (drop offset q) of
             None \<Rightarrow> Failed rq
           | Some query \<Rightarrow> foreach_tok f (strtok_all ''&'' query) rq))"

definition request_parse_query_args :: "libu \<Rightarrow> request \<Rightarrow> request step" where
  "request_parse_query_args L rq = foreach_query_var L (request_cb_add_get_var L) (rq_query rq) 0 rq"

definition request_is_content_type :: "request \<Rightarrow> string \<Rightarrow> bool outcome" where
  "request_is_content_type rq ct = match_content_type (rq_header rq) ct"

definition request_is_multipart_formdata :: "request \<Rightarrow> bool outcome" where
  "request_is_multipart_formdata rq = request_is_content_type rq ''multipart/form-data''"

definition request_is_urlencoded :: "request \<Rightarrow> bool outcome" where
  "request_is_urlencoded rq =
     bind_outcome (header_get_field_value (rq_header rq) ''Content-Type'') (\<lambda>v.
       if v = None then Ok True else request_is_content_type rq ''application/x-www-form-urlencoded'')"

text \<open>
  \<^verbatim>\<open>request_parse_urlencoded_data\<close> appends the body to the query string; the query ends
  at the first NUL of the body.  After a short read its tail is not specified (here: empty).
\<close>

definition request_parse_urlencoded_data ::
  "libu \<Rightarrow> ('d, 'c) io_ops \<Rightarrow> request \<Rightarrow> ('d, 'c) io \<Rightarrow> (request step \<times> ('d, 'c) io) option" where
  "request_parse_urlencoded_data L E rq io =
     (let len = rq_content_length rq;
          old = (case rq_query rq of None \<Rightarrow> [] | Some q \<Rightarrow> q);
          pre = (if old = [] then [] else old @ ''&'')
      in if \<not> u_malloc L (len + length old + 2) then Some (Failed (rq\<lparr>rq_query := None\<rparr>), io)
         else Option.bind (io_read L E len io) (\<lambda>(r, io1).
           case r of
             None \<Rightarrow> Some (Failed (rq\<lparr>rq_query := Some pre\<rparr>), io1)
           | Some b \<Rightarrow>
               (if length b \<noteq> len then Some (Failed (rq\<lparr>rq_query := Some pre\<rparr>), io1)
                else
                  (let q = pre @ cstr b
                   in Some (foreach_query_var L (request_cb_add_post_var L) (Some q) (length pre) (rq\<lparr>rq_query := Some q\<rparr>), io1)))))"

text \<open>\<^verbatim>\<open>request_get_fieldparam\<close>: the value of a \<^verbatim>\<open>name=value\<close> parameter of a field.\<close>

definition request_get_fieldparam :: "libu \<Rightarrow> request \<Rightarrow> string \<Rightarrow> string \<Rightarrow> nat \<Rightarrow> string outcome" where
  "request_get_fieldparam L rq fname param sz =
     bind_outcome (header_get_field_value (rq_header rq) fname) (\<lambda>v.
       case v of
         None \<Rightarrow> Fail
       | Some fv \<Rightarrow>
           (case u_stristr fv param of
              None \<Rightarrow> Fail
            | Some i \<Rightarrow>
                (let r = drop (i + length param) fv in
                 if r = [] \<or> hd r \<noteq> CHR ''='' then Fail
                 else
                   (let pv = takeWhile (\<lambda>c. c \<noteq> CHR '';'' \<and> \<not> c_isspace c) (tl r)
                    in if sz < length pv + 1 then Fail else Ok (fst (u_strlcpy L (tl r) (length pv + 1)))))))"

subsection \<open>Multipart bodies\<close>

record ('e, 'f) up_env =
  up_ops :: "('e, 'f) io_ops"
  up_open :: "string option \<Rightarrow> (string \<times> ('e, 'f) io) option"
  up_stat :: "string \<Rightarrow> nat option"

text \<open>U_FILENAME_MAX and MIME_TYPE_BUFSZ bound the copies with \<^verbatim>\<open>snprintf\<close>.\<close>

definition request_add_uploaded_file ::
  "libu \<Rightarrow> ('e, 'f) up_env \<Rightarrow> nat \<Rightarrow> string \<Rightarrow> string \<Rightarrow> string \<Rightarrow> string option \<Rightarrow> request \<Rightarrow> request step" where
  "request_add_uploaded_file L U fmax name fname tmpname mime rq =
     (case up_stat U tmpname of
        None \<Rightarrow> Failed rq
      | Some sz \<Rightarrow>
          (case var_create L name tmpname of
             Fail \<Rightarrow> Failed rq
           | Fault \<Rightarrow> Crash
           | Ok v \<Rightarrow>
               (if \<not> u_malloc L (256 + fmax + 8) then Failed rq
                else
                  (let ia = vnext (rq_mem rq);
                       info = \<lparr>u_mime = (case mime of None \<Rightarrow> [] | Some t \<Rightarrow> take 255 t), u_fname = take (fmax - 1) fname, u_fsize = sz\<rparr>
                   in case add_created L (Ok (var_set_opaque (Some ia) v)) (rq_uploads rq) (rq_mem rq) of
                        Added vs m a \<Rightarrow> Done (rq\<lparr>rq_uploads := vs, rq_mem := m, rq_infos := (rq_infos rq)(ia \<mapsto> info)\<rparr>)
                      | NotAdded vs m \<Rightarrow> Failed (rq\<lparr>rq_uploads := vs, rq_mem := m\<rparr>)
                      | AddCrash \<Rightarrow> Crash))))"

text \<open>Local name, client name, MIME type and size of an uploaded file.\<close>

definition request_get_uploaded_filev ::
  "libu \<Rightarrow> nat \<Rightarrow> addr \<Rightarrow> request \<Rightarrow> (string \<times> string \<times> string \<times> nat) outcome" where
  "request_get_uploaded_filev L fmax a rq =
     (case vheap (rq_mem rq) a of
        None \<Rightarrow> Fault
      | Some v \<Rightarrow>
          (case opaque v of
             None \<Rightarrow> Fail
           | Some ia \<Rightarrow>
               (case (rq_infos rq ia, var_get_value v) of
                  (None, _) \<Rightarrow> Fault
                | (Some info, None) \<Rightarrow> Fail
                | (Some info, Some fqn) \<Rightarrow>
                    Ok (fst (u_strlcpy L fqn fmax), fst (u_strlcpy L (u_fname info) fmax),
                        fst (u_strlcpy L (u_mime info) 256), u_fsize info))))"

definition request_get_uploaded_file ::
  "libu \<Rightarrow> nat \<Rightarrow> string \<Rightarrow> nat \<Rightarrow> request \<Rightarrow> (string \<times> string \<times> string \<times> nat) outcome" where
  "request_get_uploaded_file L fmax name idx rq =
     (if vars_count (rq_uploads rq) \<le> idx then Fail
      else bind_outcome (vars_geti (rq_uploads rq) (rq_mem rq) name idx) (\<lambda>r.
        case r of None \<Rightarrow> Fail | Some a \<Rightarrow> request_get_uploaded_filev L fmax a rq))"

text \<open>The copy of an uploaded file: everything before the boundary goes to the temporary file.\<close>

partial_function (option) upload_loop ::
  "libu \<Rightarrow> ('d, 'c) io_ops \<Rightarrow> ('e, 'f) io_ops \<Rightarrow> string \<Rightarrow> ('d, 'c) io \<Rightarrow> ('e, 'f) io \<Rightarrow> (('e, 'f) io step \<times> ('d, 'c) io) option" where
  "upload_loop L E Eo bound io tmp =
     Option.bind (read_until L E bound 4096 io) (\<lambda>r. case r of
       (Fault, io1) \<Rightarrow> Some (Crash, io1)
     | (Fail, io1) \<Rightarrow> Some (Failed tmp, io1)
     | (Ok (b, found), io1) \<Rightarrow>
         (if b = [] then Some (Failed tmp, io1)
          else if found \<and> length b < length bound then Some (Failed tmp, io1)
          else
            Option.bind (io_write L Eo (if found then take (length b - length bound) b else b) tmp) (\<lambda>q. case q of
              Done tmp1 \<Rightarrow> if found then Some (Done tmp1, io1) else upload_loop L E Eo bound io1 tmp1
            | other \<Rightarrow> Some (other, io1))))"

text \<open>Linking a form variable: failures to link are only logged.\<close>

definition link_post_var :: "libu \<Rightarrow> var \<Rightarrow> request \<Rightarrow> request step" where
  "link_post_var L v rq =
     (case var_alloc v (rq_mem rq) of (a, m) \<Rightarrow>
        (case kept (vars_add L a (rq_args rq)) of
           None \<Rightarrow> Crash
         | Some vs \<Rightarrow>
             (case kept (vars_add L a (rq_args_post rq)) of
                None \<Rightarrow> Crash
              | Some vp \<Rightarrow> Done (rq\<lparr>rq_mem := m, rq_args := vs, rq_args_post := vp\<rparr>))))"

text \<open>Reading and ignoring the epilogue, up to the announced end of the body.\<close>

partial_function (option) drain_loop :: "libu \<Rightarrow> ('d, 'c) io_ops \<Rightarrow> nat \<Rightarrow> ('d, 'c) io \<Rightarrow> ('d, 'c) io option" where
  "drain_loop L E rall io =
     (if rtot io < rall
      then Option.bind (io_read L E (min (rall - rtot io) 4096) io) (\<lambda>(r, io1).
        case r of
          None \<Rightarrow> Some io1
        | Some b \<Rightarrow> if b = [] then Some io1 else drain_loop L E rall io1)
      else Some io)"

text \<open>The body of a part, either kind; the flag is the end of the multipart data.\<close>

definition part_upload ::
  "libu \<Rightarrow> ('d, 'c) io_ops \<Rightarrow> ('e, 'f) up_env \<Rightarrow> nat \<Rightarrow> string \<Rightarrow> header \<Rightarrow> string \<Rightarrow> string \<Rightarrow> request \<Rightarrow> ('d, 'c) io \<Rightarrow>
   (request step \<times> ('d, 'c) io) option" where
  "part_upload L E U fmax bound h name fname rq io =
     (if 4096 \<le> length bound then Some (Failed rq, io)
      else case up_open U (rq_temp_dir rq) of
        None \<Rightarrow> Some (Failed rq, io)
      | Some (tmpname, tmp) \<Rightarrow>
          Option.bind (upload_loop L E (up_ops U) bound io tmp) (\<lambda>(r, io1).
            case r of
              Crash \<Rightarrow> Some (Crash, io1)
            | Failed tmp1 \<Rightarrow> map_option (\<lambda>_. (Failed rq, io1)) (io_free (up_ops U) tmp1)
            | Done tmp1 \<Rightarrow>
                Option.bind (io_free (up_ops U) tmp1) (\<lambda>_.
                  Some (case header_get_field_value h ''Content-Type'' of
                    Ok mime \<Rightarrow> request_add_uploaded_file L U fmax name fname tmpname mime rq
                  | Fail \<Rightarrow> Failed rq | Fault \<Rightarrow> Crash, io1))))"

definition part_field ::
  "libu \<Rightarrow> ('d, 'c) io_ops \<Rightarrow> string \<Rightarrow> string \<Rightarrow> request \<Rightarrow> ('d, 'c) io \<Rightarrow> (request step \<times> ('d, 'c) io) option" where
  "part_field L E bound name rq io =
     Option.bind (request_read_until_boundary L E (rq_post_maxsize rq) bound 4096 io) (\<lambda>(r, io1).
       Some (case bind_outcome r (\<lambda>d. var_bin_create L name (d @ [NUL]) (length d)) of
         Ok v \<Rightarrow> link_post_var L v rq | Fail \<Rightarrow> Failed rq | Fault \<Rightarrow> Crash, io1))"

text \<open>
  After the boundary two bytes follow: a line end, or two dashes at the end of the data.  (When
  the stream ends after one byte the comparison reads a byte left over in the buffer; here it fails.)
\<close>

definition part_end ::
  "libu \<Rightarrow> ('d, 'c) io_ops \<Rightarrow> request step \<times> ('d, 'c) io \<Rightarrow> (request step \<times> bool \<times> ('d, 'c) io) option" where
  "part_end L E p =
     (case p of
        (Done rq, io) \<Rightarrow>
          Option.bind (io_read L E 2 io) (\<lambda>(r, io1).
            case r of
              None \<Rightarrow> Some (Failed rq, False, io1)
            | Some b \<Rightarrow>
                (if b = [] then Some (Failed rq, False, io1)
                 else if b = ''--''
                 then map_option (\<lambda>io2. (Done rq, True, io2)) (drain_loop L E (rq_content_length rq + rq_body_off rq) io1)
                 else Some (Done rq, False, io1)))
      | (other, io) \<Rightarrow> Some (other, False, io))"

definition request_parse_multipart_chunk ::
  "libu \<Rightarrow> ('d, 'c) io_ops \<Rightarrow> ('e, 'f) up_env \<Rightarrow> nat \<Rightarrow> string \<Rightarrow> request \<Rightarrow> ('d, 'c) io \<Rightarrow>
   (request step \<times> bool \<times> ('d, 'c) io) option" where
  "request_parse_multipart_chunk L E U fmax bound rq io =
     (case header_create L 0 of
        None \<Rightarrow> Some (Failed rq, False, io)
      | Some h0 \<Rightarrow>
          Option.bind (header_load L E h0 io) (\<lambda>(r, io1).
            case r of
              Crash \<Rightarrow> Some (Crash, False, io1)
            | Failed _ \<Rightarrow> Some (Failed rq, False, io1)
            | Done h \<Rightarrow>
                (case bind_outcome (is_multipart_mixed h) (\<lambda>mixed.
                      bind_outcome (is_encoded h) (\<lambda>enc.
                        if mixed \<or> enc then Fail else parse_content_disposition L 512 h)) of
                   Fail \<Rightarrow> Some (Failed rq, False, io1)
                 | Fault \<Rightarrow> Some (Crash, False, io1)
                 | Ok (name, fname) \<Rightarrow>
                     Option.bind
                       (if fname \<noteq> [] then part_upload L E U fmax bound h name fname rq io1
                        else part_field L E bound name rq io1)
                       (part_end L E))))"

partial_function (option) preamble_loop ::
  "libu \<Rightarrow> ('d, 'c) io_ops \<Rightarrow> string \<Rightarrow> ('d, 'c) io \<Rightarrow> (bool \<times> ('d, 'c) io) option" where
  "preamble_loop L E bound io =
     Option.bind (io_gets L E 1024 io) (\<lambda>(r, io1).
       case r of
         None \<Rightarrow> Some (False, io1)
       | Some b \<Rightarrow>
           (if b = [] then Some (False, io1)
            else if has_prefix (cstr b) bound then Some (True, io1)
            else preamble_loop L E bound io1))"

partial_function (option) chunks_loop ::
  "libu \<Rightarrow> ('d, 'c) io_ops \<Rightarrow> ('e, 'f) up_env \<Rightarrow> nat \<Rightarrow> string \<Rightarrow> request \<Rightarrow> ('d, 'c) io \<Rightarrow> (request step \<times> ('d, 'c) io) option" where
  "chunks_loop L E U fmax bound rq io =
     Option.bind (request_parse_multipart_chunk L E U fmax bound rq io) (\<lambda>(r, fin, io1).
       case r of
         Done rq1 \<Rightarrow> if fin then Some (Done rq1, io1) else chunks_loop L E U fmax bound rq1 io1
       | other \<Rightarrow> Some (other, io1))"

definition request_parse_multipart_data ::
  "libu \<Rightarrow> ('d, 'c) io_ops \<Rightarrow> ('e, 'f) up_env \<Rightarrow> nat \<Rightarrow> request \<Rightarrow> ('d, 'c) io \<Rightarrow> (request step \<times> ('d, 'c) io) option" where
  "request_parse_multipart_data L E U fmax rq io =
     (case request_get_fieldparam L rq ''Content-Type'' ''boundary'' 126 of
        Fail \<Rightarrow> Some (Failed rq, io)
      | Fault \<Rightarrow> Some (Crash, io)
      | Ok param \<Rightarrow>
          (let bound = ''--'' @ param in
           Option.bind (preamble_loop L E bound io) (\<lambda>(found, io1).
             if \<not> found then Some (Failed rq, io1)
             else case u_strlcat L [CR, LF] bound 128 of (nl_bound, truncated) \<Rightarrow>
               if truncated then Some (Failed rq, io1) else chunks_loop L E U fmax nl_bound rq io1)))"

subsection \<open>Entry points\<close>

text \<open>The alarm that closes the connection: where it lives, when it is set and cleared.\<close>

record tctx =
  tc_env :: tenv
  tc_addr :: addr
  tc_set :: nat
  tc_clear :: nat

definition alarm_set :: "libu \<Rightarrow> tctx \<Rightarrow> nat \<Rightarrow> timerm option \<Rightarrow> timerm step option" where
  "alarm_set L T secs timer = timerm_add L (tc_env T) (tc_set T) (tc_addr T) secs 0 0 timer"

definition alarm_clear :: "tctx \<Rightarrow> timerm \<Rightarrow> timerm option" where
  "alarm_clear T t =
     Option.bind (timerm_del (tc_env T) (tc_clear T)
       \<lparr>al_addr = tc_addr T, expire = 0, cb = 0, al_arg = 0, owner = pid (tc_env T)\<rparr> t) kept"

definition parse_body ::
  "libu \<Rightarrow> ('d, 'c) io_ops \<Rightarrow> ('e, 'f) up_env \<Rightarrow> nat \<Rightarrow> request \<Rightarrow> ('d, 'c) io \<Rightarrow> (request step \<times> ('d, 'c) io) option" where
  "parse_body L E U fmax rq io =
     (case request_is_multipart_formdata rq of
        Ok True \<Rightarrow> request_parse_multipart_data L E U fmax rq io
      | Ok False \<Rightarrow>
          (case request_is_urlencoded rq of
             Ok True \<Rightarrow> request_parse_urlencoded_data L E rq io
           | Ok False \<Rightarrow> Some (Done rq, io)
           | Fail \<Rightarrow> Some (Failed rq, io)
           | Fault \<Rightarrow> Some (Crash, io))
      | Fail \<Rightarrow> Some (Failed rq, io)
      | Fault \<Rightarrow> Some (Crash, io))"

text \<open>The status is 0 for success and an HTTP error status otherwise.\<close>

definition request_parse_data ::
  "libu \<Rightarrow> ('d, 'c) io_ops \<Rightarrow> ('e, 'f) up_env \<Rightarrow> nat \<Rightarrow> tctx \<Rightarrow> request \<Rightarrow> ('d, 'c) io \<Rightarrow> timerm option \<Rightarrow>
   (nat \<times> request step \<times> ('d, 'c) io \<times> timerm option) option" where
  "request_parse_data L E U fmax T rq io timer =
     (case request_parse_query_args L rq of
        Crash \<Rightarrow> Some (400, Crash, io, timer)
      | Failed rq1 \<Rightarrow> Some (400, Failed rq1, io, timer)
      | Done rq1 \<Rightarrow>
          (if rq_method rq1 \<noteq> HM_POST then Some (0, Done rq1, io, timer)
           else case request_set_content_length rq1 of
             Crash \<Rightarrow> Some (400, Crash, io, timer)
           | Failed rq2 \<Rightarrow> Some (411, Failed rq2, io, timer)
           | Done rq2 \<Rightarrow>
               (if rq_content_length rq2 = 0 then Some (0, Done rq2, io, timer)
                else
                  (let rq3 = rq2\<lparr>rq_body_off := rtot io\<rparr> in
                   Option.bind (alarm_set L T (rq_post_timeout rq3) timer) (\<lambda>s. case s of
                     Crash \<Rightarrow> Some (400, Crash, io, timer)
                   | Failed t \<Rightarrow> Some (400, Failed rq3, io, Some t)
                   | Done t \<Rightarrow>
                       (if rq_post_maxsize rq3 < rq_content_length rq3
                        then map_option (\<lambda>t1. (413, Failed rq3, io, Some t1)) (alarm_clear T t)
                        else Option.bind (parse_body L E U fmax rq3 io) (\<lambda>(r, io1).
                          map_option (\<lambda>t1. (case r of Done rq4 \<Rightarrow> 0 | _ \<Rightarrow> 400, r, io1, Some t1)) (alarm_clear T t)))))))) "

text \<open>The request line and the header; the result is the request and a stream and timer left behind.\<close>

definition parse_request_line :: "libu \<Rightarrow> uri_check \<Rightarrow> string \<Rightarrow> request \<Rightarrow> request step" where
  "parse_request_line L valid ln rq =
     and_then (request_set_client_request L ln rq) (\<lambda>rq.
       case strtok_all [CHR '' '', TAB, CR, LF] ln of
         [] \<Rightarrow> Failed rq
       | m # ts \<Rightarrow>
           and_then (request_set_method m rq) (\<lambda>rq.
             case ts of
               [] \<Rightarrow> Failed rq
             | u # us \<Rightarrow>
                 and_then (request_set_uri L valid u rq) (\<lambda>rq.
                   case us of [] \<Rightarrow> Failed rq | p # _ \<Rightarrow> request_set_proto L p rq)))"

definition read_header ::
  "libu \<Rightarrow> ('d, 'c) io_ops \<Rightarrow> uri_check \<Rightarrow> string list \<Rightarrow> request \<Rightarrow> ('d, 'c) io \<Rightarrow> (request step \<times> ('d, 'c) io) option" where
  "read_header L E valid env rq io =
     (if rq_cgi rq
      then Some (case header_load_from_cgienv L env (rq_header rq) of
             Ok h \<Rightarrow> Done (rq\<lparr>rq_header := h\<rparr>) | Fail \<Rightarrow> Failed rq | Fault \<Rightarrow> Crash, io)
      else Option.bind (io_gets L E 4096 io) (\<lambda>(r, io1).
        case r of
          None \<Rightarrow> Some (Failed rq, io1)
        | Some b \<Rightarrow>
            (if b = [] then Some (Failed rq, io1)
             else case parse_request_line L valid (cstr b) rq of
               Done rq1 \<Rightarrow>
                 map_option (\<lambda>(s, io2). (case s of
                     Done h \<Rightarrow> Done (rq1\<lparr>rq_header := h\<rparr>)
                   | Failed h \<Rightarrow> Failed (rq1\<lparr>rq_header := h\<rparr>)
                   | Crash \<Rightarrow> Crash, io2)) (header_load L E (rq_header rq1) io1)
             | other \<Rightarrow> Some (other, io1))))"

definition finish_header :: "libu \<Rightarrow> request \<Rightarrow> request step" where
  "finish_header L rq =
     (case request_parse_ims rq of
        Ok rq1 \<Rightarrow>
          and_then (request_parse_cookies L rq1) (\<lambda>rq2.
            if rq_method rq2 = HM_POST then request_set_content_length rq2 else Done rq2)
      | Fail \<Rightarrow> Failed rq
      | Fault \<Rightarrow> Crash)"

definition request_parse_header ::
  "libu \<Rightarrow> ('d, 'c) io_ops \<Rightarrow> tctx \<Rightarrow> uri_check \<Rightarrow> string list \<Rightarrow> request \<Rightarrow> ('d, 'c) io \<Rightarrow> timerm option \<Rightarrow>
   (request step \<times> ('d, 'c) io \<times> timerm option) option" where
  "request_parse_header L E T valid env rq io timer =
     Option.bind (alarm_set L T (rq_idle_timeout rq) timer) (\<lambda>s. case s of
       Crash \<Rightarrow> Some (Crash, io, timer)
     | Failed t \<Rightarrow> Some (Failed rq, io, Some t)
     | Done t \<Rightarrow>
         Option.bind (read_header L E valid env rq io) (\<lambda>(r, io1).
           map_option (\<lambda>t1. (and_then r (finish_header L), io1, Some t1)) (alarm_clear T t)))"

section \<open>Ownership of the variables\<close>

text \<open>
  Every variable of the store belongs to exactly one of \<^verbatim>\<open>args\<close>, \<^verbatim>\<open>cookies\<close> and
  \<^verbatim>\<open>uploads\<close>, which free it; \<^verbatim>\<open>args_get\<close> and \<^verbatim>\<open>args_post\<close> only borrow.
\<close>

abbreviation linked :: "(request \<Rightarrow> vars) \<Rightarrow> request \<Rightarrow> addr set" where
  "linked sel rq \<equiv> set (vlist (sel rq))"

definition request_ok :: "request \<Rightarrow> bool" where
  "request_ok rq \<longleftrightarrow> vmem_ok (rq_mem rq) \<and>
     distinct (vlist (rq_args rq) @ vlist (rq_cookies rq) @ vlist (rq_uploads rq)) \<and>
     dom (vheap (rq_mem rq)) = linked rq_args rq \<union> linked rq_cookies rq \<union> linked rq_uploads rq \<and>
     linked rq_args_get rq \<union> linked rq_args_post rq \<subseteq> linked rq_args rq \<and>
     \<not> foreign (rq_args rq) \<and> \<not> foreign (rq_cookies rq) \<and> \<not> foreign (rq_uploads rq) \<and>
     foreign (rq_args_get rq) \<and> foreign (rq_args_post rq)"

text \<open>What adding a created variable does to a list and the store.\<close>

lemma add_created_cases:
  assumes "libu_ok L" "vmem_ok m" "\<And>v. r = Ok v \<Longrightarrow> var_ok v"
  shows "case add_created L r vs m of
      Added vs' m' a \<Rightarrow> vs' = vs\<lparr>vlist := vlist vs @ [a]\<rparr> \<and> vheap m a = None \<and> dom (vheap m') = insert a (dom (vheap m)) \<and> vmem_ok m'
    | NotAdded vs' m' \<Rightarrow> vs' = vs \<and> dom (vheap m') = dom (vheap m) \<and> vmem_ok m'
    | AddCrash \<Rightarrow> r = Fault"
proof (cases r)
  case (Ok v)
  have fresh: "vheap m (vnext m) = None" using assms(2) unfolding vmem_ok_def by (metis less_irrefl not_None_eq)
  have ok: "vmem_ok \<lparr>vheap = (vheap m)(vnext m \<mapsto> v), vnext = Suc (vnext m)\<rparr>"
    using vmem_alloc_ok [OF assms(2) assms(3) [OF Ok]] by (simp add: var_alloc_def)
  show ?thesis
  proof (cases "u_list_add L (vlist vs) (vnext m)")
    case None
    have "vmem_ok (m\<lparr>vheap := vheap m, vnext := Suc (vnext m)\<rparr>)" using assms(2) by (auto simp: vmem_ok_def intro: less_SucI)
    moreover have "(vheap m)(vnext m := None) = vheap m" using fresh by (simp add: fun_upd_idem)
    ultimately show ?thesis using None Ok assms(2)
      by (auto simp: add_created_def var_alloc_def vars_add_def vmem_ok_def fresh)
  next
    case (Some l)
    then have "l = vlist vs @ [vnext m]" using libu_okD(12) [OF assms(1)] by blast
    then show ?thesis using Some Ok fresh ok by (simp add: add_created_def var_alloc_def vars_add_def)
  qed
qed (simp_all add: add_created_def assms(2))

lemma var_bin_create_var_ok: "libu_ok L \<Longrightarrow> var_bin_create L name data sz = Ok v \<Longrightarrow> var_ok v"
  by (auto simp: var_bin_create_def var_set_bin_value_def var_sync_def var_empty_def var_ok_def split: option.splits if_splits step.splits)

lemma urlvar_create_var_ok: "libu_ok L \<Longrightarrow> urlvar_create L cs = Ok v \<Longrightarrow> var_ok v"
proof -
  have b: "bind_outcome r f = Ok v \<Longrightarrow> \<exists>x. r = Ok x \<and> f x = Ok v" for r :: "char list outcome" and f
    by (cases r) auto
  assume "libu_ok L" "urlvar_create L cs = Ok v"
  then show "var_ok v"
    by (auto simp: urlvar_create_def split: option.splits if_splits dest!: b intro: var_bin_create_var_ok)
qed

lemma vars_add_urlvar_cases:
  assumes "libu_ok L" "vmem_ok m"
  shows "case vars_add_urlvar L cs vs m of
      Added vs' m' a \<Rightarrow> vs' = vs\<lparr>vlist := vlist vs @ [a]\<rparr> \<and> vheap m a = None \<and> dom (vheap m') = insert a (dom (vheap m)) \<and> vmem_ok m'
    | NotAdded vs' m' \<Rightarrow> vs' = vs \<and> dom (vheap m') = dom (vheap m) \<and> vmem_ok m'
    | AddCrash \<Rightarrow> True"
proof -
  have "\<And>v. urlvar_create L cs = Ok v \<Longrightarrow> var_ok v" using urlvar_create_var_ok [OF assms(1)] by blast
  from add_created_cases [where r = "urlvar_create L cs" and vs = vs, OF assms this] show ?thesis
    unfolding vars_add_urlvar_def by (simp split: added.splits)
qed

lemma add_cookie_ok: "libu_ok L \<Longrightarrow> request_ok rq \<Longrightarrow> step_inv request_ok (add_cookie L tok rq)"
  using vars_add_urlvar_cases [where L = L and m = "rq_mem rq" and cs = tok and vs = "rq_cookies rq"]
  by (auto simp: add_cookie_def request_ok_def split: added.splits)

lemma cb_add_var_ok:
  assumes "libu_ok L" "request_ok rq"
    and put: "\<And>r vs. foreign vs \<Longrightarrow> set (vlist vs) \<subseteq> linked rq_args r \<Longrightarrow> request_ok r \<Longrightarrow> request_ok (put vs r)"
    and get: "\<And>r. request_ok r \<Longrightarrow> foreign (get r) \<and> set (vlist (get r)) \<subseteq> linked rq_args r"
  shows "step_inv request_ok (request_cb_add_var L get put tok rq)"
proof (cases "vars_add_urlvar L tok (rq_args rq) (rq_mem rq)")
  case (Added vs m a)
  let ?rq = "rq\<lparr>rq_args := vs, rq_mem := m\<rparr>"
  have ok: "request_ok ?rq" "a \<in> linked rq_args ?rq"
    using vars_add_urlvar_cases [where L = L and m = "rq_mem rq" and cs = tok and vs = "rq_args rq"] assms(1,2) Added by (auto simp: request_ok_def)
  have "vars_add L a (get ?rq) = Done (get ?rq\<lparr>vlist := vlist (get ?rq) @ [a]\<rparr>) \<or> vars_add L a (get ?rq) = Failed (get ?rq)"
    using libu_okD(12) [OF assms(1)] by (auto simp: vars_add_def split: option.splits)
  then show ?thesis
    using Added put [OF _ _ ok(1)] get [OF ok(1)] ok(2)
    by (auto simp: request_cb_add_var_def Let_def)
next
  case (NotAdded vs m)
  then show ?thesis
    using vars_add_urlvar_cases [where L = L and m = "rq_mem rq" and cs = tok and vs = "rq_args rq"] assms(1,2)
    by (auto simp: request_cb_add_var_def request_ok_def)
qed (simp add: request_cb_add_var_def)

lemma cb_add_get_var_ok: "libu_ok L \<Longrightarrow> request_ok rq \<Longrightarrow> step_inv request_ok (request_cb_add_get_var L tok rq)"
  unfolding request_cb_add_get_var_def by (rule cb_add_var_ok) (auto simp: request_ok_def)

lemma cb_add_post_var_ok: "libu_ok L \<Longrightarrow> request_ok rq \<Longrightarrow> step_inv request_ok (request_cb_add_post_var L tok rq)"
  unfolding request_cb_add_post_var_def by (rule cb_add_var_ok) (auto simp: request_ok_def)

lemma foreach_tok_ok:
  "(\<And>t s. P s \<Longrightarrow> step_inv P (f t s)) \<Longrightarrow> P s \<Longrightarrow> step_inv P (foreach_tok f ts s)"
  by (induction ts arbitrary: s) (auto intro!: step_inv_bind)

lemma query_var_ok:
  "(\<And>t s. request_ok s \<Longrightarrow> step_inv request_ok (f t s)) \<Longrightarrow> request_ok rq \<Longrightarrow> step_inv request_ok (foreach_query_var L f q n rq)"
  by (auto simp: foreach_query_var_def intro!: foreach_tok_ok split: option.splits)

lemma request_ok_fields [simp]:
  "request_ok (rq\<lparr>rq_query := q\<rparr>) = request_ok rq" "request_ok (rq\<lparr>rq_header := h\<rparr>) = request_ok rq"
  "request_ok (rq\<lparr>rq_method := me\<rparr>) = request_ok rq" "request_ok (rq\<lparr>rq_uri := q\<rparr>) = request_ok rq"
  "request_ok (rq\<lparr>rq_filename := q\<rparr>) = request_ok rq" "request_ok (rq\<lparr>rq_path_info := q\<rparr>) = request_ok rq"
  "request_ok (rq\<lparr>rq_protocol := q\<rparr>) = request_ok rq" "request_ok (rq\<lparr>rq_cli_rq := q\<rparr>) = request_ok rq"
  "request_ok (rq\<lparr>rq_content_length := k\<rparr>) = request_ok rq" "request_ok (rq\<lparr>rq_body_off := k\<rparr>) = request_ok rq"
  "request_ok (rq\<lparr>rq_if_modified_since := i\<rparr>) = request_ok rq" "request_ok (request_clear_uri rq) = request_ok rq"
  by (simp_all add: request_ok_def request_clear_uri_def)

lemma urlencoded_ok:
  assumes "libu_ok L" "request_ok rq" "request_parse_urlencoded_data L E rq io = Some (r, io')"
  shows "step_inv request_ok r"
  using assms(2,3) query_var_ok [where f = "request_cb_add_post_var L" and L = L, OF cb_add_post_var_ok [OF assms(1)]]
  by (auto simp: request_parse_urlencoded_data_def Let_def bind_eq_Some_conv split: if_splits option.splits)

lemma parse_cookies_ok:
  assumes "libu_ok L"
  shows "request_ok rq \<Longrightarrow> step_inv request_ok (request_parse_cookies L rq)"
proof -
  have one: "request_ok rq \<Longrightarrow> step_inv request_ok (request_parse_cookie L f rq)" for rq f
    using foreach_tok_ok [of request_ok "add_cookie L", OF add_cookie_ok [OF assms]]
    by (auto simp: request_parse_cookie_def split: option.splits)
  have "request_ok rq \<Longrightarrow> step_inv request_ok (parse_cookies_loop L is rq)" for "is" rq
  proof (induction "is" arbitrary: rq)
    case (Cons i "is")
    then show ?case using one by (auto intro!: step_inv_bind split: option.splits)
  qed simp
  then show "request_ok rq \<Longrightarrow> step_inv request_ok (request_parse_cookies L rq)" by (simp add: request_parse_cookies_def)
qed

lemma set_string_ok:
  assumes "\<And>x r. request_ok (upd x r) = request_ok r" "request_ok rq"
  shows "step_inv request_ok (set_string L upd s rq)"
  using assms by (simp add: set_string_def split: option.splits)

lemma set_uri_ok: "request_ok rq \<Longrightarrow> step_inv request_ok (request_set_uri L valid uri rq)"
proof -
  have loop: "step_inv request_ok (path_info_loop L valid fn k r)" if "request_ok r" for fn k r
    unfolding path_info_loop_eq split_at_def request_set_filename_def request_set_path_info_def Let_def using that
    by (auto split: option.splits intro!: step_inv_bind set_string_ok)
  assume "request_ok rq"
  then show ?thesis
    unfolding request_set_uri_def request_set_query_string_def request_set_filename_def Let_def using loop
    by (auto split: option.splits outcome.splits intro!: step_inv_bind set_string_ok)
qed

lemma request_line_ok: "request_ok rq \<Longrightarrow> step_inv request_ok (parse_request_line L valid ln rq)"
  unfolding parse_request_line_def request_set_client_request_def request_set_method_def request_set_proto_def
  by (auto split: option.splits list.splits intro!: step_inv_bind set_string_ok set_uri_ok)

lemma content_length_ok: "request_ok rq \<Longrightarrow> step_inv request_ok (request_set_content_length rq)"
  by (auto simp: request_set_content_length_def split: outcome.splits option.splits)

lemma finish_header_ok:
  assumes "libu_ok L" "request_ok rq"
  shows "step_inv request_ok (finish_header L rq)"
proof (cases "request_parse_ims rq")
  case (Ok rq1)
  then have "request_ok rq1" using assms(2) by (auto simp: request_parse_ims_def split: option.splits)
  then show ?thesis
    using Ok parse_cookies_ok [OF assms(1)] content_length_ok by (auto simp: finish_header_def intro!: step_inv_bind)
qed (simp_all add: finish_header_def assms(2))

lemma read_header_ok:
  assumes "request_ok rq" "read_header L E valid env rq io = Some (r, io')"
  shows "step_inv request_ok r"
proof -
  have line: "step_inv request_ok (parse_request_line L valid ln rq)" for ln by (rule request_line_ok [OF assms(1)])
  show ?thesis
  proof (cases "rq_cgi rq")
    case True
    with assms show ?thesis by (auto simp: read_header_def split: outcome.splits)
  next
    case False
    with assms(2) obtain b io1 where b: "io_gets L E 4096 io = Some (b, io1)" by (auto simp: read_header_def bind_eq_Some_conv)
    show ?thesis
    proof (cases b)
      case (Some c)
      have wrap: "request_ok q \<Longrightarrow> step_inv request_ok (case s of Done h \<Rightarrow> Done (q\<lparr>rq_header := h\<rparr>)
          | Failed h \<Rightarrow> Failed (q\<lparr>rq_header := h\<rparr>) | Crash \<Rightarrow> Crash)" for q s by (cases s) auto
      show ?thesis
        using Some False assms b line [of "cstr c"] wrap
        by (cases "parse_request_line L valid (cstr c) rq") (auto simp: read_header_def split: if_splits intro: line)
    qed (use False assms b in \<open>auto simp: read_header_def\<close>)
  qed
qed

lemma link_post_var_ok:
  assumes "libu_ok L" "libu_mem L" "request_ok rq" "var_ok v"
  shows "step_inv request_ok (link_post_var L v rq)"
proof -
  let ?m = "rq_mem rq"
  have "vheap ?m (vnext ?m) = None" using assms(3) unfolding request_ok_def vmem_ok_def by (metis less_irrefl not_None_eq)
  moreover have "vmem_ok (snd (var_alloc v ?m))" using assms(3,4) vmem_alloc_ok by (simp add: request_ok_def)
  ultimately show ?thesis
    using assms(3) by (auto simp: link_post_var_def var_alloc_def vars_add_def libu_memD [OF assms(1,2)] request_ok_def)
qed

lemma uploaded_file_ok:
  assumes "libu_ok L" "request_ok rq"
  shows "step_inv request_ok (request_add_uploaded_file L U fmax name fname tmpname mime rq)"
proof (cases "var_create L name tmpname")
  case (Ok v)
  let ?v = "var_set_opaque (Some (vnext (rq_mem rq))) v"
  have "var_ok v" using Ok var_bin_create_var_ok [OF assms(1)] by (simp add: var_create_def)
  then have "var_ok ?v" by (simp add: var_set_opaque_def var_ok_def)
  moreover have "vmem_ok (rq_mem rq)" using assms(2) by (simp add: request_ok_def)
  ultimately have "case add_created L (Ok ?v) (rq_uploads rq) (rq_mem rq) of
      Added vs' m' a \<Rightarrow> vs' = (rq_uploads rq)\<lparr>vlist := vlist (rq_uploads rq) @ [a]\<rparr> \<and> vheap (rq_mem rq) a = None \<and>
        dom (vheap m') = insert a (dom (vheap (rq_mem rq))) \<and> vmem_ok m'
    | NotAdded vs' m' \<Rightarrow> vs' = rq_uploads rq \<and> dom (vheap m') = dom (vheap (rq_mem rq)) \<and> vmem_ok m'
    | AddCrash \<Rightarrow> Ok ?v = Fault"
    using add_created_cases [OF assms(1), of "rq_mem rq" "Ok ?v" "rq_uploads rq"] by simp
  then show ?thesis
    using assms(2) Ok by (auto simp: request_add_uploaded_file_def Let_def request_ok_def split: option.splits added.splits)
qed (use assms(2) in \<open>auto simp: request_add_uploaded_file_def split: option.splits\<close>)

lemma part_upload_ok:
  assumes "libu_ok L" "request_ok rq" "part_upload L E U fmax bound h name fname rq io = Some (r, io')"
  shows "step_inv request_ok r"
proof (cases "4096 \<le> length bound \<or> up_open U (rq_temp_dir rq) = None")
  case True
  with assms(2,3) show ?thesis by (auto simp: part_upload_def split: if_splits)
next
  case False
  then obtain tn tmp where opn: "up_open U (rq_temp_dir rq) = Some (tn, tmp)" by auto
  then obtain s io1 where s: "upload_loop L E (up_ops U) bound io tmp = Some (s, io1)"
    using False assms(3) by (auto simp: part_upload_def bind_eq_Some_conv)
  have add: "step_inv request_ok (request_add_uploaded_file L U fmax name fname tn mime rq)" for mime
    by (rule uploaded_file_ok [OF assms(1,2)])
  show ?thesis
  proof (cases s)
    case (Done tmp1)
    then show ?thesis
      using False opn s assms(2,3) add
      by (cases "header_get_field_value h ''Content-Type''") (auto simp: part_upload_def bind_eq_Some_conv)
  qed (use False opn s assms(2,3) in \<open>auto simp: part_upload_def\<close>)
qed

lemma part_field_ok:
  assumes "libu_ok L" "libu_mem L" "request_ok rq" "part_field L E bound name rq io = Some (r, io')"
  shows "step_inv request_ok r"
proof -
  obtain o' io1 where o': "request_read_until_boundary L E (rq_post_maxsize rq) bound 4096 io = Some (o', io1)"
    using assms(4) by (auto simp: part_field_def bind_eq_Some_conv)
  show ?thesis
  proof (cases "bind_outcome o' (\<lambda>d. var_bin_create L name (d @ [NUL]) (length d))")
    case (Ok v)
    then have "var_ok v" using var_bin_create_var_ok [OF assms(1)] by (cases o') auto
    then show ?thesis using assms(4) o' Ok link_post_var_ok [OF assms(1-3)] by (auto simp: part_field_def)
  qed (use assms(3,4) o' in \<open>auto simp: part_field_def\<close>)
qed

lemma part_end_ok:
  assumes "step_inv request_ok r" "part_end L E (r, io) = Some (r', fin, io')"
  shows "step_inv request_ok r'"
proof (cases r)
  case (Done rq)
  then obtain q io1 where q: "io_read L E 2 io = Some (q, io1)"
    using assms(2) by (auto simp: part_end_def bind_eq_Some_conv)
  have "r' = Failed rq \<or> r' = Done rq"
  proof (cases q)
    case (Some b)
    then show ?thesis using assms(2) Done q by (cases "b = []"; cases "b = ''--''") (auto simp: part_end_def)
  qed (use assms(2) Done q in \<open>simp add: part_end_def\<close>)
  then show ?thesis using assms(1) Done by auto
qed (use assms in \<open>auto simp: part_end_def\<close>)

lemma multipart_chunk_ok:
  assumes "libu_ok L" "libu_mem L" "request_ok rq"
    "request_parse_multipart_chunk L E U fmax bound rq io = Some (r, fin, io')"
  shows "step_inv request_ok r"
proof -
  obtain h0 where h0: "header_create L 0 = Some h0" using libu_memD [OF assms(1,2)] by (simp add: header_create_def)
  obtain q io1 where q: "header_load L E h0 io = Some (q, io1)"
    using assms(4) h0 by (auto simp: request_parse_multipart_chunk_def bind_eq_Some_conv)
  show ?thesis
  proof (cases q)
    case (Done h)
    let ?o = "bind_outcome (is_multipart_mixed h) (\<lambda>mixed. bind_outcome (is_encoded h) (\<lambda>enc.
        if mixed \<or> enc then Fail else parse_content_disposition L 512 h))"
    show ?thesis
    proof (cases ?o)
      case (Ok nf)
      obtain name fname where nf: "nf = (name, fname)" by fastforce
      let ?part = "if fname \<noteq> [] then part_upload L E U fmax bound h name fname rq io1 else part_field L E bound name rq io1"
      obtain s io2 where s: "?part = Some (s, io2)" "part_end L E (s, io2) = Some (r, fin, io')"
        using assms(4) h0 q Done Ok nf by (auto simp: request_parse_multipart_chunk_def bind_eq_Some_conv)
      have "step_inv request_ok s"
        using s(1) part_upload_ok [OF assms(1,3)] part_field_ok [OF assms(1-3)] by (auto split: if_splits)
      with s(2) show ?thesis by (rule part_end_ok [rotated])
    qed (use assms(3,4) h0 q Done in \<open>auto simp: request_parse_multipart_chunk_def\<close>)
  qed (use assms(3,4) h0 q in \<open>auto simp: request_parse_multipart_chunk_def\<close>)
qed

lemma chunks_loop_ok:
  fixes E :: "('d, 'c) io_ops" and U :: "('e, 'f) up_env"
  assumes "chunks_loop L E U fmax bound rq io = Some y" "libu_ok L" "libu_mem L" "request_ok rq"
  shows "step_inv request_ok (fst y)"
proof -
  have "libu_ok L \<and> libu_mem L \<and> request_ok rq \<longrightarrow> step_inv request_ok (fst y)"
  proof (rule chunks_loop.raw_induct [OF _ assms(1)])
    fix cl :: "libu \<Rightarrow> ('d, 'c) io_ops \<Rightarrow> ('e, 'f) up_env \<Rightarrow> nat \<Rightarrow> string \<Rightarrow> request \<Rightarrow> ('d, 'c) io \<Rightarrow> (request step \<times> ('d, 'c) io) option"
    fix L :: libu and E :: "('d, 'c) io_ops" and U :: "('e, 'f) up_env" and fmax bound rq io y
    assume ih: "\<And>L E U fmax bound rq io y. cl L E U fmax bound rq io = Some y \<Longrightarrow>
        libu_ok L \<and> libu_mem L \<and> request_ok rq \<longrightarrow> step_inv request_ok (fst y)"
      and run: "request_parse_multipart_chunk L E U fmax bound rq io \<bind>
        (\<lambda>(r, fin, io1). case r of Done rq1 \<Rightarrow> if fin then Some (Done rq1, io1) else cl L E U fmax bound rq1 io1
           | Failed s \<Rightarrow> Some (Failed s, io1) | Crash \<Rightarrow> Some (Crash, io1)) = Some y"
    show "libu_ok L \<and> libu_mem L \<and> request_ok rq \<longrightarrow> step_inv request_ok (fst y)"
    proof
      assume ok: "libu_ok L \<and> libu_mem L \<and> request_ok rq"
      obtain r fin io1 where r: "request_parse_multipart_chunk L E U fmax bound rq io = Some (r, fin, io1)"
        using run by (auto simp: bind_eq_Some_conv)
      with ok multipart_chunk_ok have "step_inv request_ok r" by blast
      then show "step_inv request_ok (fst y)" using run r ih ok by (cases r) (auto split: if_splits)
    qed
  qed
  with assms(2-4) show ?thesis by blast
qed

lemma multipart_data_ok:
  assumes "libu_ok L" "libu_mem L" "request_ok rq" "request_parse_multipart_data L E U fmax rq io = Some (r, io')"
  shows "step_inv request_ok r"
proof (cases "request_get_fieldparam L rq ''Content-Type'' ''boundary'' 126")
  case (Ok param)
  let ?b = "''--'' @ param"
  obtain found io1 where p: "preamble_loop L E ?b io = Some (found, io1)"
    using assms(4) Ok by (auto simp: request_parse_multipart_data_def bind_eq_Some_conv Let_def)
  obtain nl trunc where nl: "u_strlcat L [CR, LF] ?b 128 = (nl, trunc)" by fastforce
  show ?thesis
  proof (cases "found \<and> \<not> trunc")
    case True
    then have "chunks_loop L E U fmax nl rq io1 = Some (r, io')"
      using assms(4) Ok p nl by (auto simp: request_parse_multipart_data_def Let_def)
    from chunks_loop_ok [OF this assms(1-3)] show ?thesis by simp
  qed (use assms(3,4) Ok p nl in \<open>auto simp: request_parse_multipart_data_def Let_def split: if_splits\<close>)
qed (use assms(3,4) in \<open>auto simp: request_parse_multipart_data_def\<close>)

lemma parse_body_ok:
  assumes "libu_ok L" "libu_mem L" "request_ok rq" "parse_body L E U fmax rq io = Some (r, io')"
  shows "step_inv request_ok r"
  using assms(3,4) multipart_data_ok [OF assms(1-3)] urlencoded_ok [OF assms(1,3)]
  by (auto simp: parse_body_def split: outcome.splits bool.splits)

lemma parse_data_ok:
  assumes "libu_ok L" "libu_mem L" "request_ok rq"
    "request_parse_data L E U fmax T rq io timer = Some (st, r, io', timer')"
  shows "step_inv request_ok r"
proof -
  have q: "step_inv request_ok (request_parse_query_args L rq)"
    unfolding request_parse_query_args_def by (rule query_var_ok [OF cb_add_get_var_ok [OF assms(1)] assms(3)])
  show ?thesis
  proof (cases "request_parse_query_args L rq")
    case (Done rq1)
    then have ok1: "request_ok rq1" using q by simp
    show ?thesis
    proof (cases "rq_method rq1 = HM_POST")
      case post: True
      have c: "step_inv request_ok (request_set_content_length rq1)" by (rule content_length_ok [OF ok1])
      show ?thesis
      proof (cases "request_set_content_length rq1")
        case cl: (Done rq2)
        then have ok2: "request_ok rq2" using c by simp
        let ?rq3 = "rq2\<lparr>rq_body_off := rtot io\<rparr>"
        show ?thesis
        proof (cases "rq_content_length rq2 = 0")
          case False
          then obtain s where s: "alarm_set L T (rq_post_timeout ?rq3) timer = Some s"
            using assms(4) Done post cl by (auto simp: request_parse_data_def Let_def bind_eq_Some_conv)
          have "r = Crash \<or> r = Failed ?rq3 \<or> (\<exists>io1. parse_body L E U fmax ?rq3 io = Some (r, io1))"
            using assms(4) Done post cl False s
            by (cases s) (auto simp: request_parse_data_def Let_def bind_eq_Some_conv split: if_splits)
          then show ?thesis using ok2 parse_body_ok [OF assms(1,2), of ?rq3] by auto
        qed (use assms(4) Done post cl ok2 c in \<open>auto simp: request_parse_data_def\<close>)
      qed (use assms(4) Done post c in \<open>auto simp: request_parse_data_def\<close>)
    qed (use assms(4) Done ok1 q in \<open>auto simp: request_parse_data_def\<close>)
  qed (use assms(4) q in \<open>auto simp: request_parse_data_def\<close>)
qed

lemma parse_header_ok:
  assumes "libu_ok L" "request_ok rq" "request_parse_header L E T valid env rq io timer = Some (r, io', timer')"
  shows "step_inv request_ok r"
proof -
  obtain s where s: "alarm_set L T (rq_idle_timeout rq) timer = Some s"
    using assms(3) by (auto simp: request_parse_header_def bind_eq_Some_conv)
  have "r = Crash \<or> r = Failed rq \<or> (\<exists>q io1. read_header L E valid env rq io = Some (q, io1) \<and> r = and_then q (finish_header L))"
    using assms(3) s by (cases s) (auto simp: request_parse_header_def bind_eq_Some_conv)
  then show ?thesis
    using assms(2) read_header_ok [OF assms(2)] finish_header_ok [OF assms(1)] by (auto intro!: step_inv_bind)
qed

lemma request_create_ok: "libu_ok L \<Longrightarrow> request_create L cfg a0 = Some rq \<Longrightarrow> request_ok rq"
  by (auto simp: request_create_def bind_eq_Some_conv request_load_config_def vars_create_def vars_set_flags_def
      request_ok_def vmem_empty_def vmem_ok_def dest!: libu_okD(8) split: if_splits)

lemma free_loop_ok:
  "distinct as \<Longrightarrow> set as \<subseteq> dom (vheap m) \<Longrightarrow>
   \<exists>m'. free_loop as m = Ok m' \<and> vheap m' = (vheap m) |` (- set as)"
proof (induction as arbitrary: m)
  case (Cons a as)
  let ?m = "m\<lparr>vheap := (vheap m)(a := None)\<rparr>"
  have "set as \<subseteq> dom (vheap ?m)" using Cons.prems by auto
  moreover have "distinct as" using Cons.prems(1) by simp
  ultimately obtain m' where "free_loop as ?m = Ok m'" "vheap m' = vheap ?m |` (- set as)" using Cons.IH by blast
  moreover have "vheap ?m |` (- set as) = vheap m |` (- set (a # as))" by (auto simp: restrict_map_def fun_eq_iff)
  ultimately show ?case using Cons.prems(2) by (auto simp: var_free_def)
qed (simp add: restrict_map_def)

lemma unlink_loop_ok: "set as \<subseteq> dom (vheap m) \<Longrightarrow> \<exists>fs. unlink_loop as m = Ok fs"
  by (induction as) auto

text \<open>A request whose variables are in order can be freed, and nothing is left.\<close>

lemma request_free_ok:
  assumes "request_ok rq"
  shows "\<exists>fs m. request_free rq = Ok (fs, m) \<and> vheap m = Map.empty"
proof -
  let ?A = "vlist (rq_args rq)" and ?C = "vlist (rq_cookies rq)" and ?U = "vlist (rq_uploads rq)"
  have d: "distinct ?A" "distinct ?C" "distinct ?U" "set ?A \<inter> set ?C = {}" "set ?A \<inter> set ?U = {}" "set ?C \<inter> set ?U = {}"
    "dom (vheap (rq_mem rq)) = set ?A \<union> set ?C \<union> set ?U"
    using assms by (auto simp: request_ok_def)
  from unlink_loop_ok [of ?U "rq_mem rq"] d(7) obtain fs where fs: "unlink_loop ?U (rq_mem rq) = Ok fs" by auto
  from free_loop_ok [OF d(3), of "rq_mem rq"] d(7) obtain m1 where
    m1: "free_loop ?U (rq_mem rq) = Ok m1" "vheap m1 = vheap (rq_mem rq) |` (- set ?U)" by auto
  have "set ?C \<subseteq> dom (vheap m1)" using d(6,7) m1(2) by auto
  from free_loop_ok [OF d(2) this] obtain m2 where m2: "free_loop ?C m1 = Ok m2" "vheap m2 = vheap m1 |` (- set ?C)" by auto
  have "set ?A \<subseteq> dom (vheap m2)" using d(4,5,7) m1(2) m2(2) by auto
  from free_loop_ok [OF d(1) this] obtain m3 where m3: "free_loop ?A m2 = Ok m3" "vheap m3 = vheap m2 |` (- set ?A)" by auto
  have "dom (vheap m3) = {}" using d(7) m1(2) m2(2) m3(2) by auto
  then have "vheap m3 = Map.empty" by simp
  moreover have "request_free rq = Ok (fs, m3)"
    using assms fs m1(1) m2(1) m3(1) by (simp add: request_free_def vars_free_def request_ok_def)
  ultimately show ?thesis by blast
qed

section \<open>The life of a request\<close>

inductive reachable_request :: "libu \<Rightarrow> ('d, 'c) io_ops \<Rightarrow> ('e, 'f) up_env \<Rightarrow> request \<Rightarrow> bool"
  for L :: libu and E :: "('d, 'c) io_ops" and U :: "('e, 'f) up_env" where
  created: "request_create L cfg a0 = Some rq \<Longrightarrow> reachable_request L E U rq"
| to_uri: "reachable_request L E U rq \<Longrightarrow> kept (request_set_uri L valid uri rq) = Some rq' \<Longrightarrow> reachable_request L E U rq'"
| to_query: "reachable_request L E U rq \<Longrightarrow> kept (request_set_query_string L q rq) = Some rq' \<Longrightarrow> reachable_request L E U rq'"
| to_field: "reachable_request L E U rq \<Longrightarrow> kept (request_set_field L n v rq) = Some rq' \<Longrightarrow> reachable_request L E U rq'"
| to_header: "reachable_request L E U rq \<Longrightarrow> request_parse_header L E T valid env rq io timer = Some (r, io', timer') \<Longrightarrow>
    kept r = Some rq' \<Longrightarrow> reachable_request L E U rq'"
| to_data: "reachable_request L E U rq \<Longrightarrow> request_parse_data L E U fmax T rq io timer = Some (st, r, io', timer') \<Longrightarrow>
    kept r = Some rq' \<Longrightarrow> reachable_request L E U rq'"

inductive_cases reachable_requestE: "reachable_request L E U rq"

lemma kept_inv: "step_inv P r \<Longrightarrow> kept r = Some s \<Longrightarrow> P s"
  by (cases r) auto

lemma reachable_request_ok:
  assumes "libu_ok L" "libu_mem L"
  shows "reachable_request L E U rq \<Longrightarrow> request_ok rq"
proof (induction rule: reachable_request.induct)
  case (created cfg a0 rq)
  then show ?case using request_create_ok [OF assms(1)] by blast
next
  case (to_uri rq valid uri rq')
  show ?case by (rule kept_inv [OF set_uri_ok [OF to_uri.IH] to_uri.hyps(2)])
next
  case (to_query rq q rq')
  have "step_inv request_ok (request_set_query_string L q rq)"
    unfolding request_set_query_string_def using to_query by (intro set_string_ok) auto
  from kept_inv [OF this to_query.hyps(2)] show ?case .
next
  case (to_field rq n v rq')
  have "step_inv request_ok (request_set_field L n v rq)"
    using to_field by (auto simp: request_set_field_def split: step.splits)
  from kept_inv [OF this to_field.hyps(2)] show ?case .
next
  case (to_header rq T valid env io timer r io' timer' rq')
  from kept_inv [OF parse_header_ok [OF assms(1) to_header.IH to_header.hyps(2)] to_header.hyps(3)] show ?case .
next
  case (to_data rq fmax T io timer st r io' timer' rq')
  from kept_inv [OF parse_data_ok [OF assms to_data.IH to_data.hyps(2)] to_data.hyps(3)] show ?case .
qed

end
