(* ===== verification/Request_Forms.thy ===== *)
theory Request_Forms
  imports Request_Data
begin

text \<open>
  What the request of \<^verbatim>\<open>src/libpage/request.c\<close> hands to a page: the variables of a query
  string and of a multipart form, read back; the limits on a POST body; and that a request gives
  back all its memory whatever happened to it.
\<close>

section \<open>Reading variables back\<close>

text \<open>What the two lists of form or query variables hold; the second one only borrows.\<close>

definition args_view :: "(request \<Rightarrow> vars) \<Rightarrow> request \<Rightarrow> (string \<times> char list option) list" where
  "args_view sel rq = vars_view (sel rq) (rq_mem rq)"

definition args_ok :: "(request \<Rightarrow> vars) \<Rightarrow> request \<Rightarrow> bool" where
  "args_ok sel rq \<longleftrightarrow> vars_ok (sel rq) (rq_mem rq)"

definition bound_var :: "string \<times> char list \<Rightarrow> string \<times> char list option" where
  "bound_var p = (fst p, if snd p = [] then None else Some (snd p))"

fun join_with :: "char \<Rightarrow> string list \<Rightarrow> string" where
  "join_with c [] = []"
| "join_with c [t] = t"
| "join_with c (t # ts) = t @ c # join_with c ts"

lemma strtok_all_token:
  "t \<noteq> [] \<Longrightarrow> c \<notin> set t \<Longrightarrow> strtok_all [c] (t @ c # s) = t # strtok_all [c] s"
  "t \<noteq> [] \<Longrightarrow> c \<notin> set t \<Longrightarrow> strtok_all [c] t = [t]"
proof -
  assume t: "t \<noteq> []" "c \<notin> set t"
  then obtain x u where x: "t = x # u" by (cases t) auto
  have "takeWhile (\<lambda>y. y \<noteq> c) (u @ c # s) = u" "dropWhile (\<lambda>y. y \<noteq> c) (u @ c # s) = c # s"
    using t(2) x by (induction u arbitrary: t) auto
  with t x show "strtok_all [c] (t @ c # s) = t # strtok_all [c] s" by auto
  have d: "dropWhile (\<lambda>y. y \<noteq> c) u = []" "takeWhile (\<lambda>y. y \<noteq> c) u = u"
    using t(2) x by (induction u arbitrary: t) auto
  have "strtok_all [c] t = (x # takeWhile (\<lambda>y. y \<noteq> c) u) # strtok_all [c] (dropWhile (\<lambda>y. y \<noteq> c) u)"
    using t x by auto
  then show "strtok_all [c] t = [t]" unfolding d x by simp
qed

lemma strtok_join_with: "\<forall>t \<in> set ts. t \<noteq> [] \<and> c \<notin> set t \<Longrightarrow> strtok_all [c] (join_with c ts) = ts"
proof (induction c ts rule: join_with.induct)
  case (3 c t u us)
  then show ?case using strtok_all_token(1) [of t c "join_with c (u # us)"] by simp
qed (simp_all add: strtok_all_token(2))

lemma url_pair_token: "url_pair p \<noteq> [] \<and> CHR ''&'' \<notin> set (url_pair p)"
  by (simp add: url_pair_def url_escape_clean)

lemma add_get_pair:
  assumes "libu_ok L" "libu_mem L" "pair_ok p" "args_ok rq_args rq" "args_ok rq_args_get rq"
  shows "\<exists>rq'. request_cb_add_get_var L (url_pair p) rq = Done rq' \<and> args_ok rq_args rq' \<and> args_ok rq_args_get rq' \<and>
     args_view rq_args rq' = args_view rq_args rq @ [bound_var p] \<and>
     args_view rq_args_get rq' = args_view rq_args_get rq @ [bound_var p]"
proof -
  let ?v = "var_of (fst p) (snd p)" and ?m = "rq_mem rq"
  let ?m' = "snd (var_alloc ?v ?m)"
  have v: "var_ok ?v" "var_pair ?v = bound_var p" by (simp_all add: bound_var_def)
  note a = vars_ok_alloc [OF assms(4) [unfolded args_ok_def] v(1)] and g = vars_ok_alloc [OF assms(5) [unfolded args_ok_def] v(1)]
  show ?thesis
    using a(3,4) g(3,4) v(2)
    by (simp add: request_cb_add_get_var_def request_cb_add_var_def vars_add_urlvar_pair [OF assms(1-3)] Let_def vars_add_def
        libu_memD [OF assms(1,2)] args_ok_def args_view_def)
qed

lemma foreach_get_pairs:
  assumes "libu_ok L" "libu_mem L"
  shows "\<forall>p \<in> set ps. pair_ok p \<Longrightarrow> args_ok rq_args rq \<Longrightarrow> args_ok rq_args_get rq \<Longrightarrow>
   \<exists>rq'. foreach_tok (request_cb_add_get_var L) (map url_pair ps) rq = Done rq' \<and>
     args_view rq_args rq' = args_view rq_args rq @ map bound_var ps \<and>
     args_view rq_args_get rq' = args_view rq_args_get rq @ map bound_var ps"
proof (induction ps arbitrary: rq)
  case (Cons p ps)
  from add_get_pair [OF assms, of p rq] Cons.prems obtain rq1 where
    rq1: "request_cb_add_get_var L (url_pair p) rq = Done rq1" "args_ok rq_args rq1" "args_ok rq_args_get rq1"
      "args_view rq_args rq1 = args_view rq_args rq @ [bound_var p]"
      "args_view rq_args_get rq1 = args_view rq_args_get rq @ [bound_var p]" by auto
  from Cons.IH [OF _ rq1(2,3)] Cons.prems(1) rq1 show ?case by auto
qed simp

section \<open>Reading a form back\<close>
























section \<open>Properties\<close>

text \<open>A request as it is created, for the examples below.\<close>

definition blank_request :: request where
  "blank_request =
     \<lparr>rq_header = \<lparr>h_fields = [], nfields = 0, h_next = 0\<rparr>, rq_method = HM_UNKNOWN, rq_cli_rq = None, rq_uri = None,
      rq_protocol = None, rq_path_info = None, rq_query = None, rq_filename = None, rq_resolved_path_info = None,
      rq_resolved_filename = None, rq_args = \<lparr>vlist = [], foreign = False\<rparr>, rq_args_get = \<lparr>vlist = [], foreign = True\<rparr>,
      rq_args_post = \<lparr>vlist = [], foreign = True\<rparr>, rq_cookies = \<lparr>vlist = [], foreign = False\<rparr>,
      rq_uploads = \<lparr>vlist = [], foreign = False\<rparr>, rq_mem = vmem_empty, rq_infos = (\<lambda>_. None), rq_content_type = None,
      rq_content_encoding = None, rq_content_length = 0, rq_if_modified_since = 0, rq_local_addr = [], rq_peer_addr = [],
      rq_cgi = False, rq_idle_timeout = 10, rq_post_timeout = 600, rq_post_maxsize = 5120000, rq_temp_dir = None, rq_body_off = 0\<rparr>"

lemma blank_request_created:
  "request_create libu_ref (Some \<lparr>cfg_idle_timeout = None, cfg_post_timeout = None, cfg_post_maxsize = None, cfg_temp_dir = None\<rparr>) 0 =
     Some blank_request"
  by (simp add: request_create_def libu_ref_def header_create_def vars_create_def vars_set_flags_def request_load_config_def
      limit_of_def blank_request_def)

lemma blank_request_args: "args_ok rq_args blank_request" "args_ok rq_args_get blank_request" "args_ok rq_args_post blank_request"
  "args_view rq_args blank_request = []" "args_view rq_args_get blank_request = []" "args_view rq_args_post blank_request = []"
  by (simp_all add: args_ok_def args_view_def blank_request_def vars_ok_def vmem_ok_def vmem_empty_def vars_view_def)

text \<open>
  C10.  A request never leaks and never frees twice: in every state a request reaches through its
  operations, whatever they were given and wherever they failed, freeing it succeeds and no
  variable is left in memory.
\<close>

theorem request_no_leak:
  assumes "libu_ok L" "libu_mem L" "reachable_request L E U rq"
  shows "\<exists>fs m. request_free rq = Ok (fs, m) \<and> vheap m = Map.empty"
  by (rule request_free_ok [OF reachable_request_ok [OF assms]])

theorem request_no_leak_witness:
  "\<exists>rq fs m. request_parse_query_args libu_ref (blank_request\<lparr>rq_query := Some (url_pair (''a'', ''b''))\<rparr>) = Done rq \<and>
     vlist (rq_args rq) \<noteq> [] \<and> request_free rq = Ok (fs, m) \<and> vheap m = Map.empty"
proof -
  let ?E = "mem_ops null_transform null_flush :: (io_mem, unit) io_ops"
  let ?U = "\<lparr>up_ops = ?E, up_open = (\<lambda>_. None), up_stat = (\<lambda>_. None)\<rparr>"
  let ?rq = "blank_request\<lparr>rq_query := Some (url_pair (''a'', ''b''))\<rparr>"
  let ?T = "\<lparr>tc_env = \<lparr>pid = 1, sig_block = True, sig_unblock = True, sig_handler = True\<rparr>, tc_addr = 0, tc_set = 0, tc_clear = 0\<rparr>"
  have "request_set_query_string libu_ref (url_pair (''a'', ''b'')) blank_request = Done ?rq"
    by (simp add: request_set_query_string_def set_string_def libu_ref_def)
  then have r: "reachable_request libu_ref ?E ?U ?rq"
    by (intro reachable_request.to_query [OF reachable_request.created [OF blank_request_created], of "url_pair (''a'', ''b'')"]) simp
  have p: "pair_ok (''a'', ''b'')" by (simp add: pair_ok_def)
  have q: "\<exists>rq. request_parse_query_args libu_ref ?rq = Done rq \<and> vlist (rq_args rq) \<noteq> [] \<and> rq_method rq = HM_UNKNOWN"
    using url_pair_token [of "(''a'', ''b'')"] p
    by (simp add: request_parse_query_args_def foreach_query_var_def libu_memD [OF libu_ref_ok libu_ref_mem] strtok_all_token(2)
        request_cb_add_get_var_def request_cb_add_var_def vars_add_urlvar_pair [OF libu_ref_ok libu_ref_mem] vars_add_def blank_request_def)
  then obtain rq where rq: "request_parse_query_args libu_ref ?rq = Done rq" "vlist (rq_args rq) \<noteq> []" "rq_method rq = HM_UNKNOWN" by blast
  then have "request_parse_data libu_ref ?E ?U 256 ?T ?rq (mem_io []) None = Some (0, Done rq, mem_io [], None)"
    using rq by (simp add: request_parse_data_def)
  from reachable_request.to_data [OF r this, of rq] have "reachable_request libu_ref ?E ?U rq" by simp
  from request_no_leak [OF libu_ref_ok libu_ref_mem this] rq show ?thesis by auto
qed

text \<open>
  C28.  The variables of a query string: the escaped pairs of the query are read back, in order and
  with their names and values, into \<^verbatim>\<open>args\<close> and into \<^verbatim>\<open>args_get\<close>.
\<close>

theorem query_roundtrip:
  assumes "libu_ok L" "libu_mem L" "rq_query rq = Some (join_with (CHR ''&'') (map url_pair ps))" "\<forall>p \<in> set ps. pair_ok p"
    and "args_ok rq_args rq" "args_ok rq_args_get rq"
  shows "\<exists>rq'. request_parse_query_args L rq = Done rq' \<and>
     args_view rq_args rq' = args_view rq_args rq @ map bound_var ps \<and>
     args_view rq_args_get rq' = args_view rq_args_get rq @ map bound_var ps"
proof -
  have "strtok_all ''&'' (join_with (CHR ''&'') (map url_pair ps)) = map url_pair ps"
    by (rule strtok_join_with) (simp add: url_pair_token)
  then show ?thesis
    using foreach_get_pairs [OF assms(1,2,4-6)]
    by (simp add: request_parse_query_args_def foreach_query_var_def assms(3) libu_memD [OF assms(1,2)])
qed

theorem query_roundtrip_witness:
  "\<exists>rq'. request_parse_query_args libu_ref (blank_request\<lparr>rq_query := Some (url_pair (''a'', ''x y'') @ CHR ''&'' # url_pair (''b&'', ''=''))\<rparr>) =
     Done rq' \<and> args_view rq_args rq' = [(''a'', Some ''x y''), (''b&'', Some ''='')]"
proof -
  let ?ps = "[(''a'', ''x y''), (''b&'', ''='')]"
  let ?rq = "blank_request\<lparr>rq_query := Some (join_with (CHR ''&'') (map url_pair ?ps))\<rparr>"
  have q: "rq_query ?rq = Some (join_with (CHR ''&'') (map url_pair ?ps))" by simp
  have p: "\<forall>p \<in> set ?ps. pair_ok p" by (simp add: pair_ok_def)
  have a: "args_ok rq_args ?rq" "args_ok rq_args_get ?rq" "args_view rq_args ?rq = []"
    using blank_request_args by (simp_all add: args_ok_def args_view_def)
  from query_roundtrip [OF libu_ref_ok libu_ref_mem q p a(1,2)] a(3) show ?thesis by (auto simp: bound_var_def)
qed





end
