(* ===== verification/Session.thy ===== *)
theory Session
  imports Request_Forms
begin

text \<open>
  \<^verbatim>\<open>src/libpage/session.c\<close>: the session object, in a build without SSL and without libz (the
  two functions that keep a cipher key need neither and are included).  The three function
  pointers of \<^verbatim>\<open>session_t\<close> are a record of functions over the driver's storage; the clock, the
  process id, the random number, the MD5 digest and LibU's \<^verbatim>\<open>u_path_snprintf\<close> are what the
  environment gives.
\<close>

section \<open>Definitions\<close>

datatype session_type = SESSION_TYPE_FILE | SESSION_TYPE_MEMORY

record session_opt =
  so_type :: session_type
  so_max_age :: int
  so_compress :: bool
  so_encrypt :: bool
  so_name :: string
  so_path :: string

record session =
  s_vars :: vars
  s_mem :: vmem
  s_rq :: request
  s_rs :: response
  s_filename :: string
  s_id :: string
  s_removed :: bool
  s_mtime :: int

record ses_env =
  se_tv :: "(nat \<times> nat) option"
  se_pid :: nat
  se_rand :: nat
  se_time :: int
  se_digest :: "char list \<Rightarrow> char list"
  se_path :: "string \<Rightarrow> nat \<Rightarrow> string \<times> bool"
  se_fmax :: nat

subsection \<open>Configuration\<close>

text \<open>
  \<^verbatim>\<open>session_module_init\<close>: the values of the \<^verbatim>\<open>session\<close> section, if there is one.  Integers
  and booleans are read by LibU; each of the flags is \<open>None\<close> when its value is malformed.
  The product \<^verbatim>\<open>iv * 60\<close> is taken to wrap.
\<close>

record ses_config =
  sc_type :: "string option"
  sc_max_age :: "string option"
  sc_compress :: "bool option"
  sc_encrypt :: "bool option"
  sc_sid_name :: "string option"

definition so_default :: session_opt where
  "so_default = \<lparr>so_type = SESSION_TYPE_FILE, so_max_age = 1200, so_compress = False, so_encrypt = False,
     so_name = ''klone_sid'', so_path = []\<rparr>"

definition config_type :: "string option \<Rightarrow> session_opt \<Rightarrow> session_opt option" where
  "config_type v so =
     (case v of
        None \<Rightarrow> Some so
      | Some t \<Rightarrow>
          if strcaseeq t ''memory'' then Some (so\<lparr>so_type := SESSION_TYPE_MEMORY\<rparr>)
          else if strcaseeq t ''file'' then Some (so\<lparr>so_type := SESSION_TYPE_FILE\<rparr>) else None)"

definition config_age :: "(string \<Rightarrow> int option) \<Rightarrow> string option \<Rightarrow> session_opt \<Rightarrow> session_opt option" where
  "config_age u_atoi v so =
     (case v of
        None \<Rightarrow> Some so
      | Some t \<Rightarrow> map_option (\<lambda>iv. so\<lparr>so_max_age := max (to_int32 (iv * 60)) 60\<rparr>) (u_atoi t))"

definition config_name :: "libu \<Rightarrow> string option \<Rightarrow> session_opt \<Rightarrow> session_opt option" where
  "config_name L v so =
     (case v of
        None \<Rightarrow> Some so
      | Some t \<Rightarrow> (case u_strlcpy L t 128 of (n, trunc) \<Rightarrow> if trunc then None else Some (so\<lparr>so_name := n\<rparr>)))"

definition session_module_init ::
  "libu \<Rightarrow> (string \<Rightarrow> int option) \<Rightarrow> ses_config option \<Rightarrow> session_opt option" where
  "session_module_init L u_atoi cfg =
     (if \<not> u_malloc L 8 then None
      else case cfg of
        None \<Rightarrow> Some so_default
      | Some c \<Rightarrow> do {
          so \<leftarrow> config_type (sc_type c) so_default;
          so \<leftarrow> config_age u_atoi (sc_max_age c) so;
          compress \<leftarrow> sc_compress c;
          encrypt \<leftarrow> sc_encrypt c;
          so \<leftarrow> config_name L (sc_sid_name c) (so\<lparr>so_compress := compress, so_encrypt := encrypt\<rparr>);
          if compress \<or> encrypt then None else Some so
        })"

definition session_file_module_init :: "libu \<Rightarrow> nat \<Rightarrow> string option \<Rightarrow> session_opt \<Rightarrow> session_opt" where
  "session_file_module_init L fmax path so =
     so\<lparr>so_path := fst (u_strlcpy L (case path of Some v \<Rightarrow> v | None \<Rightarrow> ''/tmp'') fmax)\<rparr>"

subsection \<open>Variables\<close>

abbreviation upd_vars :: "vars \<Rightarrow> vmem \<Rightarrow> session \<Rightarrow> session" where
  "upd_vars vs m ss \<equiv> ss\<lparr>s_vars := vs, s_mem := m\<rparr>"

definition session_get :: "session \<Rightarrow> string \<Rightarrow> string option outcome" where
  "session_get ss name =
     bind_outcome (vars_get (s_vars ss) (s_mem ss) name) (\<lambda>r.
       case r of
         None \<Rightarrow> Ok None
       | Some a \<Rightarrow> (case vheap (s_mem ss) a of None \<Rightarrow> Fault | Some v \<Rightarrow> Ok (var_get_value v)))"

definition session_set :: "libu \<Rightarrow> string \<Rightarrow> string \<Rightarrow> session \<Rightarrow> session step" where
  "session_set L name value ss =
     (if name = [] then Failed ss
      else case vars_get (s_vars ss) (s_mem ss) name of
        Fault \<Rightarrow> Crash
      | Fail \<Rightarrow> Failed ss
      | Ok None \<Rightarrow>
          (case add_created L (var_create L name value) (s_vars ss) (s_mem ss) of
             Added vs m a \<Rightarrow> Done (upd_vars vs m ss)
           | NotAdded vs m \<Rightarrow> Failed (upd_vars vs m ss)
           | AddCrash \<Rightarrow> Crash)
      | Ok (Some a) \<Rightarrow>
          (case vheap (s_mem ss) a of
             None \<Rightarrow> Crash
           | Some v \<Rightarrow>
               (case var_set_value L value v of
                  Done v' \<Rightarrow> Done (ss\<lparr>s_mem := var_put a v' (s_mem ss)\<rparr>)
                | Failed v' \<Rightarrow> Failed (ss\<lparr>s_mem := var_put a v' (s_mem ss)\<rparr>)
                | Crash \<Rightarrow> Crash)))"

text \<open>Unlinking a variable and freeing it.\<close>

definition drop_var :: "libu \<Rightarrow> addr \<Rightarrow> session \<Rightarrow> session step" where
  "drop_var L a ss =
     (case vars_del L a (s_vars ss) of
        Failed vs \<Rightarrow> Failed (ss\<lparr>s_vars := vs\<rparr>)
      | Crash \<Rightarrow> Crash
      | Done vs \<Rightarrow> (case var_free a (s_mem ss) of Ok m \<Rightarrow> Done (upd_vars vs m ss) | _ \<Rightarrow> Crash))"

definition session_del :: "libu \<Rightarrow> string \<Rightarrow> session \<Rightarrow> session step" where
  "session_del L name ss =
     (case vars_get (s_vars ss) (s_mem ss) name of
        Fault \<Rightarrow> Crash
      | Fail \<Rightarrow> Failed ss
      | Ok None \<Rightarrow> Failed ss
      | Ok (Some a) \<Rightarrow> drop_var L a ss)"

partial_function (option) session_clean :: "libu \<Rightarrow> session \<Rightarrow> session step option" where
  "session_clean L ss =
     (case vars_getn (s_vars ss) 0 of
        None \<Rightarrow> Some (Done ss)
      | Some a \<Rightarrow> (case drop_var L a ss of Done ss' \<Rightarrow> session_clean L ss' | other \<Rightarrow> Some other))"

definition session_age :: "ses_env \<Rightarrow> session \<Rightarrow> int" where
  "session_age V ss = to_int32 (se_time V - s_mtime ss)"

subsection \<open>Cipher key\<close>

definition SESSION_KEY_VAR :: string where
  "SESSION_KEY_VAR = ''KLONE_CIPHER_KEY''"

text \<open>The old key is unlinked but not freed: its variable leaks.\<close>

definition drop_key :: "libu \<Rightarrow> session \<Rightarrow> session step" where
  "drop_key L ss =
     (case vars_get (s_vars ss) (s_mem ss) SESSION_KEY_VAR of
        Fault \<Rightarrow> Crash
      | Fail \<Rightarrow> Failed ss
      | Ok None \<Rightarrow> Done ss
      | Ok (Some a) \<Rightarrow>
          (case vars_del L a (s_vars ss) of
             Done vs \<Rightarrow> Done (ss\<lparr>s_vars := vs\<rparr>)
           | Failed vs \<Rightarrow> (case var_free a (s_mem ss) of Ok m \<Rightarrow> Failed (upd_vars vs m ss) | _ \<Rightarrow> Crash)
           | Crash \<Rightarrow> Crash))"

definition session_set_cipher_key :: "libu \<Rightarrow> char list \<Rightarrow> nat \<Rightarrow> session \<Rightarrow> session step" where
  "session_set_cipher_key L data sz ss =
     (if sz = 0 then Failed ss
      else and_then (drop_key L ss) (\<lambda>ss.
        case add_created L (var_bin_create L SESSION_KEY_VAR data sz) (s_vars ss) (s_mem ss) of
          Added vs m a \<Rightarrow> Done (upd_vars vs m ss)
        | NotAdded vs m \<Rightarrow> Failed (upd_vars vs m ss)
        | AddCrash \<Rightarrow> Crash))"

text \<open>A key that does not fit is freed while it is still linked in the list.\<close>

definition session_get_cipher_key :: "nat \<Rightarrow> session \<Rightarrow> (char list \<times> session step) option" where
  "session_get_cipher_key psz ss =
     (if psz = 0 then None
      else case vars_get (s_vars ss) (s_mem ss) SESSION_KEY_VAR of
        Ok (Some a) \<Rightarrow>
          (case vheap (s_mem ss) a of
             None \<Rightarrow> Some ([], Crash)
           | Some v \<Rightarrow>
               (if psz \<le> var_get_value_size v
                then Some ([], case var_free a (s_mem ss) of Ok m \<Rightarrow> Failed (ss\<lparr>s_mem := m\<rparr>) | _ \<Rightarrow> Crash)
                else Some (case vdata v of None \<Rightarrow> [] | Some d \<Rightarrow> take (var_get_value_size v) d, Done ss)))
      | Ok None \<Rightarrow> None
      | Fail \<Rightarrow> None
      | Fault \<Rightarrow> Some ([], Crash))"

subsection \<open>Identifier\<close>

definition SESSION_ID_LENGTH :: nat where
  "SESSION_ID_LENGTH = 32"

definition session_is_good_id :: "string \<Rightarrow> bool" where
  "session_is_good_id i \<longleftrightarrow> length i = SESSION_ID_LENGTH \<and> list_all c_isxdigit i"

text \<open>\<^verbatim>\<open>u_md5\<close> of \<^verbatim>\<open>utils.c\<close> around the digest of the vendored MD5 code.\<close>

definition u_md5 :: "(char list \<Rightarrow> char list) \<Rightarrow> char list \<Rightarrow> nat \<Rightarrow> string outcome" where
  "u_md5 digest buf sz = u_tohex (digest (take sz buf)) 16"

definition session_set_filename :: "ses_env \<Rightarrow> session_opt \<Rightarrow> session \<Rightarrow> session step" where
  "session_set_filename V so ss =
     (if s_id ss = [] then Failed ss
      else case se_path V (so_path so @ ''/klone_sess_'' @ s_id ss @ ''_'' @ rq_local_addr (s_rq ss)) (se_fmax V) of
        (fn, trunc) \<Rightarrow> if trunc then Failed (ss\<lparr>s_filename := fn\<rparr>) else Done (ss\<lparr>s_filename := fn\<rparr>))"

definition set_sid_cookie :: "libu \<Rightarrow> session_opt \<Rightarrow> string option \<Rightarrow> session \<Rightarrow> session step" where
  "set_sid_cookie L so v ss =
     (case response_set_cookie L (so_name so) v 0 None None False (s_rs ss) of
        Done rs \<Rightarrow> Done (ss\<lparr>s_rs := rs\<rparr>)
      | Failed rs \<Rightarrow> Failed (ss\<lparr>s_rs := rs\<rparr>)
      | Crash \<Rightarrow> Crash)"

definition session_gen_id :: "libu \<Rightarrow> ses_env \<Rightarrow> session_opt \<Rightarrow> session \<Rightarrow> session step" where
  "session_gen_id L V so ss =
     (let ss = ss\<lparr>s_id := []\<rparr> in
      case se_tv V of
        None \<Rightarrow> Failed ss
      | Some (sec, usec) \<Rightarrow>
          (case u_snprintf L (dec sec @ dec (se_pid V) @ dec usec @ dec (se_rand V)) 257 of (buf, trunc) \<Rightarrow>
             if trunc then Failed ss
             else case u_md5 (se_digest V) buf (length buf) of
               Ok sid \<Rightarrow>
                 and_then (set_sid_cookie L so None (ss\<lparr>s_id := sid\<rparr>)) (\<lambda>ss. set_sid_cookie L so (Some (s_id ss)) ss)
             | Fail \<Rightarrow> Failed ss
             | Fault \<Rightarrow> Crash))"

definition session_prv_set_id :: "libu \<Rightarrow> ses_env \<Rightarrow> session_opt \<Rightarrow> string option \<Rightarrow> session \<Rightarrow> session step" where
  "session_prv_set_id L V so sid ss =
     and_then
       (case sid of
          Some i \<Rightarrow>
            if session_is_good_id i
            then (case u_snprintf L i (SESSION_ID_LENGTH + 1) of (t, trunc) \<Rightarrow>
                    if trunc then Failed (ss\<lparr>s_id := t\<rparr>) else Done (ss\<lparr>s_id := t\<rparr>))
            else session_gen_id L V so ss
        | None \<Rightarrow> session_gen_id L V so ss)
       (session_set_filename V so)"


subsection \<open>Saving and loading\<close>

text \<open>The size of the buffer a session is saved to, in bytes of \<^verbatim>\<open>size_t\<close>.\<close>

definition session_prv_calc_maxsize :: "var \<Rightarrow> nat \<Rightarrow> nat" where
  "session_prv_calc_maxsize v sz =
     (let sz1 = size_add sz (3 * length (sname v) + 3)
      in case var_get_value v of None \<Rightarrow> sz1 | Some t \<Rightarrow> size_add sz1 (3 * length t + 1))"

definition calc_maxsize_cb :: "vmem \<Rightarrow> addr \<Rightarrow> nat \<Rightarrow> (bool \<times> nat) outcome" where
  "calc_maxsize_cb m a sz = (case vheap m a of None \<Rightarrow> Fault | Some v \<Rightarrow> Ok (False, session_prv_calc_maxsize v sz))"

text \<open>
  \<^verbatim>\<open>session_prv_save_var\<close>: name and value are URL-encoded to buffers of three times their size,
  on the stack when they are small.
\<close>

definition session_prv_save_var :: "libu \<Rightarrow> ('d, 'c) io_ops \<Rightarrow> var \<Rightarrow> ('d, 'c) io \<Rightarrow> ('d, 'c) io step option" where
  "session_prv_save_var L E v io =
     (let nsz = 1 + 3 * length (sname v); vsz = 1 + 3 * var_get_value_size v in
      if 256 \<le> nsz \<and> \<not> u_malloc L nsz then Some (Failed io)
      else case u_urlncpy L (sname v @ [NUL]) (length (sname v)) CPY_ENCODE of
        Fail \<Rightarrow> Some (Failed io)
      | Fault \<Rightarrow> Some Crash
      | Ok (uname, n) \<Rightarrow>
          (if n = 0 then Some (Failed io)
           else case vdata v of
             None \<Rightarrow> io_vprintf L E (cstr uname @ ''='' @ [LF]) io
           | Some d \<Rightarrow>
               (if 4096 \<le> vsz \<and> \<not> u_malloc L vsz then Some (Failed io)
                else case u_urlncpy L (d @ [NUL]) (var_get_value_size v) CPY_ENCODE of
                  Fail \<Rightarrow> Some (Failed io)
                | Fault \<Rightarrow> Some Crash
                | Ok (uvalue, k) \<Rightarrow>
                    if k = 0 then Some (Failed io)
                    else io_vprintf L E (cstr uname @ ''='' @ cstr uvalue @ [LF]) io)))"

text \<open>The \<^verbatim>\<open>vars_foreach\<close> that saves: an error ends the loop and is not reported.\<close>

fun save_loop :: "libu \<Rightarrow> ('d, 'c) io_ops \<Rightarrow> vmem \<Rightarrow> addr list \<Rightarrow> ('d, 'c) io \<Rightarrow> ('d, 'c) io step option" where
  "save_loop L E m [] io = Some (Done io)"
| "save_loop L E m (a # as) io =
     (case vheap m a of
        None \<Rightarrow> Some Crash
      | Some v \<Rightarrow>
          Option.bind (session_prv_save_var L E v io) (\<lambda>r. case r of
            Done io1 \<Rightarrow> save_loop L E m as io1
          | Failed io1 \<Rightarrow> Some (Done io1)
          | Crash \<Rightarrow> Some Crash))"

definition session_prv_save_to_io :: "libu \<Rightarrow> ('d, 'c) io_ops \<Rightarrow> session \<Rightarrow> ('d, 'c) io \<Rightarrow> ('d, 'c) io step option" where
  "session_prv_save_to_io L E ss io =
     io_seq (save_loop L E (s_mem ss) (vlist (s_vars ss)) io) (\<lambda>io1.
       map_option (\<lambda>r. case kept r of None \<Rightarrow> Crash | Some io2 \<Rightarrow> Done io2) (io_codecs_remove E io1))"

text \<open>The stream on a buffer in memory; no codec is ever added to it in this build.\<close>

abbreviation buf_ops :: "(io_mem, unit) io_ops" where
  "buf_ops \<equiv> mem_ops null_transform null_flush"

text \<open>
  \<^verbatim>\<open>session_prv_save_to_buf\<close>: the bytes of a fresh buffer are not specified (here: NUL); only
  those written count.  A failing \<^verbatim>\<open>io_tell\<close> returns \<^verbatim>\<open>-1\<close>, which becomes a huge size.
\<close>

definition session_prv_save_to_buf :: "libu \<Rightarrow> session \<Rightarrow> (char list \<times> nat) outcome option" where
  "session_prv_save_to_buf L ss =
     (case vars_foreach (calc_maxsize_cb (s_mem ss)) (vlist (s_vars ss)) 0 of
        Fail \<Rightarrow> Some Fail
      | Fault \<Rightarrow> Some Fault
      | Ok sz \<Rightarrow>
          (if \<not> u_malloc L sz then Some Fail
           else case io_mem_create L (replicate sz NUL) False of
             None \<Rightarrow> Some Fail
           | Some io \<Rightarrow>
               Option.bind (io_seq (session_prv_save_to_io L buf_ops ss io) (io_codecs_remove buf_ops)) (\<lambda>r. case r of
                 Crash \<Rightarrow> Some Fault
               | Failed io1 \<Rightarrow> map_option (\<lambda>_. Fail) (io_free buf_ops io1)
               | Done io1 \<Rightarrow>
                   (case io_tell buf_ops io1 of (n, s) \<Rightarrow>
                      (case kept s of
                         None \<Rightarrow> Some Fault
                       | Some io2 \<Rightarrow>
                           map_option (\<lambda>_. Ok (io_mem_get_buf io2, case n of None \<Rightarrow> SIZE_LIMIT - 1 | Some k \<Rightarrow> k))
                             (io_free buf_ops io2))))))"

partial_function (option) load_vars_loop ::
  "libu \<Rightarrow> ('d, 'c) io_ops \<Rightarrow> session \<Rightarrow> ('d, 'c) io \<Rightarrow> (session step \<times> ('d, 'c) io) option" where
  "load_vars_loop L E ss io =
     Option.bind (u_getline L E io) (\<lambda>(ok, line, io1).
       if \<not> ok then Some (Done ss, io1)
       else if line = [] then load_vars_loop L E ss io1
       else case vars_add_urlvar L (cstr line) (s_vars ss) (s_mem ss) of
         Added vs m a \<Rightarrow> load_vars_loop L E (upd_vars vs m ss) io1
       | NotAdded vs m \<Rightarrow> Some (Failed (upd_vars vs m ss), io1)
       | AddCrash \<Rightarrow> Some (Crash, io1))"

definition session_prv_load_from_io ::
  "libu \<Rightarrow> ('d, 'c) io_ops \<Rightarrow> session \<Rightarrow> ('d, 'c) io \<Rightarrow> (session step \<times> ('d, 'c) io) option" where
  "session_prv_load_from_io L E ss io =
     Option.bind (case u_string_create L [] of None \<Rightarrow> Some (Failed ss, io) | Some _ \<Rightarrow> load_vars_loop L E ss io) (\<lambda>(r, io1).
       map_option (\<lambda>q. case kept q of None \<Rightarrow> (Crash, io1) | Some io2 \<Rightarrow> (r, io2)) (io_codecs_remove E io1))"

definition session_prv_load_from_buf :: "libu \<Rightarrow> session \<Rightarrow> char list \<Rightarrow> session step option" where
  "session_prv_load_from_buf L ss buf =
     (case io_mem_create L buf False of
        None \<Rightarrow> Some (Failed ss)
      | Some io \<Rightarrow>
          Option.bind (session_prv_load_from_io L buf_ops ss io) (\<lambda>(r, io1). map_option (\<lambda>_. r) (io_free buf_ops io1)))"

subsection \<open>Drivers\<close>

text \<open>The driver's functions; \<^verbatim>\<open>term\<close> does nothing in either driver.  \<^typ>\<open>'w\<close> is the storage.\<close>

record 'w ses_driver =
  drv_load :: "session \<Rightarrow> 'w \<Rightarrow> (session step \<times> 'w) option"
  drv_save :: "session \<Rightarrow> 'w \<Rightarrow> (session step \<times> 'w) option"
  drv_remove :: "session \<Rightarrow> 'w \<Rightarrow> (session step \<times> 'w) option"

definition session_load :: "'w ses_driver \<Rightarrow> session \<Rightarrow> 'w \<Rightarrow> (session step \<times> 'w) option" where
  "session_load D ss w = drv_load D ss w"

definition session_remove :: "libu \<Rightarrow> session_opt \<Rightarrow> 'w ses_driver \<Rightarrow> session \<Rightarrow> 'w \<Rightarrow> (session step \<times> 'w) option" where
  "session_remove L so D ss w =
     (case kept (set_sid_cookie L so None ss) of
        None \<Rightarrow> Some (Crash, w)
      | Some ss1 \<Rightarrow> drv_remove D (ss1\<lparr>s_removed := True\<rparr>) w)"

definition session_save ::
  "libu \<Rightarrow> ses_env \<Rightarrow> session_opt \<Rightarrow> 'w ses_driver \<Rightarrow> session \<Rightarrow> 'w \<Rightarrow> (session step \<times> 'w) option" where
  "session_save L V so D ss w =
     (if vars_count (s_vars ss) = 0
      then (if s_id ss = [] then Some (Done ss, w) else session_remove L so D ss w)
      else case (if s_id ss = [] then session_prv_set_id L V so None ss else Done ss) of
        Done ss1 \<Rightarrow> drv_save D ss1 w
      | other \<Rightarrow> Some (other, w))"

text \<open>\<^verbatim>\<open>session_free\<close>: an error of saving is only logged.\<close>

definition session_free ::
  "libu \<Rightarrow> ses_env \<Rightarrow> session_opt \<Rightarrow> 'w ses_driver \<Rightarrow> session \<Rightarrow> 'w \<Rightarrow> (vmem outcome \<times> response \<times> 'w) option" where
  "session_free L V so D ss w =
     Option.bind (if s_removed ss then Some (Done ss, w) else session_save L V so D ss w) (\<lambda>(r, w1).
       Some (case kept r of
         None \<Rightarrow> (Fault, s_rs ss, w1)
       | Some ss1 \<Rightarrow> (vars_free (s_vars ss1) (s_mem ss1), s_rs ss1, w1)))"

text \<open>\<^verbatim>\<open>session_prv_init\<close>: a list that could not be created behaves as an empty one.\<close>

definition session_prv_init :: "libu \<Rightarrow> ses_env \<Rightarrow> session_opt \<Rightarrow> session \<Rightarrow> session step" where
  "session_prv_init L V so ss =
     (case vars_create L of
        None \<Rightarrow> Failed ss
      | Some vs \<Rightarrow>
          (let ss1 = ss\<lparr>s_vars := vs\<rparr> in
           case request_get_cookie (s_rq ss) (so_name so) of
             Fault \<Rightarrow> Crash
           | Ok (Some sid) \<Rightarrow> session_prv_set_id L V so (Some sid) ss1
           | _ \<Rightarrow> Done ss1))"

text \<open>
  \<^verbatim>\<open>session_create\<close> after the driver's constructor: a session that exists is loaded, and
  dropped again when it is too old.
\<close>

definition session_resume ::
  "libu \<Rightarrow> ses_env \<Rightarrow> session_opt \<Rightarrow> 'w ses_driver \<Rightarrow> session \<Rightarrow> 'w \<Rightarrow> (session step \<times> 'w) option" where
  "session_resume L V so D ss w =
     (if s_id ss = [] then Some (Done ss, w)
      else Option.bind (session_load D ss w) (\<lambda>(r, w1).
        case kept r of
          None \<Rightarrow> Some (Crash, w1)
        | Some ss1 \<Rightarrow>
            (if so_max_age so < session_age V ss1
             then Option.bind (session_clean L ss1) (\<lambda>q.
               case kept q of
                 None \<Rightarrow> Some (Crash, w1)
               | Some ss2 \<Rightarrow>
                   Option.bind (session_remove L so D ss2 w1) (\<lambda>(r2, w2).
                     Some (case kept r2 of None \<Rightarrow> Crash | Some ss3 \<Rightarrow> Done ss3, w2)))
             else Some (Done ss1, w1))))"

section \<open>Variables\<close>

text \<open>The list of a session owns its variables, and nothing else is in the store.\<close>

definition session_ok :: "session \<Rightarrow> bool" where
  "session_ok ss \<longleftrightarrow> vars_ok (s_vars ss) (s_mem ss) \<and> dom (vheap (s_mem ss)) = set (vlist (s_vars ss)) \<and> \<not> foreign (s_vars ss)"

definition session_view :: "session \<Rightarrow> (string \<times> char list option) list" where
  "session_view ss = vars_view (s_vars ss) (s_mem ss)"

text \<open>What setting, reading and deleting do to the view.\<close>

fun view_get :: "(string \<times> char list option) list \<Rightarrow> string \<Rightarrow> string option" where
  "view_get [] m = None"
| "view_get (p # ps) m = (if strcaseeq (fst p) m then map_option cstr (snd p) else view_get ps m)"

fun view_set :: "string \<Rightarrow> char list \<Rightarrow> (string \<times> char list option) list \<Rightarrow> (string \<times> char list option) list" where
  "view_set n d [] = [(n, Some d)]"
| "view_set n d (p # ps) = (if strcaseeq (fst p) n then (fst p, Some d) # ps else p # view_set n d ps)"

fun view_del :: "string \<Rightarrow> (string \<times> char list option) list \<Rightarrow> (string \<times> char list option) list" where
  "view_del n [] = []"
| "view_del n (p # ps) = (if strcaseeq (fst p) n then ps else p # view_del n ps)"

lemma view_get_set: "view_get (view_set n d ps) m = (if strcaseeq m n then Some (cstr d) else view_get ps m)"
proof (induction ps)
  case (Cons p ps)
  have "strcaseeq (fst p) n \<Longrightarrow> strcaseeq (fst p) m = strcaseeq m n" by (metis strcaseeq_sym strcaseeq_trans)
  moreover have "strcaseeq (fst p) m \<Longrightarrow> strcaseeq m n \<Longrightarrow> strcaseeq (fst p) n" by (rule strcaseeq_trans)
  ultimately show ?case using Cons by auto
qed (simp add: strcaseeq_sym [of n m])

lemma geti_view:
  assumes "\<forall>a \<in> set as. vheap m a \<noteq> None" "distinct as"
  shows "(geti_loop (vheap m) n as 0 = Ok None \<and> (\<forall>d. view_set n d (map (\<lambda>a. var_pair (the (vheap m a))) as) =
       map (\<lambda>a. var_pair (the (vheap m a))) as @ [(n, Some d)]) \<and> view_get (map (\<lambda>a. var_pair (the (vheap m a))) as) n = None) \<or>
     (\<exists>a v. geti_loop (vheap m) n as 0 = Ok (Some a) \<and> a \<in> set as \<and> vheap m a = Some v \<and> strcaseeq (sname v) n \<and>
       view_get (map (\<lambda>a. var_pair (the (vheap m a))) as) n = map_option cstr (vdata v) \<and>
       view_del n (map (\<lambda>a. var_pair (the (vheap m a))) as) = map (\<lambda>a. var_pair (the (vheap m a))) (remove1 a as) \<and>
       (\<forall>v' d. sname v' = sname v \<longrightarrow> vdata v' = Some d \<longrightarrow>
          map (\<lambda>b. var_pair (the (((vheap m)(a \<mapsto> v')) b))) as = view_set n d (map (\<lambda>a. var_pair (the (vheap m a))) as)))"
  using assms
proof (induction as)
  case (Cons a as)
  then obtain v where v: "vheap m a = Some v" by auto
  show ?case
  proof (cases "strcaseeq (sname v) n")
    case True
    have "map (\<lambda>b. var_pair (the (((vheap m)(a \<mapsto> v')) b))) as = map (\<lambda>a. var_pair (the (vheap m a))) as" for v'
      using Cons.prems(2) by (intro map_cong) auto
    with True v show ?thesis by (auto simp: var_pair_def)
  next
    case False
    from Cons show ?thesis
      by (elim meta_impE) (use False v in \<open>auto simp: var_pair_def\<close>)
  qed
qed simp

lemma session_ok_get:
  assumes "session_ok ss"
  obtains (absent) "vars_get (s_vars ss) (s_mem ss) n = Ok None"
      "\<And>d. view_set n d (session_view ss) = session_view ss @ [(n, Some d)]" "view_get (session_view ss) n = None"
  | (present) a v where "vars_get (s_vars ss) (s_mem ss) n = Ok (Some a)" "a \<in> set (vlist (s_vars ss))" "vheap (s_mem ss) a = Some v"
      "strcaseeq (sname v) n" "view_get (session_view ss) n = map_option cstr (vdata v)"
      "view_del n (session_view ss) = map (\<lambda>a. var_pair (the (vheap (s_mem ss) a))) (remove1 a (vlist (s_vars ss)))"
      "\<And>v' d. sname v' = sname v \<Longrightarrow> vdata v' = Some d \<Longrightarrow>
         session_view (ss\<lparr>s_mem := var_put a v' (s_mem ss)\<rparr>) = view_set n d (session_view ss)"
proof -
  have "\<forall>a \<in> set (vlist (s_vars ss)). vheap (s_mem ss) a \<noteq> None" "distinct (vlist (s_vars ss))"
    using assms by (auto simp: session_ok_def vars_ok_def)
  from geti_view [OF this, of n] that show thesis
    unfolding vars_get_def vars_geti_def session_view_def vars_view_def var_put_def by auto
qed

lemma session_get_view: "session_ok ss \<Longrightarrow> session_get ss n = Ok (view_get (session_view ss) n)"
  by (erule session_ok_get [of ss n]) (auto simp: session_get_def var_get_value_def)

lemma session_set_view:
  assumes "libu_ok L" "libu_mem L" "session_ok ss" "n \<noteq> []"
  shows "\<exists>ss'. session_set L n v ss = Done ss' \<and> session_ok ss' \<and> session_view ss' = view_set n (v @ [NUL]) (session_view ss)"
  using assms(3)
proof (cases rule: session_ok_get [of ss n])
  case absent
  let ?x = "var_of n (v @ [NUL])"
  have ok: "vars_ok (s_vars ss) (s_mem ss)" using assms(3) by (simp add: session_ok_def)
  note a = vars_ok_alloc [OF ok var_of_ok(1), of n "v @ [NUL]"]
  show ?thesis
    using absent a(3,4) assms(3,4)
    by (simp add: session_set_def var_create_ok [OF assms(1,2)] add_created_Ok [OF assms(1,2)] session_ok_def session_view_def var_alloc_def)
next
  case (present a x)
  from var_set_bin_ok [OF assms(1,2), of "1 + length v" "v @ [NUL]" x] obtain x' where
    x': "var_set_value L v x = Done x'" "sname x' = sname x" "vdata x' = Some (v @ [NUL])" "var_ok x \<longrightarrow> var_ok x'"
    by (auto simp: var_set_value_def)
  let ?ss = "ss\<lparr>s_mem := var_put a x' (s_mem ss)\<rparr>"
  have "session_ok ?ss"
    using assms(3) present(2,3) x'(4) by (auto simp: session_ok_def vars_ok_def vmem_ok_def var_put_def)
  with present(1,3,7) x' assms(4) show ?thesis by (auto simp: session_set_def)
qed

lemma drop_var_view:
  assumes "libu_ok L" "session_ok ss" "a \<in> set (vlist (s_vars ss))"
  shows "\<exists>ss'. drop_var L a ss = Done ss' \<and> session_ok ss' \<and> s_filename ss' = s_filename ss \<and> vlist (s_vars ss') = remove1 a (vlist (s_vars ss)) \<and>
     session_view ss' = map (\<lambda>a. var_pair (the (vheap (s_mem ss) a))) (remove1 a (vlist (s_vars ss)))"
proof -
  have d: "u_list_del L (vlist (s_vars ss)) a = Some (remove1 a (vlist (s_vars ss)))" using libu_ok_list_del [OF assms(1)] assms(3) by simp
  have h: "vheap (s_mem ss) a \<noteq> None" "distinct (vlist (s_vars ss))" using assms(2,3) by (auto simp: session_ok_def vars_ok_def)
  have "map (\<lambda>b. var_pair (the (((vheap (s_mem ss))(a := None)) b))) (remove1 a (vlist (s_vars ss))) =
     map (\<lambda>a. var_pair (the (vheap (s_mem ss) a))) (remove1 a (vlist (s_vars ss)))"
    using h(2) by (intro map_cong) auto
  then show ?thesis using d h assms(2)
    by (auto simp: drop_var_def vars_del_def var_free_def session_ok_def session_view_def vars_view_def vars_ok_def vmem_ok_def)
qed

lemma session_del_view:
  assumes "libu_ok L" "session_ok ss" "view_get (session_view ss) n \<noteq> None"
  shows "\<exists>ss'. session_del L n ss = Done ss' \<and> session_ok ss' \<and> session_view ss' = view_del n (session_view ss)"
  using assms(2)
proof (cases rule: session_ok_get [of ss n])
  case (present a v)
  with drop_var_view [OF assms(1,2), of a] show ?thesis by (auto simp: session_del_def)
qed (use assms(3) in simp)

lemma session_clean_view:
  assumes "libu_ok L"
  shows "session_ok ss \<Longrightarrow> \<exists>ss'. session_clean L ss = Some (Done ss') \<and> session_ok ss' \<and> s_filename ss' = s_filename ss \<and> vlist (s_vars ss') = []"
proof (induction "length (vlist (s_vars ss))" arbitrary: ss)
  case 0
  then show ?case by (subst session_clean.simps) (simp add: vars_getn_def)
next
  case (Suc n)
  then obtain a as where as: "vlist (s_vars ss) = a # as" by (cases "vlist (s_vars ss)") auto
  from drop_var_view [OF assms Suc.prems, of a] as obtain ss1 where
    ss1: "drop_var L a ss = Done ss1" "session_ok ss1" "vlist (s_vars ss1) = as" "s_filename ss1 = s_filename ss" by auto
  from Suc.hyps as ss1 obtain ss' where "session_clean L ss1 = Some (Done ss')" "session_ok ss'" "s_filename ss' = s_filename ss1"
    "vlist (s_vars ss') = []" by fastforce
  with as ss1 show ?case by (subst session_clean.simps) (auto simp: vars_getn_def)
qed

interpretation session_store: named_store session_get "session_set L"
  "\<lambda>k ss. libu_ok L \<and> libu_mem L \<and> session_ok ss" "\<lambda>n v. n \<noteq> [] \<and> NUL \<notin> set v" for L
proof
  fix k :: nat and ss :: session and n v :: string
  assume a: "libu_ok L \<and> libu_mem L \<and> session_ok ss" "n \<noteq> [] \<and> NUL \<notin> set v"
  then obtain ss' where ss': "session_set L n v ss = Done ss'" "session_ok ss'" "session_view ss' = view_set n (v @ [NUL]) (session_view ss)"
    using session_set_view by blast
  have "cstr (v @ [NUL]) = v" using a(2) by simp
  with ss' a show "\<exists>s'. session_set L n v ss = Done s' \<and> (libu_ok L \<and> libu_mem L \<and> session_ok s') \<and>
      (\<forall>m. session_get s' m = (if strcaseeq m n then Ok (Some v) else session_get ss m))"
    by (auto simp: session_get_view view_get_set)
qed

end
