(* ===== verification/Atoms.thy ===== *)
theory Atoms
  imports Libu Counted_List
begin

text \<open>
  \<^verbatim>\<open>src/kloned/atom.c\<close> and \<^verbatim>\<open>klone/atom.h\<close>: the list of atoms (named data blocks) in
  which the server keeps in-memory sessions.  A node is the address of an \<^verbatim>\<open>atom_t\<close> with
  its contents, which never change once the atom is created; \<^verbatim>\<open>LIST_REMOVE\<close> of a node that
  is not linked is a \<open>Fault\<close>.
\<close>

section \<open>Definitions\<close>

record atom =
  a_id :: string
  a_data :: "char list"
  a_size :: nat
  a_arg :: nat

type_synonym atom_node = "addr \<times> atom"

record atoms =
  a_list :: "atom_node list"
  a_total :: nat
  a_count :: nat

definition SIZEOF_ATOM :: nat where
  "SIZEOF_ATOM = 48"

definition atom_create :: "libu \<Rightarrow> string \<Rightarrow> char list \<Rightarrow> nat \<Rightarrow> nat \<Rightarrow> atom option" where
  "atom_create L i data sz arg =
     (if \<not> u_malloc L SIZEOF_ATOM then None
      else case u_strdup L i of
        None \<Rightarrow> None
      | Some i' \<Rightarrow>
          (case u_memdup L data sz of
             None \<Rightarrow> None
           | Some d \<Rightarrow> Some \<lparr>a_id = i', a_data = d, a_size = sz, a_arg = arg\<rparr>))"

definition atoms_size :: "atoms \<Rightarrow> nat" where
  "atoms_size as = a_total as"

definition atoms_count :: "atoms \<Rightarrow> nat" where
  "atoms_count as = a_count as"

text \<open>The \<^verbatim>\<open>LIST_FOREACH\<close> loops of \<^verbatim>\<open>atoms_getn\<close> and \<^verbatim>\<open>atoms_get\<close>.\<close>

fun getn_loop :: "atom_node list \<Rightarrow> nat \<Rightarrow> nat \<Rightarrow> atom_node option" where
  "getn_loop [] i n = None"
| "getn_loop (a # as) i n = (if i = n then Some a else getn_loop as (Suc i) n)"

definition atoms_getn :: "atoms \<Rightarrow> nat \<Rightarrow> atom_node option" where
  "atoms_getn as n = (if n \<ge> a_count as then None else getn_loop (a_list as) 0 n)"

fun get_loop :: "atom_node list \<Rightarrow> string \<Rightarrow> atom_node option" where
  "get_loop [] i = None"
| "get_loop (a # as) i = (if i = a_id (snd a) then Some a else get_loop as i)"

definition atoms_get :: "atoms \<Rightarrow> string \<Rightarrow> atom_node option" where
  "atoms_get as i = get_loop (a_list as) i"

definition atoms_add :: "atom_node \<Rightarrow> atoms \<Rightarrow> atoms" where
  "atoms_add a as =
     as\<lparr>a_list := a # a_list as,
        a_count := size_add (a_count as) 1,
        a_total := size_add (a_total as) (a_size (snd a))\<rparr>"

definition atoms_remove :: "atom_node \<Rightarrow> atoms \<Rightarrow> atoms outcome" where
  "atoms_remove a as =
     (if a \<in> set (a_list as)
      then Ok (as\<lparr>a_list := remove1 a (a_list as),
                  a_count := size_sub (a_count as) 1,
                  a_total := size_sub (a_total as) (a_size (snd a))\<rparr>)
      else Fault)"

definition atoms_create :: "libu \<Rightarrow> atoms option" where
  "atoms_create L =
     (if u_malloc L 24 then Some \<lparr>a_list = [], a_total = 0, a_count = 0\<rparr> else None)"

lemma size_sub_one_less: "n \<noteq> 0 \<Longrightarrow> size_sub n (Suc 0) < n"
proof -
  assume n: "n \<noteq> 0"
  have "n + (SIZE_LIMIT - Suc 0) = (n - 1) + SIZE_LIMIT"
    using n SIZE_LIMIT_gt [of 1] by linarith
  then have "size_sub n (Suc 0) = (n - 1) mod SIZE_LIMIT" by (simp add: size_sub_def)
  then show ?thesis using n mod_less_eq_dividend [of "n - 1" SIZE_LIMIT] by linarith
qed

lemma atoms_remove_count: "atoms_remove a as = Ok as' \<Longrightarrow> a_count as' = size_sub (a_count as) (Suc 0)"
  by (auto simp: atoms_remove_def split: if_splits)

text \<open>\<^verbatim>\<open>while(atoms_count(as))\<close>: take the first atom and unlink it.\<close>

function atoms_free :: "atoms \<Rightarrow> atoms outcome" where
  "atoms_free as =
     (if atoms_count as = 0 then Ok as
      else case atoms_getn as 0 of
        None \<Rightarrow> Fail
      | Some a \<Rightarrow>
          (case atoms_remove a as of
             Ok as' \<Rightarrow> atoms_free as'
           | Fail \<Rightarrow> Fail
           | Fault \<Rightarrow> Fault))"
  by pat_completeness auto
termination
  by (relation "measure a_count")
     (auto simp: atoms_count_def atoms_remove_count size_sub_one_less)

declare atoms_free.simps [simp del]

section \<open>Invariant\<close>

definition node_size :: "atom_node \<Rightarrow> nat" where
  "node_size a = a_size (snd a)"

definition total_size :: "atom_node list \<Rightarrow> nat" where
  "total_size as = sum_list (map node_size as)"

definition atoms_ok :: "atoms \<Rightarrow> bool" where
  "atoms_ok as \<longleftrightarrow>
     a_count as = length (a_list as) \<and> a_total as = total_size (a_list as) \<and>
     distinct (map fst (a_list as)) \<and>
     length (a_list as) < SIZE_LIMIT \<and> total_size (a_list as) < SIZE_LIMIT"

definition atoms_room :: "atom_node \<Rightarrow> atoms \<Rightarrow> bool" where
  "atoms_room a as \<longleftrightarrow>
     fst a \<notin> fst ` set (a_list as) \<and> Suc (length (a_list as)) < SIZE_LIMIT \<and>
     total_size (a_list as) + node_size a < SIZE_LIMIT"

lemma total_size_simps [simp]:
  "total_size [] = 0" "total_size (a # as) = node_size a + total_size as"
  by (simp_all add: total_size_def)

lemma total_size_remove1: "a \<in> set as \<Longrightarrow> total_size (remove1 a as) = total_size as - node_size a"
  by (simp add: total_size_def sum_list_map_remove1)

lemma node_size_le_total: "a \<in> set as \<Longrightarrow> node_size a \<le> total_size as"
  by (simp add: total_size_def member_le_sum_list)

lemma distinct_fst_remove1: "distinct (map fst as) \<Longrightarrow> distinct (map fst (remove1 a as))"
proof (induction as)
  case (Cons b as)
  have "fst b \<notin> fst ` set (remove1 a as)"
    using Cons.prems set_remove1_subset [of a as] by auto
  with Cons show ?case by simp
qed simp

lemma atoms_add_ok: "atoms_ok as \<Longrightarrow> atoms_room a as \<Longrightarrow> atoms_ok (atoms_add a as)"
  by (auto simp: atoms_ok_def atoms_room_def atoms_add_def node_size_def add.commute)

lemma atoms_remove_eq:
  assumes "atoms_ok as" "a \<in> set (a_list as)"
  shows "\<exists>as'. atoms_remove a as = Ok as' \<and> a_list as' = remove1 a (a_list as) \<and> atoms_ok as'"
proof -
  let ?as' = "as\<lparr>a_list := remove1 a (a_list as), a_count := a_count as - 1,
                 a_total := a_total as - node_size a\<rparr>"
  have "0 < length (a_list as)" using assms(2) by (cases "a_list as") auto
  then have one: "Suc 0 \<le> length (a_list as)" by linarith
  have "size_sub (a_count as) 1 = a_count as - 1"
    "size_sub (a_total as) (node_size a) = a_total as - node_size a"
    using assms(1) node_size_le_total [OF assms(2)] size_sub_le [OF one]
    by (simp_all add: atoms_ok_def)
  then have "atoms_remove a as = Ok ?as'"
    using assms(2) by (simp add: atoms_remove_def node_size_def)
  moreover have "atoms_ok ?as'"
    using assms total_size_remove1 [OF assms(2)]
    by (simp add: atoms_ok_def length_remove1 distinct_fst_remove1 less_imp_diff_less)
  ultimately show ?thesis by simp
qed

text \<open>The atom list keeps the counted-list contract.\<close>

interpretation atoms_list: counted_list a_list atoms_count atoms_add atoms_remove atoms_room atoms_ok
proof unfold_locales
  show "atoms_ok s \<Longrightarrow> atoms_count s = length (a_list s)" for s
    by (simp add: atoms_ok_def atoms_count_def)
  show "mset (a_list (atoms_add n s)) = add_mset n (mset (a_list s))" for n s
    by (simp add: atoms_add_def)
  show "atoms_ok s \<Longrightarrow> atoms_room n s \<Longrightarrow> atoms_ok (atoms_add n s)" for n s
    by (rule atoms_add_ok)
  show "\<exists>s'. atoms_remove n s = Ok s' \<and> mset (a_list s') = mset (a_list s) - {#n#} \<and> atoms_ok s'"
    if "atoms_ok s" "n \<in> set (a_list s)" for n s
    using atoms_remove_eq [OF that] that(2) by auto
qed

lemma atoms_create_ok: "atoms_create L = Some as \<Longrightarrow> atoms_ok as \<and> a_list as = []"
  by (auto simp: atoms_create_def atoms_ok_def split: if_splits)

lemma getn_loop_eq: "i \<le> n \<Longrightarrow> getn_loop as i n = (if n - i < length as then Some (as ! (n - i)) else None)"
  by (induction as arbitrary: i) (auto simp: nth_Cons' Suc_diff_le)

lemma atoms_getn_eq: "atoms_ok as \<Longrightarrow> atoms_getn as n = (if n < length (a_list as) then Some (a_list as ! n) else None)"
  by (simp add: atoms_getn_def atoms_ok_def getn_loop_eq)

lemma get_loop_Some: "get_loop as i = Some a \<Longrightarrow> a \<in> set as \<and> a_id (snd a) = i"
  by (induction as) (auto split: if_splits)

lemma get_loop_None: "get_loop as i = None \<longleftrightarrow> (\<forall>a \<in> set as. a_id (snd a) \<noteq> i)"
  by (induction as) auto

lemma atoms_free_empty:
  "atoms_ok as \<Longrightarrow> \<exists>as'. atoms_free as = Ok as' \<and> a_list as' = [] \<and> a_count as' = 0 \<and> a_total as' = 0"
proof (induction as rule: atoms_free.induct)
  case (1 as)
  show ?case
  proof (cases "a_list as")
    case Nil
    with 1 show ?thesis by (subst atoms_free.simps) (simp add: atoms_ok_def atoms_count_def)
  next
    case (Cons a rest)
    with 1(2) have getn: "atoms_getn as 0 = Some a" by (simp add: atoms_getn_eq)
    from Cons have "a \<in> set (a_list as)" by simp
    from atoms_remove_eq [OF 1(2) this] obtain as' where as': "atoms_remove a as = Ok as'" "atoms_ok as'"
      by blast
    have "atoms_count as \<noteq> 0" using 1(2) Cons by (simp add: atoms_ok_def atoms_count_def)
    with getn as' 1(1) show ?thesis by (subst atoms_free.simps) simp
  qed
qed

end
