(* ===== verification/Ses_Mem.thy ===== *)
theory Ses_Mem
  imports Atoms
begin

text \<open>
  \<^verbatim>\<open>src/libpage/ses_mem.c\<close>: the in-memory session store.  The store is the part of
  \<^verbatim>\<open>session_opt_t\<close> this file uses (the atom list and its two limits), the address the next
  \<^verbatim>\<open>u_malloc\<close> of an atom returns, and the messages sent so far to the parent.  A child
  process (\<^verbatim>\<open>ctx->pipc\<close> set) works on its own copy of the list and tells the parent with
  parent procedure calls; the parent's handlers are \<open>session_cmd_*\<close>.
\<close>

section \<open>Definitions\<close>

definition SESSION_FILENAME_MAX_LENGTH :: nat where
  "SESSION_FILENAME_MAX_LENGTH = 256"

definition SIZEOF_ESM :: nat where
  "SIZEOF_ESM = 280"

record enc_ses_mem =
  e_mtime :: nat
  e_filename :: string
  e_size :: nat
  e_data :: "char list"

datatype mses_msg =
    MSES_SAVE enc_ses_mem
  | MSES_GET string
  | MSES_DELOLD
  | MSES_REMOVE string

datatype mses_reply = RESPONSE_OK enc_ses_mem | RESPONSE_ERROR

record mses =
  so_atoms :: atoms
  max_count :: nat
  mem_limit :: nat
  next_addr :: addr
  sent :: "mses_msg list"

text \<open>
  The process context: whether it is a child, whether a \<^verbatim>\<open>ppc_write\<close> of a message is
  accepted, and the clock that \<^verbatim>\<open>time(0)\<close> reads.
\<close>

record mses_env =
  pipc :: bool
  wr_ok :: "mses_msg \<Rightarrow> bool"
  time0 :: nat

definition mses_send :: "mses_env \<Rightarrow> mses_msg \<Rightarrow> mses \<Rightarrow> mses step" where
  "mses_send E m s = (if wr_ok E m then Done (s\<lparr>sent := sent s @ [m]\<rparr>) else Failed s)"

text \<open>The \<^verbatim>\<open>for(i = 1; i < count; ++i)\<close> scan: on equal times the later node wins.\<close>

fun oldest_loop :: "atoms \<Rightarrow> nat list \<Rightarrow> atom_node \<Rightarrow> atom_node option" where
  "oldest_loop as [] oldest = Some oldest"
| "oldest_loop as (i # is) oldest =
     (case atoms_getn as i of
        None \<Rightarrow> None
      | Some a \<Rightarrow> oldest_loop as is (if a_arg (snd a) \<le> a_arg (snd oldest) then a else oldest))"

definition so_atom_oldest :: "atoms \<Rightarrow> atom_node option" where
  "so_atom_oldest as =
     (let count = atoms_count as in
      if count = 0 then None
      else case atoms_getn as 0 of
        None \<Rightarrow> None
      | Some oldest \<Rightarrow> oldest_loop as [1..<count] oldest)"

text \<open>Unlinking a node of the store's list; a node that is not linked has no defined effect.\<close>

definition so_unlink :: "atom_node \<Rightarrow> mses \<Rightarrow> mses step" where
  "so_unlink a s =
     (case atoms_remove a (so_atoms s) of
        Ok as \<Rightarrow> Done (s\<lparr>so_atoms := as\<rparr>)
      | Fail \<Rightarrow> Failed s
      | Fault \<Rightarrow> Crash)"

definition so_atom_delete_oldest :: "mses \<Rightarrow> mses step" where
  "so_atom_delete_oldest s =
     (case so_atom_oldest (so_atoms s) of
        None \<Rightarrow> Failed s
      | Some oldest \<Rightarrow> so_unlink oldest s)"

definition session_delete_oldest :: "mses_env \<Rightarrow> mses \<Rightarrow> mses step" where
  "session_delete_oldest E s =
     (if pipc E then and_then (mses_send E MSES_DELOLD s) so_atom_delete_oldest
      else so_atom_delete_oldest s)"

definition so_atom_remove :: "string \<Rightarrow> mses \<Rightarrow> mses step" where
  "so_atom_remove i s =
     (case atoms_get (so_atoms s) i of
        None \<Rightarrow> Done s
      | Some a \<Rightarrow> so_unlink a s)"

definition old_size :: "atom_node option \<Rightarrow> nat" where
  "old_size old = (case old of None \<Rightarrow> 0 | Some a \<Rightarrow> a_size (snd a))"

definition new_size :: "mses \<Rightarrow> nat \<Rightarrow> atom_node option \<Rightarrow> nat" where
  "new_size s sz old = size_sub (size_add (atoms_size (so_atoms s)) sz) (old_size old)"

text \<open>Facts the termination of the eviction loop needs.\<close>

lemma so_unlink_count:
  "so_unlink a s = Done s' \<Longrightarrow> a_count (so_atoms s') = size_sub (a_count (so_atoms s)) (Suc 0)"
  by (auto simp: so_unlink_def atoms_remove_count split: outcome.splits)

lemma delete_oldest_less:
  assumes "session_delete_oldest E s = Done s'" "atoms_count (so_atoms s) \<noteq> 0"
  shows "a_count (so_atoms s') < a_count (so_atoms s)"
proof -
  have local: "so_atom_delete_oldest t = Done s' \<Longrightarrow> a_count (so_atoms s') = size_sub (a_count (so_atoms t)) (Suc 0)" for t
    by (auto simp: so_atom_delete_oldest_def so_unlink_count split: option.splits)
  have "a_count (so_atoms s') = size_sub (a_count (so_atoms s)) (Suc 0)"
    using assms(1) local by (auto simp: session_delete_oldest_def mses_send_def split: if_splits)
  then show ?thesis using assms(2) size_sub_one_less by (simp add: atoms_count_def)
qed

function evict_loop :: "mses_env \<Rightarrow> nat \<Rightarrow> atom_node option \<Rightarrow> mses \<Rightarrow> mses step" where
  "evict_loop E sz old s =
     (if atoms_count (so_atoms s) \<noteq> 0 \<and> mem_limit s < new_size s sz old
      then (case session_delete_oldest E s of
              Done s' \<Rightarrow> evict_loop E sz old s'
            | Failed s' \<Rightarrow> Failed s'
            | Crash \<Rightarrow> Crash)
      else Done s)"
  by pat_completeness auto
termination
  by (relation "measure (\<lambda>(E, sz, old, s). a_count (so_atoms s))") (auto dest: delete_oldest_less)

declare evict_loop.simps [simp del]

definition evict_count :: "mses_env \<Rightarrow> atom_node option \<Rightarrow> mses \<Rightarrow> mses step" where
  "evict_count E old s =
     (if max_count s \<noteq> 0 \<and>
         max_count s \<le> size_sub (atoms_count (so_atoms s)) (if old = None then 0 else 1)
      then session_delete_oldest E s else Done s)"

definition evict_size :: "mses_env \<Rightarrow> nat \<Rightarrow> atom_node option \<Rightarrow> mses \<Rightarrow> mses step" where
  "evict_size E sz old s =
     (if mem_limit s \<noteq> 0
      then (if mem_limit s < sz then Failed s else evict_loop E sz old s)
      else Done s)"

definition so_insert :: "libu \<Rightarrow> string \<Rightarrow> char list \<Rightarrow> nat \<Rightarrow> nat \<Rightarrow> mses \<Rightarrow> mses step" where
  "so_insert L i buf sz arg s =
     (case atom_create L i buf sz arg of
        None \<Rightarrow> Failed s
      | Some a \<Rightarrow>
          Done (s\<lparr>so_atoms := atoms_add (next_addr s, a) (so_atoms s), next_addr := Suc (next_addr s)\<rparr>))"

definition so_drop_old :: "atom_node option \<Rightarrow> mses \<Rightarrow> mses step" where
  "so_drop_old old s = (case old of None \<Rightarrow> Done s | Some a \<Rightarrow> so_unlink a s)"

definition so_atom_add :: "libu \<Rightarrow> mses_env \<Rightarrow> string \<Rightarrow> char list \<Rightarrow> nat \<Rightarrow> nat \<Rightarrow> mses \<Rightarrow> mses step" where
  "so_atom_add L E i buf sz arg s =
     (let old = atoms_get (so_atoms s) i in
      and_then (evict_count E old s) (\<lambda>s.
      and_then (evict_size E sz old s) (\<lambda>s.
      and_then (so_insert L i buf sz arg s) (\<lambda>s.
        so_drop_old old s))))"

text \<open>The parent's handlers.\<close>

definition session_cmd_remove :: "string \<Rightarrow> mses \<Rightarrow> mses step" where
  "session_cmd_remove i s = so_atom_remove i s"

definition session_cmd_delold :: "mses \<Rightarrow> mses step" where
  "session_cmd_delold s = so_atom_delete_oldest s"

definition session_cmd_save :: "libu \<Rightarrow> mses_env \<Rightarrow> enc_ses_mem \<Rightarrow> mses \<Rightarrow> mses step" where
  "session_cmd_save L E esm s =
     so_atom_add L E (e_filename esm) (e_data esm) (e_size esm) (e_mtime esm) s"

text \<open>
  \<^verbatim>\<open>session_cmd_get\<close> only reads the store; its result is the reply.  A reply larger than
  the 4096-byte stack buffer is built in an allocated one.
\<close>

definition session_cmd_get :: "libu \<Rightarrow> string \<Rightarrow> mses \<Rightarrow> mses_reply" where
  "session_cmd_get L i s =
     (if SESSION_FILENAME_MAX_LENGTH < length i then RESPONSE_ERROR
      else case atoms_get (so_atoms s) i of
        None \<Rightarrow> RESPONSE_ERROR
      | Some (_, a) \<Rightarrow>
          (if 4096 < SIZEOF_ESM + a_size a \<and> \<not> u_malloc L (1 + (SIZEOF_ESM + a_size a))
           then RESPONSE_ERROR
           else RESPONSE_OK
             \<lparr>e_mtime = a_arg a,
              e_filename = fst (u_strlcpy L i SESSION_FILENAME_MAX_LENGTH),
              e_size = a_size a,
              e_data = take (a_size a) (a_data a)\<rparr>))"

definition mses_handle :: "libu \<Rightarrow> mses_env \<Rightarrow> mses_msg \<Rightarrow> mses \<Rightarrow> mses step" where
  "mses_handle L E m s =
     (case m of
        MSES_SAVE esm \<Rightarrow> session_cmd_save L E esm s
      | MSES_GET i \<Rightarrow> Done s
      | MSES_DELOLD \<Rightarrow> session_cmd_delold s
      | MSES_REMOVE i \<Rightarrow> session_cmd_remove i s)"

text \<open>\<^verbatim>\<open>server_process_ppc\<close> over a run of messages: a handler's error does not stop the next.\<close>

fun mses_deliver :: "libu \<Rightarrow> mses_env \<Rightarrow> mses_msg list \<Rightarrow> mses \<Rightarrow> mses step" where
  "mses_deliver L E [] s = Done s"
| "mses_deliver L E (m # ms) s =
     (case mses_handle L E m s of
        Done s' \<Rightarrow> mses_deliver L E ms s'
      | Failed s' \<Rightarrow> mses_deliver L E ms s'
      | Crash \<Rightarrow> Crash)"

definition session_mem_add :: "libu \<Rightarrow> mses_env \<Rightarrow> string \<Rightarrow> char list \<Rightarrow> nat \<Rightarrow> nat \<Rightarrow> mses \<Rightarrow> mses step" where
  "session_mem_add L E fname buf sz mtime s =
     (if pipc E
      then (if \<not> u_malloc L (size_add sz SIZEOF_ESM) then Failed s
            else if SESSION_FILENAME_MAX_LENGTH < length fname then Failed s
            else and_then
              (mses_send E (MSES_SAVE
                 \<lparr>e_mtime = time0 E,
                  e_filename = fst (u_strlcpy L fname SESSION_FILENAME_MAX_LENGTH),
                  e_size = sz, e_data = take sz buf\<rparr>) s)
              (so_atom_add L E fname buf sz mtime))
      else so_atom_add L E fname buf sz mtime s)"

definition session_mem_remove :: "mses_env \<Rightarrow> string \<Rightarrow> mses \<Rightarrow> mses step" where
  "session_mem_remove E fname s =
     (if pipc E then and_then (mses_send E (MSES_REMOVE fname) s) (so_atom_remove fname)
      else so_atom_remove fname s)"

text \<open>
  \<^verbatim>\<open>session_mem_module_init\<close>: the limits come from the \<^verbatim>\<open>max_count\<close> and
  \<^verbatim>\<open>limit\<close> values of the \<^verbatim>\<open>memory\<close> section of the configuration; the handlers are
  registered as in \<open>mses_handle\<close>.
\<close>

definition session_mem_module_init :: "libu \<Rightarrow> string option \<Rightarrow> string option \<Rightarrow> addr \<Rightarrow> mses option" where
  "session_mem_module_init L cfg_count cfg_limit a0 =
     (case atoms_create L of
        None \<Rightarrow> None
      | Some as \<Rightarrow> Some
          \<lparr>so_atoms = as,
           max_count = (case cfg_count of None \<Rightarrow> 0 | Some v \<Rightarrow> size_of_int (c_atoi v)),
           mem_limit = (case cfg_limit of None \<Rightarrow> 0 | Some v \<Rightarrow> size_of_int (c_atoi v)),
           next_addr = a0, sent = []\<rparr>)"

section \<open>Invariant\<close>

abbreviation nodes :: "mses \<Rightarrow> atom_node list" where
  "nodes s \<equiv> a_list (so_atoms s)"

definition store_ok :: "mses \<Rightarrow> bool" where
  "store_ok s \<longleftrightarrow> atoms_ok (so_atoms s) \<and> (\<forall>a \<in> set (nodes s). fst a < next_addr s) \<and>
     distinct (map (a_id \<circ> snd) (nodes s))"

definition within_limits :: "mses \<Rightarrow> bool" where
  "within_limits s \<longleftrightarrow>
     (max_count s \<noteq> 0 \<longrightarrow> length (nodes s) \<le> max_count s) \<and>
     (mem_limit s \<noteq> 0 \<longrightarrow> total_size (nodes s) \<le> mem_limit s)"

definition can_send :: "mses_env \<Rightarrow> bool" where
  "can_send E \<longleftrightarrow> (pipc E \<longrightarrow> (\<forall>m. wr_ok E m))"

definition store_room :: "nat \<Rightarrow> mses \<Rightarrow> bool" where
  "store_room sz s \<longleftrightarrow> Suc (length (nodes s)) < SIZE_LIMIT \<and> total_size (nodes s) + sz < SIZE_LIMIT"

text \<open>What an eviction keeps.\<close>

definition shrinks :: "mses \<Rightarrow> mses \<Rightarrow> bool" where
  "shrinks s s' \<longleftrightarrow> store_ok s' \<and> max_count s' = max_count s \<and> mem_limit s' = mem_limit s \<and>
     next_addr s' = next_addr s \<and> set (nodes s') \<subseteq> set (nodes s) \<and>
     length (nodes s') \<le> length (nodes s) \<and> total_size (nodes s') \<le> total_size (nodes s)"

lemma shrinks_refl: "store_ok s \<Longrightarrow> shrinks s s"
  by (simp add: shrinks_def)

lemma shrinks_trans: "shrinks s t \<Longrightarrow> shrinks t u \<Longrightarrow> shrinks s u"
  by (auto simp: shrinks_def)

lemma distinct_map_remove1: "distinct (map f as) \<Longrightarrow> distinct (map f (remove1 a as))"
proof (induction as)
  case (Cons b as)
  have "f b \<notin> f ` set (remove1 a as)"
    using Cons.prems set_remove1_subset [of a as] by auto
  with Cons show ?case by simp
qed simp

lemma so_unlink_ok:
  assumes "store_ok s" "a \<in> set (nodes s)"
  shows "\<exists>s'. so_unlink a s = Done s' \<and> nodes s' = remove1 a (nodes s) \<and> shrinks s s' \<and> sent s' = sent s"
proof -
  from assms(1) have "atoms_ok (so_atoms s)" by (simp add: store_ok_def)
  from atoms_remove_eq [OF this assms(2)] obtain as' where as': "atoms_remove a (so_atoms s) = Ok as'"
      "a_list as' = remove1 a (nodes s)" "atoms_ok as'" by blast
  have sub: "set (remove1 a (nodes s)) \<subseteq> set (nodes s)" by (rule set_remove1_subset)
  with as' assms have "shrinks s (s\<lparr>so_atoms := as'\<rparr>)"
    by (auto simp: shrinks_def store_ok_def distinct_map_remove1 total_size_remove1 length_remove1)
  with as' show ?thesis by (simp add: so_unlink_def)
qed

lemma oldest_loop_min:
  assumes "atoms_ok as" "\<forall>i \<in> set is. i < length (a_list as)"
  shows "\<exists>a. oldest_loop as is old = Some a \<and> (a = old \<or> a \<in> set (a_list as)) \<and>
    a_arg (snd a) \<le> a_arg (snd old) \<and> (\<forall>i \<in> set is. a_arg (snd a) \<le> a_arg (snd (a_list as ! i)))"
  using assms(2)
proof (induction "is" arbitrary: old)
  case (Cons i "is")
  let ?b = "a_list as ! i"
  let ?o = "if a_arg (snd ?b) \<le> a_arg (snd old) then ?b else old"
  from Cons.prems have i: "i < length (a_list as)" "\<forall>i \<in> set is. i < length (a_list as)" by auto
  from Cons.IH [OF i(2), of ?o] obtain a where a: "oldest_loop as is ?o = Some a"
    "a = ?o \<or> a \<in> set (a_list as)" "a_arg (snd a) \<le> a_arg (snd ?o)"
    "\<forall>i \<in> set is. a_arg (snd a) \<le> a_arg (snd (a_list as ! i))" by blast
  have "?b \<in> set (a_list as)" using i(1) by simp
  with a(2) have "a = old \<or> a \<in> set (a_list as)" by (auto split: if_splits)
  moreover have "a_arg (snd a) \<le> a_arg (snd old)" "a_arg (snd a) \<le> a_arg (snd ?b)"
    using a(3) by (auto split: if_splits)
  moreover have "oldest_loop as (i # is) old = Some a"
    using a(1) i(1) by (simp add: atoms_getn_eq [OF assms(1)])
  ultimately show ?case using a(4) by auto
qed simp

lemma so_atom_oldest_min:
  assumes "atoms_ok as" "a_list as \<noteq> []"
  shows "\<exists>a. so_atom_oldest as = Some a \<and> a \<in> set (a_list as) \<and>
    (\<forall>b \<in> set (a_list as). a_arg (snd a) \<le> a_arg (snd b))"
proof -
  let ?l = "a_list as"
  have c: "atoms_count as = length ?l" using assms(1) by (simp add: atoms_ok_def atoms_count_def)
  have pos: "0 < length ?l" using assms(2) by simp
  have "\<forall>i \<in> set [1..<length ?l]. i < length ?l" by simp
  from oldest_loop_min [OF assms(1) this, of "?l ! 0"] obtain a where a:
    "oldest_loop as [1..<length ?l] (?l ! 0) = Some a" "a = ?l ! 0 \<or> a \<in> set ?l"
    "a_arg (snd a) \<le> a_arg (snd (?l ! 0))"
    "\<forall>i \<in> set [1..<length ?l]. a_arg (snd a) \<le> a_arg (snd (?l ! i))" by blast
  have "so_atom_oldest as = Some a"
    using a(1) pos by (simp add: so_atom_oldest_def c atoms_getn_eq [OF assms(1)])
  moreover have "a \<in> set ?l" using a(2) pos by auto
  moreover have "a_arg (snd a) \<le> a_arg (snd (?l ! i))" if "i < length ?l" for i
    using a(3,4) that by (cases i) auto
  ultimately show ?thesis by (metis in_set_conv_nth)
qed

lemma delete_oldest_ok:
  assumes "store_ok s" "nodes s \<noteq> []"
  shows "\<exists>a s'. so_atom_oldest (so_atoms s) = Some a \<and> so_atom_delete_oldest s = Done s' \<and> a \<in> set (nodes s) \<and>
    nodes s' = remove1 a (nodes s) \<and> shrinks s s' \<and> sent s' = sent s"
proof -
  from assms(1) have "atoms_ok (so_atoms s)" by (simp add: store_ok_def)
  from so_atom_oldest_min [OF this assms(2)] obtain a where
    a: "so_atom_oldest (so_atoms s) = Some a" "a \<in> set (nodes s)" by blast
  with so_unlink_ok [OF assms(1) a(2)] show ?thesis by (auto simp: so_atom_delete_oldest_def)
qed

lemma session_delete_oldest_ok:
  assumes "store_ok s" "nodes s \<noteq> []" "can_send E"
  shows "\<exists>a s'. so_atom_oldest (so_atoms s) = Some a \<and> session_delete_oldest E s = Done s' \<and> a \<in> set (nodes s) \<and>
    nodes s' = remove1 a (nodes s) \<and> shrinks s s' \<and>
    sent s' = sent s @ (if pipc E then [MSES_DELOLD] else [])"
proof -
  let ?t = "if pipc E then s\<lparr>sent := sent s @ [MSES_DELOLD]\<rparr> else s"
  have t: "store_ok ?t" "nodes ?t = nodes s" "so_atoms ?t = so_atoms s" "shrinks ?t u \<Longrightarrow> shrinks s u" for u
    using assms(1) by (cases "pipc E"; auto simp: store_ok_def shrinks_def)+
  have "session_delete_oldest E s = so_atom_delete_oldest ?t"
    using assms(3) by (simp add: session_delete_oldest_def can_send_def mses_send_def)
  then show ?thesis using delete_oldest_ok [OF t(1)] assms(2) t(2-4) by auto
qed

lemma evict_loop_ok:
  assumes "store_ok s" "can_send E"
  shows "\<exists>s'. evict_loop E sz old s = Done s' \<and> shrinks s s' \<and>
     (nodes s' = [] \<or> new_size s' sz old \<le> mem_limit s')"
  using assms
proof (induction E sz old s rule: evict_loop.induct)
  case (1 E sz old s)
  have c: "atoms_count (so_atoms s) = length (nodes s)"
    using 1(2) by (simp add: store_ok_def atoms_ok_def atoms_count_def)
  show ?case
  proof (cases "nodes s \<noteq> [] \<and> mem_limit s < new_size s sz old")
    case True
    then obtain s' where s': "session_delete_oldest E s = Done s'" "shrinks s s'"
      using session_delete_oldest_ok [OF 1(2) _ 1(3)] by blast
    from s'(2) have "store_ok s'" by (simp add: shrinks_def)
    with 1(1) [OF _ s'(1)] True 1(3) c obtain u where
      u: "evict_loop E sz old s' = Done u" "shrinks s' u" "nodes u = [] \<or> new_size u sz old \<le> mem_limit u"
      by auto
    have "evict_loop E sz old s = Done u"
      using True c s'(1) u(1) by (subst evict_loop.simps) simp
    with u shrinks_trans [OF s'(2) u(2)] show ?thesis by blast
  next
    case False
    then have "evict_loop E sz old s = Done s" using c by (subst evict_loop.simps) auto
    moreover have "nodes s = [] \<or> new_size s sz old \<le> mem_limit s" using False by auto
    ultimately show ?thesis using shrinks_refl [OF 1(2)] by blast
  qed
qed

section \<open>The store as a map\<close>

text \<open>The abstract contents: session name to data and time.\<close>

definition store_map :: "mses \<Rightarrow> string \<Rightarrow> (char list \<times> nat) option" where
  "store_map s i = map_option (\<lambda>a. (a_data (snd a), a_arg (snd a))) (atoms_get (so_atoms s) i)"

lemma get_loop_distinct:
  "distinct (map (a_id \<circ> snd) as) \<Longrightarrow> a \<in> set as \<Longrightarrow> get_loop as (a_id (snd a)) = Some a"
  by (induction as) (auto simp: image_iff)

lemma get_loop_remove1:
  "distinct (map (a_id \<circ> snd) as) \<Longrightarrow> a \<in> set as \<Longrightarrow>
   get_loop (remove1 a as) i = (if i = a_id (snd a) then None else get_loop as i)"
proof (induction as)
  case (Cons b as)
  show ?case
  proof (cases "a = b")
    case True
    with Cons.prems(1) show ?thesis by (auto simp: get_loop_None image_iff)
  next
    case False
    with Cons show ?thesis by (auto simp: image_iff)
  qed
qed simp

lemma evict_count_ok:
  assumes "store_ok s" "can_send E" "within_limits s" "old = atoms_get (so_atoms s) i"
  shows "\<exists>s'. evict_count E old s = Done s' \<and> shrinks s s' \<and> (old \<noteq> None \<longrightarrow> s' = s) \<and>
     (old = None \<and> max_count s \<noteq> 0 \<longrightarrow> length (nodes s') < max_count s)"
proof -
  have c: "atoms_count (so_atoms s) = length (nodes s)" "length (nodes s) < SIZE_LIMIT"
    using assms(1) by (auto simp: store_ok_def atoms_ok_def atoms_count_def)
  show ?thesis
  proof (cases "old = None")
    case True
    show ?thesis
    proof (cases "max_count s \<noteq> 0 \<and> max_count s \<le> length (nodes s)")
      case full: True
      then have ne: "nodes s \<noteq> []" by auto
      from session_delete_oldest_ok [OF assms(1) ne assms(2)] obtain a s' where
        s': "session_delete_oldest E s = Done s'" "a \<in> set (nodes s)" "nodes s' = remove1 a (nodes s)" "shrinks s s'"
        by blast
      have "length (nodes s') < max_count s"
        using s'(2,3) full assms(3) ne by (auto simp: length_remove1 within_limits_def)
      with s' True full c show ?thesis by (simp add: evict_count_def)
    next
      case False
      with True c shrinks_refl [OF assms(1)] show ?thesis by (auto simp: evict_count_def)
    qed
  next
    case False
    then obtain a where "a \<in> set (nodes s)"
      using assms(4) by (auto simp: atoms_get_def dest: get_loop_Some)
    then have "Suc 0 \<le> length (nodes s)" by (cases "nodes s") auto
    then have "\<not> max_count s \<le> size_sub (length (nodes s)) (Suc 0) \<or> max_count s = 0"
      using assms(3) c size_sub_le [of "Suc 0" "length (nodes s)"] by (auto simp: within_limits_def)
    with False c shrinks_refl [OF assms(1)] show ?thesis by (auto simp: evict_count_def)
  qed
qed

lemma so_insert_ok:
  assumes "libu_ok L" "libu_mem L"
  shows "so_insert L i buf sz arg s =
     Done (s\<lparr>so_atoms := atoms_add (next_addr s, \<lparr>a_id = i, a_data = take sz buf, a_size = sz, a_arg = arg\<rparr>) (so_atoms s),
            next_addr := Suc (next_addr s)\<rparr>)"
  by (simp add: so_insert_def atom_create_def libu_memD [OF assms])

lemma inserted_ok:
  assumes "store_ok s" "store_room sz s" "get_loop (nodes s) i = None"
    "a = (next_addr s, \<lparr>a_id = i, a_data = d, a_size = sz, a_arg = arg\<rparr>)"
  shows "store_ok (s\<lparr>so_atoms := atoms_add a (so_atoms s), next_addr := Suc (next_addr s)\<rparr>)"
proof -
  have "atoms_room a (so_atoms s)"
    using assms by (auto simp: atoms_room_def store_room_def store_ok_def node_size_def)
  then have "atoms_ok (atoms_add a (so_atoms s))"
    using assms(1) by (auto intro: atoms_add_ok simp: store_ok_def)
  moreover have "i \<notin> (a_id \<circ> snd) ` set (nodes s)" using assms(3) by (auto simp: get_loop_None)
  ultimately show ?thesis
    using assms(1,4) by (auto simp: store_ok_def atoms_add_def less_Suc_eq)
qed

lemma evict_size_ok:
  assumes "store_ok s" "can_send E" "store_room sz s" "mem_limit s \<noteq> 0 \<longrightarrow> sz \<le> mem_limit s"
  shows "\<exists>s'. evict_size E sz None s = Done s' \<and> shrinks s s' \<and>
     (mem_limit s \<noteq> 0 \<longrightarrow> total_size (nodes s') + sz \<le> mem_limit s)"
proof (cases "mem_limit s = 0")
  case True
  with shrinks_refl [OF assms(1)] show ?thesis by (simp add: evict_size_def)
next
  case False
  from evict_loop_ok [OF assms(1,2), of sz None] obtain s' where
    s': "evict_loop E sz None s = Done s'" "shrinks s s'" "nodes s' = [] \<or> new_size s' sz None \<le> mem_limit s'"
    by blast
  have lt: "total_size (nodes s') + sz < SIZE_LIMIT" using s'(2) assms(3) by (simp add: shrinks_def store_room_def)
  have "a_total (so_atoms s') = total_size (nodes s')"
    using s'(2) by (simp add: shrinks_def store_ok_def atoms_ok_def)
  then have "new_size s' sz None = total_size (nodes s') + sz"
    using lt by (simp add: new_size_def old_size_def atoms_size_def)
  then have "total_size (nodes s') + sz \<le> mem_limit s"
    using s'(2,3) False assms(4) by (auto simp: shrinks_def)
  with s' False assms(4) show ?thesis by (auto simp: evict_size_def)
qed

lemma so_drop_old_ok:
  assumes "store_ok s" "store_room sz s" "atoms_get (so_atoms s) i = Some old"
    "a = (next_addr s, \<lparr>a_id = i, a_data = d, a_size = sz, a_arg = arg\<rparr>)"
    "t = s\<lparr>so_atoms := atoms_add a (so_atoms s), next_addr := Suc (next_addr s)\<rparr>"
  shows "\<exists>s'. so_drop_old (Some old) t = Done s' \<and> store_ok s' \<and> nodes s' = a # remove1 old (nodes s) \<and>
     max_count s' = max_count s \<and> mem_limit s' = mem_limit s"
proof -
  have old: "old \<in> set (nodes s)" "a_id (snd old) = i"
    using get_loop_Some assms(3) by (auto simp: atoms_get_def)
  have ne: "old \<noteq> a" "fst old < next_addr s" using assms(1,4) old(1) by (auto simp: store_ok_def)
  have "next_addr s \<notin> fst ` set (nodes s)" using assms(1) by (force simp: store_ok_def)
  then have ok: "atoms_ok (so_atoms t)"
    using assms by (auto intro!: atoms_add_ok simp: store_ok_def atoms_room_def store_room_def node_size_def)
  have mem: "old \<in> set (nodes t)" using old(1) assms(5) by (simp add: atoms_add_def)
  from atoms_remove_eq [OF ok mem] obtain as' where as': "atoms_remove old (so_atoms t) = Ok as'"
    "a_list as' = remove1 old (nodes t)" "atoms_ok as'" by blast
  have l: "a_list as' = a # remove1 old (nodes s)" using as'(2) assms(5) ne(1) by (simp add: atoms_add_def)
  have "get_loop (remove1 old (nodes s)) i = None"
    using get_loop_remove1 [of "nodes s" old i] old assms(1) by (simp add: store_ok_def)
  then have "i \<notin> (a_id \<circ> snd) ` set (remove1 old (nodes s))" by (auto simp: get_loop_None)
  moreover have "set (remove1 old (nodes s)) \<subseteq> set (nodes s)" by (rule set_remove1_subset)
  ultimately have "store_ok (t\<lparr>so_atoms := as'\<rparr>)"
    using as'(3) l assms(1,4,5) by (auto simp: store_ok_def distinct_map_remove1 less_Suc_eq)
  with as'(1) l assms(5) show ?thesis by (simp add: so_drop_old_def so_unlink_def)
qed

lemma update_in_place:
  assumes "libu_ok L" "libu_mem L" "can_send E" "store_ok s" "within_limits s" "store_room sz s"
    and "atoms_get (so_atoms s) i = Some old"
    and "mem_limit s \<noteq> 0 \<longrightarrow> sz \<le> mem_limit s \<and> new_size s sz (Some old) \<le> mem_limit s"
  shows "\<exists>s'. so_atom_add L E i buf sz arg s = Done s' \<and> store_ok s' \<and>
     nodes s' = (next_addr s, \<lparr>a_id = i, a_data = take sz buf, a_size = sz, a_arg = arg\<rparr>) # remove1 old (nodes s) \<and>
     max_count s' = max_count s \<and> mem_limit s' = mem_limit s"
proof -
  have ec: "evict_count E (Some old) s = Done s"
    using evict_count_ok [OF assms(4,3,5) refl, of i] assms(7) by auto
  have es: "evict_size E sz (Some old) s = Done s"
    using assms(8) by (subst evict_size_def, subst evict_loop.simps) auto
  show ?thesis
    using so_drop_old_ok [OF assms(4,6,7) refl refl, of "take sz buf" arg] ec es assms(7)
    by (simp add: so_atom_add_def Let_def so_insert_ok [OF assms(1,2)])
qed

lemma add_full:
  assumes "libu_ok L" "libu_mem L" "can_send E" "store_ok s" "store_room sz s"
    and "atoms_get (so_atoms s) i = None" "mem_limit s = 0" "max_count s = length (nodes s)" "max_count s \<noteq> 0"
  shows "\<exists>s'. so_atom_add L E i buf sz arg s = Done s' \<and> store_ok s' \<and> length (nodes s') = max_count s \<and>
     sent s' = sent s @ (if pipc E then [MSES_DELOLD] else [])"
proof -
  have ne: "nodes s \<noteq> []" using assms(8,9) by auto
  from session_delete_oldest_ok [OF assms(4) ne assms(3)] obtain a t where
    t: "session_delete_oldest E s = Done t" "a \<in> set (nodes s)" "nodes t = remove1 a (nodes s)" "shrinks s t"
    "sent t = sent s @ (if pipc E then [MSES_DELOLD] else [])" by blast
  let ?a = "(next_addr t, \<lparr>a_id = i, a_data = take sz buf, a_size = sz, a_arg = arg\<rparr>)"
  let ?s' = "t\<lparr>so_atoms := atoms_add ?a (so_atoms t), next_addr := Suc (next_addr t)\<rparr>"
  have "evict_count E None s = Done t"
    using assms(4,8,9) t(1) by (simp add: evict_count_def atoms_count_def store_ok_def atoms_ok_def)
  moreover have "evict_size E sz None t = Done t" using t(4) assms(7) by (simp add: evict_size_def shrinks_def)
  ultimately have eq: "so_atom_add L E i buf sz arg s = Done ?s'"
    using assms(6) by (simp add: so_atom_add_def so_insert_ok [OF assms(1,2)] so_drop_old_def)
  have "get_loop (nodes t) i = None"
    using t(4) assms(6) by (auto simp: shrinks_def atoms_get_def get_loop_None)
  moreover have "store_ok t" "store_room sz t" using t(4) assms(5) by (auto simp: shrinks_def store_room_def)
  ultimately have "store_ok ?s'" by (intro inserted_ok [OF _ _ _ refl])
  moreover have "length (nodes ?s') = max_count s"
    using t(2,3) assms(8) ne by (simp add: atoms_add_def length_remove1)
  ultimately show ?thesis using eq t(5) by simp
qed

section \<open>Properties\<close>

text \<open>
  C25.  Saving a session that is not in the store respects both limits: whatever the store
  holds, a save whose data is not larger than the memory limit succeeds, the new session is
  there with its data and time, no other session appears, and afterwards there are at most
  \<^verbatim>\<open>max_count\<close> sessions of at most \<^verbatim>\<open>limit\<close> bytes in total.
\<close>

theorem mses_add_limits:
  assumes "libu_ok L" "libu_mem L" "can_send E"
    and "store_ok s" "within_limits s" "store_room sz s"
    and "atoms_get (so_atoms s) i = None"
    and "mem_limit s \<noteq> 0 \<longrightarrow> sz \<le> mem_limit s"
  shows "\<exists>s'. so_atom_add L E i buf sz arg s = Done s' \<and> store_ok s' \<and> within_limits s' \<and>
     store_map s' i = Some (take sz buf, arg) \<and>
     (\<forall>j v. j \<noteq> i \<longrightarrow> store_map s' j = Some v \<longrightarrow> store_map s j = Some v)"
proof -
  from evict_count_ok [OF assms(4,3,5) refl, of i] assms(7) obtain t where
    t: "evict_count E None s = Done t" "shrinks s t" "max_count s \<noteq> 0 \<longrightarrow> length (nodes t) < max_count s" by auto
  have "store_ok t" "store_room sz t" "mem_limit t \<noteq> 0 \<longrightarrow> sz \<le> mem_limit t"
    using t(2) assms(6,8) by (auto simp: shrinks_def store_room_def)
  from evict_size_ok [OF this(1) assms(3) this(2,3)] obtain u where
    u: "evict_size E sz None t = Done u" "shrinks t u" "mem_limit t \<noteq> 0 \<longrightarrow> total_size (nodes u) + sz \<le> mem_limit t"
    by blast
  have su: "shrinks s u" using shrinks_trans [OF t(2) u(2)] .
  let ?a = "(next_addr u, \<lparr>a_id = i, a_data = take sz buf, a_size = sz, a_arg = arg\<rparr>)"
  let ?s' = "u\<lparr>so_atoms := atoms_add ?a (so_atoms u), next_addr := Suc (next_addr u)\<rparr>"
  have none: "get_loop (nodes u) i = None"
    using su assms(7) by (auto simp: shrinks_def atoms_get_def get_loop_None)
  have eq: "so_atom_add L E i buf sz arg s = Done ?s'"
    using t(1) u(1) assms(7) by (simp add: so_atom_add_def Let_def so_insert_ok [OF assms(1,2)] so_drop_old_def)
  have "store_ok ?s'"
    using su none assms(6) by (intro inserted_ok) (auto simp: shrinks_def store_room_def)
  moreover have "within_limits ?s'"
    using t(2,3) u(2,3) by (auto simp: within_limits_def shrinks_def atoms_add_def node_size_def)
  moreover have "store_map ?s' i = Some (take sz buf, arg)"
    by (simp add: store_map_def atoms_get_def atoms_add_def)
  moreover have "store_map s j = Some v" if "j \<noteq> i" "store_map ?s' j = Some v" for j v
  proof -
    from that obtain b where b: "get_loop (nodes u) j = Some b" "v = (a_data (snd b), a_arg (snd b))"
      by (auto simp: store_map_def atoms_get_def atoms_add_def)
    from get_loop_Some [OF b(1)] su have "b \<in> set (nodes s)" "a_id (snd b) = j" by (auto simp: shrinks_def)
    with get_loop_distinct [of "nodes s" b] assms(4) b(2) show ?thesis
      by (simp add: store_ok_def store_map_def atoms_get_def)
  qed
  ultimately show ?thesis using eq by blast
qed

theorem mses_add_limits_witness:
  "\<exists>s'. so_atom_add libu_ref \<lparr>pipc = False, wr_ok = (\<lambda>_. True), time0 = 9\<rparr> ''b'' ''xyz'' 3 7
     \<lparr>so_atoms = \<lparr>a_list = [(0, \<lparr>a_id = ''a'', a_data = ''uv'', a_size = 2, a_arg = 5\<rparr>)], a_total = 2, a_count = 1\<rparr>,
      max_count = 1, mem_limit = 4, next_addr = 1, sent = []\<rparr> = Done s' \<and>
     within_limits s' \<and> store_map s' ''b'' = Some (''xyz'', 7)"
proof -
  let ?s = "\<lparr>so_atoms = \<lparr>a_list = [(0, \<lparr>a_id = ''a'', a_data = ''uv'', a_size = 2, a_arg = 5\<rparr>)], a_total = 2, a_count = 1\<rparr>,
      max_count = 1, mem_limit = 4, next_addr = 1, sent = []\<rparr>"
  let ?E = "\<lparr>pipc = False, wr_ok = (\<lambda>_. True), time0 = 9\<rparr>"
  have h: "can_send ?E" "store_ok ?s" "within_limits ?s" "store_room 3 ?s" "atoms_get (so_atoms ?s) ''b'' = None"
    by (simp_all add: can_send_def store_ok_def atoms_ok_def within_limits_def store_room_def atoms_get_def node_size_def)
  show ?thesis
    using mses_add_limits [OF libu_ref_ok libu_ref_mem h, of "''xyz''" 7] by auto
qed

text \<open>The store as a map.\<close>

lemma store_add_map:
  assumes "libu_ok L" "libu_mem L" "can_send E"
    and "store_ok s" "within_limits s" "store_room sz s" "mem_limit s = 0"
    and "max_count s = 0 \<or> i \<in> dom (store_map s) \<or> length (nodes s) < max_count s"
  shows "\<exists>s'. so_atom_add L E i buf sz arg s = Done s' \<and> store_ok s' \<and>
     store_map s' = (store_map s)(i \<mapsto> (take sz buf, arg)) \<and> (\<exists>a. atoms_get (so_atoms s') i = Some a \<and> a_size (snd a) = sz) \<and>
     (\<forall>j. j \<noteq> i \<longrightarrow> atoms_get (so_atoms s') j = atoms_get (so_atoms s) j)"
proof (cases "atoms_get (so_atoms s) i")
  case None
  let ?a = "(next_addr s, \<lparr>a_id = i, a_data = take sz buf, a_size = sz, a_arg = arg\<rparr>)"
  let ?s' = "s\<lparr>so_atoms := atoms_add ?a (so_atoms s), next_addr := Suc (next_addr s)\<rparr>"
  have "evict_count E None s = Done s"
    using assms(4,8) None by (auto simp: evict_count_def store_ok_def atoms_ok_def atoms_count_def store_map_def)
  then have "so_atom_add L E i buf sz arg s = Done ?s'"
    using None assms(7)
    by (simp add: so_atom_add_def so_insert_ok [OF assms(1,2)] so_drop_old_def evict_size_def)
  moreover have "store_ok ?s'" using None assms(4,6) by (intro inserted_ok) (auto simp: atoms_get_def)
  moreover have "\<exists>a. atoms_get (so_atoms ?s') i = Some a \<and> a_size (snd a) = sz" by (simp add: atoms_get_def atoms_add_def)
  moreover have "store_map ?s' = (store_map s)(i \<mapsto> (take sz buf, arg))"
    by (rule ext) (simp add: store_map_def atoms_get_def atoms_add_def)
  moreover have "\<forall>j. j \<noteq> i \<longrightarrow> atoms_get (so_atoms ?s') j = atoms_get (so_atoms s) j" by (simp add: atoms_get_def atoms_add_def)
  ultimately show ?thesis by blast
next
  case (Some old)
  then have old: "old \<in> set (nodes s)" "a_id (snd old) = i"
    using get_loop_Some by (auto simp: atoms_get_def)
  have dist: "distinct (map (a_id \<circ> snd) (nodes s))" using assms(4) by (simp add: store_ok_def)
  from update_in_place [OF assms(1-6) Some, of buf arg] assms(7) obtain s' where
    s': "so_atom_add L E i buf sz arg s = Done s'" "store_ok s'"
    "nodes s' = (next_addr s, \<lparr>a_id = i, a_data = take sz buf, a_size = sz, a_arg = arg\<rparr>) # remove1 old (nodes s)"
    by auto
  have "store_map s' = (store_map s)(i \<mapsto> (take sz buf, arg))"
    using get_loop_remove1 [OF dist old(1)] old(2)
    by (intro ext) (simp add: store_map_def atoms_get_def s'(3))
  moreover have "\<exists>a. atoms_get (so_atoms s') i = Some a \<and> a_size (snd a) = sz" by (simp add: atoms_get_def s'(3))
  moreover have "\<forall>j. j \<noteq> i \<longrightarrow> atoms_get (so_atoms s') j = atoms_get (so_atoms s) j"
    using get_loop_remove1 [OF dist old(1)] old(2) by (simp add: atoms_get_def s'(3))
  ultimately show ?thesis using s' by blast
qed

lemma store_remove_map:
  assumes "store_ok s"
  shows "\<exists>s'. so_atom_remove i s = Done s' \<and> store_ok s' \<and> store_map s' = (store_map s)(i := None) \<and>
     (\<forall>j. j \<noteq> i \<longrightarrow> atoms_get (so_atoms s') j = atoms_get (so_atoms s) j)"
proof (cases "atoms_get (so_atoms s) i")
  case None
  then have "store_map s = (store_map s)(i := None)" by (intro ext) (simp add: store_map_def)
  with None assms show ?thesis by (simp add: so_atom_remove_def)
next
  case (Some old)
  then have old: "old \<in> set (nodes s)" "a_id (snd old) = i"
    using get_loop_Some by (auto simp: atoms_get_def)
  have dist: "distinct (map (a_id \<circ> snd) (nodes s))" using assms by (simp add: store_ok_def)
  from so_unlink_ok [OF assms old(1)] obtain s' where
    s': "so_unlink old s = Done s'" "nodes s' = remove1 old (nodes s)" "store_ok s'"
    by (auto simp: shrinks_def)
  have "store_map s' = (store_map s)(i := None)"
    using get_loop_remove1 [OF dist old(1)] old(2)
    by (intro ext) (simp add: store_map_def atoms_get_def s'(2))
  moreover have "\<forall>j. j \<noteq> i \<longrightarrow> atoms_get (so_atoms s') j = atoms_get (so_atoms s) j"
    using get_loop_remove1 [OF dist old(1)] old(2) by (simp add: atoms_get_def s'(2))
  ultimately show ?thesis using s' Some by (simp add: so_atom_remove_def)
qed

text \<open>
  C18.  While no limit is reached the store is a map.  With no memory limit, and with no count
  limit, a name that is bound already or fewer sessions than the count limit, saving a session
  binds its name to the data and the time and changes no other binding, whether or not the name
  was bound before, and removing one unbinds it; neither touches an unlinked node.  (A save that
  reaches a limit evicts other sessions.)
\<close>

theorem mses_refines_map:
  assumes "libu_ok L" "libu_mem L" "can_send E"
    and "store_ok s" "within_limits s" "store_room sz s" "mem_limit s = 0"
    and "max_count s = 0 \<or> i \<in> dom (store_map s) \<or> length (nodes s) < max_count s"
  shows "(\<exists>s'. so_atom_add L E i buf sz arg s = Done s' \<and> store_ok s' \<and>
            store_map s' = (store_map s)(i \<mapsto> (take sz buf, arg))) \<and>
         (\<exists>s'. so_atom_remove i s = Done s' \<and> store_ok s' \<and> store_map s' = (store_map s)(i := None))"
  using store_add_map [OF assms] store_remove_map [OF assms(4)] by blast

theorem mses_refines_map_witness:
  "\<exists>s'. so_atom_add libu_ref \<lparr>pipc = False, wr_ok = (\<lambda>_. True), time0 = 9\<rparr> ''a'' ''xyz'' 3 7
     \<lparr>so_atoms = \<lparr>a_list = [(0, \<lparr>a_id = ''a'', a_data = ''uv'', a_size = 2, a_arg = 5\<rparr>)], a_total = 2, a_count = 1\<rparr>,
      max_count = 1, mem_limit = 0, next_addr = 1, sent = []\<rparr> = Done s' \<and>
     store_map s' ''a'' = Some (''xyz'', 7)"
proof -
  let ?s = "\<lparr>so_atoms = \<lparr>a_list = [(0, \<lparr>a_id = ''a'', a_data = ''uv'', a_size = 2, a_arg = 5\<rparr>)], a_total = 2, a_count = 1\<rparr>,
      max_count = 1, mem_limit = 0, next_addr = 1, sent = []\<rparr>"
  let ?E = "\<lparr>pipc = False, wr_ok = (\<lambda>_. True), time0 = 9\<rparr>"
  have h: "can_send ?E" "store_ok ?s" "within_limits ?s" "store_room 3 ?s" "mem_limit ?s = 0"
    "max_count ?s = 0 \<or> ''a'' \<in> dom (store_map ?s) \<or> length (nodes ?s) < max_count ?s"
    by (simp_all add: can_send_def store_ok_def atoms_ok_def within_limits_def store_room_def atoms_get_def node_size_def
        store_map_def dom_def)
  show ?thesis
    using mses_refines_map [OF libu_ref_ok libu_ref_mem h, of "''xyz''" 7] by auto
qed

text \<open>
  The eviction victim is a least recently saved session: on a non-empty store the
  deletion unlinks exactly one node, none of the stored sessions is older than it, and the
  store stays well formed.
\<close>

theorem delete_oldest_is_lru:
  assumes "store_ok s" and "nodes s \<noteq> []"
  shows "\<exists>a s'. so_atom_delete_oldest s = Done s' \<and> store_ok s' \<and>
     a \<in> set (nodes s) \<and> (\<forall>b \<in> set (nodes s). a_arg (snd a) \<le> a_arg (snd b)) \<and>
     nodes s' = remove1 a (nodes s) \<and>
     store_map s' = (store_map s)(a_id (snd a) := None)"
proof -
  from assms(1) have ok: "atoms_ok (so_atoms s)" "distinct (map (a_id \<circ> snd) (nodes s))"
    by (simp_all add: store_ok_def)
  from delete_oldest_ok [OF assms] obtain a s' where
    a: "so_atom_oldest (so_atoms s) = Some a" "so_atom_delete_oldest s = Done s'" "a \<in> set (nodes s)"
    "nodes s' = remove1 a (nodes s)" "shrinks s s'" by blast
  have "store_map s' = (store_map s)(a_id (snd a) := None)"
    using get_loop_remove1 [OF ok(2) a(3)] by (intro ext) (simp add: store_map_def atoms_get_def a(4))
  moreover have "\<forall>b \<in> set (nodes s). a_arg (snd a) \<le> a_arg (snd b)"
    using so_atom_oldest_min [OF ok(1) assms(2)] a(1) by auto
  ultimately show ?thesis using a unfolding shrinks_def by blast
qed

theorem delete_oldest_is_lru_witness:
  "\<exists>s'. so_atom_delete_oldest
     \<lparr>so_atoms = \<lparr>a_list = [(1, \<lparr>a_id = ''b'', a_data = ''u'', a_size = 1, a_arg = 6\<rparr>),
                           (0, \<lparr>a_id = ''a'', a_data = ''uv'', a_size = 2, a_arg = 5\<rparr>)], a_total = 3, a_count = 2\<rparr>,
      max_count = 1, mem_limit = 0, next_addr = 2, sent = []\<rparr> = Done s' \<and> store_ok s'"
proof -
  let ?s = "\<lparr>so_atoms = \<lparr>a_list = [(1, \<lparr>a_id = ''b'', a_data = ''u'', a_size = 1, a_arg = 6\<rparr>),
                           (0, \<lparr>a_id = ''a'', a_data = ''uv'', a_size = 2, a_arg = 5\<rparr>)], a_total = 3, a_count = 2\<rparr>,
      max_count = 1, mem_limit = 0, next_addr = 2, sent = []\<rparr>"
  have h: "store_ok ?s" "nodes ?s \<noteq> []" by (simp_all add: store_ok_def atoms_ok_def node_size_def)
  from delete_oldest_is_lru [OF h] show ?thesis by blast
qed

text \<open>
  Updating a session that is itself the eviction victim unlinks it twice.  The node looked
  up before the eviction loop is removed again after it without checking whether the loop has
  evicted it: when the session being saved is the oldest one and the new total would pass the
  memory limit, the second \<^verbatim>\<open>LIST_REMOVE\<close> works on a node that is no longer linked.
\<close>

theorem update_of_victim_crashes:
  assumes "libu_ok L" "libu_mem L" "can_send E" "store_ok s" "within_limits s"
    and "atoms_get (so_atoms s) i = Some old" and "so_atom_oldest (so_atoms s) = Some old"
    and "mem_limit s \<noteq> 0" "sz \<le> mem_limit s" "mem_limit s < new_size s sz (Some old)"
  shows "so_atom_add L E i buf sz arg s = Crash"
proof -
  have mem: "old \<in> set (nodes s)" using assms(6) by (auto simp: atoms_get_def dest: get_loop_Some)
  then have ne: "nodes s \<noteq> []" by auto
  have c: "atoms_count (so_atoms s) \<noteq> 0"
    using assms(4) ne by (simp add: store_ok_def atoms_ok_def atoms_count_def)
  from session_delete_oldest_ok [OF assms(4) ne assms(3)] assms(7) obtain t where
    t: "session_delete_oldest E s = Done t" "nodes t = remove1 old (nodes s)" "shrinks s t" by auto
  from t(3) have "store_ok t" by (simp add: shrinks_def)
  from evict_loop_ok [OF this assms(3), of sz "Some old"] obtain u where
    u: "evict_loop E sz (Some old) t = Done u" "shrinks t u" by blast
  have "evict_loop E sz (Some old) s = Done u"
    using t(1) u(1) c assms(10) by (subst evict_loop.simps) simp
  then have es: "evict_size E sz (Some old) s = Done u" using assms(8,9) by (simp add: evict_size_def)
  have ec: "evict_count E (Some old) s = Done s"
    using evict_count_ok [OF assms(4,3,5) refl, of i] assms(6) by auto
  have "distinct (nodes s)" using assms(4) by (auto simp: store_ok_def distinct_map)
  then have "old \<notin> set (nodes u)" using t(2) u(2) by (auto simp: shrinks_def)
  moreover have "fst old \<noteq> next_addr u"
    using mem assms(4) t(3) u(2) by (fastforce simp: shrinks_def store_ok_def)
  ultimately show ?thesis
    using ec es assms(6)
    by (auto simp: so_atom_add_def so_insert_ok [OF assms(1,2)] so_drop_old_def so_unlink_def
        atoms_remove_def atoms_add_def)
qed

theorem update_of_victim_crashes_witness:
  "so_atom_add libu_ref \<lparr>pipc = False, wr_ok = (\<lambda>_. True), time0 = 9\<rparr> ''a'' ''xyz'' 3 7
     \<lparr>so_atoms = \<lparr>a_list = [(1, \<lparr>a_id = ''b'', a_data = ''u'', a_size = 1, a_arg = 6\<rparr>),
                           (0, \<lparr>a_id = ''a'', a_data = ''uv'', a_size = 2, a_arg = 5\<rparr>)], a_total = 3, a_count = 2\<rparr>,
      max_count = 0, mem_limit = 3, next_addr = 2, sent = []\<rparr> = Crash"
proof -
  let ?old = "(0, \<lparr>a_id = ''a'', a_data = ''uv'', a_size = 2, a_arg = 5\<rparr>)"
  let ?s = "\<lparr>so_atoms = \<lparr>a_list = [(1, \<lparr>a_id = ''b'', a_data = ''u'', a_size = 1, a_arg = 6\<rparr>), ?old],
       a_total = 3, a_count = 2\<rparr>, max_count = 0, mem_limit = 3, next_addr = 2, sent = []\<rparr>"
  let ?E = "\<lparr>pipc = False, wr_ok = (\<lambda>_. True), time0 = 9\<rparr>"
  have n: "new_size ?s 3 (Some ?old) = 4"
    by (simp add: new_size_def old_size_def atoms_size_def)
  have h: "can_send ?E" "store_ok ?s" "within_limits ?s" "atoms_get (so_atoms ?s) ''a'' = Some ?old"
    by (simp_all add: can_send_def store_ok_def atoms_ok_def within_limits_def atoms_get_def node_size_def)
  have o: "so_atom_oldest (so_atoms ?s) = Some ?old"
    by (simp add: so_atom_oldest_def atoms_count_def atoms_getn_def upt_rec)
  have "mem_limit ?s \<noteq> 0" "3 \<le> mem_limit ?s" "mem_limit ?s < new_size ?s 3 (Some ?old)"
    by (simp, simp, subst n, simp)
  from update_of_victim_crashes [OF libu_ref_ok libu_ref_mem h o this] show ?thesis .
qed

text \<open>
  A save by a child process on a full store costs the parent two sessions.  The child
  sends \<^verbatim>\<open>SAVE\<close>, evicts locally and sends \<^verbatim>\<open>DELOLD\<close> as well; the parent already
  evicts while it executes \<^verbatim>\<open>SAVE\<close>, then executes \<^verbatim>\<open>DELOLD\<close>: the child's copy
  ends with \<^verbatim>\<open>max_count\<close> sessions and the parent's with one less (none, for a limit of
  one: the session just saved is lost).
\<close>

theorem prefork_evicts_twice:
  assumes "libu_ok L" "libu_mem L" "pipc E" "\<forall>m. wr_ok E m" "\<not> pipc P"
    and "store_ok s" "store_room sz s" "atoms_get (so_atoms s) i = None" "length i < SESSION_FILENAME_MAX_LENGTH"
    and "mem_limit s = 0" "max_count s = length (nodes s)" "max_count s \<noteq> 0" "sent s = []"
  shows "\<exists>c p. session_mem_add L E i buf sz arg s = Done c \<and> length (nodes c) = max_count s \<and>
     mses_deliver L P (sent c) s = Done p \<and> length (nodes p) = max_count s - 1"
proof -
  let ?esm = "\<lparr>e_mtime = time0 E, e_filename = i, e_size = sz, e_data = take sz buf\<rparr>"
  let ?t = "s\<lparr>sent := [MSES_SAVE ?esm]\<rparr>"
  have cs: "can_send E" "can_send P" using assms(4,5) by (simp_all add: can_send_def)
  have t: "store_ok ?t" "store_room sz ?t" using assms(6,7) by (simp_all add: store_ok_def store_room_def)
  from add_full [OF assms(1,2) cs(1) t, of i buf arg] assms(3,8,10-12) obtain c where
    c: "so_atom_add L E i buf sz arg ?t = Done c" "length (nodes c) = max_count s"
       "sent c = [MSES_SAVE ?esm, MSES_DELOLD]" by auto
  have "u_strlcpy L i SESSION_FILENAME_MAX_LENGTH = (i, False)"
    using assms(9) by (simp add: libu_ok_strlcpy [OF assms(1)] SESSION_FILENAME_MAX_LENGTH_def)
  then have child: "session_mem_add L E i buf sz arg s = Done c"
    using c(1) assms(3,4,9,13) by (simp add: session_mem_add_def libu_memD [OF assms(1,2)] mses_send_def)
  from add_full [OF assms(1,2) cs(2) assms(6-8,10-12), of "take sz buf" "time0 E"] obtain q where
    q: "so_atom_add L P i (take sz buf) sz (time0 E) s = Done q" "store_ok q" "length (nodes q) = max_count s" by blast
  have "nodes q \<noteq> []" using q(3) assms(12) by auto
  from delete_oldest_ok [OF q(2) this] obtain a p where
    p: "so_atom_delete_oldest q = Done p" "a \<in> set (nodes q)" "nodes p = remove1 a (nodes q)" by blast
  have "mses_deliver L P (sent c) s = Done p"
    using q(1) p(1) by (simp add: c(3) mses_handle_def session_cmd_save_def session_cmd_delold_def)
  moreover have "length (nodes p) = max_count s - 1" using p(2,3) q(3) by (simp add: length_remove1)
  ultimately show ?thesis using child c(2) by blast
qed

theorem prefork_evicts_twice_witness:
  "\<exists>c p. session_mem_add libu_ref \<lparr>pipc = True, wr_ok = (\<lambda>_. True), time0 = 9\<rparr> ''b'' ''xyz'' 3 7
     \<lparr>so_atoms = \<lparr>a_list = [(0, \<lparr>a_id = ''a'', a_data = ''uv'', a_size = 2, a_arg = 5\<rparr>)], a_total = 2, a_count = 1\<rparr>,
      max_count = 1, mem_limit = 0, next_addr = 1, sent = []\<rparr> = Done c \<and> length (nodes c) = 1 \<and>
     mses_deliver libu_ref \<lparr>pipc = False, wr_ok = (\<lambda>_. True), time0 = 9\<rparr> (sent c)
     \<lparr>so_atoms = \<lparr>a_list = [(0, \<lparr>a_id = ''a'', a_data = ''uv'', a_size = 2, a_arg = 5\<rparr>)], a_total = 2, a_count = 1\<rparr>,
      max_count = 1, mem_limit = 0, next_addr = 1, sent = []\<rparr> = Done p \<and> nodes p = []"
proof -
  let ?s = "\<lparr>so_atoms = \<lparr>a_list = [(0, \<lparr>a_id = ''a'', a_data = ''uv'', a_size = 2, a_arg = 5\<rparr>)], a_total = 2, a_count = 1\<rparr>,
      max_count = 1, mem_limit = 0, next_addr = 1, sent = []\<rparr>"
  let ?E = "\<lparr>pipc = True, wr_ok = (\<lambda>_. True), time0 = 9\<rparr>"
  let ?P = "\<lparr>pipc = False, wr_ok = (\<lambda>_. True), time0 = 9\<rparr>"
  have h: "pipc ?E" "\<forall>m. wr_ok ?E m" "\<not> pipc ?P" "store_ok ?s" "store_room 3 ?s" "atoms_get (so_atoms ?s) ''b'' = None"
    "length ''b'' < SESSION_FILENAME_MAX_LENGTH" "mem_limit ?s = 0" "max_count ?s = length (nodes ?s)" "max_count ?s \<noteq> 0" "sent ?s = []"
    by (simp_all add: store_ok_def atoms_ok_def store_room_def atoms_get_def node_size_def SESSION_FILENAME_MAX_LENGTH_def)
  show ?thesis
    using prefork_evicts_twice [OF libu_ref_ok libu_ref_mem h, of "''xyz''" 7] by simp
qed

end
