(* ===== verification/Ses_Drivers.thy ===== *)
theory Ses_Drivers
  imports Session Ses_Mem
begin

text \<open>
  The two session drivers of a build without SSL: sessions in memory, the session side of
  \<^verbatim>\<open>src/libpage/ses_mem.c\<close>, and sessions in files, \<^verbatim>\<open>src/libpage/ses_file.c\<close>; and
  \<^verbatim>\<open>session_create\<close>, which chooses between them.  The file system is a parameter: opening,
  removing and looking at a file, and what a file holds once its stream is closed.
\<close>

section \<open>Definitions\<close>

subsection \<open>Sessions in memory\<close>

definition session_mem_save :: "libu \<Rightarrow> mses_env \<Rightarrow> session \<Rightarrow> mses \<Rightarrow> (session step \<times> mses) option" where
  "session_mem_save L Em ss w =
     map_option (\<lambda>r. case r of
         Fail \<Rightarrow> (Failed ss, w)
       | Fault \<Rightarrow> (Crash, w)
       | Ok (buf, sz) \<Rightarrow>
           (case session_mem_add L Em (s_filename ss) buf sz (time0 Em) w of
              Done w1 \<Rightarrow> (Done ss, w1)
            | Failed w1 \<Rightarrow> (Failed ss, w1)
            | Crash \<Rightarrow> (Crash, w)))
       (session_prv_save_to_buf L ss)"

text \<open>
  In the prefork model \<open>parent\<close> answers the request.  A reply that does not fit the buffer makes
  \<^verbatim>\<open>ppc_read\<close> fail; its result is stored unsigned, so the error is not seen and variables that
  were never written are used.
\<close>

definition session_mem_load ::
  "libu \<Rightarrow> mses_env \<Rightarrow> (string \<Rightarrow> mses_reply) option \<Rightarrow> session \<Rightarrow> mses \<Rightarrow> (session step \<times> mses) option" where
  "session_mem_load L Em parent ss w =
     (if s_filename ss = [] then Some (Failed ss, w)
      else case parent of
        Some answer \<Rightarrow>
          (case mses_send Em (MSES_GET (s_filename ss)) w of
             Done w1 \<Rightarrow>
               (case answer (s_filename ss) of
                  RESPONSE_ERROR \<Rightarrow> Some (Failed ss, w1)
                | RESPONSE_OK esm \<Rightarrow>
                    if 4096 < SIZEOF_ESM + e_size esm then Some (Crash, w1)
                    else map_option (\<lambda>r. (r, w1))
                      (session_prv_load_from_buf L (ss\<lparr>s_mtime := to_int32 (int (e_mtime esm))\<rparr>) (take (e_size esm) (e_data esm))))
           | Failed w1 \<Rightarrow> Some (Failed ss, w1)
           | Crash \<Rightarrow> Some (Crash, w))
      | None \<Rightarrow>
          (case atoms_get (so_atoms w) (s_filename ss) of
             None \<Rightarrow> Some (Failed ss, w)
           | Some (_, a) \<Rightarrow>
               map_option (\<lambda>r. (r, w))
                 (session_prv_load_from_buf L (ss\<lparr>s_mtime := to_int32 (int (a_arg a))\<rparr>) (take (a_size a) (a_data a)))))"

definition session_mem_drop :: "mses_env \<Rightarrow> session \<Rightarrow> mses \<Rightarrow> (session step \<times> mses) option" where
  "session_mem_drop Em ss w =
     Some (case session_mem_remove Em (s_filename ss) w of
       Done w1 \<Rightarrow> (Done ss, w1) | Failed w1 \<Rightarrow> (Failed ss, w1) | Crash \<Rightarrow> (Crash, w))"

definition mem_driver :: "libu \<Rightarrow> mses_env \<Rightarrow> (string \<Rightarrow> mses_reply) option \<Rightarrow> mses ses_driver" where
  "mem_driver L Em parent =
     \<lparr>drv_load = session_mem_load L Em parent, drv_save = session_mem_save L Em, drv_remove = session_mem_drop Em\<rparr>"

text \<open>A session as \<^verbatim>\<open>u_zalloc\<close> leaves it.\<close>

definition session_blank :: "request \<Rightarrow> response \<Rightarrow> session" where
  "session_blank rq rs =
     \<lparr>s_vars = \<lparr>vlist = [], foreign = False\<rparr>, s_mem = vmem_empty, s_rq = rq, s_rs = rs, s_filename = [], s_id = [],
      s_removed = False, s_mtime = 0\<rparr>"

text \<open>The error path of a constructor frees the session; what is left of it is its response.\<close>

definition free_failed ::
  "libu \<Rightarrow> ses_env \<Rightarrow> session_opt \<Rightarrow> 'w ses_driver \<Rightarrow> session \<Rightarrow> 'w \<Rightarrow> (session step \<times> 'w) option" where
  "free_failed L V so D ss w =
     map_option (\<lambda>(r, rs, w1). (case r of Fault \<Rightarrow> Crash | _ \<Rightarrow> Failed (ss\<lparr>s_rs := rs\<rparr>), w1)) (session_free L V so D ss w)"

definition session_mem_create ::
  "libu \<Rightarrow> ses_env \<Rightarrow> session_opt \<Rightarrow> mses ses_driver \<Rightarrow> request \<Rightarrow> response \<Rightarrow> mses \<Rightarrow> (session step \<times> mses) option" where
  "session_mem_create L V so D rq rs w =
     (if \<not> u_malloc L 64 then Some (Failed (session_blank rq rs), w)
      else case session_prv_init L V so ((session_blank rq rs)\<lparr>s_mtime := to_int32 (se_time V)\<rparr>) of
        Done ss \<Rightarrow> Some (Done ss, w)
      | Failed ss \<Rightarrow> free_failed L V so D ss w
      | Crash \<Rightarrow> Some (Crash, w))"

subsection \<open>Sessions in files\<close>

record ('w, 'd, 'c) fs_env =
  fs_ops :: "('d, 'c) io_ops"
  fs_remove :: "string \<Rightarrow> 'w \<Rightarrow> bool \<times> 'w"
  fs_open :: "bool \<Rightarrow> string \<Rightarrow> 'w \<Rightarrow> ('d, 'c) io option \<times> 'w"
  fs_closed :: "string \<Rightarrow> ('d, 'c) io \<Rightarrow> 'w \<Rightarrow> 'w"
  fs_mtime :: "string \<Rightarrow> 'w \<Rightarrow> int option"

text \<open>\<^verbatim>\<open>io_free\<close> of a stream on a file flushes and closes it.\<close>

definition file_release ::
  "('w, 'd, 'c) fs_env \<Rightarrow> string \<Rightarrow> session step \<Rightarrow> ('d, 'c) io \<Rightarrow> 'w \<Rightarrow> (session step \<times> 'w) option" where
  "file_release F fn r io w =
     map_option (\<lambda>(_, q). case kept q of None \<Rightarrow> (Crash, w) | Some io1 \<Rightarrow> (r, fs_closed F fn io1 w)) (io_free (fs_ops F) io)"

definition session_file_save :: "libu \<Rightarrow> ('w, 'd, 'c) fs_env \<Rightarrow> session \<Rightarrow> 'w \<Rightarrow> (session step \<times> 'w) option" where
  "session_file_save L F ss w =
     (let fn = s_filename ss; w1 = snd (fs_remove F fn w) in
      if vars_count (s_vars ss) = 0 then Some (Done ss, w1)
      else case fs_open F True fn w1 of
        (None, w2) \<Rightarrow> Some (Failed ss, w2)
      | (Some io, w2) \<Rightarrow>
          Option.bind (session_prv_save_to_io L (fs_ops F) ss io) (\<lambda>r. case r of
            Done io1 \<Rightarrow> file_release F fn (Done ss) io1 w2
          | Failed io1 \<Rightarrow> file_release F fn (Failed ss) io1 w2
          | Crash \<Rightarrow> Some (Crash, w2)))"

definition session_file_load :: "libu \<Rightarrow> ('w, 'd, 'c) fs_env \<Rightarrow> session \<Rightarrow> 'w \<Rightarrow> (session step \<times> 'w) option" where
  "session_file_load L F ss w =
     (if s_filename ss = [] then Some (Failed ss, w)
      else case fs_open F False (s_filename ss) w of
        (None, w1) \<Rightarrow> Some (Failed ss, w1)
      | (Some io, w1) \<Rightarrow>
          Option.bind (session_prv_load_from_io L (fs_ops F) ss io) (\<lambda>(r, io1).
            case r of Crash \<Rightarrow> Some (Crash, w1) | _ \<Rightarrow> file_release F (s_filename ss) r io1 w1))"

definition session_file_remove :: "('w, 'd, 'c) fs_env \<Rightarrow> session \<Rightarrow> 'w \<Rightarrow> (session step \<times> 'w) option" where
  "session_file_remove F ss w = Some (Done ss, snd (fs_remove F (s_filename ss) w))"

definition file_driver :: "libu \<Rightarrow> ('w, 'd, 'c) fs_env \<Rightarrow> 'w ses_driver" where
  "file_driver L F =
     \<lparr>drv_load = session_file_load L F, drv_save = session_file_save L F, drv_remove = session_file_remove F\<rparr>"

definition session_file_create ::
  "libu \<Rightarrow> ses_env \<Rightarrow> session_opt \<Rightarrow> ('w, 'd, 'c) fs_env \<Rightarrow> request \<Rightarrow> response \<Rightarrow> 'w \<Rightarrow> (session step \<times> 'w) option" where
  "session_file_create L V so F rq rs w =
     (if \<not> u_malloc L 64 then Some (Failed (session_blank rq rs), w)
      else case session_prv_init L V so (session_blank rq rs) of
        Failed ss \<Rightarrow> free_failed L V so (file_driver L F) ss w
      | Crash \<Rightarrow> Some (Crash, w)
      | Done ss \<Rightarrow>
          (case (if s_filename ss \<noteq> [] then fs_mtime F (s_filename ss) w else None) of
             Some t \<Rightarrow> Some (Done (ss\<lparr>s_mtime := to_int32 t\<rparr>), w)
           | None \<Rightarrow>
               (if se_time V = - 1 then free_failed L V so (file_driver L F) ss w
                else Some (Done (ss\<lparr>s_mtime := to_int32 (se_time V)\<rparr>), w))))"

subsection \<open>Creation\<close>

text \<open>The storage of both drivers side by side; each driver works on its own half.\<close>

definition on_half ::
  "('u \<Rightarrow> 'h) \<Rightarrow> ('h \<Rightarrow> 'u \<Rightarrow> 'u) \<Rightarrow> ('h \<Rightarrow> (session step \<times> 'h) option) \<Rightarrow> 'u \<Rightarrow> (session step \<times> 'u) option" where
  "on_half get put f w = map_option (\<lambda>(r, h). (r, put h w)) (f (get w))"

definition on_mem :: "(mses \<Rightarrow> (session step \<times> mses) option) \<Rightarrow> mses \<times> 'w \<Rightarrow> (session step \<times> mses \<times> 'w) option" where
  "on_mem f w = on_half fst (\<lambda>h w. (h, snd w)) f w"

definition on_files :: "('w \<Rightarrow> (session step \<times> 'w) option) \<Rightarrow> mses \<times> 'w \<Rightarrow> (session step \<times> mses \<times> 'w) option" where
  "on_files f w = on_half snd (\<lambda>h w. (fst w, h)) f w"

definition both_drivers ::
  "session_opt \<Rightarrow> mses ses_driver \<Rightarrow> 'w ses_driver \<Rightarrow> (mses \<times> 'w) ses_driver" where
  "both_drivers so Dm Df =
     (case so_type so of
        SESSION_TYPE_MEMORY \<Rightarrow>
          \<lparr>drv_load = (\<lambda>ss. on_mem (drv_load Dm ss)), drv_save = (\<lambda>ss. on_mem (drv_save Dm ss)),
           drv_remove = (\<lambda>ss. on_mem (drv_remove Dm ss))\<rparr>
      | SESSION_TYPE_FILE \<Rightarrow>
          \<lparr>drv_load = (\<lambda>ss. on_files (drv_load Df ss)), drv_save = (\<lambda>ss. on_files (drv_save Df ss)),
           drv_remove = (\<lambda>ss. on_files (drv_remove Df ss))\<rparr>)"

definition session_create ::
  "libu \<Rightarrow> ses_env \<Rightarrow> session_opt \<Rightarrow> mses_env \<Rightarrow> (string \<Rightarrow> mses_reply) option \<Rightarrow> ('w, 'd, 'c) fs_env \<Rightarrow>
   request \<Rightarrow> response \<Rightarrow> mses \<times> 'w \<Rightarrow> (session step \<times> mses \<times> 'w) option" where
  "session_create L V so Em parent F rq rs w =
     (let Dm = mem_driver L Em parent; Df = file_driver L F in
      Option.bind
        (case so_type so of
           SESSION_TYPE_FILE \<Rightarrow> on_files (session_file_create L V so F rq rs) w
         | SESSION_TYPE_MEMORY \<Rightarrow> on_mem (session_mem_create L V so Dm rq rs) w)
        (\<lambda>(r, w1). case r of
           Done ss \<Rightarrow> session_resume L V so (both_drivers so Dm Df) ss w1
         | other \<Rightarrow> Some (other, w1)))"

section \<open>Saving and loading\<close>

text \<open>The text of a saved session, and the buffer its size is computed for.\<close>

definition session_text :: "(string \<times> char list) list \<Rightarrow> string" where
  "session_text ps = concat (map (\<lambda>p. url_pair p @ [LF]) ps)"

definition text_space :: "(string \<times> char list) list \<Rightarrow> nat" where
  "text_space ps = sum_list (map (\<lambda>p. 3 * length (fst p) + 3 * length (cstr (snd p)) + 4) ps)"

definition bound_view :: "(string \<times> char list) list \<Rightarrow> (string \<times> char list option) list" where
  "bound_view ps = map (\<lambda>p. (fst p, Some (snd p))) ps"

definition storable :: "string \<times> char list \<Rightarrow> bool" where
  "storable p \<longleftrightarrow> pair_ok p \<and> length (url_pair p) \<le> 1022"

lemma bound_view_simps [simp]: "bound_view [] = []" "bound_view (p # ps) = (fst p, Some (snd p)) # bound_view ps"
  by (simp_all add: bound_view_def)

lemma session_text_simps [simp]: "session_text [] = []" "session_text (p # ps) = url_pair p @ LF # session_text ps"
  by (simp_all add: session_text_def)

lemma text_space_simps [simp]: "text_space [] = 0"
  "text_space (p # ps) = 3 * length (fst p) + 3 * length (cstr (snd p)) + 4 + text_space ps"
  by (simp_all add: text_space_def)

lemma calc_maxsize_loop:
  "\<forall>a \<in> set as. vheap m a \<noteq> None \<Longrightarrow> map (\<lambda>a. var_pair (the (vheap m a))) as = bound_view ps \<Longrightarrow> sz + text_space ps < SIZE_LIMIT \<Longrightarrow>
   vars_foreach (calc_maxsize_cb m) as sz = Ok (sz + text_space ps)"
proof (induction as arbitrary: ps sz)
  case (Cons a as)
  then obtain v where v: "vheap m a = Some v" by auto
  obtain p qs where ps: "ps = p # qs" using Cons.prems(2) by (cases ps) auto
  have p: "sname v = fst p" "vdata v = Some (snd p)" "map (\<lambda>a. var_pair (the (vheap m a))) as = bound_view qs"
    using Cons.prems(2) v ps by (auto simp: var_pair_def)
  have "session_prv_calc_maxsize v sz = sz + (3 * length (fst p) + 3 * length (cstr (snd p)) + 4)"
    using Cons.prems(3) ps p by (simp add: session_prv_calc_maxsize_def var_get_value_def Let_def)
  then have cb: "calc_maxsize_cb m a sz = Ok (False, sz + (3 * length (fst p) + 3 * length (cstr (snd p)) + 4))"
    by (simp add: calc_maxsize_cb_def v)
  have "vars_foreach (calc_maxsize_cb m) as (sz + (3 * length (fst p) + 3 * length (cstr (snd p)) + 4)) =
      Ok (sz + (3 * length (fst p) + 3 * length (cstr (snd p)) + 4) + text_space qs)"
    using Cons.prems(1,3) ps p(3) by (intro Cons.IH) auto
  with cb show ?case by (simp add: ps add.assoc)
qed (simp add: bound_view_def)

lemma save_var_text:
  assumes "libu_ok L" "libu_mem L" "var_ok v" "var_pair v = (fst p, Some (snd p))" "pair_ok p"
  shows "session_prv_save_var L E v io = io_vprintf L E (url_pair p @ [LF]) io"
proof -
  have v: "sname v = fst p" "vdata v = Some (snd p)" "vsize v = length (snd p)"
    using assms(3,4) by (auto simp: var_pair_def var_ok_def)
  have e: "u_urlncpy L (s @ [NUL]) (length s) CPY_ENCODE = Ok (url_escape s, length (url_escape s))" for s
    by (simp add: u_urlncpy_def counted_def url_encode_eq)
  have c: "cstr (url_escape s) = url_escape s" for s by (rule cstr_id) (rule url_escape_clean)
  show ?thesis
    using assms(5)
    by (simp add: session_prv_save_var_def v e c Let_def var_get_value_size_def libu_memD [OF assms(1,2)] url_pair_def pair_ok_def)
qed



text \<open>Freeing a stream on a buffer: the last reference goes, whatever the device still holds.\<close>

lemma buf_free_ok: "chain io = [] \<Longrightarrow> mem_good (dev io) \<Longrightarrow> wcount io = 0 \<Longrightarrow> \<exists>r. io_free (mem_ops tr fl) io = Some r"
  by (cases "refcnt io = 0"; cases "refcnt io = 1")
     (auto simp: io_free_def Let_def io_release_def io_codecs_remove_def io_flush_def flush_loop.simps io_close_def mem_ops_def io_mem_close_def)


context read_stream
begin

lemma line_end:
  assumes "libu_ok L" "libu_mem L" "plain io" "avail io = l" "LF \<notin> set l" "length l \<le> 1023" "l = [] \<or> last l \<noteq> CR"
  shows "\<exists>line io'. u_getline L E io = Some (False, line, io') \<and> plain io' \<and> same_out io io'"
proof -
  have two: "2 \<le> (1024 :: nat)" by simp
  have u: "upto_stop LF x = x" if "LF \<notin> set x" for x using that by (induction x) auto
  have g: "\<exists>io'. io_gets L E 1024 io = Some (Some (take 1023 x), io') \<and> plain io' \<and>
      avail io' = drop 1023 x \<and> same_out io io'"
    if "plain io" "avail io = x" "LF \<notin> set x" for io x
  proof -
    from io_get_until_ok [OF assms(1,2) that(1) two, of LF] that(2) u [OF that(3)] obtain io' where
      io': "io_gets L E 1024 io = Some (Some (take 1023 x), io')" "plain io'" "x = take 1023 x @ avail io'"
        "same_out io io'" by (auto simp: io_gets_def)
    moreover have "avail io' = drop 1023 x" using io'(3) by (metis append_take_drop_id same_append_eq)
    ultimately show ?thesis by blast
  qed
  from g [OF assms(3-5)] assms(6) obtain io1 where
    io1: "io_gets L E 1024 io = Some (Some l, io1)" "plain io1" "avail io1 = []" "same_out io io1" by auto
  from g [OF io1(2,3)] obtain io2 where io2: "io_gets L E 1024 io1 = Some (Some [], io2)" "plain io2" "same_out io1 io2" by auto
  show ?thesis
  proof (cases "l = []")
    case True
    with io1 show ?thesis unfolding u_getline_def by (subst getline_loop.simps) simp
  next
    case False
    have "last l \<noteq> LF" using assms(5) last_in_set [OF False] by metis
    with False have nl: "\<not> u_isnl L (last l)" using assms(7) by (auto simp: libu_ok_ctype [OF assms(1)])
    have "getline_loop L E (butlast l) io1 = Some (False, butlast l, io2)"
      by (subst getline_loop.simps) (simp add: io2)
    with False nl io1(1) io2(2) same_out_trans [OF io1(4) io2(3)] show ?thesis
      unfolding u_getline_def by (subst getline_loop.simps) (simp add: libu_memD [OF assms(1,2)])
  qed
qed

end

lemma getline_end:
  assumes "libu_ok L" "libu_mem L" "mem_src.plain io" "mem_src.avail io = l" "LF \<notin> set l" "length l \<le> 1023" "l = [] \<or> last l \<noteq> CR"
  shows "\<exists>line io'. u_getline L (mem_ops tr fl) io = Some (False, line, io') \<and> mem_src.plain io' \<and> mem_src.same_out io io'"
  by (rule mem_src.line_end [OF assms])

lemma load_vars_text:
  assumes "libu_ok L" "libu_mem L" "LF \<notin> set tail" "length tail \<le> 1023" "tail = [] \<or> last tail \<noteq> CR"
  shows "mem_src.plain io \<Longrightarrow> mem_src.avail io = session_text ps @ tail \<Longrightarrow> \<forall>p \<in> set ps. storable p \<Longrightarrow> session_ok ss \<Longrightarrow>
    \<exists>ss' io'. load_vars_loop L (mem_ops tr fl) ss io = Some (Done ss', io') \<and> mem_src.plain io' \<and> mem_src.same_out io io' \<and> session_ok ss' \<and>
      session_view ss' = session_view ss @ bound_view ps \<and> upd_vars (s_vars ss) (s_mem ss) ss' = ss"
proof (induction ps arbitrary: ss io)
  case Nil
  have "mem_src.avail io = tail" using Nil.prems(2) by simp
  from getline_end [OF assms(1,2) Nil.prems(1) this assms(3-5), of tr fl] Nil.prems(4) show ?case
    by (auto simp: load_vars_loop.simps)
next
  case (Cons p ps)
  let ?v = "var_of (fst p) (snd p)" and ?m = "s_mem ss" and ?vs = "s_vars ss"
  let ?ss = "upd_vars (?vs\<lparr>vlist := vlist ?vs @ [vnext ?m]\<rparr>) (snd (var_alloc ?v ?m)) ss"
  have p: "pair_ok p" "length (url_pair p) \<le> 1022" "snd p \<noteq> []" using Cons.prems(3) by (auto simp: storable_def pair_ok_def)
  have clean: "LF \<notin> set (url_pair p)" "NUL \<notin> set (url_pair p)" "url_pair p \<noteq> []" by (auto simp: url_pair_def url_escape_clean)
  have "mem_src.avail io = url_pair p @ LF # (session_text ps @ tail)" using Cons.prems(2) by simp
  from getline_rest [OF assms(1,2) Cons.prems(1) this clean(1) p(2), of tr fl "[]"] obtain io1 where
    io1: "u_getline L (mem_ops tr fl) io = Some (True, url_pair p, io1)" "mem_src.plain io1" "mem_src.avail io1 = session_text ps @ tail"
      "mem_src.same_out io io1" by (auto simp: u_getline_def)
  have ok: "vars_ok ?vs ?m" using Cons.prems(4) by (simp add: session_ok_def)
  note a = vars_ok_alloc [OF ok var_of_ok(1), of "fst p" "snd p"]
  have ss: "session_ok ?ss" "session_view ?ss = session_view ss @ [(fst p, Some (snd p))]"
    using a(3,4) Cons.prems(4) p(3) by (auto simp: session_ok_def session_view_def var_alloc_def)
  from Cons.IH [OF io1(2,3) _ ss(1)] Cons.prems(3) ss(2) obtain ss' io' where
    l: "load_vars_loop L (mem_ops tr fl) ?ss io1 = Some (Done ss', io')" "mem_src.plain io'" "mem_src.same_out io1 io'" "session_ok ss'"
      "session_view ss' = session_view ss @ bound_view (p # ps)" "upd_vars (s_vars ?ss) (s_mem ?ss) ss' = ?ss" by auto
  have "upd_vars ?vs ?m ss' = ss" using l(6) by (cases ss'; cases ss) simp
  moreover have "load_vars_loop L (mem_ops tr fl) ss io = load_vars_loop L (mem_ops tr fl) ?ss io1"
    by (subst load_vars_loop.simps) (simp add: io1(1) clean(3) cstr_id [OF clean(2)] vars_add_urlvar_pair [OF assms(1,2) p(1)])
  ultimately show ?case using l mem_src.same_out_trans [OF io1(4) l(3)] by auto
qed

lemma load_from_buf_text:
  assumes "libu_ok L" "libu_mem L" "LF \<notin> set tail" "length tail \<le> 1023" "tail = [] \<or> last tail \<noteq> CR"
    and "\<forall>p \<in> set ps. storable p" "session_ok ss" "length (session_text ps @ tail) < SIZE_LIMIT"
  shows "\<exists>ss'. session_prv_load_from_buf L ss (session_text ps @ tail) = Some (Done ss') \<and> session_ok ss' \<and>
      session_view ss' = session_view ss @ bound_view ps \<and> upd_vars (s_vars ss) (s_mem ss) ss' = ss"
proof -
  let ?io = "mem_io (session_text ps @ tail) :: (io_mem, unit) io"
  from load_vars_text [OF assms(1-5) mem_io_ok(1,3) [OF assms(8)] assms(6,7), of null_transform null_flush] obtain ss' io1 where
    l: "load_vars_loop L buf_ops ss ?io = Some (Done ss', io1)" "mem_src.plain io1" "mem_src.same_out ?io io1" "session_ok ss'"
      "session_view ss' = session_view ss @ bound_view ps" "upd_vars (s_vars ss) (s_mem ss) ss' = ss" by auto
  have "chain io1 = []" "mem_good (dev io1)" "wcount io1 = 0"
    using l(2,3) by (simp_all add: mem_src.plain_def mem_src.same_out_def mem_io_def)
  with buf_free_ok [of io1 null_transform null_flush] obtain r where "io_free buf_ops io1 = Some r" by blast
  then show ?thesis
    using l \<open>chain io1 = []\<close>
    by (simp add: session_prv_load_from_buf_def session_prv_load_from_io_def io_mem_create_eq [OF assms(1,2)] libu_memD [OF assms(1,2)]
        io_codecs_remove_def)
qed


section \<open>The contract of a driver\<close>










lemma session_blank_ok [simp]: "session_ok (session_blank rq rs)" "session_view (session_blank rq rs) = []"
  by (simp_all add: session_ok_def session_view_def session_blank_def vars_ok_def vmem_ok_def vmem_empty_def vars_view_def)

lemma hex_escape_xdigit: "list_all c_isxdigit (hex_escape s)"
proof -
  have "c_isxdigit (u_tochex k)" if "k < 16" for k
    using that by (auto simp: u_tochex_def ctype_defs)
  then have "list_all c_isxdigit (hex_enc_char c)" for c
    by (simp add: hex_enc_char_def)
  then show ?thesis by (induction s) (simp_all add: hex_escape_def)
qed

section \<open>A variable too long for its buffer\<close>

text \<open>Every byte escaped: the text of a variable is one byte longer than the space computed for it.\<close>

definition all_escaped :: "char list \<Rightarrow> bool" where
  "all_escaped s \<longleftrightarrow> (\<forall>c \<in> set s. length (url_enc_char c) = 3)"

lemma all_escaped_length: "all_escaped s \<Longrightarrow> length (url_escape s) = 3 * length s"
  by (induction s) (auto simp: all_escaped_def url_escape_def)

lemma write_short:
  assumes "libu_ok L" "libu_mem L" "chain io = []" "wcount io = 0" "\<not> wballoc io" "b \<noteq> []" "length b < IO_WR_BUFSZ"
  shows "\<exists>t. io_write L E b io = Some (Done (io\<lparr>wballoc := True, wbuf := b @ t, wcount := length b\<rparr>)) \<and> length (b @ t) = IO_WR_BUFSZ"
proof -
  let ?io = "io\<lparr>wballoc := True, wbuf := replicate IO_WR_BUFSZ NUL\<rparr>"
  have m: "min (length b) IO_WR_BUFSZ = length b" using assms(7) by simp
  have "io_write L E b io = write_loop E b ?io"
    using assms(5) by (simp add: io_write_def io_wbuf_alloc_def libu_memD [OF assms(1,2)])
  also have "\<dots> = write_loop E [] (wbuf_put b (?io\<lparr>chain := []\<rparr>))"
    using assms(3,4,6,7) by (subst write_loop.simps) (simp add: flush_if_full_def io_transfer_def m IO_WR_BUFSZ_def)
  also have "\<dots> = Some (Done (wbuf_put b (?io\<lparr>chain := []\<rparr>)))" by (subst write_loop.simps) simp
  also have "wbuf_put b (?io\<lparr>chain := []\<rparr>) =
      io\<lparr>wballoc := True, wbuf := b @ drop (length b) (replicate IO_WR_BUFSZ NUL), wcount := length b\<rparr>"
    using assms(3,4) by (simp add: wbuf_put_def)
  finally have "io_write L E b io = Some (Done (io\<lparr>wballoc := True, wbuf := b @ drop (length b) (replicate IO_WR_BUFSZ NUL), wcount := length b\<rparr>))" .
  moreover have "length (b @ drop (length b) (replicate IO_WR_BUFSZ NUL)) = IO_WR_BUFSZ" using assms(7) by simp
  ultimately show ?thesis by blast
qed

lemma save_short:
  assumes "libu_ok L" "libu_mem L" "session_ok ss" "session_view ss = bound_view [p]" "pair_ok p"
    and "length (url_pair p) = text_space [p]" "length (url_pair p) < 4095"
  shows "\<exists>buf. session_prv_save_to_buf L ss = Some (Ok (buf, length (url_pair p))) \<and> take (length (url_pair p)) buf = url_pair p"
proof -
  let ?as = "vlist (s_vars ss)" and ?m = "s_mem ss" and ?k = "length (url_pair p)" and ?t = "url_pair p @ [LF]"
  let ?io = "mem_io (replicate ?k NUL) :: (io_mem, unit) io"
  have view: "map (\<lambda>a. var_pair (the (vheap ?m a))) ?as = bound_view [p]" using assms(4) by (simp add: session_view_def vars_view_def)
  then obtain a where as: "?as = [a]" by (auto simp: bound_view_def map_eq_Cons_conv)
  then obtain v where v: "vheap ?m a = Some v" "var_ok v" using assms(3) vars_okD [of "s_vars ss" ?m a] by (auto simp: session_ok_def)
  have vp: "var_pair v = (fst p, Some (snd p))" using view as v by simp
  have lim: "?k < SIZE_LIMIT" "text_space [p] < SIZE_LIMIT" using assms(6,7) by (simp_all add: SIZE_LIMIT_def)
  have calc: "vars_foreach (calc_maxsize_cb ?m) ?as 0 = Ok ?k"
    using calc_maxsize_loop [of ?as ?m "[p]" 0] view as v assms(6) lim(2) by simp
  have io: "chain ?io = []" "wcount ?io = 0" "\<not> wballoc ?io" by (simp_all add: mem_io_def)
  from write_short [OF assms(1,2) io, of ?t buf_ops] assms(7) obtain t where
    w: "io_write L buf_ops ?t ?io = Some (Done (?io\<lparr>wballoc := True, wbuf := ?t @ t, wcount := length ?t\<rparr>))" "length (?t @ t) = IO_WR_BUFSZ"
    by (auto simp: IO_WR_BUFSZ_def)
  let ?w = "?io\<lparr>wballoc := True, wbuf := ?t @ t, wcount := length ?t\<rparr>"
  have k0: "0 < ?k" by (simp add: url_pair_def)
  have g: "mem_good (dev ?w)" "mem_space (dev ?w) = ?k" "?k < wcount ?w" "wcount ?w \<le> length (wbuf ?w)" "mem_sunk (dev ?w) = []"
    using lim(1) w(2) by (simp_all add: mem_io_def mem_good_def mem_space_def mem_sunk_def)
  from mem_flush_short [OF g(1,2) k0 g(3,4), of null_transform null_flush] obtain d' where
    f: "io_flush buf_ops ?w = Done (?w\<lparr>dev := d', wcount := 1\<rparr>)" "mem_good d'" "mem_sunk d' = url_pair p"
      "moff d' = length (mbuf d')" "length (mbuf d') = ?k" using g(5) by (auto simp: mem_io_def)
  have d: "mbuf d' = url_pair p" "moff d' = ?k" using f(3-5) by (simp_all add: mem_sunk_def)
  have "save_loop L buf_ops ?m ?as ?io = Some (Done ?w)"
    using as v w(1) k0 assms(7) by (simp add: save_var_text [OF assms(1,2) v(2) vp assms(5)] io_vprintf_def libu_memD [OF assms(1,2)])
  moreover have "io_tell buf_ops ?w = (Some ?k, Done (?w\<lparr>dev := d', wcount := 1\<rparr>))"
    using f(1) d(2) by (simp add: io_tell_def mem_ops_def io_mem_tell_def)
  moreover have "\<exists>r. io_free buf_ops (?w\<lparr>dev := d', wcount := 1\<rparr>) = Some r"
    by (simp add: io_free_def mem_io_def Let_def io_release_def io_codecs_remove_def ex_bool_eq)
  ultimately show ?thesis
    using d io(1) by (auto simp: session_prv_save_to_buf_def calc libu_memD [OF assms(1,2)] io_mem_create_eq [OF assms(1,2)]
      session_prv_save_to_io_def io_seq_def io_codecs_remove_def io_mem_get_buf_def)
qed


section \<open>Expiry\<close>

lemma drop_cookie: "\<exists>ss'. kept (set_sid_cookie L so None ss) = Some ss' \<and> s_vars ss' = s_vars ss \<and> s_mem ss' = s_mem ss \<and> s_filename ss' = s_filename ss"
proof -
  have "\<exists>rs'. response_set_cookie L n None e p d sec rs = Done rs' \<or> response_set_cookie L n None e p d sec rs = Failed rs'" for n e p d sec rs
    by (auto simp: response_set_cookie_def cookie_text_def cookie_append_def response_add_field_def split: prod.splits option.splits)
  then obtain rs' where "response_set_cookie L (so_name so) None 0 None None False (s_rs ss) = Done rs' \<or>
      response_set_cookie L (so_name so) None 0 None None False (s_rs ss) = Failed rs'" by blast
  then show ?thesis by (auto simp: set_sid_cookie_def)
qed

section \<open>Examples\<close>

definition blank_response :: response where
  "blank_response = \<lparr>rs_header = \<lparr>h_fields = [], nfields = 0, h_next = 0\<rparr>, rs_status = 200, rs_method = HM_GET, rs_cgi = False\<rparr>"

text \<open>A session with one variable.\<close>

definition one_var :: "string \<Rightarrow> string \<Rightarrow> session" where
  "one_var n v = (session_blank blank_request blank_response)
     \<lparr>s_vars := \<lparr>vlist = [0], foreign = False\<rparr>, s_mem := snd (var_alloc (var_of n (v @ [NUL])) vmem_empty), s_filename := ''f'', s_id := ''1''\<rparr>"

lemma one_var_ok: "session_ok (one_var n v)" "session_view (one_var n v) = [(n, Some (v @ [NUL]))]"
  by (auto simp: one_var_def session_blank_def session_ok_def session_view_def vars_ok_def vmem_ok_def vars_view_def var_alloc_def vmem_empty_def
      split: if_splits)

section \<open>Properties\<close>

text \<open>
  Session variables are a store of names: after any run of assignments every variable reads
  as the last value assigned to it under any capitalisation, and every other variable as before.
\<close>

theorem session_set_get:
  assumes "libu_ok L" "libu_mem L" "session_ok ss" "\<forall>p \<in> set ps. fst p \<noteq> [] \<and> NUL \<notin> set (snd p)"
  shows "\<exists>ss'. named_store.assign_all (session_set L) ps ss = Done ss' \<and> session_ok ss' \<and>
     (\<forall>n. session_get ss' n = (case latest ps n of Some v \<Rightarrow> Ok (Some v) | None \<Rightarrow> session_get ss n))"
  using session_store.assign_all_lookup [of L ss ps] assms by auto

theorem session_set_get_witness:
  "\<forall>rs. \<exists>ss'. named_store.assign_all (session_set libu_ref) [(''user'', ''a''), (''lang'', ''b''), (''user'', ''c'')]
       (session_blank blank_request rs) = Done ss' \<and> session_get ss' ''user'' = Ok (Some ''c'')"
proof -
  let ?ps = "[(''user'', ''a''), (''lang'', ''b''), (''user'', ''c'')]"
  have h: "\<forall>p \<in> set ?ps. fst p \<noteq> [] \<and> NUL \<notin> set (snd p)" by simp
  have "latest ?ps ''user'' = Some ''c''" by (simp add: strcaseeq_refl)
  with session_set_get [OF libu_ref_ok libu_ref_mem session_blank_ok(1) h, of blank_request] show ?thesis by fastforce
qed



text \<open>
  C31.  A session identifier is always 32 hexadecimal digits, whatever the client sent as its
  cookie, so the file name built from it stays inside the session directory.
\<close>

theorem session_id_safe:
  assumes "libu_ok L" "\<And>b. length (se_digest V b) = 16" "session_prv_set_id L V so sid ss = Done ss'"
  shows "session_is_good_id (s_id ss')"
proof -
  have md5: "\<exists>i. u_md5 (se_digest V) buf n = Ok i \<and> session_is_good_id i" for buf n
    using hex_encode_eq [of "se_digest V (take n buf)" "[]"] assms(2) [of "take n buf"] hex_escape_xdigit
    by (simp add: u_md5_def u_tohex_def session_is_good_id_def SESSION_ID_LENGTH_def)
  have keep: "set_sid_cookie L so v s = Done s' \<Longrightarrow> s_id s' = s_id s" for v s s'
    by (auto simp: set_sid_cookie_def split: step.splits)
  have gen: "session_gen_id L V so s = Done s' \<Longrightarrow> session_is_good_id (s_id s')" for s s'
  proof -
    assume g: "session_gen_id L V so s = Done s'"
    then obtain sec usec where tv: "se_tv V = Some (sec, usec)" by (auto simp: session_gen_id_def Let_def split: option.splits)
    obtain buf trunc where b: "u_snprintf L (dec sec @ dec (se_pid V) @ dec usec @ dec (se_rand V)) 257 = (buf, trunc)" by fastforce
    from md5 [of buf "length buf"] obtain i where i: "u_md5 (se_digest V) buf (length buf) = Ok i" "session_is_good_id i" by blast
    from g tv b i(1) obtain s1 where "set_sid_cookie L so None (s\<lparr>s_id := i\<rparr>) = Done s1" "set_sid_cookie L so (Some (s_id s1)) s1 = Done s'"
      by (auto simp: session_gen_id_def Let_def and_then_Done split: if_splits)
    then show ?thesis using keep i(2) by fastforce
  qed
  have name: "session_set_filename V so s = Done s' \<Longrightarrow> s_id s' = s_id s" for s s'
    by (auto simp: session_set_filename_def split: if_splits prod.splits)
  from assms(3) gen name show ?thesis
    by (auto simp: session_prv_set_id_def and_then_Done libu_ok_snprintf [OF assms(1)] session_is_good_id_def SESSION_ID_LENGTH_def split: option.splits if_splits)
qed

theorem session_id_safe_witness:
  "\<exists>ss'. session_prv_set_id libu_ref \<lparr>se_tv = None, se_pid = 3, se_rand = 4, se_time = 5, se_digest = (\<lambda>b. replicate 16 NUL),
        se_path = (\<lambda>s n. (s, False)), se_fmax = 256\<rparr> so_default (Some (replicate 32 (CHR ''a''))) (session_blank blank_request blank_response) = Done ss' \<and>
     session_is_good_id (s_id ss')"
proof -
  let ?V = "\<lparr>se_tv = None, se_pid = 3, se_rand = 4, se_time = 5, se_digest = (\<lambda>b. replicate 16 NUL),
        se_path = (\<lambda>s n. (s, False)), se_fmax = 256\<rparr>"
  have "session_is_good_id (replicate 32 (CHR ''a''))" by (simp add: session_is_good_id_def SESSION_ID_LENGTH_def list_all_iff ctype_defs ord_def)
  then have "\<exists>ss'. session_prv_set_id libu_ref ?V so_default (Some (replicate 32 (CHR ''a''))) (session_blank blank_request blank_response) = Done ss'"
    by (simp add: session_prv_set_id_def libu_ok_snprintf [OF libu_ref_ok] session_set_filename_def SESSION_ID_LENGTH_def)
  then obtain ss' where ss': "session_prv_set_id libu_ref ?V so_default (Some (replicate 32 (CHR ''a''))) (session_blank blank_request blank_response) = Done ss'"
    by blast
  from session_id_safe [OF libu_ref_ok _ ss'] ss' show ?thesis by simp
qed

text \<open>
  A session can lose a variable: where every byte of a name and of a value needs an escape,
  the buffer computed for the session is one byte short, the newline that ends the variable is
  not written, and loading what was saved drops the variable without an error.
\<close>

theorem session_variable_lost:
  assumes "libu_ok L" "libu_mem L" "session_ok ss" "session_view ss = [(n, Some (d @ [NUL]))]"
    and "n \<noteq> []" "NUL \<notin> set n" "NUL \<notin> set d" "all_escaped n" "all_escaped d" "3 * length n + 3 * length d \<le> 1000"
    and "session_ok ss0" "session_view ss0 = []"
  shows "\<exists>buf sz ss1. session_prv_save_to_buf L ss = Some (Ok (buf, sz)) \<and>
     session_prv_load_from_buf L ss0 (take sz buf) = Some (Done ss1) \<and> session_view ss1 = []"
proof -
  let ?p = "(n, d @ [NUL])"
  have "all_escaped (d @ [NUL])" using assms(9) by (simp add: all_escaped_def url_enc_char_def url_plain_def ctype_defs ord_def)
  then have len: "length (url_pair ?p) = 3 * length n + 3 * length d + 4"
    using all_escaped_length [OF assms(8)] all_escaped_length [of "d @ [NUL]"] by (simp add: url_pair_def)
  have p: "pair_ok ?p" using assms(5,6,10) by (auto simp: pair_ok_def SIZE_LIMIT_def)
  have sp: "length (url_pair ?p) = text_space [?p]" using len assms(7) by simp
  have small: "length (url_pair ?p) < 4095" "length (url_pair ?p) \<le> 1023" using len assms(10) by simp_all
  have "session_view ss = bound_view [?p]" using assms(4) by simp
  from save_short [OF assms(1-3) this p sp small(1)] obtain buf where
    buf: "session_prv_save_to_buf L ss = Some (Ok (buf, length (url_pair ?p)))" "take (length (url_pair ?p)) buf = url_pair ?p" by blast
  have clean: "LF \<notin> set (url_pair ?p)" "CR \<notin> set (url_pair ?p)" "url_pair ?p \<noteq> []" by (auto simp: url_pair_def url_escape_clean)
  then have "last (url_pair ?p) \<noteq> CR" by (metis last_in_set)
  with load_from_buf_text [OF assms(1,2) clean(1) small(2), of "[]" ss0] assms(11,12) small obtain ss1 where
    "session_prv_load_from_buf L ss0 (url_pair ?p) = Some (Done ss1)" "session_view ss1 = []" by (auto simp: SIZE_LIMIT_def)
  with buf show ?thesis by auto
qed

theorem session_variable_lost_witness:
  "\<exists>buf sz ss1. session_prv_save_to_buf libu_ref (one_var ''/'' ''//'') = Some (Ok (buf, sz)) \<and>
     session_prv_load_from_buf libu_ref (session_blank blank_request blank_response) (take sz buf) = Some (Done ss1) \<and> session_view ss1 = []"
proof -
  have e: "all_escaped ''/''" "all_escaped ''//''" by (simp_all add: all_escaped_def url_enc_char_def url_plain_def ctype_defs ord_def)
  show ?thesis
    by (rule session_variable_lost [OF libu_ref_ok libu_ref_mem one_var_ok(1) one_var_ok(2) _ _ _ e _ session_blank_ok]) simp_all
qed

text \<open>
  C32.  An expired session is gone: when the session a client names is older than the configured
  age, the request gets it empty and marked as removed, and the store no longer holds it.
\<close>

theorem session_expired:
  assumes "libu_ok L" "s_id ss \<noteq> []" "session_load (mem_driver L Em None) ss w = Some (r, w)" "kept r = Some ss1"
    and "session_ok ss1" "so_max_age so < session_age V ss1" "store_ok w" "\<not> pipc Em"
  shows "\<exists>ss' w'. session_resume L V so (mem_driver L Em None) ss w = Some (Done ss', w') \<and> session_view ss' = [] \<and>
     s_removed ss' \<and> store_map w' = (store_map w)(s_filename ss1 := None)"
proof -
  from session_clean_view [OF assms(1,5)] obtain ss2 where
    c: "session_clean L ss1 = Some (Done ss2)" "vlist (s_vars ss2) = []" and fn: "s_filename ss2 = s_filename ss1" by blast
  from drop_cookie [of L so ss2] obtain ss3 where
    ss3: "kept (set_sid_cookie L so None ss2) = Some ss3" "s_vars ss3 = s_vars ss2" "s_filename ss3 = s_filename ss2" by blast
  from store_remove_map [OF assms(7), of "s_filename ss1"] obtain w' where
    w': "so_atom_remove (s_filename ss1) w = Done w'" "store_map w' = (store_map w)(s_filename ss1 := None)" by blast
  have "session_remove L so (mem_driver L Em None) ss2 w = Some (Done (ss3\<lparr>s_removed := True\<rparr>), w')"
    using ss3 fn w'(1) assms(8) by (simp add: session_remove_def mem_driver_def session_mem_drop_def session_mem_remove_def)
  moreover have "session_view (ss3\<lparr>s_removed := True\<rparr>) = []" using c(2) ss3(2) by (simp add: session_view_def vars_view_def)
  ultimately show ?thesis
    using assms(2,3,4,6) c(1) w'(2) by (auto simp: session_resume_def)
qed

theorem session_expired_witness:
  "\<exists>ss' w'. session_resume libu_ref \<lparr>se_tv = None, se_pid = 3, se_rand = 4, se_time = 5000, se_digest = (\<lambda>b. b), se_path = (\<lambda>s n. (s, False)), se_fmax = 256\<rparr>
       so_default (mem_driver libu_ref \<lparr>pipc = False, wr_ok = (\<lambda>_. True), time0 = 9\<rparr> None)
       ((session_blank blank_request blank_response)\<lparr>s_filename := ''f'', s_id := ''1''\<rparr>)
       \<lparr>so_atoms = \<lparr>a_list = [(0, \<lparr>a_id = ''f'', a_data = [], a_size = 0, a_arg = 7\<rparr>)], a_total = 0, a_count = 1\<rparr>,
         max_count = 4, mem_limit = 0, next_addr = 1, sent = []\<rparr> = Some (Done ss', w') \<and>
     s_removed ss' \<and> store_map w' ''f'' = None"
proof -
  let ?w = "\<lparr>so_atoms = \<lparr>a_list = [(0, \<lparr>a_id = ''f'', a_data = [], a_size = 0, a_arg = 7\<rparr>)], a_total = 0, a_count = 1\<rparr>,
         max_count = 4, mem_limit = 0, next_addr = 1, sent = []\<rparr>" and ?Em = "\<lparr>pipc = False, wr_ok = (\<lambda>_. True), time0 = 9\<rparr>"
  let ?V = "\<lparr>se_tv = None, se_pid = 3, se_rand = 4, se_time = 5000, se_digest = (\<lambda>b. b), se_path = (\<lambda>s n. (s, False)), se_fmax = 256\<rparr>"
  let ?ss = "(session_blank blank_request blank_response)\<lparr>s_filename := ''f'', s_id := ''1''\<rparr>"
  let ?s7 = "?ss\<lparr>s_mtime := to_int32 7\<rparr>"
  have "session_ok ?s7" using session_blank_ok(1) by (simp add: session_ok_def)
  with load_from_buf_text [OF libu_ref_ok libu_ref_mem, of "[]" "[]" ?s7] obtain ss1 where
    l: "session_prv_load_from_buf libu_ref ?s7 [] = Some (Done ss1)" "session_ok ss1" "upd_vars (s_vars ?s7) (s_mem ?s7) ss1 = ?s7" by auto
  have f: "s_mtime ss1 = 7" "s_filename ss1 = ''f''"
    using arg_cong [OF l(3), of s_mtime] arg_cong [OF l(3), of s_filename] by (simp_all add: to_int32_def)
  have load: "session_load (mem_driver libu_ref ?Em None) ?ss ?w = Some (Done ss1, ?w)"
    using l(1) by (simp add: session_load_def mem_driver_def session_mem_load_def atoms_get_def)
  have age: "so_max_age so_default < session_age ?V ss1" using f(1) by (simp add: session_age_def to_int32_def so_default_def)
  have ok: "store_ok ?w" by (simp add: store_ok_def atoms_ok_def node_size_def)
  have k: "kept (Done ss1) = Some ss1" and i: "s_id ?ss \<noteq> []" "\<not> pipc ?Em" by simp_all
  from session_expired [OF libu_ref_ok i(1) load k l(2) age ok i(2)] f(2) show ?thesis by auto
qed

end
