(* ===== verification/Children.thy ===== *)
theory Children
  imports Libu Counted_List
begin

text \<open>
  \<^verbatim>\<open>src/kloned/child.c\<close>: the list of child processes the server keeps.  A child refers to its
  backend by the backend's identifier; \<^verbatim>\<open>TAILQ_REMOVE\<close> of a node that is not linked is a fault.
\<close>

section \<open>Definitions\<close>

record child =
  c_pid :: nat
  c_be :: nat
  c_birth :: nat

record children =
  clist :: "child list"
  c_nchild :: nat

definition children_add :: "child \<Rightarrow> children \<Rightarrow> children" where
  "children_add c cs = cs\<lparr>clist := clist cs @ [c], c_nchild := size_add (c_nchild cs) 1\<rparr>"

definition children_del :: "child \<Rightarrow> children \<Rightarrow> children outcome" where
  "children_del c cs =
     (if c \<in> set (clist cs)
      then Ok (cs\<lparr>clist := remove1 c (clist cs), c_nchild := size_sub (c_nchild cs) 1\<rparr>) else Fault)"

definition children_count :: "children \<Rightarrow> nat" where
  "children_count cs = c_nchild cs"

function children_clear :: "children \<Rightarrow> children outcome" where
  "children_clear cs =
     (case clist cs of
        [] \<Rightarrow> Ok cs
      | c # _ \<Rightarrow> (case children_del c cs of Ok cs' \<Rightarrow> children_clear cs' | Fail \<Rightarrow> Fail | Fault \<Rightarrow> Fault))"
  by pat_completeness auto
termination
  by (relation "measure (\<lambda>cs. length (clist cs))") (auto simp: children_del_def length_remove1 split: if_splits)

declare children_clear.simps [simp del]

fun child_nth :: "child list \<Rightarrow> nat \<Rightarrow> child option" where
  "child_nth [] i = None"
| "child_nth (c # cs) i = (if i = 0 then Some c else child_nth cs (i - 1))"

definition children_getn :: "children \<Rightarrow> nat \<Rightarrow> child option" where
  "children_getn cs i = (if c_nchild cs \<le> i then None else child_nth (clist cs) i)"

fun by_pid :: "nat \<Rightarrow> child list \<Rightarrow> child option" where
  "by_pid p [] = None"
| "by_pid p (c # cs) = (if c_pid c = p then Some c else by_pid p cs)"

definition children_get_by_pid :: "children \<Rightarrow> nat \<Rightarrow> child option" where
  "children_get_by_pid cs p = by_pid p (clist cs)"

definition children_create :: "libu \<Rightarrow> children option" where
  "children_create L = (if u_malloc L 24 then Some \<lparr>clist = [], c_nchild = 0\<rparr> else None)"

definition child_create :: "libu \<Rightarrow> nat \<Rightarrow> nat \<Rightarrow> nat \<Rightarrow> child option" where
  "child_create L now p be = (if u_malloc L 40 then Some \<lparr>c_pid = p, c_be = be, c_birth = now\<rparr> else None)"

section \<open>The list and its counter\<close>

definition children_ok :: "children \<Rightarrow> bool" where
  "children_ok cs \<longleftrightarrow> c_nchild cs = length (clist cs) \<and> length (clist cs) < SIZE_LIMIT"

definition children_room :: "child \<Rightarrow> children \<Rightarrow> bool" where
  "children_room c cs \<longleftrightarrow> Suc (length (clist cs)) < SIZE_LIMIT"

lemma children_add_ok: "children_ok cs \<Longrightarrow> children_room c cs \<Longrightarrow> children_ok (children_add c cs)"
  by (simp add: children_ok_def children_room_def children_add_def)

lemma children_del_eq:
  "children_ok cs \<Longrightarrow> c \<in> set (clist cs) \<Longrightarrow>
   \<exists>cs'. children_del c cs = Ok cs' \<and> clist cs' = remove1 c (clist cs) \<and> children_ok cs'"
  by (cases "clist cs") (auto simp: children_del_def children_ok_def length_remove1 dest: length_pos_if_in_set)

interpretation children_list: counted_list clist children_count children_add children_del children_room children_ok
proof
  show "children_ok cs \<Longrightarrow> c \<in> set (clist cs) \<Longrightarrow> \<exists>cs'. children_del c cs = Ok cs' \<and>
      mset (clist cs') = mset (clist cs) - {#c#} \<and> children_ok cs'" for c cs
    using children_del_eq [of cs c] by (auto simp: mset_remove1)
qed (simp_all add: children_add_ok, simp_all add: children_ok_def children_count_def children_add_def)

lemma by_pid_Some: "by_pid p cs = Some c \<Longrightarrow> c \<in> set cs \<and> c_pid c = p"
  by (induction cs) (auto split: if_splits)

lemma by_pid_None: "by_pid p cs = None \<longleftrightarrow> p \<notin> c_pid ` set cs"
  by (induction cs) auto

lemma children_clear_ok: "children_ok cs \<Longrightarrow> \<exists>cs'. children_clear cs = Ok cs' \<and> clist cs' = [] \<and> children_ok cs'"
proof (induction cs rule: children_clear.induct)
  case (1 cs)
  show ?case
  proof (cases "clist cs")
    case Nil
    with "1.prems" show ?thesis by (subst children_clear.simps) simp
  next
    case (Cons c l)
    from children_del_eq [OF "1.prems", of c] Cons obtain cs' where
      "children_del c cs = Ok cs'" "children_ok cs'" by auto
    with "1.IH" [OF Cons] Cons show ?thesis by (subst children_clear.simps) simp
  qed
qed

end
