(* ===== verification/Server.thy ===== *)
theory Server
  imports Children Ppc
begin

text \<open>
  \<^verbatim>\<open>src/kloned/server.c\<close> in its OS_UNIX build with fork(2), and the handler of
  \<^verbatim>\<open>src/kloned/ppc_fork_child.c\<close>: the descriptors the server watches, the child processes it
  forks, counts, signals and reaps, and the dispatch of ready descriptors.  A process is the
  server object, the process context (\<^verbatim>\<open>ctx->pipc\<close>, \<^verbatim>\<open>ctx->backend\<close>), the channels of
  its descriptors, what the operating system will answer (the outcome of each
  \<^verbatim>\<open>socketpair\<close> and \<^verbatim>\<open>fork\<close> to come), the signals it has sent, and the rest of the world,
  which only pages and the other handlers change.  A backend is known by its identifier.
  Where the C program's behaviour is undefined the result is \<open>None\<close>: \<^verbatim>\<open>server.c\<close> sets and
  clears a descriptor without comparing it with \<^verbatim>\<open>FD_SETSIZE\<close>, hands a request cut short to
  its handler, and adds an alarm although a \<^verbatim>\<open>timerm_add\<close> that cannot allocate it crashes.
\<close>

section \<open>Definitions\<close>

datatype server_model = SERVER_MODEL_UNSET | SERVER_MODEL_FORK | SERVER_MODEL_ITERATIVE | SERVER_MODEL_PREFORK

record backend =
  be_id :: nat
  be_proto :: string
  be_model :: server_model
  be_ld :: "nat option"
  be_nchild :: nat
  be_max_child :: nat
  be_start_child :: nat
  be_max_rq :: nat
  be_fork_child :: nat

record server =
  bes :: "backend list"
  kids :: children
  rdfds :: "nat set"
  wrfds :: "nat set"
  exfds :: "nat set"
  hfd :: nat
  nbackend :: nat
  sv_nchild :: nat
  sv_max_child :: nat
  sv_stop :: bool
  klog_flush :: nat
  reap_children :: bool
  sv_uid :: int
  sv_gid :: int
  sv_allow_root :: bool
  sv_chroot :: "string option"
  sv_blind_chroot :: bool

datatype fork_result = Fork_error | Fork_child | Fork_parent nat

record 'w process =
  srv :: server
  pipc_fd :: "nat option"
  cur_be :: "nat option"
  chans :: "nat \<Rightarrow> chan"
  forks :: "((nat \<times> nat) option \<times> fork_result) list"
  killed :: "(nat \<times> nat) list"
  world :: 'w

abbreviation upd_srv :: "(server \<Rightarrow> server) \<Rightarrow> 'w process \<Rightarrow> 'w process" where
  "upd_srv f p \<equiv> p\<lparr>srv := f (srv p)\<rparr>"

subsection \<open>Backends\<close>

fun be_find :: "nat \<Rightarrow> backend list \<Rightarrow> backend option" where
  "be_find i [] = None"
| "be_find i (b # bs) = (if be_id b = i then Some b else be_find i bs)"

definition server_get_backend_by_id :: "server \<Rightarrow> nat \<Rightarrow> backend option" where
  "server_get_backend_by_id s i = be_find i (bes s)"

definition be_put :: "backend \<Rightarrow> server \<Rightarrow> server" where
  "be_put b s = s\<lparr>bes := map (\<lambda>x. if be_id x = be_id b then b else x) (bes s)\<rparr>"

subsection \<open>Descriptors\<close>

definition FD_SETSIZE :: nat where
  "FD_SETSIZE = 1024"

definition in_sets :: "nat \<Rightarrow> server \<Rightarrow> bool" where
  "in_sets i s \<longleftrightarrow> i \<in> rdfds s \<or> i \<in> wrfds s \<or> i \<in> exfds s"

fun recalc_loop :: "nat \<Rightarrow> server \<Rightarrow> nat" where
  "recalc_loop 0 s = 0"
| "recalc_loop (Suc i) s = (if in_sets (Suc i) s then Suc i else recalc_loop i s)"

definition server_recalc_hfd :: "server \<Rightarrow> server" where
  "server_recalc_hfd s = s\<lparr>hfd := recalc_loop (hfd s) s\<rparr>"

text \<open>The three bits of the mode: read, write, exception.\<close>

definition server_clear_fd :: "nat \<Rightarrow> bool \<times> bool \<times> bool \<Rightarrow> server \<Rightarrow> server option" where
  "server_clear_fd fd mode s =
     (case mode of (r, w, e) \<Rightarrow>
        if FD_SETSIZE \<le> fd \<and> (r \<or> w \<or> e) then None
        else Some (server_recalc_hfd
          (s\<lparr>rdfds := (if r then rdfds s - {fd} else rdfds s),
             wrfds := (if w then wrfds s - {fd} else wrfds s),
             exfds := (if e then exfds s - {fd} else exfds s)\<rparr>)))"

definition server_watch_fd :: "nat \<Rightarrow> bool \<times> bool \<times> bool \<Rightarrow> server \<Rightarrow> server option" where
  "server_watch_fd fd mode s =
     (case mode of (r, w, e) \<Rightarrow>
        if FD_SETSIZE \<le> fd \<and> (r \<or> w \<or> e) then None
        else Some
          (s\<lparr>rdfds := (if r then insert fd (rdfds s) else rdfds s),
             wrfds := (if w then insert fd (wrfds s) else wrfds s),
             exfds := (if e then insert fd (exfds s) else exfds s),
             hfd := max (hfd s) fd\<rparr>))"

definition server_close_fd :: "nat \<Rightarrow> server \<Rightarrow> server option" where
  "server_close_fd fd s = server_clear_fd fd (True, True, True) s"

subsection \<open>Children\<close>

definition server_reap_child :: "nat \<Rightarrow> server \<Rightarrow> server step" where
  "server_reap_child p s =
     (case children_get_by_pid (kids s) p of
        None \<Rightarrow> Failed s
      | Some c \<Rightarrow>
          (case children_del c (kids s) of
             Ok cs \<Rightarrow>
               (let s1 = s\<lparr>kids := cs\<rparr> in
                case be_find (c_be c) (bes s) of
                  None \<Rightarrow> Crash
                | Some b \<Rightarrow>
                    (let n = size_sub (be_nchild b) 1;
                         b1 = b\<lparr>be_nchild := n\<rparr>
                     in Done (be_put (if n < be_start_child b then b1\<lparr>be_fork_child := be_start_child b - n\<rparr> else b1) s1)))
           | _ \<Rightarrow> Crash))"

definition server_add_child :: "libu \<Rightarrow> nat \<Rightarrow> nat \<Rightarrow> nat \<Rightarrow> server \<Rightarrow> server step" where
  "server_add_child L now p bid s =
     (case child_create L now p bid of
        None \<Rightarrow> Failed s
      | Some c \<Rightarrow>
          (let s1 = s\<lparr>kids := children_add c (kids s)\<rparr> in
           case be_find bid (bes s) of
             None \<Rightarrow> Crash
           | Some b \<Rightarrow> Done (be_put (b\<lparr>be_nchild := size_add (be_nchild b) 1\<rparr>) s1)))"

text \<open>
  \<^verbatim>\<open>server_signal_children\<close> from the last child to the first; the first \<^verbatim>\<open>kill(2)\<close> that
  fails ends the loop.
\<close>

fun signal_loop :: "(nat \<Rightarrow> bool) \<Rightarrow> nat \<Rightarrow> nat \<Rightarrow> 'w process \<Rightarrow> 'w process step" where
  "signal_loop can sig 0 p = Done p"
| "signal_loop can sig (Suc i) p =
     (case children_getn (kids (srv p)) i of
        None \<Rightarrow> signal_loop can sig i p
      | Some c \<Rightarrow>
          if can (c_pid c) then signal_loop can sig i (p\<lparr>killed := killed p @ [(c_pid c, sig)]\<rparr>) else Failed p)"

definition server_signal_children :: "(nat \<Rightarrow> bool) \<Rightarrow> nat \<Rightarrow> 'w process \<Rightarrow> 'w process step" where
  "server_signal_children can sig p = signal_loop can sig (children_count (kids (srv p))) p"

text \<open>\<^verbatim>\<open>server_waitpid\<close> over the processes the system reports as ended.\<close>

fun server_waitpid :: "nat list \<Rightarrow> server \<Rightarrow> server option" where
  "server_waitpid [] s = Some (s\<lparr>reap_children := False\<rparr>)"
| "server_waitpid (p # ps) s =
     (case server_reap_child p s of
        Done s1 \<Rightarrow> server_waitpid ps s1
      | Failed s1 \<Rightarrow> server_waitpid ps s1
      | Crash \<Rightarrow> None)"

definition server_sigchld :: "server \<Rightarrow> server" where
  "server_sigchld s = s\<lparr>reap_children := True\<rparr>"

text \<open>\<^verbatim>\<open>server_stop\<close>: a child also closes its listening socket.\<close>

definition server_stop :: "'w process \<Rightarrow> 'w process step" where
  "server_stop p =
     (if pipc_fd p \<noteq> None
      then (case cur_be p of
              None \<Rightarrow> Failed p
            | Some i \<Rightarrow> Done (upd_srv (\<lambda>s. s\<lparr>sv_stop := True\<rparr>) p))
      else Done (upd_srv (\<lambda>s. s\<lparr>sv_stop := True\<rparr>) p))"

text \<open>
  \<^verbatim>\<open>server_fork_child\<close>: the result is the value of \<^verbatim>\<open>fork\<close>.  The error of
  \<^verbatim>\<open>server_add_child\<close> is not looked at.
\<close>

definition fork_in_child :: "nat \<Rightarrow> nat \<Rightarrow> 'w process \<Rightarrow> 'w process option" where
  "fork_in_child bid sock p =
     (case children_clear (kids (srv p)) of
        Ok cs \<Rightarrow> Some
          (upd_srv (\<lambda>s. s\<lparr>klog_flush := 0,
              bes := map (\<lambda>b. if be_id b = bid then b else b\<lparr>be_ld := None\<rparr>) (bes s), kids := cs\<rparr>) p
           \<lparr>pipc_fd := Some sock, cur_be := Some bid\<rparr>)
      | _ \<Rightarrow> None)"

definition fork_in_parent :: "libu \<Rightarrow> nat \<Rightarrow> nat \<Rightarrow> nat \<Rightarrow> nat \<Rightarrow> 'w process \<Rightarrow> 'w process option" where
  "fork_in_parent L now bid child sock p =
     (case server_add_child L now child bid (srv p) of
        Crash \<Rightarrow> None
      | Done s \<Rightarrow> map_option (\<lambda>s. p\<lparr>srv := s\<rparr>) (server_watch_fd sock (True, False, False) s)
      | Failed s \<Rightarrow> map_option (\<lambda>s. p\<lparr>srv := s\<rparr>) (server_watch_fd sock (True, False, False) s))"

definition server_fork_child :: "libu \<Rightarrow> nat \<Rightarrow> nat \<Rightarrow> 'w process \<Rightarrow> (fork_result \<times> 'w process) option" where
  "server_fork_child L now bid p =
     (case be_find bid (bes (srv p)) of
        None \<Rightarrow> Some (Fork_error, p)
      | Some b \<Rightarrow>
          (if children_count (kids (srv p)) = sv_max_child (srv p) \<or> be_nchild b = be_max_child b then Some (Fork_error, p)
           else case forks p of
             [] \<Rightarrow> Some (Fork_error, p)
           | (None, _) # fs \<Rightarrow> Some (Fork_error, p\<lparr>forks := fs\<rparr>)
           | (Some (s0, s1), r) # fs \<Rightarrow>
               (let q = p\<lparr>forks := fs\<rparr> in
                case r of
                  Fork_error \<Rightarrow> Some (Fork_error, q)
                | Fork_child \<Rightarrow> map_option (\<lambda>q. (Fork_child, q)) (fork_in_child bid s1 q)
                | Fork_parent child \<Rightarrow> map_option (\<lambda>q. (Fork_parent child, q)) (fork_in_parent L now bid child s0 q))))"

subsection \<open>Serving\<close>

text \<open>
  What the system, the pages and the other parent handlers do: \<^verbatim>\<open>accept\<close> on a listening
  descriptor, repeated while it is interrupted (\<^verbatim>\<open>server_be_accept\<close>); \<^verbatim>\<open>backend_serve\<close> of an
  accepted one, with the answer whether it took longer than the alarm of a preforked child; and
  the registered handlers of the other commands, \<open>None\<close> where the command has none.
\<close>

record 'w serve_env =
  sv_accept :: "nat \<Rightarrow> 'w \<Rightarrow> (nat option \<times> 'w)"
  sv_serve :: "nat \<Rightarrow> nat \<Rightarrow> 'w \<Rightarrow> (bool \<times> 'w)"
  sv_handler :: "nat \<Rightarrow> (char list \<Rightarrow> 'w \<times> chan \<Rightarrow> 'w \<times> chan) option"

definition backend_serve :: "'w serve_env \<Rightarrow> nat \<Rightarrow> nat \<Rightarrow> 'w process \<Rightarrow> bool \<times> 'w process" where
  "backend_serve E bid ad p =
     (case sv_serve E bid ad (world p) of (slow, w) \<Rightarrow> (slow, p\<lparr>world := w\<rparr>))"

text \<open>
  \<^verbatim>\<open>server_ppc_cmd_fork_child\<close>: the message is the backend's identifier as a 32-bit integer.
  \<^verbatim>\<open>server_cb_spawn_child\<close>, the alarm's callback: ask the parent for another worker and stop.
\<close>

definition PPC_CMD_FORK_CHILD :: nat where
  "PPC_CMD_FORK_CHILD = 2"

definition server_ppc_cmd_fork_child :: "nat \<Rightarrow> nat \<Rightarrow> 'w process \<Rightarrow> 'w process step" where
  "server_ppc_cmd_fork_child fd bid p =
     (case ppc_write PPC_CMD_FORK_CHILD (le_bytes 4 bid) (chans p fd) of (n, c) \<Rightarrow>
        (let q = p\<lparr>chans := (chans p)(fd := c)\<rparr> in if n < 0 then Failed q else Done q))"

definition server_cb_spawn_child :: "'w process \<Rightarrow> 'w process step" where
  "server_cb_spawn_child p =
     (case (cur_be p, pipc_fd p) of
        (Some i, Some fd) \<Rightarrow>
          (case server_ppc_cmd_fork_child fd i p of
             Done q \<Rightarrow> server_stop q
           | Failed q \<Rightarrow> Failed q
           | Crash \<Rightarrow> Crash)
      | _ \<Rightarrow> Failed p)"

text \<open>A status nobody looks at.\<close>

fun ignore_status :: "'s step \<Rightarrow> 's step" where
  "ignore_status (Done s) = Done s"
| "ignore_status (Failed s) = Done s"
| "ignore_status Crash = Crash"

definition server_child_serve :: "libu \<Rightarrow> 'w serve_env \<Rightarrow> nat \<Rightarrow> nat \<Rightarrow> nat \<Rightarrow> 'w process \<Rightarrow> 'w process step option" where
  "server_child_serve L E now bid ad p =
     map_option (\<lambda>(r, q). case r of
         Fork_error \<Rightarrow> Failed q
       | Fork_parent _ \<Rightarrow> Done q
       | Fork_child \<Rightarrow> ignore_status (server_stop (snd (backend_serve E bid ad q))))
       (server_fork_child L now bid p)"

text \<open>
  \<^verbatim>\<open>sizeof(talarm_t)\<close>, what \<^verbatim>\<open>timerm_add\<close> allocates.  It never returns an error, for its error
  path reads through a pointer it has just cleared (\<open>Timer.timerm_add_error_crashes\<close>); the
  errors of \<^verbatim>\<open>sigprocmask\<close> and \<^verbatim>\<open>sigaction\<close> are left out.
\<close>

definition ALARM_SIZE :: nat where
  "ALARM_SIZE = 56"

definition server_be_serve :: "libu \<Rightarrow> 'w serve_env \<Rightarrow> nat \<Rightarrow> backend \<Rightarrow> nat \<Rightarrow> 'w process \<Rightarrow> 'w process step option" where
  "server_be_serve L E now b ad p =
     (case be_model b of
        SERVER_MODEL_FORK \<Rightarrow> server_child_serve L E now (be_id b) ad p
      | SERVER_MODEL_PREFORK \<Rightarrow>
          (if u_malloc L ALARM_SIZE
           then (case backend_serve E (be_id b) ad p of (slow, q) \<Rightarrow>
                   Some (if slow then ignore_status (server_cb_spawn_child q) else Done q))
           else None)
      | SERVER_MODEL_ITERATIVE \<Rightarrow> Some (Done (snd (backend_serve E (be_id b) ad p)))
      | SERVER_MODEL_UNSET \<Rightarrow> Some (Failed p))"

fun be_of_ld :: "nat option \<Rightarrow> backend list \<Rightarrow> backend option" where
  "be_of_ld fd [] = None"
| "be_of_ld fd (b # bs) = (if be_ld b = fd then Some b else be_of_ld fd bs)"

text \<open>
  \<^verbatim>\<open>server_dispatch\<close>; a closed listening descriptor is \<^verbatim>\<open>-1\<close>, on which \<^verbatim>\<open>accept\<close> fails.
  The first argument is what is done with a descriptor no backend listens on.
\<close>

definition dispatch_with ::
  "(nat \<Rightarrow> 'w process \<Rightarrow> 'w process step option) \<Rightarrow> libu \<Rightarrow> 'w serve_env \<Rightarrow> nat \<Rightarrow> nat option \<Rightarrow> 'w process \<Rightarrow>
   'w process step option" where
  "dispatch_with ppc L E now fd p =
     (case be_of_ld fd (bes (srv p)) of
        None \<Rightarrow> (case fd of None \<Rightarrow> Some (Failed p) | Some d \<Rightarrow> ppc d p)
      | Some b \<Rightarrow>
          (case fd of
             None \<Rightarrow> Some (Failed p)
           | Some d \<Rightarrow>
               (case sv_accept E d (world p) of
                  (None, w) \<Rightarrow> Some (Failed (p\<lparr>world := w\<rparr>))
                | (Some ad, w) \<Rightarrow> server_be_serve L E now b ad (p\<lparr>world := w\<rparr>))))"

text \<open>
  The main loop of a preforked child: at most \<^verbatim>\<open>max_rq_xchild\<close> requests.  It dispatches the
  listening descriptor of its own backend, which \<open>be_of_ld\<close> always finds
  (\<open>own_ld_found\<close>), so the case of a descriptor nobody listens on does not arise.
\<close>

fun child_loop :: "libu \<Rightarrow> 'w serve_env \<Rightarrow> nat \<Rightarrow> nat \<Rightarrow> nat \<Rightarrow> 'w process \<Rightarrow> 'w process step option" where
  "child_loop L E now bid 0 p = Some (Done p)"
| "child_loop L E now bid (Suc c) p =
     (if sv_stop (srv p) then Some (Done p)
      else case be_find bid (bes (srv p)) of
        None \<Rightarrow> None
      | Some b \<Rightarrow>
          Option.bind (dispatch_with (\<lambda>_ _. None) L E now (be_ld b) p) (\<lambda>r.
            case r of Done q \<Rightarrow> child_loop L E now bid c q | other \<Rightarrow> Some other))"

definition spawned_child :: "libu \<Rightarrow> 'w serve_env \<Rightarrow> nat \<Rightarrow> nat \<Rightarrow> 'w process \<Rightarrow> 'w process step option" where
  "spawned_child L E now bid q =
     (case be_find bid (bes (srv q)) of
        None \<Rightarrow> None
      | Some b \<Rightarrow>
          Option.bind (child_loop L E now bid (be_max_rq b) q) (\<lambda>r.
            Some (case r of Done q1 \<Rightarrow> ignore_status (server_stop q1) | other \<Rightarrow> other)))"

definition server_spawn_child :: "libu \<Rightarrow> 'w serve_env \<Rightarrow> nat \<Rightarrow> nat \<Rightarrow> 'w process \<Rightarrow> 'w process step option" where
  "server_spawn_child L E now bid p =
     Option.bind (server_fork_child L now bid p) (\<lambda>(r, q).
       case r of
         Fork_error \<Rightarrow> Some (Failed q)
       | Fork_parent _ \<Rightarrow> Some (Done q)
       | Fork_child \<Rightarrow> spawned_child L E now bid q)"

text \<open>
  The inner loop of \<^verbatim>\<open>server_spawn_children\<close>, \<^verbatim>\<open>for(i = 0; i < be->fork_child; ++i)\<close> with
  \<^verbatim>\<open>be->fork_child--\<close> in its body.  The counter is a \<^verbatim>\<open>size_t\<close> that only this loop and the
  parent's handlers change, so it bounds the turns; \<open>fuel\<close> is its value on entry.
\<close>

definition be_update :: "nat \<Rightarrow> (backend \<Rightarrow> backend) \<Rightarrow> 'w process \<Rightarrow> 'w process option" where
  "be_update bid f p =
     map_option (\<lambda>b. upd_srv (be_put (f b)) p) (be_find bid (bes (srv p)))"

fun spawn_loop :: "libu \<Rightarrow> 'w serve_env \<Rightarrow> nat \<Rightarrow> nat \<Rightarrow> nat \<Rightarrow> nat \<Rightarrow> 'w process \<Rightarrow> 'w process step option" where
  "spawn_loop L E now bid 0 i p = Some (Done p)"
| "spawn_loop L E now bid (Suc fuel) i p =
     (case be_find bid (bes (srv p)) of
        None \<Rightarrow> None
      | Some b \<Rightarrow>
          if be_fork_child b \<le> i then Some (Done p)
          else Option.bind (server_spawn_child L E now bid p) (\<lambda>r.
            case r of
              Done q \<Rightarrow>
                if pipc_fd q \<noteq> None then Some (Done q)
                else Option.bind (be_update bid (\<lambda>b. b\<lparr>be_fork_child := size_sub (be_fork_child b) 1\<rparr>) q)
                       (spawn_loop L E now bid fuel (Suc i))
            | other \<Rightarrow> Some other))"

fun spawn_backends :: "libu \<Rightarrow> 'w serve_env \<Rightarrow> nat \<Rightarrow> nat list \<Rightarrow> 'w process \<Rightarrow> 'w process step option" where
  "spawn_backends L E now [] p = Some (Done p)"
| "spawn_backends L E now (bid # bids) p =
     (case be_find bid (bes (srv p)) of
        None \<Rightarrow> None
      | Some b \<Rightarrow>
          if be_model b \<noteq> SERVER_MODEL_PREFORK \<or> be_fork_child b = 0 then spawn_backends L E now bids p
          else Option.bind (spawn_loop L E now bid (be_fork_child b) 0 p) (\<lambda>r.
            case r of Done q \<Rightarrow> spawn_backends L E now bids q | other \<Rightarrow> Some other))"

definition server_spawn_children :: "libu \<Rightarrow> 'w serve_env \<Rightarrow> nat \<Rightarrow> 'w process \<Rightarrow> 'w process step option" where
  "server_spawn_children L E now p = spawn_backends L E now (map be_id (bes (srv p))) p"

subsection \<open>Parent procedure calls\<close>

text \<open>\<^verbatim>\<open>server_ppc_cb_fork_child\<close>, the parent's answer to a child that is busy.\<close>

definition server_ppc_cb_fork_child :: "libu \<Rightarrow> 'w serve_env \<Rightarrow> nat \<Rightarrow> nat \<Rightarrow> 'w process \<Rightarrow> 'w process step option" where
  "server_ppc_cb_fork_child L E now bid p =
     (case server_get_backend_by_id (srv p) bid of
        None \<Rightarrow> Some (Failed p)
      | Some _ \<Rightarrow>
          Option.bind (server_spawn_child L E now bid p) (\<lambda>r.
            case r of
              Failed q \<Rightarrow> map_option Done (be_update bid (\<lambda>b. b\<lparr>be_fork_child := size_add (be_fork_child b) 1\<rparr>) q)
            | other \<Rightarrow> Some other))"

text \<open>
  The handler as registered: its own status is ignored by \<^verbatim>\<open>ppc_dispatch\<close>, and a message
  shorter than an integer leaves part of the identifier unset.  The table of the parent has it
  beside the other handlers, which see the world only.
\<close>

definition fork_child_cb :: "libu \<Rightarrow> 'w serve_env \<Rightarrow> nat \<Rightarrow> ('w process step option) ppc_cb" where
  "fork_child_cb L E now data = (\<lambda>(r, c).
     (Option.bind r (\<lambda>r. case r of
         Done p \<Rightarrow>
           if length data < 4 then None
           else map_option ignore_status (server_ppc_cb_fork_child L E now (le_value (take 4 data)) p)
       | other \<Rightarrow> Some other), c))"

definition other_cb ::
  "(char list \<Rightarrow> 'w \<times> chan \<Rightarrow> 'w \<times> chan) \<Rightarrow> ('w process step option) ppc_cb" where
  "other_cb h data = (\<lambda>(r, c).
     case r of
       Some (Done p) \<Rightarrow> (case h data (world p, c) of (w, c1) \<Rightarrow> (Some (Done (p\<lparr>world := w\<rparr>)), c1))
     | other \<Rightarrow> (other, c))"

definition server_ppc :: "libu \<Rightarrow> 'w serve_env \<Rightarrow> nat \<Rightarrow> ('w process step option) ppc" where
  "server_ppc L E now =
     ppc_register \<lparr>ftb = (\<lambda>cmd. map_option other_cb (sv_handler E cmd))\<rparr> PPC_CMD_FORK_CHILD (fork_child_cb L E now)"

text \<open>
  \<^verbatim>\<open>server_process_ppc\<close> on a descriptor of the process: \<open>server_process_ppc\<close> of the channel,
  then the channel's new state, and the descriptor closed when it is at its end or in error.
\<close>

definition process_ppc :: "libu \<Rightarrow> 'w serve_env \<Rightarrow> nat \<Rightarrow> nat \<Rightarrow> 'w process \<Rightarrow> 'w process step option" where
  "process_ppc L E now fd p =
     (case server_process_ppc (server_ppc L E now) (Some (Done p), chans p fd) of
        Ok (r, c, closed) \<Rightarrow>
          Option.bind r (\<lambda>r. case r of
             Done q \<Rightarrow>
               (let q1 = q\<lparr>chans := (chans q)(fd := c)\<rparr> in
                if closed then map_option (\<lambda>s. Done (q1\<lparr>srv := s\<rparr>)) (server_close_fd fd (srv q1)) else Some (Done q1))
           | other \<Rightarrow> Some other)
      | Fail \<Rightarrow> Some (Failed (p\<lparr>chans := (chans p)(fd := snd (ppc_read PPC_MAX_DATA_SIZE (chans p fd)))\<rparr>))
      | Fault \<Rightarrow> None)"

definition server_dispatch :: "libu \<Rightarrow> 'w serve_env \<Rightarrow> nat \<Rightarrow> nat option \<Rightarrow> 'w process \<Rightarrow> 'w process step option" where
  "server_dispatch L E now = dispatch_with (process_ppc L E now) L E now"

subsection \<open>The loop\<close>

text \<open>
  One turn: spawn what is missing, leave the loop in a child, wait for ready descriptors, reap,
  flush, dispatch.  What a turn meets is a record: the processes that ended (and whether their
  signal came), whether the flush alarm fired, and the result of \<^verbatim>\<open>select\<close>.  The log itself
  is outside; its alarm is set again after a flush.  The descriptors are scanned up to the highest watched one, read
  again at every step; a descriptor is below \<open>FD_SETSIZE\<close>, so that many steps suffice.
\<close>

record turn =
  tn_ended :: "nat list"
  tn_sigchld :: bool
  tn_alarm :: bool
  tn_rc :: "nat option"
  tn_ready :: "nat set"

fun fd_loop :: "libu \<Rightarrow> 'w serve_env \<Rightarrow> nat \<Rightarrow> nat set \<Rightarrow> nat \<Rightarrow> nat \<Rightarrow> nat \<Rightarrow> 'w process \<Rightarrow> 'w process option" where
  "fd_loop L E now ready 0 fd rc p = Some p"
| "fd_loop L E now ready (Suc k) fd rc p =
     (if rc = 0 \<or> hfd (srv p) < fd then Some p
      else if fd \<in> ready
        then Option.bind (server_dispatch L E now (Some fd) p) (\<lambda>r.
          case r of
            Done q \<Rightarrow> fd_loop L E now ready k (Suc fd) (rc - 1) q
          | Failed q \<Rightarrow> fd_loop L E now ready k (Suc fd) (rc - 1) q
          | Crash \<Rightarrow> None)
        else fd_loop L E now ready k (Suc fd) rc p)"

definition server_cb_klog_flush :: "server \<Rightarrow> server" where
  "server_cb_klog_flush s = s\<lparr>klog_flush := Suc (klog_flush s)\<rparr>"

definition meet_signals :: "turn \<Rightarrow> server \<Rightarrow> server" where
  "meet_signals t s =
     (let s1 = (if tn_sigchld t then server_sigchld s else s)
      in if tn_alarm t then server_cb_klog_flush s1 else s1)"

definition turn_parent :: "libu \<Rightarrow> turn \<Rightarrow> 'w process \<Rightarrow> 'w process option" where
  "turn_parent L t p =
     Option.bind (if reap_children (srv p) then server_waitpid (tn_ended t) (srv p) else Some (srv p)) (\<lambda>s.
       if 0 < klog_flush s
       then (if u_malloc L ALARM_SIZE then Some (p\<lparr>srv := s\<lparr>klog_flush := 0\<rparr>\<rparr>) else None)
       else Some (p\<lparr>srv := s\<rparr>))"

definition server_turn ::
  "libu \<Rightarrow> 'w serve_env \<Rightarrow> nat \<Rightarrow> turn \<Rightarrow> 'w process \<Rightarrow> (bool \<times> 'w process step) option" where
  "server_turn L E now t p =
     Option.bind (server_spawn_children L E now p) (\<lambda>r.
       case ignore_status r of
         Done p1 \<Rightarrow>
           if pipc_fd p1 \<noteq> None then Some (True, Done p1)
           else
             (let p2 = upd_srv (meet_signals t) p1 in
              case tn_rc t of
                None \<Rightarrow> Some (True, Failed p2)
              | Some rc \<Rightarrow>
                  Option.bind (turn_parent L t p2) (\<lambda>p3.
                    map_option (\<lambda>q. (False, Done q)) (fd_loop L E now (tn_ready t) FD_SETSIZE 0 rc p3)))
       | _ \<Rightarrow> None)"

text \<open>The turns until the server is stopped or one of them leaves the loop.\<close>

fun server_turns :: "libu \<Rightarrow> 'w serve_env \<Rightarrow> nat \<Rightarrow> turn list \<Rightarrow> 'w process \<Rightarrow> 'w process step option" where
  "server_turns L E now [] p = Some (Done p)"
| "server_turns L E now (t # ts) p =
     (if sv_stop (srv p) then Some (Done p)
      else Option.bind (server_turn L E now t p) (\<lambda>(left, r).
        case r of Done q \<Rightarrow> if left then Some r else server_turns L E now ts q | other \<Rightarrow> Some other))"

text \<open>After the loop the parent terminates its children, and kills them when \<^verbatim>\<open>s->nchild\<close> says some are left.\<close>

definition SIGKILL :: nat where
  "SIGKILL = 9"

definition SIGTERM :: nat where
  "SIGTERM = 15"

definition server_term_children :: "(nat \<Rightarrow> bool) \<Rightarrow> 'w process \<Rightarrow> 'w process step" where
  "server_term_children can p = ignore_status (server_signal_children can SIGTERM p)"

definition server_kill_children :: "(nat \<Rightarrow> bool) \<Rightarrow> 'w process \<Rightarrow> 'w process step" where
  "server_kill_children can p = ignore_status (server_signal_children can SIGKILL p)"

definition server_shutdown :: "(nat \<Rightarrow> bool) \<Rightarrow> 'w process \<Rightarrow> 'w process step" where
  "server_shutdown can p =
     (if pipc_fd p \<noteq> None then Done p
      else case server_term_children can p of
        Done q \<Rightarrow> if 0 < sv_nchild (srv q) then server_kill_children can q else Done q
      | other \<Rightarrow> other)"

text \<open>\<^verbatim>\<open>server_loop\<close> after its start-up, on the turns the system lets it have.\<close>

definition server_loop :: "libu \<Rightarrow> 'w serve_env \<Rightarrow> nat \<Rightarrow> (nat \<Rightarrow> bool) \<Rightarrow> turn list \<Rightarrow> 'w process \<Rightarrow> 'w process step option" where
  "server_loop L E now can ts p =
     Option.bind (server_turns L E now ts p) (\<lambda>r.
       case r of Done q \<Rightarrow> Some (server_shutdown can q) | other \<Rightarrow> Some other)"

section \<open>Watched descriptors\<close>

lemma recalc_loop_spec:
  "recalc_loop n s \<le> n" "i \<le> n \<Longrightarrow> in_sets i s \<Longrightarrow> i \<le> recalc_loop n s"
  "recalc_loop n s \<noteq> 0 \<Longrightarrow> in_sets (recalc_loop n s) s"
  by (induction n s rule: recalc_loop.induct) (auto simp: le_Suc_eq)

text \<open>The highest watched descriptor, 0 when there is none.\<close>

definition watched :: "server \<Rightarrow> nat set" where
  "watched s = rdfds s \<union> wrfds s \<union> exfds s"

definition fds_ok :: "server \<Rightarrow> bool" where
  "fds_ok s \<longleftrightarrow> watched s \<subseteq> {..<FD_SETSIZE} \<and> hfd s = Max (insert 0 (watched s))"

lemma in_sets_watched: "in_sets i s \<longleftrightarrow> i \<in> watched s"
  by (auto simp: in_sets_def watched_def)

lemma watched_finite: "watched s \<subseteq> {..<FD_SETSIZE} \<Longrightarrow> finite (watched s)"
  by (metis finite_lessThan finite_subset)

lemma Max_insert0_eqI:
  assumes "finite A" "\<And>i. i \<in> A \<Longrightarrow> i \<le> n" "n \<noteq> 0 \<Longrightarrow> n \<in> A"
  shows "Max (insert 0 A) = (n :: nat)"
  using assms by (intro Max_eqI) auto

lemma fds_okD: "fds_ok s \<Longrightarrow> i \<in> watched s \<Longrightarrow> i \<le> hfd s \<and> i < FD_SETSIZE"
  using watched_finite [of s] by (auto simp: fds_ok_def)

lemma fds_ok_hfd: "fds_ok s \<Longrightarrow> hfd s < FD_SETSIZE"
  using watched_finite [of s] Max_in [of "insert 0 (watched s)"] by (auto simp: fds_ok_def FD_SETSIZE_def)

lemma watched_hfd_update [simp]: "watched (s\<lparr>hfd := h\<rparr>) = watched s"
  by (simp add: watched_def)

lemma recalc_ok:
  assumes "watched s \<subseteq> {..<FD_SETSIZE}" "\<And>i. i \<in> watched s \<Longrightarrow> i \<le> hfd s"
  shows "fds_ok (server_recalc_hfd s)"
proof -
  have "Max (insert 0 (watched s)) = recalc_loop (hfd s) s"
    using assms recalc_loop_spec [where s=s] by (intro Max_insert0_eqI) (auto simp: watched_finite in_sets_watched)
  with assms show ?thesis by (simp add: fds_ok_def server_recalc_hfd_def)
qed

definition bits :: "bool \<Rightarrow> nat \<Rightarrow> nat set" where
  "bits m fd = (if m then {fd} else {})"

lemma watch_fd:
  assumes "fds_ok s" "fd < FD_SETSIZE" "r \<or> w \<or> e"
  shows "\<exists>s'. server_watch_fd fd (r, w, e) s = Some s' \<and> fds_ok s' \<and> rdfds s' = rdfds s \<union> bits r fd \<and>
           wrfds s' = wrfds s \<union> bits w fd \<and> exfds s' = exfds s \<union> bits e fd"
proof -
  let ?s = "s\<lparr>rdfds := rdfds s \<union> bits r fd, wrfds := wrfds s \<union> bits w fd, exfds := exfds s \<union> bits e fd, hfd := max (hfd s) fd\<rparr>"
  have eq: "server_watch_fd fd (r, w, e) s = Some ?s"
    using assms(2) by (simp add: server_watch_fd_def bits_def)
  have w: "watched ?s = insert fd (watched s)" using assms(3) by (auto simp: watched_def bits_def)
  have "Max (insert 0 (insert fd (watched s))) = max (Max (insert 0 (watched s))) fd"
    using watched_finite [of s] assms(1) Max_insert [of "insert 0 (watched s)" fd]
    by (simp add: fds_ok_def insert_commute [of 0] max.commute del: Max_insert)
  with assms(1,2) have "fds_ok ?s" unfolding fds_ok_def w by (simp add: fds_ok_def)
  with eq show ?thesis by (intro exI [of _ ?s]) simp
qed

lemma clear_fd:
  assumes "fds_ok s" "fd < FD_SETSIZE"
  shows "\<exists>s'. server_clear_fd fd (r, w, e) s = Some s' \<and> fds_ok s' \<and> rdfds s' = rdfds s - bits r fd \<and>
           wrfds s' = wrfds s - bits w fd \<and> exfds s' = exfds s - bits e fd"
proof -
  let ?s = "s\<lparr>rdfds := rdfds s - bits r fd, wrfds := wrfds s - bits w fd, exfds := exfds s - bits e fd\<rparr>"
  have eq: "server_clear_fd fd (r, w, e) s = Some (server_recalc_hfd ?s)"
    using assms(2) by (simp add: server_clear_fd_def bits_def)
  have sub: "watched ?s \<subseteq> watched s" by (auto simp: watched_def)
  have "fds_ok (server_recalc_hfd ?s)"
  proof (rule recalc_ok)
    show "watched ?s \<subseteq> {..<FD_SETSIZE}" using sub assms(1) unfolding fds_ok_def by blast
    show "i \<le> hfd ?s" if "i \<in> watched ?s" for i using that sub fds_okD [OF assms(1), of i] by auto
  qed
  with eq show ?thesis by (intro exI [of _ "server_recalc_hfd ?s"]) (simp add: server_recalc_hfd_def)
qed
section \<open>The pool of children\<close>

lemma be_find_Some: "be_find i bs = Some b \<Longrightarrow> b \<in> set bs \<and> be_id b = i"
  by (induction i bs rule: be_find.induct) (auto split: if_splits)

lemma be_find_None: "be_find i bs = None \<longleftrightarrow> i \<notin> be_id ` set bs"
  by (induction i bs rule: be_find.induct) auto

lemma be_find_in: "distinct (map be_id bs) \<Longrightarrow> b \<in> set bs \<Longrightarrow> be_find (be_id b) bs = Some b"
  by (induction bs) (auto simp: image_iff)

lemma be_find_put:
  "be_find i (map (\<lambda>x. if be_id x = be_id b then b else x) bs) =
     (if i = be_id b \<and> i \<in> be_id ` set bs then Some b else be_find i bs)"
  by (induction bs) auto

lemma be_put_ids [simp]: "map be_id (bes (be_put b s)) = map be_id (bes s)"
  by (simp add: be_put_def)

lemma be_put_fields [simp]:
  "kids (be_put b s) = kids s" "rdfds (be_put b s) = rdfds s" "wrfds (be_put b s) = wrfds s"
  "exfds (be_put b s) = exfds s" "hfd (be_put b s) = hfd s" "sv_nchild (be_put b s) = sv_nchild s"
  "sv_max_child (be_put b s) = sv_max_child s" "sv_stop (be_put b s) = sv_stop s"
  by (simp_all add: be_put_def)

lemma be_put_set: "x \<in> set (bes (be_put b s)) \<Longrightarrow> x = b \<or> x \<in> set (bes s) \<and> be_id x \<noteq> be_id b"
  by (auto simp: be_put_def)

definition be_kids :: "nat \<Rightarrow> children \<Rightarrow> nat" where
  "be_kids i cs = length (filter (\<lambda>c. c_be c = i) (clist cs))"

text \<open>
  Every backend counts its children, every child belongs to a backend, and neither a backend nor
  the server has more children than it may have.
\<close>

definition pool_ok :: "server \<Rightarrow> bool" where
  "pool_ok s \<longleftrightarrow>
     children_ok (kids s) \<and> distinct (map be_id (bes s)) \<and>
     c_be ` set (clist (kids s)) \<subseteq> be_id ` set (bes s) \<and>
     (\<forall>b\<in>set (bes s). be_nchild b = be_kids (be_id b) (kids s) \<and> be_nchild b \<le> be_max_child b) \<and>
     children_count (kids s) \<le> sv_max_child s \<and> sv_max_child s < SIZE_LIMIT"

lemma be_kids_le: "be_kids i cs \<le> length (clist cs)"
  by (simp add: be_kids_def)

lemma length_filter_remove1:
  "x \<in> set xs \<Longrightarrow> length (filter P xs) = length (filter P (remove1 x xs)) + (if P x then 1 else 0)"
  by (induction xs) auto

lemma be_put_id_set: "be_id ` set (bes (be_put b s)) = be_id ` set (bes s)"
  using arg_cong [OF be_put_ids [of b s], of set] by (simp del: be_put_ids)

lemma pool_ok_replace:
  assumes s: "pool_ok s" and b: "be_find i (bes s) = Some b"
    and cs: "children_ok cs" "c_be ` set (clist cs) \<subseteq> be_id ` set (bes s)" "children_count cs \<le> sv_max_child s"
    and kids: "\<And>j. j \<noteq> i \<Longrightarrow> be_kids j cs = be_kids j (kids s)"
    and b': "be_id b' = i" "be_max_child b' = be_max_child b" "be_nchild b' = be_kids i cs" "be_nchild b' \<le> be_max_child b"
  shows "pool_ok (be_put b' (s\<lparr>kids := cs\<rparr>))"
proof -
  have "be_nchild x = be_kids (be_id x) cs \<and> be_nchild x \<le> be_max_child x"
    if "x \<in> set (bes (be_put b' (s\<lparr>kids := cs\<rparr>)))" for x
    using be_put_set [OF that] s b' kids [of "be_id x"] by (auto simp: pool_ok_def)
  then have "\<forall>x\<in>set (bes (be_put b' (s\<lparr>kids := cs\<rparr>))). be_nchild x = be_kids (be_id x) cs \<and> be_nchild x \<le> be_max_child x"
    by blast
  then show ?thesis using s cs unfolding pool_ok_def by (auto simp: be_put_id_set)
qed

lemma pool_ok_be:
  assumes "pool_ok s" "be_find i (bes s) = Some b"
  shows "be_id b = i" "be_nchild b = be_kids i (kids s)" "be_nchild b \<le> be_max_child b" "be_nchild b < SIZE_LIMIT"
  using assms(1) be_find_Some [OF assms(2)] be_kids_le [of i "kids s"] by (auto simp: pool_ok_def children_ok_def)

lemma pool_ok_put:
  assumes "pool_ok s" "be_find i (bes s) = Some b" "be_id b' = be_id b" "be_nchild b' = be_nchild b"
    "be_max_child b' = be_max_child b"
  shows "pool_ok (be_put b' s)"
proof -
  have "pool_ok (be_put b' (s\<lparr>kids := kids s\<rparr>))"
    by (rule pool_ok_replace [OF assms(1,2)])
      (use assms(1,3-) pool_ok_be [OF assms(1,2)] in \<open>auto simp: pool_ok_def\<close>)
  then show ?thesis by simp
qed

lemma add_child_pool:
  assumes s: "pool_ok s" and n: "children_count (kids s) \<noteq> sv_max_child s"
    and b: "be_find bid (bes s) = Some b" "be_nchild b \<noteq> be_max_child b"
  shows "step_all pool_ok (server_add_child L now p bid s)"
proof (cases "child_create L now p bid")
  case None
  with s show ?thesis by (simp add: server_add_child_def)
next
  case (Some c)
  then have c: "c_be c = bid" by (auto simp: child_create_def split: if_splits)
  let ?cs = "children_add c (kids s)" and ?b = "b\<lparr>be_nchild := size_add (be_nchild b) 1\<rparr>"
  have room: "children_room c (kids s)" "children_ok (kids s)" "Suc (children_count (kids s)) \<le> sv_max_child s"
    using s n by (auto simp: pool_ok_def children_room_def children_ok_def children_count_def)
  note be = pool_ok_be [OF s b(1)]
  have kids: "be_kids i ?cs = be_kids i (kids s) + (if i = bid then 1 else 0)" for i
    using c by (simp add: be_kids_def children_add_def)
  have "be_nchild b + 1 < SIZE_LIMIT"
    using be(2) be_kids_le [of bid "kids s"] room by (auto simp: children_room_def)
  with be b(2) kids [of bid] have nb: "be_nchild ?b = be_kids bid ?cs" "be_nchild ?b \<le> be_max_child b" by simp_all
  have own: "c_be ` set (clist ?cs) \<subseteq> be_id ` set (bes s)"
    using s c imageI [of b "set (bes s)" be_id] be_find_Some [OF b(1)] by (simp add: pool_ok_def children_add_def)
  have "pool_ok (be_put ?b (s\<lparr>kids := ?cs\<rparr>))"
    by (rule pool_ok_replace [OF s b(1) children_add_ok [OF room(2,1)] own])
      (use room be nb kids in \<open>simp_all add: children_list.counter_add\<close>)
  with Some b(1) show ?thesis by (simp add: server_add_child_def Let_def)
qed

lemma reap_child_pool:
  assumes s: "pool_ok s"
  shows "step_all pool_ok (server_reap_child p s)"
proof (cases "children_get_by_pid (kids s) p")
  case None
  with s show ?thesis by (simp add: server_reap_child_def)
next
  case (Some c)
  then have c: "c \<in> set (clist (kids s))" by (auto simp: children_get_by_pid_def dest: by_pid_Some)
  have ok: "children_ok (kids s)" using s by (simp add: pool_ok_def)
  from children_del_eq [OF ok c] obtain cs where
    cs: "children_del c (kids s) = Ok cs" "clist cs = remove1 c (clist (kids s))" "children_ok cs" by auto
  from s c obtain b where b: "be_find (c_be c) (bes s) = Some b"
    unfolding pool_ok_def by (metis be_find_None image_subset_iff not_Some_eq)
  note be = pool_ok_be [OF s b]
  have kids: "be_kids i (kids s) = be_kids i cs + (if i = c_be c then 1 else 0)" for i
    using length_filter_remove1 [OF c] by (simp add: be_kids_def cs(2))
  have n: "size_sub (be_nchild b) 1 = be_kids (c_be c) cs"
    using be(2,4) kids [of "c_be c"] by simp
  have own: "c_be ` set (clist cs) \<subseteq> be_id ` set (bes s)"
    using s set_remove1_subset [of c "clist (kids s)"] by (auto simp: pool_ok_def cs(2))
  have "pool_ok (be_put b' (s\<lparr>kids := cs\<rparr>))"
    if "be_id b' = be_id b" "be_max_child b' = be_max_child b" "be_nchild b' = be_kids (c_be c) cs" for b'
    by (rule pool_ok_replace [OF s b cs(3) own])
      (use that be s kids children_list.counter_del [OF ok c cs(1)] in \<open>auto simp: pool_ok_def\<close>)
  with Some cs(1) b n show ?thesis by (simp add: server_reap_child_def Let_def)
qed

section \<open>Every turn keeps the pool\<close>

definition server_ok :: "server \<Rightarrow> bool" where
  "server_ok s \<longleftrightarrow> pool_ok s \<and> fds_ok s \<and> sv_nchild s = 0"

definition good :: "'w process \<Rightarrow> bool" where
  "good p \<longleftrightarrow> pipc_fd p \<noteq> None \<or> server_ok (srv p)"

fun ran :: "('s \<Rightarrow> bool) \<Rightarrow> 's step option \<Rightarrow> bool" where
  "ran P None \<longleftrightarrow> True"
| "ran P (Some r) \<longleftrightarrow> step_all P r"

lemma ran_bind:
  "ran P r \<Longrightarrow> (\<And>q. P q \<Longrightarrow> ran P (f (Done q))) \<Longrightarrow> (\<And>q. P q \<Longrightarrow> ran P (f (Failed q))) \<Longrightarrow> ran P (Option.bind r f)"
  by (cases "(P, r)" rule: ran.cases) (auto elim: step_all.elims)

lemma step_all_ignore: "step_all P r \<Longrightarrow> step_all P (ignore_status r)"
  by (cases r) auto

lemma good_world [simp]: "good (p\<lparr>world := w\<rparr>) = good p" "good (p\<lparr>chans := c\<rparr>) = good p" "good (p\<lparr>forks := f\<rparr>) = good p"
  by (simp_all add: good_def)

lemma good_srv: "good p \<Longrightarrow> (\<And>s. server_ok s \<Longrightarrow> server_ok (f s)) \<Longrightarrow> good (upd_srv f p)"
  by (auto simp: good_def)

lemma server_ok_other [simp]:
  "server_ok (s\<lparr>sv_stop := a\<rparr>) = server_ok s" "server_ok (s\<lparr>klog_flush := n\<rparr>) = server_ok s"
  "server_ok (s\<lparr>reap_children := a\<rparr>) = server_ok s"
  by (simp_all add: server_ok_def pool_ok_def fds_ok_def watched_def)

lemma fds_ok_other [simp]: "fds_ok (be_put b s) = fds_ok s" "fds_ok (s\<lparr>kids := cs\<rparr>) = fds_ok s"
  by (simp_all add: fds_ok_def watched_def)

lemma pool_ok_fds:
  "pool_ok (s\<lparr>hfd := h\<rparr>) = pool_ok s" "pool_ok (s\<lparr>rdfds := A\<rparr>) = pool_ok s"
  "pool_ok (s\<lparr>wrfds := A\<rparr>) = pool_ok s" "pool_ok (s\<lparr>exfds := A\<rparr>) = pool_ok s"
  by (simp_all add: pool_ok_def)

lemma server_ok_watch: "server_ok s \<Longrightarrow> server_watch_fd fd (True, w, e) s = Some s' \<Longrightarrow> server_ok s'"
  using watch_fd [of s fd True w e]
  by (cases "fd < FD_SETSIZE") (auto simp: server_ok_def server_watch_fd_def pool_ok_fds)

lemma server_ok_close: "server_ok s \<Longrightarrow> server_close_fd fd s = Some s' \<Longrightarrow> server_ok s'"
  using clear_fd [of s fd True True True]
  by (cases "fd < FD_SETSIZE")
    (auto simp: server_ok_def server_close_fd_def server_clear_fd_def pool_ok_fds server_recalc_hfd_def)

lemma server_ok_put:
  "server_ok s \<Longrightarrow> be_find i (bes s) = Some b \<Longrightarrow> be_id b' = be_id b \<Longrightarrow> be_nchild b' = be_nchild b \<Longrightarrow>
   be_max_child b' = be_max_child b \<Longrightarrow> server_ok (be_put b' s)"
  by (auto simp: server_ok_def intro: pool_ok_put)

lemma add_child_fds: "step_all (\<lambda>s'. fds_ok s \<longrightarrow> fds_ok s' \<and> sv_nchild s' = sv_nchild s) (server_add_child L now p bid s) \<or>
  server_add_child L now p bid s = Crash"
  by (auto simp: server_add_child_def Let_def split: option.splits)

lemma reap_child_fds: "step_inv (\<lambda>s'. (fds_ok s \<longrightarrow> fds_ok s') \<and> sv_nchild s' = sv_nchild s) (server_reap_child p s)"
  by (auto simp: server_reap_child_def Let_def split: option.splits outcome.splits)

lemma reap_child_ok: "server_ok s \<Longrightarrow> step_all server_ok (server_reap_child p s)"
  using reap_child_pool [of s p] reap_child_fds [of s p]
  by (cases "server_reap_child p s") (auto simp: server_ok_def)

lemma waitpid_ok: "server_ok s \<Longrightarrow> \<exists>s'. server_waitpid ps s = Some s' \<and> server_ok s'"
proof (induction ps arbitrary: s)
  case (Cons p ps)
  from reap_child_ok [OF Cons.prems, of p] Cons.IH show ?case by (cases "server_reap_child p s") auto
qed simp

lemma add_child_ok:
  "server_ok s \<Longrightarrow> children_count (kids s) \<noteq> sv_max_child s \<Longrightarrow> be_find bid (bes s) = Some b \<Longrightarrow>
   be_nchild b \<noteq> be_max_child b \<Longrightarrow> step_all server_ok (server_add_child L now p bid s)"
  using add_child_pool [of s bid b L now p] add_child_fds [of s L now p bid]
  by (cases "server_add_child L now p bid s") (auto simp: server_ok_def)

lemma fork_in_parent_good:
  assumes "good p" "children_count (kids (srv p)) \<noteq> sv_max_child (srv p)"
    "be_find bid (bes (srv p)) = Some b" "be_nchild b \<noteq> be_max_child b"
    "fork_in_parent L now bid child sock p = Some q"
  shows "good q"
proof (cases "pipc_fd p")
  case (Some fd)
  with assms(5) show ?thesis by (auto simp: fork_in_parent_def good_def split: step.splits)
next
  case None
  with assms(1) have "server_ok (srv p)" by (simp add: good_def)
  from add_child_ok [OF this assms(2-4), of L now child] assms(5) None show ?thesis
    by (auto simp: fork_in_parent_def good_def split: step.splits dest: server_ok_watch)
qed

lemma fork_child_cases:
  assumes "server_fork_child L now bid p = Some (r, q)"
  obtains (error) f where "r = Fork_error" "q = p\<lparr>forks := f\<rparr>"
  | (child) f sock where "r = Fork_child" "fork_in_child bid sock (p\<lparr>forks := f\<rparr>) = Some q"
  | (parent) f c sock b where "r = Fork_parent c" "be_find bid (bes (srv p)) = Some b"
      "children_count (kids (srv p)) \<noteq> sv_max_child (srv p)" "be_nchild b \<noteq> be_max_child b"
      "fork_in_parent L now bid c sock (p\<lparr>forks := f\<rparr>) = Some q"
  using assms that(1) [of "forks p"] that unfolding server_fork_child_def
  by (auto simp: Let_def split: option.splits if_splits list.splits prod.splits fork_result.splits)

lemma fork_in_child_pipc: "fork_in_child bid sock p = Some q \<Longrightarrow> pipc_fd q = Some sock"
  by (auto simp: fork_in_child_def split: outcome.splits)

lemma fork_child_good:
  assumes "good p" "server_fork_child L now bid p = Some (r, q)"
  shows "good q" "r = Fork_child \<Longrightarrow> pipc_fd q \<noteq> None"
proof -
  have "good q \<and> (r = Fork_child \<longrightarrow> pipc_fd q \<noteq> None)" using assms(2)
  proof (cases rule: fork_child_cases)
    case (child f sock)
    then show ?thesis using fork_in_child_pipc [OF child(2)] by (simp add: good_def)
  next
    case (parent f c sock b)
    have "good (p\<lparr>forks := f\<rparr>)" using assms(1) by simp
    from fork_in_parent_good [OF this _ _ parent(4,5)] parent(1-3) show ?thesis by simp
  next
    case (error f)
    then show ?thesis using assms(1) by simp
  qed
  then show "good q" "r = Fork_child \<Longrightarrow> pipc_fd q \<noteq> None" by blast+
qed

lemma server_stop_good: "good p \<Longrightarrow> step_all good (server_stop p)"
  by (auto simp: server_stop_def good_def split: option.splits)

lemma cmd_fork_child_good: "good p \<Longrightarrow> step_all good (server_ppc_cmd_fork_child fd bid p)"
  by (simp add: server_ppc_cmd_fork_child_def Let_def split: prod.splits)

lemma cb_spawn_child_good: "good p \<Longrightarrow> step_all good (server_cb_spawn_child p)"
  using cmd_fork_child_good [of p "the (pipc_fd p)" "the (cur_be p)"]
  by (auto simp: server_cb_spawn_child_def split: option.splits step.splits intro: server_stop_good)

lemma backend_serve_good: "good p \<Longrightarrow> good (snd (backend_serve E bid ad p))"
  by (simp add: backend_serve_def split: prod.splits)

lemma child_serve_good: "good p \<Longrightarrow> ran good (server_child_serve L E now bid ad p)"
  using fork_child_good(1) [of p L now bid]
  by (cases "server_fork_child L now bid p")
    (auto simp: server_child_serve_def intro!: step_all_ignore server_stop_good backend_serve_good split: fork_result.splits)

lemma be_serve_good: "good p \<Longrightarrow> ran good (server_be_serve L E now b ad p)"
  using child_serve_good [of p L E now "be_id b" ad] backend_serve_good [of p E "be_id b" ad]
  by (auto simp: server_be_serve_def split: server_model.splits prod.splits
      intro!: step_all_ignore cb_spawn_child_good)

lemma dispatch_with_good:
  "good p \<Longrightarrow> (\<And>d q. good q \<Longrightarrow> ran good (ppc d q)) \<Longrightarrow> ran good (dispatch_with ppc L E now fd p)"
  by (auto simp: dispatch_with_def be_serve_good split: option.splits prod.splits)

lemma child_loop_good: "good p \<Longrightarrow> ran good (child_loop L E now bid c p)"
proof (induction c arbitrary: p)
  case (Suc c)
  have "ran good (dispatch_with (\<lambda>_ _. None) L E now (be_ld b) p)" for b
    using Suc.prems by (intro dispatch_with_good) simp_all
  with Suc show ?case by (cases "be_find bid (bes (srv p))") (auto intro!: ran_bind)
qed simp

lemma spawned_child_good: "good p \<Longrightarrow> ran good (spawned_child L E now bid p)"
  unfolding spawned_child_def
  by (auto split: option.splits intro!: ran_bind child_loop_good step_all_ignore server_stop_good)

lemma spawn_child_good: "good p \<Longrightarrow> ran good (server_spawn_child L E now bid p)"
  using fork_child_good(1) [of p L now bid] spawned_child_good
  by (cases "server_fork_child L now bid p")
    (auto simp: server_spawn_child_def split: fork_result.splits)

lemma be_update_good:
  assumes "good p" "\<And>b. be_id (f b) = be_id b \<and> be_nchild (f b) = be_nchild b \<and> be_max_child (f b) = be_max_child b"
    "be_update bid f p = Some q"
  shows "good q"
proof -
  from assms(3) obtain b where b: "be_find bid (bes (srv p)) = Some b" "q = upd_srv (be_put (f b)) p"
    by (auto simp: be_update_def)
  with assms(1) assms(2) [of b] server_ok_put [of "srv p" bid b "f b"] show ?thesis by (auto simp: good_def)
qed

lemma spawn_loop_good: "good p \<Longrightarrow> ran good (spawn_loop L E now bid k i p)"
proof (induction k arbitrary: i p)
  case (Suc k)
  let ?f = "\<lambda>b. b\<lparr>be_fork_child := size_sub (be_fork_child b) 1\<rparr>"
  have "ran good (Option.bind (be_update bid ?f q) (spawn_loop L E now bid k (Suc i)))" if "good q" for q
    using be_update_good [OF that, of ?f bid] Suc.IH by (cases "be_update bid ?f q") auto
  with Suc.prems spawn_child_good [OF Suc.prems, of L E now bid] show ?case
    by (cases "be_find bid (bes (srv p))") (auto intro!: ran_bind)
qed simp

lemma spawn_backends_good: "good p \<Longrightarrow> ran good (spawn_backends L E now bids p)"
proof (induction bids arbitrary: p)
  case (Cons bid bids)
  show ?case
  proof (cases "be_find bid (bes (srv p))")
    case (Some b)
    with Cons spawn_loop_good [OF Cons.prems, of L E now bid "be_fork_child b" 0] show ?thesis
      by (auto intro!: ran_bind)
  qed simp
qed simp

lemma spawn_children_good: "good p \<Longrightarrow> ran good (server_spawn_children L E now p)"
  by (simp add: server_spawn_children_def spawn_backends_good)


lemma ppc_cb_fork_child_good: "good p \<Longrightarrow> ran good (server_ppc_cb_fork_child L E now bid p)"
proof -
  assume "good p"
  let ?f = "\<lambda>b. b\<lparr>be_fork_child := size_add (be_fork_child b) 1\<rparr>"
  have "ran good (map_option Done (be_update bid ?f q))" if "good q" for q
    using be_update_good [OF that, of ?f bid] by (cases "be_update bid ?f q") auto
  with \<open>good p\<close> spawn_child_good [OF \<open>good p\<close>, of L E now bid] show ?thesis
    by (auto simp: server_ppc_cb_fork_child_def split: option.splits intro!: ran_bind)
qed

lemma ran_ignore: "ran P r \<Longrightarrow> ran P (map_option ignore_status r)"
  by (cases r) (auto intro: step_all_ignore)

lemma fork_child_cb_good: "good p \<Longrightarrow> ran good (fst (fork_child_cb L E now data (Some (Done p), c)))"
  by (auto simp: fork_child_cb_def intro!: ran_ignore ppc_cb_fork_child_good)

lemma other_cb_good: "good p \<Longrightarrow> ran good (fst (other_cb h data (Some (Done p), c)))"
  by (auto simp: other_cb_def split: prod.splits)

lemma server_ppc_good:
  "good p \<Longrightarrow> ftb (server_ppc L E now) cmd = Some cb \<Longrightarrow> ran good (fst (cb data (Some (Done p), c)))"
  using fork_child_cb_good [of p L E now data c] other_cb_good [of p _ data c]
  by (auto simp: server_ppc_def ppc_register_def split: if_splits)

lemma process_server_ppc_good:
  assumes "good p" "server_process_ppc (server_ppc L E now) (Some (Done p), c) = Ok (r, c', closed)"
  shows "ran good r"
proof -
  from assms(2) consider "r = Some (Done p)"
    | cmd data n c1 cb where "ftb (server_ppc L E now) cmd = Some cb" "r = fst (cb data (Some (Done p), c1))"
    by (auto simp: server_process_ppc_def ppc_dispatch_def split: prod.splits ppc_in.splits option.splits outcome.splits if_splits)
      (metis fst_conv)
  then show ?thesis using assms(1) by cases (auto intro: server_ppc_good)
qed

lemma process_ppc_good:
  assumes "good p"
  shows "ran good (process_ppc L E now fd p)"
proof (cases "server_process_ppc (server_ppc L E now) (Some (Done p), chans p fd)")
  case (Ok x)
  obtain r c closed where x: "x = (r, c, closed)" by (cases x)
  have "ran good r" using process_server_ppc_good [OF assms] Ok x by blast
  moreover have "ran good (map_option (\<lambda>s. Done (q\<lparr>chans := ch, srv := s\<rparr>)) (server_close_fd fd (srv q)))"
    if "good q" for q ch
    using that server_ok_close [of "srv q" fd] by (cases "server_close_fd fd (srv q)") (auto simp: good_def)
  ultimately show ?thesis using Ok x
    by (auto simp: process_ppc_def Let_def intro!: ran_bind)
qed (use assms in \<open>simp_all add: process_ppc_def\<close>)

lemma dispatch_good: "good p \<Longrightarrow> ran good (server_dispatch L E now fd p)"
  unfolding server_dispatch_def by (rule dispatch_with_good) (auto intro: process_ppc_good)

lemma fd_loop_good: "good p \<Longrightarrow> fd_loop L E now ready k fd rc p = Some q \<Longrightarrow> good q"
proof (induction k arbitrary: fd rc p)
  case (Suc k)
  show ?case
  proof (cases "server_dispatch L E now (Some fd) p")
    case (Some r)
    with dispatch_good [OF Suc.prems(1), of L E now "Some fd"] Suc show ?thesis
      by (cases r) (auto split: if_splits)
  qed (use Suc in \<open>auto split: if_splits\<close>)
qed simp

lemma meet_signals_ok: "server_ok s \<Longrightarrow> server_ok (meet_signals t s)"
  by (simp add: meet_signals_def Let_def server_sigchld_def server_cb_klog_flush_def)

lemma turn_parent_good:
  assumes "pipc_fd p = None" "server_ok (srv p)" "turn_parent L t p = Some q"
  shows "good q"
  using assms waitpid_ok [OF assms(2), of "tn_ended t"] by (auto simp: turn_parent_def good_def split: if_splits)

lemma server_turn_good:
  assumes "good p" "server_turn L E now t p = Some (left, r)"
  shows "step_all good r"
proof -
  from assms(2) obtain r1 where r1: "server_spawn_children L E now p = Some r1"
    by (auto simp: server_turn_def bind_eq_Some_conv)
  with spawn_children_good [OF assms(1), of L E now] obtain p1 where p1: "ignore_status r1 = Done p1" "good p1"
    by (cases r1) auto
  show ?thesis
  proof (cases "pipc_fd p1")
    case None
    let ?p = "upd_srv (meet_signals t) p1"
    from None p1(2) have p2: "server_ok (srv ?p)" "pipc_fd ?p = None" by (simp_all add: good_def meet_signals_ok)
    have "good ?p" using p2(1) by (simp add: good_def)
    with assms(2) r1 p1(1) None turn_parent_good [OF p2(2,1), of L t] fd_loop_good [of _ L E now "tn_ready t"] show ?thesis
      by (auto simp: server_turn_def Let_def bind_eq_Some_conv split: option.splits)
  next
    case (Some fd)
    with assms(2) r1 p1(1) have "r = Done p1" by (simp add: server_turn_def)
    with p1(2) show ?thesis by simp
  qed
qed

lemma server_turns_good: "good p \<Longrightarrow> ran good (server_turns L E now ts p)"
proof (induction ts arbitrary: p)
  case (Cons t ts)
  show ?case
  proof (cases "server_turn L E now t p")
    case (Some x)
    with server_turn_good [OF Cons.prems, of L E now t] Cons show ?thesis
      by (cases x; cases "snd x") auto
  qed (use Cons in simp)
qed simp

end
