(* ===== verification/Server_Pool.thy ===== *)
theory Server_Pool
  imports Server
begin

text \<open>
  What \<^verbatim>\<open>src/kloned/server.c\<close> does with its children over time: the limits hold after every
  turn of the loop, one call of \<^verbatim>\<open>server_spawn_children\<close> forks half of the missing workers and
  repeated calls all of them, a busy worker's request reaches the parent, and what goes wrong at
  shutdown and in a forked child that falls back into the parent's loop.
\<close>

section \<open>Spawning\<close>

text \<open>The children a backend is still to fork, and the conditions under which all of them can be forked.\<close>

definition to_spawn :: "backend \<Rightarrow> nat" where
  "to_spawn b = (if be_model b = SERVER_MODEL_PREFORK then be_fork_child b else 0)"

definition pending :: "server \<Rightarrow> nat" where
  "pending s = sum_list (map to_spawn (bes s))"

definition fork_succeeds :: "(nat \<times> nat) option \<times> fork_result \<Rightarrow> bool" where
  "fork_succeeds f = (case f of (Some (s0, s1), Fork_parent c) \<Rightarrow> s0 < FD_SETSIZE | _ \<Rightarrow> False)"

definition can_spawn :: "'w process \<Rightarrow> bool" where
  "can_spawn p \<longleftrightarrow>
     pipc_fd p = None \<and> pool_ok (srv p) \<and>
     pending (srv p) \<le> length (forks p) \<and> list_all fork_succeeds (take (pending (srv p)) (forks p)) \<and>
     children_count (kids (srv p)) + pending (srv p) \<le> sv_max_child (srv p) \<and>
     (\<forall>b\<in>set (bes (srv p)). be_nchild b + to_spawn b \<le> be_max_child b)"

lemma sum_list_put:
  assumes "distinct (map be_id bs)" "b \<in> set bs" "be_id b' = be_id b"
  shows "sum_list (map g (map (\<lambda>x. if be_id x = be_id b' then b' else x) bs)) + g b = sum_list (map g bs) + (g b' :: nat)"
  using assms
proof (induction bs)
  case (Cons x bs)
  show ?case
  proof (cases "x = b")
    case True
    with Cons.prems have "map (\<lambda>x. if be_id x = be_id b' then b' else x) bs = bs"
      by (intro map_idI) (auto simp: image_iff)
    with True Cons.prems(3) show ?thesis by simp
  next
    case False
    with Cons.prems have "be_id x \<noteq> be_id b'" by auto
    with False Cons show ?thesis by auto
  qed
qed simp

lemma be_put_bes: "bes (be_put b s) = map (\<lambda>x. if be_id x = be_id b then b else x) (bes s)"
  by (simp add: be_put_def)

lemma watch_fd_fields:
  "server_watch_fd fd m s = Some s' \<Longrightarrow>
     bes s' = bes s \<and> kids s' = kids s \<and> sv_max_child s' = sv_max_child s"
  by (auto simp: server_watch_fd_def split: if_splits prod.splits)

lemma watch_fd_small: "fd < FD_SETSIZE \<Longrightarrow> server_watch_fd fd m s \<noteq> None"
  by (auto simp: server_watch_fd_def split: prod.splits)

lemma pool_ok_cong:
  "pool_ok s \<Longrightarrow> bes s' = bes s \<Longrightarrow> kids s' = kids s \<Longrightarrow> sv_max_child s' = sv_max_child s \<Longrightarrow> pool_ok s'"
  by (auto simp: pool_ok_def)

lemma spawn_child_parent:
  assumes mem: "u_malloc L 40" and p: "pool_ok (srv p)" "children_count (kids (srv p)) < sv_max_child (srv p)"
    and b: "be_find bid (bes (srv p)) = Some b" "be_nchild b < be_max_child b"
    and f: "forks p = f # fs" "fork_succeeds f"
  shows "\<exists>q. server_spawn_child L E now bid p = Some (Done q) \<and> pool_ok (srv q) \<and> pipc_fd q = pipc_fd p \<and> forks q = fs \<and>
           bes (srv q) = bes (be_put (b\<lparr>be_nchild := Suc (be_nchild b)\<rparr>) (srv p)) \<and>
           children_count (kids (srv q)) = Suc (children_count (kids (srv p))) \<and> sv_max_child (srv q) = sv_max_child (srv p)"
proof -
  from f(2) obtain s0 s1 c where fc: "f = (Some (s0, s1), Fork_parent c)" "s0 < FD_SETSIZE"
    by (cases f; cases "snd f") (auto simp: fork_succeeds_def split: option.splits)
  let ?b = "b\<lparr>be_nchild := size_add (be_nchild b) 1\<rparr>" and ?c = "\<lparr>c_pid = c, c_be = bid, c_birth = now\<rparr>"
  let ?s = "be_put ?b ((srv p)\<lparr>kids := children_add ?c (kids (srv p))\<rparr>)"
  have add: "server_add_child L now c bid (srv p) = Done ?s"
    using mem b(1) by (simp add: server_add_child_def child_create_def Let_def)
  have pool: "pool_ok ?s" using add_child_pool [OF p(1) _ b(1), of L now c] p(2) b(2) add by simp
  obtain s' where s': "server_watch_fd s0 (True, False, False) ?s = Some s'"
    using watch_fd_small [OF fc(2), of "(True, False, False)" ?s] by blast
  have ok: "children_ok (kids (srv p))" "children_room ?c (kids (srv p))"
    using p by (auto simp: pool_ok_def children_room_def children_ok_def children_count_def)
  have n: "size_add (be_nchild b) 1 = Suc (be_nchild b)"
    using pool_ok_be [OF p(1) b(1)] be_kids_le [of bid "kids (srv p)"] ok by (simp add: children_room_def)
  let ?q = "p\<lparr>forks := fs, srv := s'\<rparr>"
  have "server_spawn_child L E now bid p = Some (Done ?q)"
    using p(2) b f(1) fc(1) add s' by (simp add: server_spawn_child_def server_fork_child_def fork_in_parent_def Let_def)
  moreover have "pool_ok s'" using pool_ok_cong [OF pool] watch_fd_fields [OF s'] by simp
  ultimately show ?thesis
    using watch_fd_fields [OF s'] children_list.counter_add [OF ok] n by (intro exI [of _ ?q]) (simp add: be_put_bes)
qed


abbreviation forked_one :: "backend \<Rightarrow> backend" where
  "forked_one b \<equiv> b\<lparr>be_nchild := Suc (be_nchild b), be_fork_child := be_fork_child b - 1\<rparr>"

lemma be_put_put: "be_id b' = be_id b \<Longrightarrow> bes (be_put b' (be_put b s)) = bes (be_put b' s)"
  by (simp add: be_put_bes)

lemma sum_list_ge_member: "x \<in> set xs \<Longrightarrow> g x \<le> sum_list (map g xs)" for g :: "'a \<Rightarrow> nat"
  by (simp add: member_le_sum_list)

lemma spawn_one:
  assumes mem: "u_malloc L 40" and p: "can_spawn p"
    and b: "be_find bid (bes (srv p)) = Some b" "be_model b = SERVER_MODEL_PREFORK" "0 < be_fork_child b" "be_fork_child b < SIZE_LIMIT"
  shows "\<exists>q q'. server_spawn_child L E now bid p = Some (Done q) \<and> pipc_fd q = None \<and>
           be_update bid (\<lambda>b. b\<lparr>be_fork_child := size_sub (be_fork_child b) 1\<rparr>) q = Some q' \<and>
           can_spawn q' \<and> bes (srv q') = bes (be_put (forked_one b) (srv p))"
proof -
  have pool: "pool_ok (srv p)" "distinct (map be_id (bes (srv p)))" using p by (auto simp: can_spawn_def pool_ok_def)
  note bf = be_find_Some [OF b(1)]
  have ts: "to_spawn b = be_fork_child b" using b(2) by (simp add: to_spawn_def)
  have pend: "be_fork_child b \<le> pending (srv p)"
    using sum_list_ge_member [of b "bes (srv p)" to_spawn] bf ts by (simp add: pending_def)
  have nb: "be_nchild b + be_fork_child b \<le> be_max_child b" using p bf ts unfolding can_spawn_def by metis
  obtain f fs where f: "forks p = f # fs" using p pend b(3) by (cases "forks p") (auto simp: can_spawn_def)
  have fs: "fork_succeeds f" "list_all fork_succeeds (take (pending (srv p) - 1) fs)"
    using p pend b(3) f by (auto simp: can_spawn_def take_Cons' split: if_splits)
  let ?b1 = "b\<lparr>be_nchild := Suc (be_nchild b)\<rparr>"
  from spawn_child_parent [OF mem pool(1) _ b(1) _ f fs(1), of E now] p pend b(3) nb obtain q where
    q: "server_spawn_child L E now bid p = Some (Done q)" "pool_ok (srv q)" "pipc_fd q = None" "forks q = fs"
      "bes (srv q) = bes (be_put ?b1 (srv p))" "children_count (kids (srv q)) = Suc (children_count (kids (srv p)))"
      "sv_max_child (srv q) = sv_max_child (srv p)" by (auto simp: can_spawn_def)
  have find: "be_find bid (bes (srv q)) = Some ?b1"
    using be_find_put [of bid ?b1 "bes (srv p)"] bf unfolding q(5) be_put_bes by (auto simp: image_iff)
  let ?b2 = "?b1\<lparr>be_fork_child := size_sub (be_fork_child b) 1\<rparr>"
  have b2: "?b2 = forked_one b" using b(3,4) by simp
  let ?q = "upd_srv (be_put ?b2) q"
  have upd: "be_update bid (\<lambda>b. b\<lparr>be_fork_child := size_sub (be_fork_child b) 1\<rparr>) q = Some ?q"
    using find by (simp add: be_update_def)
  have bes: "bes (srv ?q) = bes (be_put (forked_one b) (srv p))"
    using q(5) b2 be_put_put [of ?b2 ?b1 "srv p"] by (simp add: be_put_bes)
  have "pending (srv ?q) + be_fork_child b = pending (srv p) + (be_fork_child b - 1)"
    using sum_list_put [OF pool(2) conjunct1 [OF bf], of "forked_one b" to_spawn] b(2)
    unfolding pending_def bes be_put_bes by (simp add: to_spawn_def)
  then have pend': "pending (srv ?q) = pending (srv p) - 1" using b(3) by simp
  have "can_spawn ?q"
    unfolding can_spawn_def
  proof (intro conjI ballI)
    show "pool_ok (srv ?q)" using pool_ok_put [OF q(2) find] by simp
    show "be_nchild x + to_spawn x \<le> be_max_child x" if x: "x \<in> set (bes (srv ?q))" for x
    proof -
      from x have "x = forked_one b \<or> x \<in> set (bes (srv p))"
        unfolding bes by (auto dest: be_put_set)
      then show ?thesis using p nb b(2,3) by (auto simp: can_spawn_def to_spawn_def)
    qed
  qed (use q fs p pend pend' f b(3) in \<open>auto simp: can_spawn_def\<close>)
  with q(1,3) upd bes show ?thesis by blast
qed


text \<open>
  The loop adds one to \<^verbatim>\<open>i\<close> and takes one from \<^verbatim>\<open>fork_child\<close> at every turn, so a call meets in
  the middle: it forks half of the missing children, rounded up.
\<close>

definition spawn_round :: "backend \<Rightarrow> backend" where
  "spawn_round b =
     (if be_model b = SERVER_MODEL_PREFORK
      then b\<lparr>be_nchild := be_nchild b + (be_fork_child b + 1) div 2, be_fork_child := be_fork_child b div 2\<rparr> else b)"

lemma be_put_same:
  assumes "distinct (map be_id (bes s))" "be_find i (bes s) = Some b"
  shows "bes (be_put b s) = bes s"
proof -
  have "x = b" if "x \<in> set (bes s)" "be_id x = be_id b" for x
    using be_find_in [OF assms(1) that(1)] that(2) assms(2) be_find_Some [OF assms(2)] by simp
  then show ?thesis unfolding be_put_bes by (intro map_idI) auto
qed

lemma can_spawn_distinct: "can_spawn p \<Longrightarrow> distinct (map be_id (bes (srv p)))"
  by (simp add: can_spawn_def pool_ok_def)

lemma spawn_loop_halves:
  assumes mem: "u_malloc L 40"
  shows "can_spawn p \<Longrightarrow> be_find bid (bes (srv p)) = Some b \<Longrightarrow> be_model b = SERVER_MODEL_PREFORK \<Longrightarrow>
    be_fork_child b < SIZE_LIMIT \<Longrightarrow> be_fork_child b \<le> i + 2 * k \<Longrightarrow>
    \<exists>q. spawn_loop L E now bid k i p = Some (Done q) \<and> can_spawn q \<and>
      bes (srv q) = bes (be_put (b\<lparr>be_nchild := be_nchild b + (be_fork_child b - i + 1) div 2,
                                 be_fork_child := be_fork_child b - (be_fork_child b - i + 1) div 2\<rparr>) (srv p))"
proof (induction k arbitrary: i p b)
  case 0
  then show ?case using be_put_same [OF can_spawn_distinct "0.prems"(2)] by simp
next
  case (Suc k)
  show ?case
  proof (cases "be_fork_child b \<le> i")
    case True
    with Suc.prems show ?thesis using be_put_same [OF can_spawn_distinct Suc.prems(2)] by simp
  next
    case False
    from spawn_one [OF mem Suc.prems(1,2,3) _ Suc.prems(4), of E now] False obtain q q' where
      q: "server_spawn_child L E now bid p = Some (Done q)" "pipc_fd q = None"
        "be_update bid (\<lambda>b. b\<lparr>be_fork_child := size_sub (be_fork_child b) 1\<rparr>) q = Some q'"
        "can_spawn q'" "bes (srv q') = bes (be_put (forked_one b) (srv p))" by auto
    have find: "be_find bid (bes (srv q')) = Some (forked_one b)"
      using be_find_put [of bid "forked_one b" "bes (srv p)"] be_find_Some [OF Suc.prems(2)]
      unfolding q(5) be_put_bes by (auto simp: image_iff)
    have half: "(be_fork_child b - 1 - Suc i + 1) div 2 + 1 = (be_fork_child b - i + 1) div 2"
      using False by presburger
    have pre: "be_model (forked_one b) = SERVER_MODEL_PREFORK" "be_fork_child (forked_one b) < SIZE_LIMIT"
        "be_fork_child (forked_one b) \<le> Suc i + 2 * k" using Suc.prems(3,4,5) by simp_all
    from Suc.IH [OF q(4) find pre] obtain q2 where
      q2: "spawn_loop L E now bid k (Suc i) q' = Some (Done q2)" "can_spawn q2"
        "bes (srv q2) = bes (be_put (forked_one b\<lparr>be_nchild := be_nchild (forked_one b) + (be_fork_child (forked_one b) - Suc i + 1) div 2,
                                 be_fork_child := be_fork_child (forked_one b) - (be_fork_child (forked_one b) - Suc i + 1) div 2\<rparr>) (srv q'))"
      by blast
    have "bes (srv q2) = bes (be_put (b\<lparr>be_nchild := be_nchild b + (be_fork_child b - i + 1) div 2,
                                 be_fork_child := be_fork_child b - (be_fork_child b - i + 1) div 2\<rparr>) (srv p))"
      unfolding q2(3) half [symmetric] using q(5) by (simp add: be_put_bes)
    with q q2(1,2) Suc.prems(2) False show ?thesis by simp
  qed
qed

lemma spawn_loop_round:
  assumes "u_malloc L 40" "can_spawn p" "be_find bid (bes (srv p)) = Some b" "be_model b = SERVER_MODEL_PREFORK"
    "be_fork_child b < SIZE_LIMIT"
  shows "\<exists>q. spawn_loop L E now bid (be_fork_child b) 0 p = Some (Done q) \<and> can_spawn q \<and>
           bes (srv q) = bes (be_put (spawn_round b) (srv p))"
proof -
  have "be_fork_child b - (be_fork_child b + 1) div 2 = be_fork_child b div 2" by presburger
  then show ?thesis
    using spawn_loop_halves [OF assms, of 0 "be_fork_child b" E now] assms(4) by (simp add: spawn_round_def)
qed


lemma spawn_round_other [simp]: "be_id (spawn_round b) = be_id b" "be_model (spawn_round b) = be_model b"
  by (simp_all add: spawn_round_def)

lemma spawn_round_idle: "be_model b \<noteq> SERVER_MODEL_PREFORK \<or> be_fork_child b = 0 \<Longrightarrow> spawn_round b = b"
  by (auto simp: spawn_round_def)

lemma spawn_backends_round:
  assumes mem: "u_malloc L 40"
  shows "can_spawn p \<Longrightarrow> distinct bids \<Longrightarrow> set bids \<subseteq> be_id ` set (bes (srv p)) \<Longrightarrow>
    \<forall>b\<in>set (bes (srv p)). be_id b \<in> set bids \<longrightarrow> be_fork_child b < SIZE_LIMIT \<Longrightarrow>
    \<exists>q. spawn_backends L E now bids p = Some (Done q) \<and> can_spawn q \<and>
      bes (srv q) = map (\<lambda>b. if be_id b \<in> set bids then spawn_round b else b) (bes (srv p))"
proof (induction bids arbitrary: p)
  case (Cons bid bids)
  then obtain b where b: "be_find bid (bes (srv p)) = Some b"
    by (cases "be_find bid (bes (srv p))") (auto simp: be_find_None)
  note bf = be_find_Some [OF b]
  obtain p1 where p1: "(if be_model b \<noteq> SERVER_MODEL_PREFORK \<or> be_fork_child b = 0 then Some (Done p)
        else spawn_loop L E now bid (be_fork_child b) 0 p) = Some (Done p1)"
      "can_spawn p1" "bes (srv p1) = bes (be_put (spawn_round b) (srv p))"
  proof (cases "be_model b \<noteq> SERVER_MODEL_PREFORK \<or> be_fork_child b = 0")
    case True
    then show thesis using that [of p] Cons.prems(1) be_put_same [OF can_spawn_distinct [OF Cons.prems(1)] b] spawn_round_idle [OF True]
      by simp
  next
    case False
    then show thesis using that spawn_loop_round [OF mem Cons.prems(1) b, of E now] Cons.prems(4) bf by auto
  qed
  have eq: "spawn_backends L E now (bid # bids) p = spawn_backends L E now bids p1"
    using p1(1) b by (auto split: if_splits)
  have uniq: "x = b" if "x \<in> set (bes (srv p))" "be_id x = bid" for x
    using be_find_in [OF can_spawn_distinct [OF Cons.prems(1)] that(1)] that(2) b by simp
  have bes: "bes (srv p1) = map (\<lambda>x. if be_id x = bid then spawn_round x else x) (bes (srv p))"
    unfolding p1(3) be_put_bes using uniq bf by (auto intro!: map_cong)
  have "\<exists>q. spawn_backends L E now bids p1 = Some (Done q) \<and> can_spawn q \<and>
      bes (srv q) = map (\<lambda>b. if be_id b \<in> set bids then spawn_round b else b) (bes (srv p1))"
  proof (rule Cons.IH [OF p1(2)])
    show "set bids \<subseteq> be_id ` set (bes (srv p1))"
      using Cons.prems(3) unfolding p1(3) be_put_id_set by simp
    show "\<forall>b\<in>set (bes (srv p1)). be_id b \<in> set bids \<longrightarrow> be_fork_child b < SIZE_LIMIT"
      using Cons.prems(2,4) unfolding bes by auto
  qed (use Cons.prems in simp)
  then show ?case using Cons.prems(2) unfolding eq bes by (auto intro!: map_cong)
qed simp

lemma spawn_children_round:
  assumes "u_malloc L 40" "can_spawn p" "\<forall>b\<in>set (bes (srv p)). be_fork_child b < SIZE_LIMIT"
  shows "\<exists>q. server_spawn_children L E now p = Some (Done q) \<and> can_spawn q \<and> bes (srv q) = map spawn_round (bes (srv p))"
  using spawn_backends_round [OF assms(1,2) can_spawn_distinct [OF assms(2)], of E now] assms(3)
  by (auto simp: server_spawn_children_def)

fun spawn_rounds :: "libu \<Rightarrow> 'w serve_env \<Rightarrow> nat \<Rightarrow> nat \<Rightarrow> 'w process \<Rightarrow> 'w process step option" where
  "spawn_rounds L E now 0 p = Some (Done p)"
| "spawn_rounds L E now (Suc k) p =
     Option.bind (server_spawn_children L E now p) (\<lambda>r.
       case r of Done q \<Rightarrow> spawn_rounds L E now k q | other \<Rightarrow> Some other)"


lemma spawn_round_half:
  "be_model b = SERVER_MODEL_PREFORK \<Longrightarrow> be_fork_child (spawn_round b) = be_fork_child b div 2"
  "be_model b = SERVER_MODEL_PREFORK \<Longrightarrow> be_nchild (spawn_round b) + be_fork_child (spawn_round b) = be_nchild b + be_fork_child b"
proof -
  have "(n + 1) div 2 + n div 2 = n" for n :: nat by presburger
  then show "be_model b = SERVER_MODEL_PREFORK \<Longrightarrow> be_fork_child (spawn_round b) = be_fork_child b div 2"
    "be_model b = SERVER_MODEL_PREFORK \<Longrightarrow> be_nchild (spawn_round b) + be_fork_child (spawn_round b) = be_nchild b + be_fork_child b"
    by (simp_all add: spawn_round_def add.assoc)
qed

definition spawn_done :: "backend \<Rightarrow> backend" where
  "spawn_done b =
     (if be_model b = SERVER_MODEL_PREFORK then b\<lparr>be_nchild := be_nchild b + be_fork_child b, be_fork_child := 0\<rparr> else b)"

lemma spawn_done_round: "spawn_done (spawn_round b) = spawn_done b"
  using spawn_round_half(2) [of b] by (cases "be_model b = SERVER_MODEL_PREFORK") (simp_all add: spawn_done_def spawn_round_def)

lemma spawn_rounds_done:
  assumes mem: "u_malloc L 40"
  shows "can_spawn p \<Longrightarrow> \<forall>b\<in>set (bes (srv p)). be_fork_child b < SIZE_LIMIT \<Longrightarrow>
    \<forall>b\<in>set (bes (srv p)). to_spawn b < 2 ^ k \<Longrightarrow>
    \<exists>q. spawn_rounds L E now k p = Some (Done q) \<and> bes (srv q) = map spawn_done (bes (srv p)) \<and> can_spawn q"
proof (induction k arbitrary: p)
  case 0
  then have "\<forall>b\<in>set (bes (srv p)). spawn_done b = b" by (auto simp: spawn_done_def to_spawn_def)
  then have "map spawn_done (bes (srv p)) = bes (srv p)" by (simp add: map_idI)
  with "0.prems" show ?case by simp
next
  case (Suc k)
  from spawn_children_round [OF mem Suc.prems(1,2), of E now] obtain q where
    q: "server_spawn_children L E now p = Some (Done q)" "can_spawn q" "bes (srv q) = map spawn_round (bes (srv p))" by blast
  have "be_fork_child (spawn_round b) \<le> be_fork_child b" for b by (simp add: spawn_round_def)
  then have small: "\<forall>b\<in>set (bes (srv q)). be_fork_child b < SIZE_LIMIT"
    using Suc.prems(2) unfolding q(3) by (auto intro: le_less_trans)
  have "\<forall>b\<in>set (bes (srv q)). to_spawn b < 2 ^ k"
    using Suc.prems(3) unfolding q(3) by (auto simp: to_spawn_def spawn_round_half)
  with Suc.IH [OF q(2) small] q(1,3) show ?case by (auto simp: spawn_done_round)
qed

section \<open>Shutting down\<close>

lemma child_nth_nth: "child_nth cs i = (if i < length cs then Some (cs ! i) else None)"
  by (induction cs i rule: child_nth.induct) (auto simp: nth_Cons')

lemma signal_loop_eq:
  "children_ok (kids (srv p)) \<Longrightarrow> n \<le> length (clist (kids (srv p))) \<Longrightarrow>
   ignore_status (signal_loop can sig n p) =
     Done (p\<lparr>killed := killed p @ map (\<lambda>c. (c_pid c, sig)) (takeWhile (\<lambda>c. can (c_pid c)) (rev (take n (clist (kids (srv p))))))\<rparr>)"
proof (induction n arbitrary: p)
  case (Suc n)
  let ?c = "clist (kids (srv p)) ! n"
  have "children_getn (kids (srv p)) n = Some ?c"
    using Suc.prems by (simp add: children_getn_def children_ok_def child_nth_nth)
  then show ?case
    using Suc.IH [of "p\<lparr>killed := killed p @ [(c_pid ?c, sig)]\<rparr>"] Suc.prems
    by (simp add: take_Suc_conv_app_nth)
qed simp

lemma shutdown_eq:
  assumes "pipc_fd p = None" "server_ok (srv p)"
  shows "server_shutdown can p =
     Done (p\<lparr>killed := killed p @ map (\<lambda>c. (c_pid c, SIGTERM)) (takeWhile (\<lambda>c. can (c_pid c)) (rev (clist (kids (srv p)))))\<rparr>)"
proof -
  have ok: "children_ok (kids (srv p))" "sv_nchild (srv p) = 0" using assms(2) by (simp_all add: server_ok_def pool_ok_def)
  then have "children_count (kids (srv p)) = length (clist (kids (srv p)))" by (simp add: children_ok_def children_count_def)
  with ok assms(1) signal_loop_eq [OF ok(1) order.refl, of can SIGTERM] show ?thesis
    by (simp add: server_shutdown_def server_term_children_def server_signal_children_def)
qed

section \<open>The parent's loop in a forked child\<close>

lemma fd_loop_skip:
  "\<forall>j<d. fd + j \<notin> ready \<Longrightarrow> fd + d \<le> hfd (srv p) \<Longrightarrow> 0 < rc \<Longrightarrow>
   fd_loop L E now ready (d + k) fd rc p = fd_loop L E now ready k (fd + d) rc p"
proof (induction d arbitrary: fd)
  case (Suc d)
  from Suc.prems(1) have "fd \<notin> ready" "\<forall>j<d. Suc fd + j \<notin> ready" by (metis add_0_right zero_less_Suc) (metis Suc.prems(1) Suc_less_eq add_Suc_shift)
  with Suc.IH [of "Suc fd"] Suc.prems show ?case by simp
qed simp

lemma fd_loop_ready:
  "fd \<in> ready \<Longrightarrow> fd \<le> hfd (srv p) \<Longrightarrow> server_dispatch L E now (Some fd) p = Some (Done q) \<Longrightarrow>
   fd_loop L E now ready (Suc k) fd (Suc rc) p = fd_loop L E now ready k (Suc fd) rc q"
  by simp

lemma fd_loop_none [simp]: "fd_loop L E now ready k fd 0 p = Some p"
  by (cases k) simp_all

lemma fd_loop_two:
  assumes "fd1 < fd2" "fd2 < FD_SETSIZE" "fd2 \<le> hfd (srv p)" "fd2 \<le> hfd (srv q)"
    and d1: "server_dispatch L E now (Some fd1) p = Some (Done q)"
    and d2: "server_dispatch L E now (Some fd2) q = Some (Done r)"
  shows "fd_loop L E now {fd1, fd2} FD_SETSIZE 0 2 p = Some r"
proof -
  define k where "k = FD_SETSIZE - Suc fd2"
  have n: "FD_SETSIZE = fd1 + Suc (fd2 - Suc fd1 + Suc k)" using assms(1,2) by (simp add: k_def)
  have "fd_loop L E now {fd1, fd2} FD_SETSIZE 0 2 p = fd_loop L E now {fd1, fd2} (Suc (fd2 - Suc fd1 + Suc k)) fd1 2 p"
    using fd_loop_skip [of fd1 0 "{fd1, fd2}" p 2 L E now "Suc (fd2 - Suc fd1 + Suc k)"] assms(1,3) unfolding n by simp
  also have "\<dots> = fd_loop L E now {fd1, fd2} (fd2 - Suc fd1 + Suc k) (Suc fd1) 1 q"
    using fd_loop_ready [of fd1 "{fd1, fd2}" p L E now q _ 1] d1 assms(1,3) by (simp add: numeral_2_eq_2 del: fd_loop.simps)
  also have "\<dots> = fd_loop L E now {fd1, fd2} (Suc k) fd2 1 q"
  proof -
    have "\<forall>j<fd2 - Suc fd1. Suc fd1 + j \<notin> {fd1, fd2}" "Suc fd1 + (fd2 - Suc fd1) = fd2" using assms(1) by auto
    with fd_loop_skip [of "fd2 - Suc fd1" "Suc fd1" "{fd1, fd2}" q 1 L E now "Suc k"] assms(4) show ?thesis
      by (simp del: fd_loop.simps)
  qed
  also have "\<dots> = Some r" using fd_loop_ready [of fd2 "{fd1, fd2}" q L E now r k 0] d2 assms(4) by simp
  finally show ?thesis .
qed


lemma be_of_ld_None: "be_of_ld fd bs = None \<longleftrightarrow> fd \<notin> be_ld ` set bs"
  by (induction fd bs rule: be_of_ld.induct) auto

lemma be_of_ld_Some: "be_of_ld fd bs = Some b \<Longrightarrow> b \<in> set bs \<and> be_ld b = fd"
  by (induction fd bs rule: be_of_ld.induct) (auto split: if_splits)

lemma own_ld_found: "be_find i bs = Some b \<Longrightarrow> be_of_ld (be_ld b) bs \<noteq> None"
  using be_find_Some [of i bs b] by (auto simp: be_of_ld_None)

text \<open>What a forked child is left with when it has served its connection.\<close>

definition served_child :: "nat \<Rightarrow> nat \<Rightarrow> 'w \<Rightarrow> ((nat \<times> nat) option \<times> fork_result) list \<Rightarrow> children \<Rightarrow> 'w process \<Rightarrow> 'w process" where
  "served_child bid sock w fs cs p =
     p\<lparr>srv := (srv p)\<lparr>klog_flush := 0, bes := map (\<lambda>b. if be_id b = bid then b else b\<lparr>be_ld := None\<rparr>) (bes (srv p)), kids := cs, sv_stop := True\<rparr>,
       pipc_fd := Some sock, cur_be := Some bid, forks := fs, world := w\<rparr>"

lemma dispatch_fork_child:
  assumes p: "pool_ok (srv p)" and b: "be_of_ld (Some fd) (bes (srv p)) = Some b" "be_model b = SERVER_MODEL_FORK"
    and room: "children_count (kids (srv p)) \<noteq> sv_max_child (srv p)" "be_nchild b \<noteq> be_max_child b"
    and acc: "sv_accept E fd (world p) = (Some ad, w)" and f: "forks p = (Some (s0, s1), Fork_child) # fs"
  shows "\<exists>cs. server_dispatch L E now (Some fd) p = Some (Done (served_child (be_id b) s1 (snd (sv_serve E (be_id b) ad w)) fs cs p))"
proof -
  have "children_ok (kids (srv p))" "distinct (map be_id (bes (srv p)))" using p by (simp_all add: pool_ok_def)
  with be_find_in be_of_ld_Some [OF b(1)] have find: "be_find (be_id b) (bes (srv p)) = Some b" by blast
  from children_clear_ok [OF \<open>children_ok (kids (srv p))\<close>] obtain cs where cs: "children_clear (kids (srv p)) = Ok cs" by blast
  show ?thesis
    by (intro exI [of _ cs])
      (simp add: server_dispatch_def dispatch_with_def b acc server_be_serve_def server_child_serve_def server_fork_child_def
        find room f fork_in_child_def cs Let_def backend_serve_def server_stop_def served_child_def split: prod.splits)
qed

lemma process_ppc_other:
  assumes "ppc_read PPC_MAX_DATA_SIZE (chans p fd) = (Ppc_msg cmd data (length data), c)" "cmd \<noteq> PPC_CMD_FORK_CHILD"
    "sv_handler E cmd = Some h" "h data (world p, c) = (w, c')"
  shows "process_ppc L E now fd p = Some (Done (p\<lparr>world := w, chans := (chans p)(fd := c')\<rparr>))"
  using assms by (simp add: process_ppc_def server_process_ppc_def ppc_dispatch_def server_ppc_def ppc_register_def
      other_cb_def Let_def)

end
