(* ===== verification/Server_Setup.thy ===== *)
theory Server_Setup
  imports Server_Pool "HOL-Library.Monad_Syntax"
begin

text \<open>
  How a server comes to life: \<^verbatim>\<open>backend_create\<close> of \<^verbatim>\<open>src/libbackend/backend.c\<close>,
  \<^verbatim>\<open>server_create\<close> of \<^verbatim>\<open>src/kloned/server.c\<close> and the part of \<^verbatim>\<open>server_loop\<close> before its
  loop: listening, \<^verbatim>\<open>chroot\<close>, dropping privileges and the check for root.  The configuration
  tree, the address parser and the sockets are LibU's and come as arguments; the user and group
  identifiers of the process follow POSIX.
\<close>

section \<open>Definitions\<close>

record u_config =
  cfg_value :: "string \<Rightarrow> string option"
  cfg_int :: "string \<Rightarrow> int \<Rightarrow> int option"
  cfg_bool :: "string \<Rightarrow> bool \<Rightarrow> bool option"

subsection \<open>Backends\<close>

definition backend_list :: "string list" where
  "backend_list = [''http'', ''https'']"

definition backend_set_model :: "string \<Rightarrow> backend \<Rightarrow> backend option" where
  "backend_set_model v b =
     (if strcaseeq v ''iterative'' then Some (b\<lparr>be_model := SERVER_MODEL_ITERATIVE\<rparr>)
      else if strcaseeq v ''fork'' then Some (b\<lparr>be_model := SERVER_MODEL_FORK\<rparr>)
      else if strcaseeq v ''prefork'' then Some (b\<lparr>be_model := SERVER_MODEL_PREFORK\<rparr>)
      else None)"

text \<open>
  The limits are read through an \<^verbatim>\<open>int\<close> pointer into a zeroed \<^verbatim>\<open>size_t\<close>: on a little-endian
  machine the low 32 bits.
\<close>

definition low_int :: "int \<Rightarrow> nat" where
  "low_int v = nat (v mod 2 ^ 32)"

definition SERVER_MAX_BACKEND_CHILD :: int where
  "SERVER_MAX_BACKEND_CHILD = 150"

definition SERVER_PREFORK_START_CHILD :: int where
  "SERVER_PREFORK_START_CHILD = 2"

definition SERVER_PREFORK_MAX_RQ_CHILD :: int where
  "SERVER_PREFORK_MAX_RQ_CHILD = 10000"

definition backend_limits :: "u_config \<Rightarrow> backend \<Rightarrow> backend option" where
  "backend_limits cfg b =
     (case be_model b of
        SERVER_MODEL_FORK \<Rightarrow> do {
          m \<leftarrow> cfg_int cfg ''fork.max_child'' SERVER_MAX_BACKEND_CHILD;
          Some (b\<lparr>be_max_child := low_int m\<rparr>) }
      | SERVER_MODEL_PREFORK \<Rightarrow> do {
          m \<leftarrow> cfg_int cfg ''prefork.max_child'' SERVER_MAX_BACKEND_CHILD;
          st \<leftarrow> cfg_int cfg ''prefork.start_child'' SERVER_PREFORK_START_CHILD;
          rq \<leftarrow> cfg_int cfg ''prefork.max_requests_per_child'' SERVER_PREFORK_MAX_RQ_CHILD;
          Some (b\<lparr>be_max_child := low_int m, be_start_child := low_int st, be_max_rq := low_int rq,
                 be_fork_child := low_int st\<rparr>) }
      | _ \<Rightarrow> Some b)"

definition backend_create :: "libu \<Rightarrow> (string \<Rightarrow> bool) \<Rightarrow> string \<Rightarrow> u_config \<Rightarrow> backend option" where
  "backend_create L cb_init proto cfg =
     (if \<not> u_malloc L 160 then None
      else do {
        q \<leftarrow> find (\<lambda>q. strcaseeq q proto) backend_list;
        let b = \<lparr>be_id = 0, be_proto = q, be_model = SERVER_MODEL_PREFORK, be_ld = None, be_nchild = 0, be_max_child = 0,
                 be_start_child = 0, be_max_rq = 0, be_fork_child = 0\<rparr>;
        b \<leftarrow> (case cfg_value cfg ''model'' of None \<Rightarrow> Some b | Some v \<Rightarrow> backend_set_model v b);
        b \<leftarrow> backend_limits cfg b;
        if cb_init q then Some b else None })"

subsection \<open>The server\<close>

definition SERVER_MAX_BACKENDS :: nat where
  "SERVER_MAX_BACKENDS = 8"

definition SERVER_MAX_CHILD :: int where
  "SERVER_MAX_CHILD = 300"

text \<open>\<^verbatim>\<open>server_setup_backend\<close>: the address must be there and parse.\<close>

definition server_setup_backend :: "(string \<Rightarrow> bool) \<Rightarrow> u_config \<Rightarrow> server \<Rightarrow> server option" where
  "server_setup_backend uri2addr cfg s =
     (case cfg_value cfg ''addr'' of
        None \<Rightarrow> None
      | Some a \<Rightarrow> if uri2addr a then Some (s\<lparr>nbackend := Suc (nbackend s)\<rparr>) else None)"

definition backend_model :: "server_model \<Rightarrow> bool \<Rightarrow> backend \<Rightarrow> backend" where
  "backend_model inherit foreground b =
     (let b1 = (if be_model b = SERVER_MODEL_UNSET then b\<lparr>be_model := inherit\<rparr> else b)
      in if foreground then b1\<lparr>be_model := SERVER_MODEL_ITERATIVE\<rparr> else b1)"

definition is_sep :: "char \<Rightarrow> bool" where
  "is_sep c \<longleftrightarrow> c = CHR '' '' \<or> c = TAB"

text \<open>
  One backend per name of \<^verbatim>\<open>server_list\<close>.  A name is what \<^verbatim>\<open>sscanf("%[^ \t]")\<close> reads: the
  loop steps over it and the one separator behind it, and ends where no name can be read.
\<close>

definition add_backend ::
  "libu \<Rightarrow> (string \<Rightarrow> bool) \<Rightarrow> (string \<Rightarrow> bool) \<Rightarrow> (string \<Rightarrow> u_config option) \<Rightarrow> bool \<Rightarrow> string \<Rightarrow> nat \<Rightarrow> server \<Rightarrow> server option" where
  "add_backend L cb_init uri2addr subkey foreground name i s =
     (if nbackend s = SERVER_MAX_BACKENDS then None
      else do {
        bekey \<leftarrow> subkey name;
        type \<leftarrow> cfg_value bekey ''type'';
        b \<leftarrow> backend_create L cb_init type bekey;
        server_setup_backend uri2addr bekey
          (s\<lparr>bes := backend_model SERVER_MODEL_FORK foreground (b\<lparr>be_id := i\<rparr>) # bes s\<rparr>) })"

fun server_list_loop ::
  "(string \<Rightarrow> nat \<Rightarrow> server \<Rightarrow> server option) \<Rightarrow> string \<Rightarrow> nat \<Rightarrow> server \<Rightarrow> server option" where
  "server_list_loop add [] i s = Some s"
| "server_list_loop add (c # cs) i s =
     (let name = takeWhile (\<lambda>c. \<not> is_sep c) (c # cs) in
      if name = [] then Some s
      else Option.bind (add name i s) (server_list_loop add (drop (length name) cs) (Suc i)))"

definition server_empty :: server where
  "server_empty =
     \<lparr>bes = [], kids = \<lparr>clist = [], c_nchild = 0\<rparr>, rdfds = {}, wrfds = {}, exfds = {}, hfd = 0, nbackend = 0,
      sv_nchild = 0, sv_max_child = 0, sv_stop = False, klog_flush = 0, reap_children = False,
      sv_uid = 0, sv_gid = 0, sv_allow_root = False, sv_chroot = None, sv_blind_chroot = False\<rparr>"

definition server_create ::
  "libu \<Rightarrow> (string \<Rightarrow> bool) \<Rightarrow> (string \<Rightarrow> bool) \<Rightarrow> u_config \<Rightarrow> (string \<Rightarrow> u_config option) \<Rightarrow> bool \<Rightarrow> server option" where
  "server_create L cb_init uri2addr cfg subkey foreground =
     (if \<not> u_malloc L 600 then None
      else do {
        cs \<leftarrow> children_create L;
        list \<leftarrow> cfg_value cfg ''server_list'';
        uid \<leftarrow> cfg_int cfg ''uid'' (- 1);
        gid \<leftarrow> cfg_int cfg ''gid'' (- 1);
        root \<leftarrow> cfg_bool cfg ''allow_root'' False;
        blind \<leftarrow> cfg_bool cfg ''blind_chroot'' False;
        if uid = 0 \<or> gid = 0 then None
        else do {
          iv \<leftarrow> cfg_int cfg ''max_child'' SERVER_MAX_CHILD;
          if \<not> u_malloc L (length list + 1) then None
          else server_list_loop (add_backend L cb_init uri2addr subkey foreground) list 0
            (server_empty\<lparr>kids := cs, klog_flush := (if subkey ''log'' = None then 0 else 1), sv_max_child := size_of_int iv,
               sv_uid := uid, sv_gid := gid, sv_allow_root := root, sv_chroot := cfg_value cfg ''chroot'',
               sv_blind_chroot := blind\<rparr>) } })"

subsection \<open>Starting\<close>

text \<open>\<^verbatim>\<open>server_listen\<close>: a preforked backend's socket is not watched, its workers block in \<^verbatim>\<open>accept\<close>.\<close>

fun listen_loop :: "(nat \<Rightarrow> nat option) \<Rightarrow> backend list \<Rightarrow> server \<Rightarrow> server step option" where
  "listen_loop net_sd [] s = Some (Done s)"
| "listen_loop net_sd (b # bs) s =
     (let ld = net_sd (be_id b); s1 = be_put (b\<lparr>be_ld := ld\<rparr>) s in
      case ld of
        None \<Rightarrow> Some (Failed s1)
      | Some fd \<Rightarrow>
          if be_model b \<noteq> SERVER_MODEL_PREFORK
          then Option.bind (server_watch_fd fd (True, False, False) s1) (listen_loop net_sd bs)
          else listen_loop net_sd bs s1)"

definition server_listen :: "(nat \<Rightarrow> nat option) \<Rightarrow> server \<Rightarrow> server step option" where
  "server_listen net_sd s = listen_loop net_sd (bes s) s"

text \<open>The credentials of a process: real, effective and saved user and group, and its groups.\<close>

record creds =
  ruid :: int
  euid :: int
  suid :: int
  rgid :: int
  egid :: int
  sgid :: int
  groups :: "int list"

definition sys_setgroups :: "int list \<Rightarrow> creds \<Rightarrow> creds option" where
  "sys_setgroups gs c = (if euid c = 0 then Some (c\<lparr>groups := gs\<rparr>) else None)"

definition sys_setgid :: "int \<Rightarrow> creds \<Rightarrow> creds option" where
  "sys_setgid g c =
     (if euid c = 0 then Some (c\<lparr>rgid := g, egid := g, sgid := g\<rparr>)
      else if g = rgid c \<or> g = sgid c then Some (c\<lparr>egid := g\<rparr>) else None)"

definition sys_setegid :: "int \<Rightarrow> creds \<Rightarrow> creds option" where
  "sys_setegid g c =
     (if euid c = 0 \<or> g = rgid c \<or> g = sgid c then Some (c\<lparr>egid := g\<rparr>) else None)"

definition sys_setuid :: "int \<Rightarrow> creds \<Rightarrow> creds option" where
  "sys_setuid u c =
     (if euid c = 0 then Some (c\<lparr>ruid := u, euid := u, suid := u\<rparr>)
      else if u = ruid c \<or> u = suid c then Some (c\<lparr>euid := u\<rparr>) else None)"

definition sys_seteuid :: "int \<Rightarrow> creds \<Rightarrow> creds option" where
  "sys_seteuid u c =
     (if euid c = 0 \<or> u = ruid c \<or> u = suid c then Some (c\<lparr>euid := u\<rparr>) else None)"

definition server_drop_privileges :: "server \<Rightarrow> creds \<Rightarrow> creds option" where
  "server_drop_privileges s c =
     do {
       c \<leftarrow> (if 0 < sv_gid s
             then do {
               c \<leftarrow> sys_setgroups [sv_gid s] c;
               c \<leftarrow> sys_setgid (sv_gid s) c;
               c \<leftarrow> sys_setegid (sv_gid s) c;
               if rgid c \<noteq> sv_gid s \<or> egid c \<noteq> sv_gid s then None else Some c }
             else Some c);
       (if 0 < sv_uid s
        then do {
          c \<leftarrow> sys_setuid (sv_uid s) c;
          c \<leftarrow> sys_seteuid (sv_uid s) c;
          if ruid c \<noteq> sv_uid s \<or> euid c \<noteq> sv_uid s then None else Some c }
        else Some c) }"

text \<open>
  \<^verbatim>\<open>server_loop\<close> up to its loop.  \<open>chroot_to\<close> stands for \<^verbatim>\<open>server_chroot\<close> (blind or not) on the
  configured directory.
\<close>

definition server_start ::
  "(nat \<Rightarrow> nat option) \<Rightarrow> (bool \<Rightarrow> string \<Rightarrow> bool) \<Rightarrow> server \<Rightarrow> creds \<Rightarrow> (server \<times> creds) option" where
  "server_start net_sd chroot_to s c =
     (case server_listen net_sd s of
        Some (Done s1) \<Rightarrow>
          if (case sv_chroot s1 of None \<Rightarrow> False | Some d \<Rightarrow> \<not> chroot_to (sv_blind_chroot s1) d) then None
          else do {
            c1 \<leftarrow> server_drop_privileges s1 c;
            if \<not> sv_allow_root s1 \<and> (ruid c1 = 0 \<or> euid c1 = 0 \<or> rgid c1 = 0 \<or> egid c1 = 0) then None
            else Some (s1, c1) }
      | _ \<Rightarrow> None)"

section \<open>The configured backends\<close>

text \<open>What the loop over the names of the list is to do.\<close>

fun add_all :: "(string \<Rightarrow> nat \<Rightarrow> server \<Rightarrow> server option) \<Rightarrow> string list \<Rightarrow> nat \<Rightarrow> server \<Rightarrow> server option" where
  "add_all add [] i s = Some s"
| "add_all add (n # ns) i s = Option.bind (add n i s) (add_all add ns (Suc i))"

fun list_text :: "string list \<Rightarrow> string" where
  "list_text [] = []"
| "list_text [n] = n"
| "list_text (n # ns) = n @ CHR '' '' # list_text ns"

definition is_name :: "string \<Rightarrow> bool" where
  "is_name n \<longleftrightarrow> n \<noteq> [] \<and> list_all (\<lambda>c. \<not> is_sep c) n"

definition ends_list :: "string \<Rightarrow> bool" where
  "ends_list rest \<longleftrightarrow> rest = [] \<or> (is_sep (hd rest) \<and> (tl rest = [] \<or> is_sep (hd (tl rest))))"

lemma takeWhile_name: "is_name n \<Longrightarrow> rest = [] \<or> is_sep (hd rest) \<Longrightarrow> takeWhile (\<lambda>c. \<not> is_sep c) (n @ rest) = n"
  by (cases rest) (auto simp: is_name_def list_all_iff takeWhile_append)

lemma server_list_step:
  assumes "is_name n" "rest = [] \<or> is_sep (hd rest)"
  shows "server_list_loop add (n @ rest) i s = Option.bind (add n i s) (server_list_loop add (drop 1 rest) (Suc i))"
proof -
  obtain c cs where n: "n = c # cs" using assms(1) by (cases n) (auto simp: is_name_def)
  show ?thesis using takeWhile_name [OF assms] by (simp add: n Let_def)
qed

lemma server_list_stops: "rest = [] \<or> is_sep (hd rest) \<Longrightarrow> server_list_loop add rest i s = Some s"
  by (cases rest) auto

lemma server_list_names:
  "list_all is_name ns \<Longrightarrow> ns \<noteq> [] \<Longrightarrow> ends_list rest \<Longrightarrow> server_list_loop add (list_text ns @ rest) i s = add_all add ns i s"
proof (induction ns arbitrary: i s rule: list_text.induct)
  case (2 n)
  then have "rest = [] \<or> is_sep (hd rest)" "drop 1 rest = [] \<or> is_sep (hd (drop 1 rest))"
    by (auto simp: ends_list_def drop_Suc)
  with server_list_step [of n rest add i s] 2 server_list_stops [of "drop 1 rest" add] show ?case
    by (cases "add n i s") auto
next
  case (3 n m ns)
  have "is_sep (CHR '' '')" by (simp add: is_sep_def)
  with server_list_step [of n "CHR '' '' # list_text (m # ns) @ rest" add i s] 3 show ?case
    by (cases "add n i s") auto
qed simp

definition created :: "nat \<Rightarrow> server \<Rightarrow> bool" where
  "created i s \<longleftrightarrow>
     map be_id (bes s) = rev [0..<i] \<and> nbackend s = i \<and> list_all (\<lambda>b. be_nchild b = 0 \<and> be_fork_child b < 2 ^ 32) (bes s) \<and>
     clist (kids s) = [] \<and> c_nchild (kids s) = 0 \<and> watched s = {} \<and> hfd s = 0 \<and> sv_nchild s = 0 \<and> sv_max_child s < SIZE_LIMIT"

lemma low_int_less: "low_int v < 2 ^ 32"
  by (simp add: low_int_def nat_less_iff)

lemma set_model_fields: "backend_set_model v b = Some b' \<Longrightarrow> be_nchild b' = be_nchild b \<and> be_fork_child b' = be_fork_child b"
  by (auto simp: backend_set_model_def split: if_splits)

lemma limits_fields: "backend_limits cfg b = Some b' \<Longrightarrow> be_fork_child b < 2 ^ 32 \<Longrightarrow> be_nchild b' = be_nchild b \<and> be_fork_child b' < 2 ^ 32"
  using low_int_less by (auto simp: backend_limits_def bind_eq_Some_conv split: server_model.splits)

lemma backend_create_fields: "backend_create L ci proto cfg = Some b \<Longrightarrow> be_nchild b = 0 \<and> be_fork_child b < 2 ^ 32"
  by (auto simp: backend_create_def bind_eq_Some_conv Let_def split: if_splits option.splits
      dest!: set_model_fields limits_fields)

lemma backend_model_fields:
  "be_id (backend_model m fg b) = be_id b" "be_nchild (backend_model m fg b) = be_nchild b"
  "be_fork_child (backend_model m fg b) = be_fork_child b"
  by (simp_all add: backend_model_def Let_def)

lemma add_backend_created:
  "add_backend L ci ua sk fg n i s = Some s' \<Longrightarrow> created i s \<Longrightarrow> created (Suc i) s'"
  by (auto simp: add_backend_def server_setup_backend_def created_def bind_eq_Some_conv backend_model_fields watched_def
      split: if_splits option.splits dest!: backend_create_fields)

lemma server_list_created:
  "(\<And>n i s s'. add n i s = Some s' \<Longrightarrow> created i s \<Longrightarrow> created (Suc i) s') \<Longrightarrow>
   server_list_loop add list i s = Some s' \<Longrightarrow> created i s \<Longrightarrow> \<exists>n. created n s'"
proof (induction add list i s rule: server_list_loop.induct)
  case (2 add c cs i s)
  then show ?case by (auto simp: Let_def bind_eq_Some_conv split: if_splits)
qed auto

lemma server_create_created:
  assumes "server_create L ci ua cfg sk fg = Some s"
  shows "\<exists>n. created n s"
proof -
  from assms obtain s0 list where "server_list_loop (add_backend L ci ua sk fg) list 0 s0 = Some s" "created 0 s0"
    by (auto simp: server_create_def bind_eq_Some_conv children_create_def created_def server_empty_def watched_def
        size_of_int_def SIZE_LIMIT_def nat_less_iff split: if_splits)
  then show ?thesis by (intro server_list_created [of "add_backend L ci ua sk fg"]) (auto intro: add_backend_created)
qed

lemma created_ok: "created n s \<Longrightarrow> server_ok s"
  by (auto simp: created_def server_ok_def pool_ok_def fds_ok_def children_ok_def be_kids_def list_all_iff children_count_def)

section \<open>Listening\<close>

definition same_config :: "server \<Rightarrow> server \<Rightarrow> bool" where
  "same_config s s' \<longleftrightarrow> sv_uid s' = sv_uid s \<and> sv_gid s' = sv_gid s \<and> sv_allow_root s' = sv_allow_root s"

lemma watch_fd_config: "server_watch_fd fd m s = Some s' \<Longrightarrow> same_config s s'"
  by (auto simp: server_watch_fd_def same_config_def split: if_splits prod.splits)

lemma same_config_put [simp]: "same_config (be_put b s) s' = same_config s s'"
  by (simp add: same_config_def be_put_def)

lemma same_config_trans: "same_config s s' \<Longrightarrow> same_config s' s'' \<Longrightarrow> same_config s s''"
  by (simp add: same_config_def)

lemma listen_loop_ok:
  "server_ok s \<Longrightarrow> distinct (map be_id bs) \<Longrightarrow> \<forall>b\<in>set bs. be_find (be_id b) (bes s) = Some b \<Longrightarrow>
   listen_loop net_sd bs s = Some (Done s') \<Longrightarrow> server_ok s' \<and> same_config s s'"
proof (induction bs arbitrary: s)
  case (Cons b bs)
  let ?s = "be_put (b\<lparr>be_ld := net_sd (be_id b)\<rparr>) s"
  have ok: "server_ok ?s" using server_ok_put [OF Cons.prems(1), of "be_id b" b] Cons.prems(3) by simp
  have bes: "\<forall>x\<in>set bs. be_find (be_id x) (bes ?s) = Some x"
    using Cons.prems(2,3) be_find_put [of _ "b\<lparr>be_ld := net_sd (be_id b)\<rparr>" "bes s"] by (auto simp: be_put_bes image_iff)
  have IH: "server_ok s' \<and> same_config t s'"
    if "server_ok t" "bes t = bes ?s" "listen_loop net_sd bs t = Some (Done s')" for t
    using Cons.IH [OF that(1) _ _ that(3)] Cons.prems(2) bes that(2) by simp
  show ?case
  proof (cases "net_sd (be_id b)")
    case (Some fd)
    show ?thesis
    proof (cases "be_model b = SERVER_MODEL_PREFORK")
      case True
      with Cons.prems(4) Some ok IH [of ?s] show ?thesis by (simp add: Let_def)
    next
      case False
      with Cons.prems(4) Some obtain t where t: "server_watch_fd fd (True, False, False) ?s = Some t"
          "listen_loop net_sd bs t = Some (Done s')"
        by (auto simp: Let_def bind_eq_Some_conv)
      from IH [OF server_ok_watch [OF ok t(1)] _ t(2)] watch_fd_fields [OF t(1)] watch_fd_config [OF t(1)]
      show ?thesis by (auto intro: same_config_trans)
    qed
  qed (use Cons.prems(4) in \<open>simp add: Let_def\<close>)
qed (simp add: same_config_def)

lemma server_listen_ok:
  assumes "server_ok s" "server_listen net_sd s = Some (Done s')"
  shows "server_ok s' \<and> same_config s s'"
proof (rule listen_loop_ok [OF assms(1)])
  show d: "distinct (map be_id (bes s))" using assms(1) by (simp add: server_ok_def pool_ok_def)
  show "\<forall>b\<in>set (bes s). be_find (be_id b) (bes s) = Some b" using be_find_in [OF d] by blast
  show "listen_loop net_sd (bes s) s = Some (Done s')" using assms(2) by (simp add: server_listen_def)
qed

section \<open>Privileges\<close>

lemmas sys_defs = sys_setgroups_def sys_setgid_def sys_setegid_def sys_setuid_def sys_seteuid_def

lemma drop_privileges_eq:
  assumes "0 < sv_uid s" "0 < sv_gid s" "server_drop_privileges s c = Some c'"
  shows "c' = \<lparr>ruid = sv_uid s, euid = sv_uid s, suid = sv_uid s, rgid = sv_gid s, egid = sv_gid s, sgid = sv_gid s, groups = [sv_gid s]\<rparr>"
  using assms by (cases c; cases c') (auto simp: server_drop_privileges_def sys_defs bind_eq_Some_conv split: if_splits)

lemma server_start_inv:
  assumes "server_start net_sd ch s c = Some (s', c')"
  shows "server_listen net_sd s = Some (Done s')" "server_drop_privileges s' c = Some c'"
    "\<not> sv_allow_root s' \<longrightarrow> ruid c' \<noteq> 0 \<and> euid c' \<noteq> 0 \<and> rgid c' \<noteq> 0 \<and> egid c' \<noteq> 0"
  using assms by (auto simp: server_start_def bind_eq_Some_conv split: option.splits step.splits if_splits)


section \<open>Properties\<close>

text \<open>A configuration with one forking and one preforking backend.\<close>

definition demo_backend :: "string \<Rightarrow> u_config" where
  "demo_backend m =
     \<lparr>cfg_value = (\<lambda>k. if k = ''type'' then Some ''http'' else if k = ''model'' then Some m
                       else if k = ''addr'' then Some ''tcp4://*:80'' else None),
      cfg_int = (\<lambda>k d. Some (if k = ''prefork.start_child'' then 5 else d)), cfg_bool = (\<lambda>k d. Some d)\<rparr>"

definition demo_config :: u_config where
  "demo_config =
     \<lparr>cfg_value = (\<lambda>k. if k = ''server_list'' then Some ''www app'' else None),
      cfg_int = (\<lambda>k d. Some (if k = ''uid'' \<or> k = ''gid'' then 80 else d)), cfg_bool = (\<lambda>k d. Some d)\<rparr>"

definition demo_subkey :: "string \<Rightarrow> u_config option" where
  "demo_subkey k =
     (if k = ''www'' then Some (demo_backend ''fork'') else if k = ''app'' then Some (demo_backend ''prefork'') else None)"

definition demo_server :: server where
  "demo_server = server_empty\<lparr>
     bes := [\<lparr>be_id = 1, be_proto = ''http'', be_model = SERVER_MODEL_PREFORK, be_ld = None, be_nchild = 0, be_max_child = 150,
               be_start_child = 5, be_max_rq = 10000, be_fork_child = 5\<rparr>,
             \<lparr>be_id = 0, be_proto = ''http'', be_model = SERVER_MODEL_FORK, be_ld = None, be_nchild = 0, be_max_child = 150,
               be_start_child = 0, be_max_rq = 0, be_fork_child = 0\<rparr>],
     nbackend := 2, sv_max_child := 300, sv_uid := 80, sv_gid := 80\<rparr>"

lemma demo_create: "server_create libu_ref (\<lambda>_. True) (\<lambda>_. True) demo_config demo_subkey False = Some demo_server"
  by (simp add: server_create_def demo_config_def libu_ref_def children_create_def add_backend_def demo_subkey_def is_sep_def
      demo_backend_def backend_create_def backend_list_def strcaseeq_def ctype_simps backend_set_model_def backend_limits_def
      SERVER_MAX_CHILD_def SERVER_MAX_BACKENDS_def SERVER_MAX_BACKEND_CHILD_def SERVER_PREFORK_MAX_RQ_CHILD_def low_int_def
      server_setup_backend_def backend_model_def demo_server_def server_empty_def size_of_int_def SIZE_LIMIT_def Let_def)

definition demo_running :: server where
  "demo_running = (demo_server
     \<lparr>bes := [\<lparr>be_id = 1, be_proto = ''http'', be_model = SERVER_MODEL_PREFORK, be_ld = Some 4, be_nchild = 0, be_max_child = 150,
               be_start_child = 5, be_max_rq = 10000, be_fork_child = 5\<rparr>,
             \<lparr>be_id = 0, be_proto = ''http'', be_model = SERVER_MODEL_FORK, be_ld = Some 3, be_nchild = 0, be_max_child = 150,
               be_start_child = 0, be_max_rq = 0, be_fork_child = 0\<rparr>],
       rdfds := {3}, hfd := 3\<rparr>)"

definition demo_root :: creds where
  "demo_root = \<lparr>ruid = 0, euid = 0, suid = 0, rgid = 0, egid = 0, sgid = 0, groups = [0]\<rparr>"

definition demo_user :: creds where
  "demo_user = \<lparr>ruid = 80, euid = 80, suid = 80, rgid = 80, egid = 80, sgid = 80, groups = [80]\<rparr>"

lemma demo_start:
  "server_start (\<lambda>i. Some (3 + i)) (\<lambda>_ _. True) demo_server demo_root = Some (demo_running, demo_user)"
  by (simp add: server_start_def server_listen_def demo_server_def demo_running_def server_empty_def be_put_def
      server_watch_fd_def FD_SETSIZE_def server_drop_privileges_def sys_defs demo_root_def demo_user_def Let_def)

text \<open>A process that may fork as often as it likes, and a world in which every connection is served at once.\<close>

definition demo_forks :: "((nat \<times> nat) option \<times> fork_result) list" where
  "demo_forks =
     [(Some (10, 11), Fork_parent 100), (Some (12, 13), Fork_parent 101), (Some (14, 15), Fork_parent 102),
      (Some (16, 17), Fork_parent 103), (Some (18, 19), Fork_parent 104), (Some (20, 21), Fork_parent 105)]"

definition demo_process :: "((nat \<times> nat) option \<times> fork_result) list \<Rightarrow> unit process" where
  "demo_process fs =
     \<lparr>srv = demo_running, pipc_fd = None, cur_be = None, chans = (\<lambda>_. \<lparr>eintr = 0, broken = False, limits = [], bytes = []\<rparr>),
      forks = fs, killed = [], world = ()\<rparr>"

definition demo_env :: "unit serve_env" where
  "demo_env =
     \<lparr>sv_accept = (\<lambda>_ w. (Some 9, w)), sv_serve = (\<lambda>_ _ w. (False, w)),
      sv_handler = (\<lambda>cmd. if cmd = 1 then Some (\<lambda>d st. st) else None)\<rparr>"

lemma fd_loop_numeral [simp]:
  "fd_loop L E now ready (numeral n) fd rc p =
     (if rc = 0 \<or> hfd (srv p) < fd then Some p
      else if fd \<in> ready
        then Option.bind (server_dispatch L E now (Some fd) p) (\<lambda>r.
          case r of
            Done q \<Rightarrow> fd_loop L E now ready (pred_numeral n) (Suc fd) (rc - 1) q
          | Failed q \<Rightarrow> fd_loop L E now ready (pred_numeral n) (Suc fd) (rc - 1) q
          | Crash \<Rightarrow> None)
        else fd_loop L E now ready (pred_numeral n) (Suc fd) rc p)"
  by (simp add: numeral_eq_Suc)

lemma spawn_loop_numeral [simp]:
  "spawn_loop L E now bid (numeral n) i p =
     (case be_find bid (bes (srv p)) of
        None \<Rightarrow> None
      | Some b \<Rightarrow>
          if be_fork_child b \<le> i then Some (Done p)
          else Option.bind (server_spawn_child L E now bid p) (\<lambda>r.
            case r of
              Done q \<Rightarrow>
                if pipc_fd q \<noteq> None then Some (Done q)
                else Option.bind (be_update bid (\<lambda>b. b\<lparr>be_fork_child := size_sub (be_fork_child b) 1\<rparr>) q)
                       (spawn_loop L E now bid (pred_numeral n) (Suc i))
            | other \<Rightarrow> Some other))"
  by (simp add: numeral_eq_Suc)

lemmas server_eval =
  demo_process_def demo_forks_def demo_env_def demo_running_def demo_server_def server_empty_def
  server_turn_def server_spawn_children_def server_spawn_child_def server_fork_child_def fork_in_parent_def
  server_add_child_def child_create_def libu_ref_def be_update_def be_put_def children_add_def children_count_def
  server_watch_fd_def FD_SETSIZE_def meet_signals_def turn_parent_def server_dispatch_def dispatch_with_def
  server_be_serve_def server_child_serve_def

lemma demo_pool: "pool_ok demo_running"
  by (simp add: pool_ok_def demo_running_def demo_server_def server_empty_def children_ok_def children_count_def be_kids_def)

lemma demo_can_spawn: "can_spawn (demo_process demo_forks)"
  using demo_pool
  by (simp add: can_spawn_def demo_process_def pending_def to_spawn_def demo_running_def demo_server_def server_empty_def
      demo_forks_def fork_succeeds_def FD_SETSIZE_def children_count_def)

lemma server_ok_limits:
  assumes "server_ok s"
  shows "(\<forall>b\<in>set (bes s). be_nchild b = be_kids (be_id b) (kids s) \<and> be_nchild b \<le> be_max_child b) \<and>
    children_count (kids s) = length (clist (kids s)) \<and> children_count (kids s) \<le> sv_max_child s \<and>
    (\<forall>fd\<in>rdfds s \<union> wrfds s \<union> exfds s. fd \<le> hfd s)"
proof (intro conjI)
  show "\<forall>b\<in>set (bes s). be_nchild b = be_kids (be_id b) (kids s) \<and> be_nchild b \<le> be_max_child b"
    "children_count (kids s) \<le> sv_max_child s" using assms unfolding server_ok_def pool_ok_def by blast+
  show "children_count (kids s) = length (clist (kids s))"
    using assms children_list.counter_items by (simp add: server_ok_def pool_ok_def)
  show "\<forall>fd\<in>rdfds s \<union> wrfds s \<union> exfds s. fd \<le> hfd s"
    using assms fds_okD [of s] unfolding server_ok_def watched_def by blast
qed

text \<open>
  C1.  The limits on child processes hold whatever happens: from a server that
  \<^verbatim>\<open>server_create\<close> and the start of \<^verbatim>\<open>server_loop\<close> set up, after any number of turns of the
  loop with any signals, ready descriptors, requests and fork results, the parent counts exactly
  the children each backend has, none has more than its \<^verbatim>\<open>max_child\<close> and all together not
  more than the server's, and no watched descriptor lies above \<^verbatim>\<open>hfd\<close>, the bound given to
  \<^verbatim>\<open>select\<close>.  The runs are those with a result, that is, in which nothing undefined happens:
  every descriptor the system hands out is below \<^verbatim>\<open>FD_SETSIZE\<close> (the code does not test it), no
  request of a child is cut short, and the alarms can be allocated.
\<close>

theorem children_within_limits:
  assumes "server_create L ci ua cfg sk fg = Some s" "server_start net_sd ch s c = Some (srv p, c')" "pipc_fd p = None"
    "server_turns L E now ts p = Some r"
  shows "\<exists>q. (r = Done q \<or> r = Failed q) \<and>
    (pipc_fd q = None \<longrightarrow>
      (\<forall>b\<in>set (bes (srv q)). be_nchild b = be_kids (be_id b) (kids (srv q)) \<and> be_nchild b \<le> be_max_child b) \<and>
      children_count (kids (srv q)) = length (clist (kids (srv q))) \<and> children_count (kids (srv q)) \<le> sv_max_child (srv q) \<and>
      (\<forall>fd\<in>rdfds (srv q) \<union> wrfds (srv q) \<union> exfds (srv q). fd \<le> hfd (srv q)))"
proof -
  from server_create_created [OF assms(1)] have "server_ok s" by (auto intro: created_ok)
  with server_listen_ok server_start_inv(1) [OF assms(2)] have "server_ok (srv p)" by blast
  then have "ran good (Some r)" using server_turns_good [of p L E now ts] assms(4) by (simp add: good_def)
  then obtain q where q: "r = Done q \<or> r = Failed q" "good q" by (cases r) auto
  moreover have "server_ok (srv q)" if "pipc_fd q = None" using q(2) that by (simp add: good_def)
  ultimately show ?thesis by - (rule exI [of _ q], rule conjI [OF q(1)], rule impI, rule server_ok_limits, blast)
qed

abbreviation demo_turn :: turn where
  "demo_turn \<equiv> \<lparr>tn_ended = [], tn_sigchld = False, tn_alarm = False, tn_rc = Some 1, tn_ready = {3}\<rparr>"

lemma demo_turns:
  "\<exists>q. server_turns libu_ref demo_env 0 [demo_turn] (demo_process demo_forks) = Some (Done q) \<and>
     length (clist (kids (srv q))) = 4 \<and> pipc_fd q = None"
  by (simp add: server_eval Let_def)

theorem children_within_limits_witness:
  "\<exists>q. server_turns libu_ref demo_env 0 [demo_turn] (demo_process demo_forks) = Some (Done q) \<and>
     length (clist (kids (srv q))) = 4 \<and>
     (\<forall>b\<in>set (bes (srv q)). be_nchild b = be_kids (be_id b) (kids (srv q)) \<and> be_nchild b \<le> be_max_child b)"
proof -
  from demo_turns obtain q where q: "server_turns libu_ref demo_env 0 [demo_turn] (demo_process demo_forks) = Some (Done q)"
    "length (clist (kids (srv q))) = 4" "pipc_fd q = None" by blast
  have p: "pipc_fd (demo_process demo_forks) = None"
    "server_start (\<lambda>i. Some (3 + i)) (\<lambda>_ _. True) demo_server demo_root = Some (srv (demo_process demo_forks), demo_user)"
    using demo_start by (simp_all add: demo_process_def)
  from children_within_limits [OF demo_create p(2,1) q(1)] q(3)
  have "\<forall>b\<in>set (bes (srv q)). be_nchild b = be_kids (be_id b) (kids (srv q)) \<and> be_nchild b \<le> be_max_child b"
    by (metis step.inject(1) step.distinct(1))
  with q(1,2) show ?thesis by blast
qed

text \<open>
  C34.  One call of \<^verbatim>\<open>server_spawn_children\<close> is the map \<open>spawn_round\<close> over the backends: where
  every fork succeeds and the limits leave room, each preforking backend gets half of the
  workers it is to fork, rounded up, and is left with the other half to fork, because the loop
  moves its index up and its bound down; the other backends are untouched.
\<close>

theorem spawn_children_halves:
  assumes "u_malloc L 40" "can_spawn p" "\<forall>b\<in>set (bes (srv p)). be_fork_child b < SIZE_LIMIT"
  shows "\<exists>q. server_spawn_children L E now p = Some (Done q) \<and> bes (srv q) = map spawn_round (bes (srv p)) \<and> pipc_fd q = None"
  using spawn_children_round [OF assms, of E now] by (auto simp: can_spawn_def)

theorem spawn_children_halves_witness:
  "\<exists>q. server_spawn_children libu_ref demo_env 0 (demo_process demo_forks) = Some (Done q) \<and>
     map be_nchild (bes (srv q)) = [3, 0] \<and> map be_fork_child (bes (srv q)) = [2, 0]"
  using spawn_children_halves [of libu_ref "demo_process demo_forks" demo_env 0] demo_can_spawn
  by (auto simp: libu_ref_def spawn_round_def demo_process_def demo_running_def)

text \<open>
  C35.  The workers get there all the same: if a preforking backend is to fork fewer than
  \<open>2 ^ k\<close> workers, then after \<open>k\<close> calls of \<^verbatim>\<open>server_spawn_children\<close> (one per turn of the loop)
  all of them run and none is left to fork.  As before, every fork succeeds and the limits leave
  room (\<open>can_spawn\<close>).
\<close>

theorem workers_reach_target:
  assumes "u_malloc L 40" "can_spawn p" "\<forall>b\<in>set (bes (srv p)). be_fork_child b < SIZE_LIMIT"
    "\<forall>b\<in>set (bes (srv p)). to_spawn b < 2 ^ k"
  shows "\<exists>q. spawn_rounds L E now k p = Some (Done q) \<and>
    bes (srv q) = map (\<lambda>b. if be_model b = SERVER_MODEL_PREFORK
                           then b\<lparr>be_nchild := be_nchild b + be_fork_child b, be_fork_child := 0\<rparr> else b) (bes (srv p))"
  using spawn_rounds_done [OF assms, of E now] unfolding spawn_done_def by blast

theorem workers_reach_target_witness:
  "\<exists>q. spawn_rounds libu_ref demo_env 0 3 (demo_process demo_forks) = Some (Done q) \<and> map be_nchild (bes (srv q)) = [5, 0]"
  using workers_reach_target [of libu_ref "demo_process demo_forks" 3 demo_env 0] demo_can_spawn
  by (auto simp: libu_ref_def demo_process_def demo_running_def to_spawn_def)

text \<open>
  At shutdown the parent sends SIGTERM once to each child, the newest first, and stops at
  the first one that cannot be signalled (one that has ended and is not reaped yet); and it
  never sends SIGKILL, for the counter it asks whether children are left is never set.
\<close>

theorem shutdown_signals:
  assumes "pipc_fd p = None" "server_ok (srv p)"
  shows "server_shutdown can p = Done (p\<lparr>killed := killed p @
     map (\<lambda>c. (c_pid c, SIGTERM)) (takeWhile (\<lambda>c. can (c_pid c)) (rev (clist (kids (srv p)))))\<rparr>)"
  by (rule shutdown_eq [OF assms])

definition demo_two :: "unit process" where
  "demo_two = (demo_process [])\<lparr>srv := demo_running\<lparr>kids := \<lparr>clist = [\<lparr>c_pid = 7, c_be = 0, c_birth = 0\<rparr>, \<lparr>c_pid = 8, c_be = 0, c_birth = 0\<rparr>], c_nchild = 2\<rparr>,
     bes := map (\<lambda>b. b\<lparr>be_nchild := (if be_id b = 0 then 2 else 0)\<rparr>) (bes demo_running)\<rparr>\<rparr>"

lemma demo_fds: "fds_ok demo_running"
  by (simp add: fds_ok_def demo_running_def watched_def demo_server_def server_empty_def FD_SETSIZE_def)

theorem shutdown_signals_witness:
  "\<exists>q. server_shutdown (\<lambda>i. i = 8) demo_two = Done q \<and> killed q = [(8, SIGTERM)]"
proof -
  have "server_ok (srv demo_two)" using demo_fds
    by (auto simp: server_ok_def demo_two_def pool_ok_def children_ok_def demo_running_def demo_server_def server_empty_def be_kids_def
        children_count_def fds_ok_def watched_def)
  with shutdown_signals [of demo_two "\<lambda>i. i = 8"] show ?thesis
    by (simp add: demo_two_def demo_process_def)
qed

text \<open>
  A child forked to serve a connection goes on in the parent's descriptor loop: when the
  channel of another child is ready in the same turn, the new child reads the request from it
  and runs the handler in its own copy of the state, so the request is lost to the parent.
\<close>

theorem forked_child_takes_request:
  assumes p: "pool_ok (srv p)" and fds: "fd1 < fd2" "fd2 < FD_SETSIZE" "fd2 \<le> hfd (srv p)"
    and b: "be_of_ld (Some fd1) (bes (srv p)) = Some b" "be_model b = SERVER_MODEL_FORK"
    and other: "be_of_ld (Some fd2) (bes (srv p)) = None"
    and room: "children_count (kids (srv p)) \<noteq> sv_max_child (srv p)" "be_nchild b \<noteq> be_max_child b"
    and acc: "sv_accept E fd1 (world p) = (Some ad, w)" and f: "forks p = (Some (s0, s1), Fork_child) # fs"
    and msg: "ppc_read PPC_MAX_DATA_SIZE (chans p fd2) = (Ppc_msg cmd data (length data), ch)" "cmd \<noteq> PPC_CMD_FORK_CHILD"
    and h: "sv_handler E cmd = Some h" "h data (snd (sv_serve E (be_id b) ad w), ch) = (w', ch')"
  shows "\<exists>q. fd_loop L E now {fd1, fd2} FD_SETSIZE 0 2 p = Some q \<and> pipc_fd q = Some s1 \<and> sv_stop (srv q) \<and>
    chans q fd2 = ch' \<and> world q = w'"
proof -
  from dispatch_fork_child [OF p b room acc f, of L now] obtain cs where
    d1: "server_dispatch L E now (Some fd1) p = Some (Done (served_child (be_id b) s1 (snd (sv_serve E (be_id b) ad w)) fs cs p))"
    (is "_ = Some (Done ?q)") by blast
  have "be_of_ld (Some fd2) (bes (srv ?q)) = None"
    using other be_of_ld_Some [OF b(1)] fds(1) unfolding be_of_ld_None by (auto simp: served_child_def)
  moreover have "process_ppc L E now fd2 ?q = Some (Done (?q\<lparr>world := w', chans := (chans ?q)(fd2 := ch')\<rparr>))"
    using msg h by (intro process_ppc_other [where cmd=cmd and data=data and c=ch and h=h]) (auto simp: served_child_def)
  ultimately have d2: "server_dispatch L E now (Some fd2) ?q = Some (Done (?q\<lparr>world := w', chans := (chans ?q)(fd2 := ch')\<rparr>))"
    by (simp add: server_dispatch_def dispatch_with_def)
  have "fd2 \<le> hfd (srv ?q)" using fds(3) by (simp add: served_child_def)
  from fd_loop_two [OF fds this d1 d2] show ?thesis by (auto simp: served_child_def)
qed


text \<open>A fork that returns in the child, and a request of another child waiting on descriptor 5.\<close>

definition demo_stolen :: "unit process" where
  "demo_stolen = (demo_process [(Some (10, 11), Fork_child)])
     \<lparr>srv := demo_running\<lparr>rdfds := {3, 5}, hfd := 5\<rparr>,
      chans := (\<lambda>_. \<lparr>eintr = 0, broken = False, limits = [], bytes = frame (1, ''x'')\<rparr>)\<rparr>"

theorem forked_child_takes_request_witness:
  "\<exists>q. fd_loop libu_ref demo_env 0 {3, 5} FD_SETSIZE 0 2 demo_stolen = Some q \<and> pipc_fd q = Some 11 \<and> bytes (chans q 5) = []"
proof -
  have read: "ppc_read PPC_MAX_DATA_SIZE (chans demo_stolen 5) = (Ppc_msg 1 ''x'' 1, \<lparr>eintr = 0, broken = False, limits = [], bytes = []\<rparr>)"
    using ppc_read_frame [of "chans demo_stolen 5" PPC_MAX_DATA_SIZE "(1, ''x'')" "[]"]
    by (simp add: demo_stolen_def sendable_def unlimited_def PPC_MAX_DATA_SIZE_def)
  have read': "ppc_read PPC_MAX_DATA_SIZE (chans demo_stolen 5)
      = (Ppc_msg 1 ''x'' (length ''x''), \<lparr>eintr = 0, broken = False, limits = [], bytes = []\<rparr>)"
    using read by simp
  have pool: "pool_ok (srv demo_stolen)" using demo_pool by (simp add: demo_stolen_def pool_ok_fds)
  have "\<exists>q. fd_loop libu_ref demo_env 0 {3, 5} FD_SETSIZE 0 2 demo_stolen = Some q \<and> pipc_fd q = Some 11 \<and> sv_stop (srv q) \<and>
      chans q 5 = \<lparr>eintr = 0, broken = False, limits = [], bytes = []\<rparr> \<and> world q = ()"
    by (rule forked_child_takes_request [OF pool _ _ _ _ _ _ _ _ _ _ read', where w="()" and h="\<lambda>d st. st"])
      (simp_all add: demo_stolen_def demo_process_def demo_env_def demo_running_def demo_server_def server_empty_def
        FD_SETSIZE_def children_count_def PPC_CMD_FORK_CHILD_def, simp_all)
  then show ?thesis by auto
qed

lemma process_ppc_fork:
  assumes "ppc_read PPC_MAX_DATA_SIZE (chans p fd) = (Ppc_msg PPC_CMD_FORK_CHILD (le_bytes 4 i) 4, c)" "i < 2 ^ 32"
  shows "process_ppc L E now fd p =
    Option.bind (server_ppc_cb_fork_child L E now i p) (\<lambda>r. Some (case ignore_status r of
        Done p2 \<Rightarrow> Done (p2\<lparr>chans := (chans p2)(fd := c)\<rparr>) | other \<Rightarrow> other))"
proof -
  have "le_value (take 4 (le_bytes 4 i)) = i" using le_value_le_bytes [of i 4] assms(2) by simp
  then show ?thesis using assms(1)
    by (cases "server_ppc_cb_fork_child L E now i p")
      (auto simp: process_ppc_def server_process_ppc_def ppc_dispatch_def server_ppc_def ppc_register_def fork_child_cb_def
        Let_def split: step.splits)
qed

text \<open>
  A worker that is busy for too long is replaced: the request it writes on its channel
  before it stops, read by the parent from the other end, makes the parent fork a worker for
  the same backend, or remember to.
\<close>

theorem busy_worker_request:
  fixes p :: "'w process"
  assumes "pipc_fd p = Some fd" "cur_be p = Some i" "i < 2 ^ 32" "\<not> broken (chans p fd)" "bytes (chans p fd) = []"
    "unlimited (chans p fd)"
  shows "\<exists>q. server_cb_spawn_child p = Done q \<and> sv_stop (srv q) \<and>
    (\<forall>(pp :: 'w process) pfd L E now. chans pp pfd = chans q fd \<longrightarrow>
       process_ppc L E now pfd pp =
         Option.bind (server_ppc_cb_fork_child L E now i pp) (\<lambda>r. Some (case ignore_status r of
             Done p2 \<Rightarrow> Done (p2\<lparr>chans := (chans p2)(pfd := (chans pp pfd)\<lparr>limits := drop 2 (limits (chans pp pfd)), bytes := []\<rparr>)\<rparr>) | other \<Rightarrow> other)))"
proof -
  let ?c = "(chans p fd)\<lparr>eintr := 0, limits := drop 2 (limits (chans p fd)), bytes := frame (PPC_CMD_FORK_CHILD, le_bytes 4 i)\<rparr>"
  let ?q = "p\<lparr>chans := (chans p)(fd := ?c), srv := (srv p)\<lparr>sv_stop := True\<rparr>\<rparr>"
  have "le_bytes 4 i \<noteq> []" by (metis length_le_bytes list.size(3) zero_neq_numeral)
  then have sent: "ppc_write PPC_CMD_FORK_CHILD (le_bytes 4 i) (chans p fd) = (1, ?c)"
    and "sendable PPC_MAX_DATA_SIZE (PPC_CMD_FORK_CHILD, le_bytes 4 i)"
    using assms(4-6) ppc_write_frame [of "chans p fd"] by (simp_all add: sendable_def PPC_CMD_FORK_CHILD_def PPC_MAX_DATA_SIZE_def)
  then have read: "ppc_read PPC_MAX_DATA_SIZE ?c = (Ppc_msg PPC_CMD_FORK_CHILD (le_bytes 4 i) 4, ?c\<lparr>limits := drop 2 (limits ?c), bytes := []\<rparr>)"
    using ppc_read_frame [of ?c PPC_MAX_DATA_SIZE "(PPC_CMD_FORK_CHILD, le_bytes 4 i)" "[]"] assms(4)
      unlimited_drop [OF assms(6), of ?c 2] by simp
  have "server_cb_spawn_child p = Done ?q"
    using assms(1,2) sent by (simp add: server_cb_spawn_child_def server_ppc_cmd_fork_child_def server_stop_def)
  moreover have "process_ppc L E now pfd pp =
         Option.bind (server_ppc_cb_fork_child L E now i pp) (\<lambda>r. Some (case ignore_status r of
             Done p2 \<Rightarrow> Done (p2\<lparr>chans := (chans p2)(pfd := (chans pp pfd)\<lparr>limits := drop 2 (limits (chans pp pfd)), bytes := []\<rparr>)\<rparr>) | other \<Rightarrow> other))"
    if "chans pp pfd = chans ?q fd" for pp :: "'w process" and pfd L E now
    by (rule process_ppc_fork [OF _ assms(3)]) (use that read in simp)
  moreover have "sv_stop (srv ?q)" by simp
  ultimately show ?thesis by blast
qed

theorem busy_worker_request_witness:
  "\<exists>q. server_cb_spawn_child ((demo_process [])\<lparr>pipc_fd := Some 5, cur_be := Some 1\<rparr>) = Done q \<and>
    process_ppc libu_ref demo_env 0 9 ((demo_process demo_forks)\<lparr>chans := (\<lambda>_. chans q 5)\<rparr>) =
      Option.bind (server_ppc_cb_fork_child libu_ref demo_env 0 1 ((demo_process demo_forks)\<lparr>chans := (\<lambda>_. chans q 5)\<rparr>)) (\<lambda>r.
        Some (case ignore_status r of
          Done p2 \<Rightarrow> Done (p2\<lparr>chans := (chans p2)(9 := (chans q 5)\<lparr>limits := drop 2 (limits (chans q 5)), bytes := []\<rparr>)\<rparr>) | other \<Rightarrow> other))"
proof -
  let ?p = "(demo_process [])\<lparr>pipc_fd := Some 5, cur_be := Some 1\<rparr>"
  have "\<not> broken (chans ?p 5)" "bytes (chans ?p 5) = []" "unlimited (chans ?p 5)"
    by (simp_all add: demo_process_def unlimited_def)
  from busy_worker_request [OF _ _ _ this, of 1] obtain q where q: "server_cb_spawn_child ?p = Done q"
    "\<And>pp pfd. chans pp pfd = chans q 5 \<Longrightarrow> process_ppc libu_ref demo_env 0 pfd pp =
         Option.bind (server_ppc_cb_fork_child libu_ref demo_env 0 1 pp) (\<lambda>r. Some (case ignore_status r of
             Done p2 \<Rightarrow> Done (p2\<lparr>chans := (chans p2)(pfd := (chans pp pfd)\<lparr>limits := drop 2 (limits (chans pp pfd)), bytes := []\<rparr>)\<rparr>) | other \<Rightarrow> other))" by auto
  have eq: "chans ((demo_process demo_forks)\<lparr>chans := (\<lambda>_. chans q 5)\<rparr>) 9 = chans q 5" by simp
  from q(2) [OF eq, unfolded eq] q(1) show ?thesis by blast
qed

text \<open>
  \<^verbatim>\<open>server_create\<close> configures the backends its list names, in order and with the
  identifiers 0, 1, \<dots>: on names separated by single blanks the loop is \<open>add_all\<close> over them.
  A second separator in a row ends the list: whatever follows it is silently not configured.
\<close>

theorem server_list_configures:
  assumes "list_all is_name ns" "ns \<noteq> []" "ends_list rest"
  shows "server_list_loop (add_backend L ci ua sk fg) (list_text ns @ rest) i s = add_all (add_backend L ci ua sk fg) ns i s"
  by (rule server_list_names [OF assms])

theorem server_list_configures_witness:
  "\<exists>s. server_list_loop (add_backend libu_ref (\<lambda>_. True) (\<lambda>_. True) demo_subkey False) ''www  app'' 0 server_empty = Some s \<and>
     length (bes s) = 1"
proof -
  have "list_all is_name [''www'']" "ends_list ''  app''" by (simp_all add: is_name_def is_sep_def ends_list_def)
  from server_list_configures [OF this(1) _ this(2)] show ?thesis
    by (simp add: add_backend_def demo_subkey_def demo_backend_def backend_create_def libu_ref_def backend_list_def strcaseeq_def
        ctype_simps backend_set_model_def backend_limits_def SERVER_MAX_BACKENDS_def server_setup_backend_def server_empty_def Let_def)
qed

text \<open>
  C36.  A server configured with a user and a group serves with exactly their rights: when the
  start succeeds, all its user identifiers are the configured user, all its group identifiers
  and its only group the configured group, and no call gives it the rights of root back.
\<close>

theorem privileges_dropped:
  assumes "server_create L ci ua cfg sk fg = Some s" "server_start net_sd ch s c = Some (s', c')"
    "0 < sv_uid s" "0 < sv_gid s"
  shows "c' = \<lparr>ruid = sv_uid s, euid = sv_uid s, suid = sv_uid s, rgid = sv_gid s, egid = sv_gid s, sgid = sv_gid s, groups = [sv_gid s]\<rparr> \<and>
    sys_setuid 0 c' = None \<and> sys_seteuid 0 c' = None \<and> sys_setgid 0 c' = None \<and> sys_setegid 0 c' = None \<and> sys_setgroups [0] c' = None"
proof -
  from server_create_created [OF assms(1)] have "server_ok s" by (auto intro: created_ok)
  with server_listen_ok server_start_inv(1) [OF assms(2)] have "same_config s s'" by blast
  then have "0 < sv_uid s'" "0 < sv_gid s'" "sv_uid s' = sv_uid s" "sv_gid s' = sv_gid s"
    using assms(3,4) by (simp_all add: same_config_def)
  from drop_privileges_eq [OF this(1,2) server_start_inv(2) [OF assms(2)]] this(3,4) assms(3,4) show ?thesis
    by (simp add: sys_defs)
qed

theorem privileges_dropped_witness: "sys_setuid 0 demo_user = None \<and> groups demo_user = [80]"
proof -
  have "0 < sv_uid demo_server" "0 < sv_gid demo_server" "sv_gid demo_server = 80" by (simp_all add: demo_server_def)
  with privileges_dropped [OF demo_create demo_start] show ?thesis by (simp add: demo_user_def)
qed
end
