(* ===== verification/Klog.thy ===== *)
theory Klog
  imports Libu Counted_List Ppc
begin

text \<open>
  \<^verbatim>\<open>src/libklog\<close>: the log devices.  A log in memory is a bounded list of messages; a log in
  files is a ring of pages, files of a fixed number of lines, with a head file that remembers the
  position between two runs; a syslog device hands each line over.  Levels are integers, 0
  (debug) to 7 (emergency).  The printed message is the argument of the operations, the time of
  day another.  File names come from LibU's \<^verbatim>\<open>u_path_snprintf\<close>, and \<^verbatim>\<open>ctime\<close> and the
  outcome of \<^verbatim>\<open>fopen\<close> from the system: they are the fields of an environment.
\<close>

section \<open>Definitions\<close>

definition KLOG_LN_SZ :: nat where
  "KLOG_LN_SZ = 512"

definition KLOG_ID_SZ :: nat where
  "KLOG_ID_SZ = 8"

definition KLOG_EMERG :: int where
  "KLOG_EMERG = 7"

definition KLOG_LEVEL_UNKNOWN :: int where
  "KLOG_LEVEL_UNKNOWN = 8"

definition kloglev :: "string list" where
  "kloglev = [''DBG'', ''INF'', ''NTC'', ''WRN'', ''ERR'', ''CRT'', ''ALR'', ''EMR'']"

definition klog_to_str :: "int \<Rightarrow> string" where
  "klog_to_str l = (if l < 0 \<or> KLOG_EMERG < l then ''?'' else kloglev ! nat l)"

record klog_env =
  page_name :: "string \<Rightarrow> nat \<Rightarrow> string option"
  head_name :: "string \<Rightarrow> string option"
  can_open :: "string \<Rightarrow> bool"
  c_ctime :: "nat \<Rightarrow> string"

text \<open>\<^verbatim>\<open>[level] time <ident>: message\<close>, the time without its newline.\<close>

definition log_line :: "klog_env \<Rightarrow> string \<Rightarrow> int \<Rightarrow> nat \<Rightarrow> string \<Rightarrow> string" where
  "log_line V ident level now ln = ''['' @ klog_to_str level @ ''] '' @ take 24 (c_ctime V now) @ '' <'' @ ident @ ''>: '' @ ln"

subsection \<open>In memory\<close>

record klog_mem_msg_s =
  mm_level :: int
  mm_time :: nat
  mm_line :: "string option"

record klog_mem_s =
  km_bound :: nat
  km_nmsgs :: nat
  km_msgs :: "klog_mem_msg_s list"

definition klog_open_mem :: "libu \<Rightarrow> nat \<Rightarrow> klog_mem_s option" where
  "klog_open_mem L ln_max =
     (if u_malloc L 32 then Some \<lparr>km_bound = (if ln_max = 0 then 1 else ln_max), km_nmsgs = 0, km_msgs = []\<rparr> else None)"

definition klog_mem_msg_new :: "libu \<Rightarrow> nat \<Rightarrow> string \<Rightarrow> int \<Rightarrow> klog_mem_msg_s option" where
  "klog_mem_msg_new L now s level =
     (if u_malloc L 40 then Some \<lparr>mm_level = level, mm_time = now, mm_line = u_strndup L s KLOG_LN_SZ\<rparr> else None)"

text \<open>\<^verbatim>\<open>TAILQ_INSERT_HEAD\<close> and \<^verbatim>\<open>TAILQ_REMOVE\<close> with the counter.\<close>

definition msg_add :: "klog_mem_msg_s \<Rightarrow> klog_mem_s \<Rightarrow> klog_mem_s" where
  "msg_add m k = k\<lparr>km_msgs := m # km_msgs k, km_nmsgs := size_add (km_nmsgs k) 1\<rparr>"

definition msg_del :: "klog_mem_msg_s \<Rightarrow> klog_mem_s \<Rightarrow> klog_mem_s outcome" where
  "msg_del m k =
     (if m \<in> set (km_msgs k) then Ok (k\<lparr>km_msgs := remove1 m (km_msgs k), km_nmsgs := size_sub (km_nmsgs k) 1\<rparr>) else Fault)"

text \<open>\<^verbatim>\<open>klog_mem_msg_push\<close>: the oldest message, the last of the list, makes room.\<close>

definition drop_oldest :: "klog_mem_s \<Rightarrow> klog_mem_s" where
  "drop_oldest k =
     (if km_msgs k = [] then k else k\<lparr>km_msgs := butlast (km_msgs k), km_nmsgs := size_sub (km_nmsgs k) 1\<rparr>)"

definition klog_mem_msg_push :: "klog_mem_msg_s \<Rightarrow> klog_mem_s \<Rightarrow> klog_mem_s" where
  "klog_mem_msg_push m k = msg_add m (if km_bound k \<le> km_nmsgs k then drop_oldest k else k)"

definition klog_mem :: "libu \<Rightarrow> nat \<Rightarrow> int \<Rightarrow> string \<Rightarrow> klog_mem_s \<Rightarrow> klog_mem_s step" where
  "klog_mem L now level msg k =
     (case klog_mem_msg_new L now (take KLOG_LN_SZ msg) level of
        None \<Rightarrow> Failed k
      | Some m \<Rightarrow> Done (klog_mem_msg_push m k))"

fun nth_msg :: "nat \<Rightarrow> klog_mem_msg_s list \<Rightarrow> klog_mem_msg_s option" where
  "nth_msg i [] = None"
| "nth_msg i (m # ms) = (if i = 1 then Some m else nth_msg (i - 1) ms)"

text \<open>
  \<^verbatim>\<open>klog_getln_mem\<close>: the line as it is stored in the caller's buffer of \<^verbatim>\<open>KLOG_LN_SZ + 1\<close> bytes;
  a message whose copy failed is printed through a null pointer.
\<close>

definition klog_getln_mem :: "klog_env \<Rightarrow> string \<Rightarrow> nat \<Rightarrow> klog_mem_s \<Rightarrow> string outcome" where
  "klog_getln_mem V ident i k =
     (if km_nmsgs k < i \<or> i = 0 then Fail
      else case nth_msg i (km_msgs k) of
        None \<Rightarrow> Fault
      | Some m \<Rightarrow>
          (case mm_line m of
             None \<Rightarrow> Fault
           | Some ln \<Rightarrow> Ok (take KLOG_LN_SZ (log_line V ident (mm_level m) (mm_time m) ln))))"

definition klog_countln_mem :: "klog_mem_s \<Rightarrow> nat" where
  "klog_countln_mem k = km_nmsgs k"

fun msgs_free_loop :: "klog_mem_msg_s list \<Rightarrow> nat \<Rightarrow> nat" where
  "msgs_free_loop [] n = n"
| "msgs_free_loop (m # ms) n = msgs_free_loop ms (size_sub n 1)"

definition klog_mem_msgs_free :: "klog_mem_s \<Rightarrow> klog_mem_s" where
  "klog_mem_msgs_free k = k\<lparr>km_msgs := [], km_nmsgs := msgs_free_loop (km_msgs k) (km_nmsgs k)\<rparr>"

definition klog_clear_mem :: "klog_mem_s \<Rightarrow> klog_mem_s" where
  "klog_clear_mem k = (klog_mem_msgs_free k)\<lparr>km_nmsgs := 0, km_msgs := []\<rparr>"

subsection \<open>In files\<close>

record klog_head =
  kh_npages :: nat
  kh_nlines :: nat
  kh_wpageid :: nat
  kh_offset :: nat

record klog_file_s = klog_head +
  kf_basename :: string
  kf_wfp :: "string option"

record log_files =
  lf_pages :: "string \<Rightarrow> string option"
  lf_heads :: "string \<Rightarrow> klog_head option"

definition content :: "log_files \<Rightarrow> string \<Rightarrow> string" where
  "content fs f = (case lf_pages fs f of None \<Rightarrow> [] | Some t \<Rightarrow> t)"

definition klog_file_head_new :: "libu \<Rightarrow> string \<Rightarrow> nat \<Rightarrow> nat \<Rightarrow> nat \<Rightarrow> nat \<Rightarrow> klog_file_s option" where
  "klog_file_head_new L base npages nlines wpageid offset =
     (if u_malloc L 4200
      then Some \<lparr>kh_npages = npages, kh_nlines = nlines, kh_wpageid = wpageid, kh_offset = offset,
                 kf_basename = base, kf_wfp = None\<rparr>
      else None)"

definition klog_file_head_load :: "libu \<Rightarrow> klog_env \<Rightarrow> string \<Rightarrow> log_files \<Rightarrow> klog_file_s option" where
  "klog_file_head_load L V base fs =
     (case head_name V base of
        None \<Rightarrow> None
      | Some hf \<Rightarrow>
          (case lf_heads fs hf of
             None \<Rightarrow> None
           | Some h \<Rightarrow>
               if can_open V hf then klog_file_head_new L base (kh_npages h) (kh_nlines h) (kh_wpageid h) (kh_offset h) else None))"

definition klog_file_head_dump :: "klog_env \<Rightarrow> klog_file_s \<Rightarrow> log_files \<Rightarrow> log_files" where
  "klog_file_head_dump V klf fs =
     (case head_name V (kf_basename klf) of
        None \<Rightarrow> fs
      | Some hf \<Rightarrow> if can_open V hf then fs\<lparr>lf_heads := (lf_heads fs)(hf \<mapsto> klog_head.truncate klf)\<rparr> else fs)"

text \<open>\<^verbatim>\<open>fopen\<close> with mode \<^verbatim>\<open>"a"\<close> creates the file if needed, with mode \<^verbatim>\<open>"w"\<close> it empties it.\<close>

definition klog_file_open_page :: "klog_env \<Rightarrow> klog_file_s \<times> log_files \<Rightarrow> (klog_file_s \<times> log_files) option" where
  "klog_file_open_page V = (\<lambda>(klf, fs).
     case page_name V (kf_basename klf) (kh_wpageid klf) of
       None \<Rightarrow> None
     | Some pg \<Rightarrow>
         if can_open V pg
         then Some (klf\<lparr>kf_wfp := Some pg\<rparr>,
                fs\<lparr>lf_pages := (lf_pages fs)(pg \<mapsto> content fs pg)\<rparr>)
         else None)"

definition klog_open_file ::
  "libu \<Rightarrow> klog_env \<Rightarrow> string \<Rightarrow> nat \<Rightarrow> nat \<Rightarrow> log_files \<Rightarrow> (klog_file_s \<times> log_files) option" where
  "klog_open_file L V base npages nlines fs =
     (case (case klog_file_head_load L V base fs of
              None \<Rightarrow> klog_file_head_new L base npages nlines 0 0
            | Some klf \<Rightarrow>
                Some (if kh_npages klf \<noteq> npages \<or> kh_nlines klf \<noteq> nlines
                      then klf\<lparr>kh_npages := npages, kh_nlines := nlines, kh_wpageid := 0, kh_offset := 0\<rparr> else klf)) of
        None \<Rightarrow> None
      | Some klf \<Rightarrow> klog_file_open_page V (klf, fs))"

definition klog_file_shift_page :: "klog_env \<Rightarrow> klog_file_s \<times> log_files \<Rightarrow> (klog_file_s \<times> log_files) step" where
  "klog_file_shift_page V = (\<lambda>(klf, fs).
     if kh_npages klf = 0 then Crash
     else
       (let p = size_add (kh_wpageid klf) 1 mod kh_npages klf; shut = klf\<lparr>kf_wfp := None\<rparr> in
        case page_name V (kf_basename klf) p of
          None \<Rightarrow> Failed (shut, fs)
        | Some pg \<Rightarrow>
            if can_open V pg
            then Done (shut\<lparr>kf_wfp := Some pg, kh_offset := 0, kh_wpageid := p\<rparr>, fs\<lparr>lf_pages := (lf_pages fs)(pg \<mapsto> [])\<rparr>)
            else Failed (shut, fs)))"

definition klog_file_append ::
  "klog_env \<Rightarrow> nat \<Rightarrow> string \<Rightarrow> int \<Rightarrow> string \<Rightarrow> klog_file_s \<times> log_files \<Rightarrow> (klog_file_s \<times> log_files) step" where
  "klog_file_append V now ident level ln = (\<lambda>(klf, fs).
     case kf_wfp klf of
       None \<Rightarrow> Failed (klf, fs)
     | Some pg \<Rightarrow>
         Done (klf\<lparr>kh_offset := size_add (kh_offset klf) 1\<rparr>,
           fs\<lparr>lf_pages := (lf_pages fs)(pg \<mapsto> content fs pg @ log_line V ident level now ln @ [LF])\<rparr>))"

definition klog_file ::
  "klog_env \<Rightarrow> nat \<Rightarrow> string \<Rightarrow> int \<Rightarrow> string \<Rightarrow> klog_file_s \<times> log_files \<Rightarrow> (klog_file_s \<times> log_files) step" where
  "klog_file V now ident level msg st =
     and_then (if kh_nlines (fst st) \<le> kh_offset (fst st) then klog_file_shift_page V st else Done st)
       (klog_file_append V now ident level (take KLOG_LN_SZ msg))"

text \<open>\<^verbatim>\<open>klog_close_file\<close>: the page is closed, then the head written, with the stale file pointer in it.\<close>

definition klog_close_file :: "klog_env \<Rightarrow> klog_file_s \<times> log_files \<Rightarrow> log_files" where
  "klog_close_file V = (\<lambda>(klf, fs). klog_file_head_dump V klf fs)"

subsection \<open>Devices\<close>

datatype klog_dev = Dev_mem klog_mem_s | Dev_file klog_file_s | Dev_syslog "(int \<times> string \<times> string) list"

record klog_s =
  kl_threshold :: int
  kl_ident :: string
  kl_dev :: klog_dev

definition sysloglev :: "int list" where
  "sysloglev = [7, 6, 5, 4, 3, 2, 1, 0]"

definition klog_to_syslog :: "int \<Rightarrow> int" where
  "klog_to_syslog l = (if l < 0 \<or> KLOG_EMERG < l then -1 else sysloglev ! nat l)"

definition klog_syslog :: "string \<Rightarrow> int \<Rightarrow> string \<Rightarrow> (int \<times> string \<times> string) list \<Rightarrow> (int \<times> string \<times> string) list" where
  "klog_syslog ident level msg sent = sent @ [(klog_to_syslog level, ident, msg)]"

definition klog :: "libu \<Rightarrow> klog_env \<Rightarrow> nat \<Rightarrow> int \<Rightarrow> string \<Rightarrow> klog_s \<times> log_files \<Rightarrow> (klog_s \<times> log_files) step" where
  "klog L V now level msg = (\<lambda>(kl, fs).
     if level < 0 \<or> KLOG_LEVEL_UNKNOWN \<le> level \<or> level < kl_threshold kl then Done (kl, fs)
     else case kl_dev kl of
       Dev_mem k \<Rightarrow> bind_step (klog_mem L now level msg k) (\<lambda>k. Done (kl\<lparr>kl_dev := Dev_mem k\<rparr>, fs)) (\<lambda>k. (kl\<lparr>kl_dev := Dev_mem k\<rparr>, fs))
     | Dev_file klf \<Rightarrow>
         bind_step (klog_file V now (kl_ident kl) level msg (klf, fs))
           (\<lambda>(klf, fs). Done (kl\<lparr>kl_dev := Dev_file klf\<rparr>, fs)) (\<lambda>(klf, fs). (kl\<lparr>kl_dev := Dev_file klf\<rparr>, fs))
     | Dev_syslog sent \<Rightarrow> Done (kl\<lparr>kl_dev := Dev_syslog (klog_syslog (kl_ident kl) level msg sent)\<rparr>, fs))"

text \<open>The operations only a log in memory has: elsewhere \<^verbatim>\<open>klog_getln\<close> succeeds and writes nothing.\<close>

definition klog_getln :: "klog_env \<Rightarrow> nat \<Rightarrow> klog_s \<Rightarrow> string option outcome" where
  "klog_getln V i kl =
     (case kl_dev kl of Dev_mem k \<Rightarrow> map_ok Some (klog_getln_mem V (kl_ident kl) i k) | _ \<Rightarrow> Ok None)"

definition klog_clear :: "klog_s \<Rightarrow> klog_s option" where
  "klog_clear kl = (case kl_dev kl of Dev_mem k \<Rightarrow> Some (kl\<lparr>kl_dev := Dev_mem (klog_clear_mem k)\<rparr>) | _ \<Rightarrow> None)"

definition klog_countln :: "klog_s \<Rightarrow> int" where
  "klog_countln kl = (case kl_dev kl of Dev_mem k \<Rightarrow> int (klog_countln_mem k) | _ \<Rightarrow> - 1)"

subsection \<open>Configuration\<close>

datatype klog_type = KLOG_TYPE_UNKNOWN | KLOG_TYPE_MEM | KLOG_TYPE_FILE | KLOG_TYPE_SYSLOG

record klog_args_s =
  ka_type :: klog_type
  ka_ident :: "string option"
  ka_threshold :: int
  ka_mlimit :: int
  ka_fbasename :: "string option"
  ka_fsplits :: int
  ka_flimit :: int

definition klog_type_of :: "string option \<Rightarrow> klog_type" where
  "klog_type_of t =
     (case t of
        None \<Rightarrow> KLOG_TYPE_UNKNOWN
      | Some t \<Rightarrow>
          if strcaseeq t ''memory'' then KLOG_TYPE_MEM
          else if strcaseeq t ''file'' then KLOG_TYPE_FILE
          else if strcaseeq t ''syslog'' then KLOG_TYPE_SYSLOG else KLOG_TYPE_UNKNOWN)"

fun threshold_loop :: "string \<Rightarrow> int \<Rightarrow> string list \<Rightarrow> int" where
  "threshold_loop t i [] = KLOG_LEVEL_UNKNOWN"
| "threshold_loop t i (l # ls) = (if strcaseeq t l then i else threshold_loop t (i + 1) ls)"

definition klog_threshold :: "string option \<Rightarrow> int" where
  "klog_threshold t = (case t of None \<Rightarrow> KLOG_LEVEL_UNKNOWN | Some t \<Rightarrow> threshold_loop t 0 kloglev)"

definition klog_args_check :: "klog_args_s \<Rightarrow> klog_args_s option" where
  "klog_args_check ka =
     (let ka = (if ka_threshold ka = KLOG_LEVEL_UNKNOWN then ka\<lparr>ka_threshold := 0\<rparr> else ka) in
      case ka_type ka of
        KLOG_TYPE_UNKNOWN \<Rightarrow> None
      | KLOG_TYPE_MEM \<Rightarrow> Some (if ka_mlimit ka = 0 then ka\<lparr>ka_mlimit := 250\<rparr> else ka)
      | KLOG_TYPE_FILE \<Rightarrow>
          if ka_fbasename ka = None then None
          else
            (let ka = (if ka_fsplits ka = 0 then ka\<lparr>ka_fsplits := 4\<rparr> else ka)
             in Some (if ka_flimit ka = 0 then ka\<lparr>ka_flimit := 250\<rparr> else ka))
      | KLOG_TYPE_SYSLOG \<Rightarrow> Some ka)"

text \<open>\<^verbatim>\<open>klog_args\<close>: the values of a log section; a number that does not parse is an error.\<close>

fun config_number :: "(string \<Rightarrow> int option) \<Rightarrow> string option \<Rightarrow> int option" where
  "config_number u_atoi None = Some 0"
| "config_number u_atoi (Some v) = u_atoi v"

definition klog_args :: "libu \<Rightarrow> (string \<Rightarrow> int option) \<Rightarrow> (string \<Rightarrow> string option) \<Rightarrow> klog_args_s option" where
  "klog_args L u_atoi cfg =
     (if \<not> u_malloc L 64 then None
      else Option.bind (config_number u_atoi (cfg ''memory.limit'')) (\<lambda>m.
        Option.bind (config_number u_atoi (cfg ''file.limit'')) (\<lambda>fl.
        Option.bind (config_number u_atoi (cfg ''file.splits'')) (\<lambda>fsp.
        klog_args_check
          \<lparr>ka_type = klog_type_of (cfg ''type''), ka_ident = Option.bind (cfg ''ident'') (u_strdup L),
           ka_threshold = klog_threshold (cfg ''threshold''), ka_mlimit = m,
           ka_fbasename = Option.bind (cfg ''file.basename'') (u_strdup L), ka_fsplits = fsp, ka_flimit = fl\<rparr>))))"

definition klog_new :: "libu \<Rightarrow> klog_args_s \<Rightarrow> klog_dev \<Rightarrow> klog_s option" where
  "klog_new L ka d =
     (if u_malloc L 96
      then Some \<lparr>kl_threshold = ka_threshold ka,
                 kl_ident = fst (u_strlcpy L (case ka_ident ka of None \<Rightarrow> [] | Some i \<Rightarrow> i) (KLOG_ID_SZ + 1)), kl_dev = d\<rparr>
      else None)"

definition klog_open :: "libu \<Rightarrow> klog_env \<Rightarrow> klog_args_s \<Rightarrow> log_files \<Rightarrow> (klog_s \<times> log_files) option" where
  "klog_open L V ka fs =
     (case ka_type ka of
        KLOG_TYPE_MEM \<Rightarrow>
          Option.bind (klog_open_mem L (size_of_int (ka_mlimit ka))) (\<lambda>k. map_option (\<lambda>kl. (kl, fs)) (klog_new L ka (Dev_mem k)))
      | KLOG_TYPE_FILE \<Rightarrow>
          Option.bind (ka_fbasename ka) (\<lambda>base.
            Option.bind (klog_open_file L V base (size_of_int (ka_fsplits ka)) (size_of_int (ka_flimit ka)) fs)
              (\<lambda>(klf, fs). map_option (\<lambda>kl. (kl, fs)) (klog_new L ka (Dev_file klf))))
      | KLOG_TYPE_SYSLOG \<Rightarrow> map_option (\<lambda>kl. (kl, fs)) (klog_new L ka (Dev_syslog []))
      | KLOG_TYPE_UNKNOWN \<Rightarrow> None)"

definition klog_open_from_config ::
  "libu \<Rightarrow> klog_env \<Rightarrow> (string \<Rightarrow> int option) \<Rightarrow> (string \<Rightarrow> string option) \<Rightarrow> log_files \<Rightarrow> (klog_s \<times> log_files) option" where
  "klog_open_from_config L V u_atoi cfg fs = Option.bind (klog_args L u_atoi cfg) (\<lambda>ka. klog_open L V ka fs)"

definition klog_close :: "klog_env \<Rightarrow> klog_s \<times> log_files \<Rightarrow> log_files" where
  "klog_close V = (\<lambda>(kl, fs). case kl_dev kl of Dev_file klf \<Rightarrow> klog_close_file V (klf, fs) | _ \<Rightarrow> fs)"

subsection \<open>Through the parent\<close>

text \<open>
  A worker sends its lines to the parent and asks it for lines of the log in memory.  The two
  messages are C structures; the model keeps their fields.  The lines a worker reads back are
  copied with \<^verbatim>\<open>sizeof line\<close>, the size of a pointer.
\<close>

definition syslog_to_klog :: "int \<Rightarrow> int" where
  "syslog_to_klog l = (if l < 0 \<or> 7 < l then 6 else [7, 6, 5, 4, 3, 2, 1, 0] ! nat l)"

record log_request =
  lr_bid :: nat
  lr_level :: int
  lr_log :: string

definition server_ppc_cmd_log_add :: "libu \<Rightarrow> nat \<Rightarrow> nat \<Rightarrow> int \<Rightarrow> string \<Rightarrow> log_request" where
  "server_ppc_cmd_log_add L maxlog bid level s = \<lparr>lr_bid = bid, lr_level = level, lr_log = fst (u_strlcpy L s maxlog)\<rparr>"

text \<open>The logger of the calling backend, or the server's.\<close>

definition logger_of :: "klog_s option \<Rightarrow> (nat \<Rightarrow> klog_s option) \<Rightarrow> nat \<Rightarrow> klog_s option" where
  "logger_of skl bkl bid = (case bkl bid of None \<Rightarrow> skl | Some kl \<Rightarrow> Some kl)"

definition server_ppc_cb_log_add ::
  "libu \<Rightarrow> klog_env \<Rightarrow> nat \<Rightarrow> klog_s option \<Rightarrow> (nat \<Rightarrow> klog_s option) \<Rightarrow> log_request \<Rightarrow> log_files \<Rightarrow> (klog_s \<times> log_files) step option" where
  "server_ppc_cb_log_add L V now skl bkl r fs =
     map_option (\<lambda>kl. klog L V now (syslog_to_klog (lr_level r)) (lr_log r) (kl, fs)) (logger_of skl bkl (lr_bid r))"

text \<open>The parent's answer: the line, or nothing (\<^verbatim>\<open>i = -1\<close>).\<close>

definition server_ppc_cb_log_get :: "klog_env \<Rightarrow> klog_s option \<Rightarrow> (nat \<Rightarrow> klog_s option) \<Rightarrow> nat \<Rightarrow> nat \<Rightarrow> string option outcome" where
  "server_ppc_cb_log_get V skl bkl bid i =
     (case logger_of skl bkl bid of
        None \<Rightarrow> Ok None
      | Some kl \<Rightarrow>
          (case klog_getln V i kl of
             Ok None \<Rightarrow> Ok (Some [])
           | Ok (Some ln) \<Rightarrow> Ok (Some ln)
           | Fail \<Rightarrow> Ok None
           | Fault \<Rightarrow> Fault))"

definition POINTER_SIZE :: nat where
  "POINTER_SIZE = 8"

definition server_ppc_cmd_log_get :: "libu \<Rightarrow> klog_env \<Rightarrow> klog_s option \<Rightarrow> (nat \<Rightarrow> klog_s option) \<Rightarrow> nat \<Rightarrow> nat \<Rightarrow> string outcome" where
  "server_ppc_cmd_log_get L V skl bkl bid i =
     (case server_ppc_cb_log_get V skl bkl bid i of
        Ok None \<Rightarrow> Fail
      | Ok (Some ln) \<Rightarrow> Ok (fst (u_strlcpy L ln POINTER_SIZE))
      | Fail \<Rightarrow> Fail
      | Fault \<Rightarrow> Fault)"

section \<open>The log in memory\<close>

definition mem_ok :: "klog_mem_s \<Rightarrow> bool" where
  "mem_ok k \<longleftrightarrow> km_nmsgs k = length (km_msgs k) \<and> length (km_msgs k) \<le> km_bound k \<and> 0 < km_bound k \<and> km_bound k < SIZE_LIMIT"

definition mem_room :: "klog_mem_msg_s \<Rightarrow> klog_mem_s \<Rightarrow> bool" where
  "mem_room m k \<longleftrightarrow> length (km_msgs k) < km_bound k"

lemma msg_del_eq:
  "mem_ok k \<Longrightarrow> m \<in> set (km_msgs k) \<Longrightarrow>
   \<exists>k'. msg_del m k = Ok k' \<and> km_msgs k' = remove1 m (km_msgs k) \<and> mem_ok k'"
  by (cases "km_msgs k") (auto simp: msg_del_def mem_ok_def length_remove1 dest: length_pos_if_in_set)

interpretation msg_list: counted_list km_msgs klog_countln_mem msg_add msg_del mem_room mem_ok
proof
  show "mem_ok k \<Longrightarrow> m \<in> set (km_msgs k) \<Longrightarrow>
      \<exists>k'. msg_del m k = Ok k' \<and> mset (km_msgs k') = mset (km_msgs k) - {#m#} \<and> mem_ok k'" for m k
    using msg_del_eq [of k m] by auto
qed (auto simp: mem_ok_def klog_countln_mem_def msg_add_def mem_room_def)

lemma msg_push:
  assumes "mem_ok k"
  shows "mem_ok (klog_mem_msg_push m k) \<and> km_msgs (klog_mem_msg_push m k) = take (km_bound k) (m # km_msgs k) \<and>
    km_bound (klog_mem_msg_push m k) = km_bound k"
proof (cases "km_bound k \<le> km_nmsgs k")
  case True
  with assms have full: "length (km_msgs k) = km_bound k" "km_nmsgs k = km_bound k" "km_msgs k \<noteq> []" by (auto simp: mem_ok_def)
  obtain n where n: "km_bound k = Suc n" using assms by (cases "km_bound k") (auto simp: mem_ok_def)
  with full have "butlast (km_msgs k) = take n (km_msgs k)" by (simp add: butlast_conv_take)
  with True full n assms show ?thesis
    by (simp add: klog_mem_msg_push_def msg_add_def drop_oldest_def mem_ok_def)
next
  case False
  with assms have "length (km_msgs k) < km_bound k" by (simp add: mem_ok_def)
  then have "take (km_bound k) (m # km_msgs k) = m # km_msgs k" by (cases "km_bound k") auto
  with False assms show ?thesis by (simp add: klog_mem_msg_push_def msg_add_def mem_ok_def)
qed

text \<open>Logging a list of entries: the time, the level and the message of each.\<close>

type_synonym entry = "nat \<times> int \<times> string"

fun log_all :: "libu \<Rightarrow> klog_env \<Rightarrow> entry list \<Rightarrow> klog_s \<times> log_files \<Rightarrow> (klog_s \<times> log_files) step" where
  "log_all L V [] st = Done st"
| "log_all L V ((now, level, msg) # es) st = and_then (klog L V now level msg st) (log_all L V es)"

definition passes :: "klog_s \<Rightarrow> entry \<Rightarrow> bool" where
  "passes kl e = (case e of (now, level, msg) \<Rightarrow> 0 \<le> level \<and> level \<le> KLOG_EMERG \<and> kl_threshold kl \<le> level)"

definition mem_entry :: "entry \<Rightarrow> klog_mem_msg_s" where
  "mem_entry e = (case e of (now, level, msg) \<Rightarrow> \<lparr>mm_level = level, mm_time = now, mm_line = Some (take KLOG_LN_SZ msg)\<rparr>)"

definition entry_line :: "klog_env \<Rightarrow> string \<Rightarrow> entry \<Rightarrow> string" where
  "entry_line V ident e = (case e of (now, level, msg) \<Rightarrow> log_line V ident level now (take KLOG_LN_SZ msg))"

lemma klog_mem_step:
  assumes L: "libu_ok L" "libu_mem L" and kl: "kl_dev kl = Dev_mem k"
  shows "klog L V (fst e) (fst (snd e)) (snd (snd e)) (kl, fs) =
    Done (if passes kl e then kl\<lparr>kl_dev := Dev_mem (klog_mem_msg_push (mem_entry e) k)\<rparr> else kl, fs)"
  using kl libu_memD [OF L]
  by (auto simp: klog_def passes_def mem_entry_def KLOG_LEVEL_UNKNOWN_def KLOG_EMERG_def klog_mem_def klog_mem_msg_new_def
      split: prod.splits)

lemma take_append_take: "take b (xs @ take b ys) = take b (xs @ ys)"
  by (simp add: take_append min_def)

lemma mem_log_all:
  assumes L: "libu_ok L" "libu_mem L"
  shows "kl_dev kl = Dev_mem k \<Longrightarrow> mem_ok k \<Longrightarrow>
    \<exists>k'. log_all L V es (kl, fs) = Done (kl\<lparr>kl_dev := Dev_mem k'\<rparr>, fs) \<and> mem_ok k' \<and> km_bound k' = km_bound k \<and>
      km_msgs k' = take (km_bound k) (map mem_entry (rev (filter (passes kl) es)) @ km_msgs k)"
proof (induction es arbitrary: kl k)
  case Nil
  then show ?case by (intro exI [of _ k]) (auto simp: mem_ok_def)
next
  case (Cons e es)
  obtain now level msg where e: "e = (now, level, msg)" by (cases e)
  let ?k = "if passes kl e then klog_mem_msg_push (mem_entry e) k else k"
  let ?kl = "kl\<lparr>kl_dev := Dev_mem ?k\<rparr>"
  have kl: "(if passes kl e then kl\<lparr>kl_dev := Dev_mem (klog_mem_msg_push (mem_entry e) k)\<rparr> else kl) = ?kl"
    using Cons.prems(1) by auto
  have ok: "mem_ok ?k" "km_bound ?k = km_bound k" using Cons.prems(2) msg_push [of k "mem_entry e"] by auto
  have pas: "passes ?kl = passes kl" by (intro ext) (simp add: passes_def)
  have eq: "log_all L V (e # es) (kl, fs) = log_all L V es (?kl, fs)"
    using klog_mem_step [OF L Cons.prems(1), of V e fs] kl by (simp add: e)
  have "take (km_bound k) (xs @ km_msgs ?k) = take (km_bound k) (xs @ (if passes kl e then mem_entry e # km_msgs k else km_msgs k))" for xs
    using msg_push [OF Cons.prems(2), of "mem_entry e"] take_append_take [of "km_bound k" xs] by simp
  then have shown: "take (km_bound k) (map mem_entry (rev (filter (passes kl) es)) @ km_msgs ?k) =
      take (km_bound k) (map mem_entry (rev (filter (passes kl) (e # es))) @ km_msgs k)" by (simp del: take_append)
  from Cons.IH [of ?kl ?k] ok(1) obtain k' where
    "log_all L V es (?kl, fs) = Done (?kl\<lparr>kl_dev := Dev_mem k'\<rparr>, fs)" "mem_ok k'" "km_bound k' = km_bound ?k"
    "km_msgs k' = take (km_bound ?k) (map mem_entry (rev (filter (passes ?kl) es)) @ km_msgs ?k)" by auto
  then show ?case unfolding eq shown [symmetric] ok(2) pas by (intro exI [of _ k']) simp
qed


lemma nth_msg_nth: "0 < i \<Longrightarrow> i \<le> length ms \<Longrightarrow> nth_msg i ms = Some (ms ! (i - 1))"
proof (induction i ms rule: nth_msg.induct)
  case (2 i m ms)
  then show ?case by (cases "i = 1") (auto simp: nth_Cons')
qed simp

lemma getln_mem:
  assumes "mem_ok k" "km_msgs k = map mem_entry es" "kl_dev kl = Dev_mem k"
  shows "klog_getln V i kl =
    (if 0 < i \<and> i \<le> length es then Ok (Some (take KLOG_LN_SZ (entry_line V (kl_ident kl) (es ! (i - 1))))) else Fail)"
  using assms by (auto simp: klog_getln_def klog_getln_mem_def mem_ok_def nth_msg_nth mem_entry_def entry_line_def split: prod.splits)

text \<open>
  C39.  A log in memory is a window over the last messages: after logging any entries to an
  empty log of bound \<open>b\<close>, it counts the messages that passed the threshold, at most \<open>b\<close>, and line
  \<open>i\<close> is the \<open>i\<close>-th newest of them, with its level, time and the log's name before it, cut to
  the size of a log line; asking for line 0 or past the end is refused.
\<close>

theorem mem_log_window:
  assumes L: "libu_ok L" "libu_mem L" and b: "b < SIZE_LIMIT" and kl: "klog_open_mem L b = Some k" "kl_dev kl = Dev_mem k"
  shows "\<exists>kl'. log_all L V es (kl, fs) = Done (kl', fs) \<and>
    klog_countln kl' = int (min (max b 1) (length (filter (passes kl) es))) \<and>
    (\<forall>i. klog_getln V i kl' =
       (if 0 < i \<and> i \<le> min (max b 1) (length (filter (passes kl) es))
        then Ok (Some (take KLOG_LN_SZ (entry_line V (kl_ident kl) (rev (filter (passes kl) es) ! (i - 1))))) else Fail))"
proof -
  have k: "mem_ok k" "km_msgs k = []" "km_bound k = max b 1"
    using kl(1) b by (auto simp: klog_open_mem_def mem_ok_def split: if_splits)
  let ?es = "take (max b 1) (rev (filter (passes kl) es))"
  from mem_log_all [OF L kl(2) k(1), of V es fs] k obtain k' where
    k': "log_all L V es (kl, fs) = Done (kl\<lparr>kl_dev := Dev_mem k'\<rparr>, fs)" "mem_ok k'" "km_msgs k' = map mem_entry ?es"
    by (auto simp: take_map)
  have "klog_countln (kl\<lparr>kl_dev := Dev_mem k'\<rparr>) = int (length ?es)"
    using k'(2,3) by (simp add: klog_countln_def klog_countln_mem_def mem_ok_def)
  moreover have "klog_getln V i (kl\<lparr>kl_dev := Dev_mem k'\<rparr>) =
      (if 0 < i \<and> i \<le> length ?es then Ok (Some (take KLOG_LN_SZ (entry_line V (kl_ident kl) (?es ! (i - 1))))) else Fail)" for i
    using getln_mem [OF k'(2,3), of "kl\<lparr>kl_dev := Dev_mem k'\<rparr>" V i] by simp
  ultimately show ?thesis using k'(1) by (intro exI [of _ "kl\<lparr>kl_dev := Dev_mem k'\<rparr>"]) (auto simp: min.commute)
qed

definition env_ref :: klog_env where
  "env_ref = \<lparr>page_name = (\<lambda>b i. Some (b @ ''.'' @ dec i)), head_name = (\<lambda>b. Some (b @ ''.head'')), can_open = (\<lambda>_. True),
     c_ctime = (\<lambda>_. ''Thu Jan  1 00:00:00 1970'' @ [LF])\<rparr>"

definition files_ref :: log_files where
  "files_ref = \<lparr>lf_pages = (\<lambda>_. None), lf_heads = (\<lambda>_. None)\<rparr>"

abbreviation demo_klog :: klog_s where
  "demo_klog \<equiv> \<lparr>kl_threshold = 1, kl_ident = ''klone'', kl_dev = Dev_mem \<lparr>km_bound = 2, km_nmsgs = 0, km_msgs = []\<rparr>\<rparr>"

theorem mem_log_window_witness:
  "\<exists>kl'. log_all libu_ref env_ref [(0, 3, ''a''), (0, 0, ''b''), (0, 4, ''c''), (0, 4, ''d'')] (demo_klog, files_ref) = Done (kl', files_ref) \<and>
     klog_countln kl' = 2 \<and> klog_getln env_ref 2 kl' = Ok (Some ''[ERR] Thu Jan  1 00:00:00 1970 <klone>: c'') \<and>
     klog_getln env_ref 3 kl' = Fail"
  using mem_log_window [OF libu_ref_ok libu_ref_mem, of 2 "\<lparr>km_bound = 2, km_nmsgs = 0, km_msgs = []\<rparr>" demo_klog env_ref
      "[(0, 3, ''a''), (0, 0, ''b''), (0, 4, ''c''), (0, 4, ''d'')]" files_ref]
  by (auto simp: klog_open_mem_def libu_ref_def passes_def KLOG_EMERG_def entry_line_def log_line_def klog_to_str_def kloglev_def
      env_ref_def KLOG_LN_SZ_def)

section \<open>The log in files\<close>

text \<open>The environment opens the head and the pages of a log, and they are different files.\<close>

definition env_ok :: "klog_env \<Rightarrow> string \<Rightarrow> nat \<Rightarrow> bool" where
  "env_ok V base n \<longleftrightarrow>
     (\<exists>h. head_name V base = Some h \<and> can_open V h) \<and>
     (\<forall>i<n. \<exists>f. page_name V base i = Some f \<and> can_open V f) \<and> inj_on (page_name V base) {..<n}"

definition page_text :: "klog_env \<Rightarrow> string \<Rightarrow> nat \<Rightarrow> nat \<Rightarrow> entry list \<Rightarrow> string" where
  "page_text V ident m q es = concat (map (\<lambda>e. entry_line V ident e @ [LF]) (take m (drop (q * m) es)))"

text \<open>
  The ring after the entries \<open>es\<close>: page number \<open>c\<close>, counted from the beginning, is the last one
  and holds \<open>off\<close> lines; the last \<open>n\<close> pages hold their share of the entries.
\<close>

definition ring :: "klog_env \<Rightarrow> string \<Rightarrow> string \<Rightarrow> nat \<Rightarrow> nat \<Rightarrow> entry list \<Rightarrow> nat \<Rightarrow> nat \<Rightarrow> klog_file_s \<times> log_files \<Rightarrow> bool" where
  "ring V ident base n m es c off st \<longleftrightarrow>
     (case st of (klf, fs) \<Rightarrow>
        length es = c * m + off \<and> off \<le> m \<and>
        kh_npages klf = n \<and> kh_nlines klf = m \<and> kh_wpageid klf = c mod n \<and> kh_offset klf = off \<and> kf_basename klf = base \<and>
        kf_wfp klf = page_name V base (c mod n) \<and>
        (\<forall>q f. q \<le> c \<longrightarrow> c < q + n \<longrightarrow> page_name V base (q mod n) = Some f \<longrightarrow> lf_pages fs f = Some (page_text V ident m q es)))"

lemma ring_page:
  "ring V ident base n m es c off (klf, fs) \<Longrightarrow> q \<le> c \<Longrightarrow> c < q + n \<Longrightarrow> page_name V base (q mod n) = Some f \<Longrightarrow>
   lf_pages fs f = Some (page_text V ident m q es)"
  by (auto simp: ring_def)

lemma page_text_old: "(q + 1) * m \<le> length es \<Longrightarrow> page_text V ident m q (es @ [e]) = page_text V ident m q es"
  by (simp add: page_text_def algebra_simps)

lemma page_text_last:
  assumes "length es = c * m + off" "off < m"
  shows "page_text V ident m c (es @ [e]) = page_text V ident m c es @ entry_line V ident e @ [LF]"
  using assms by (simp add: page_text_def)

lemma mod_window_inj:
  assumes "q \<le> c" "c < q + n" "q mod n = c mod (n :: nat)"
  shows "q = c"
proof -
  have "(c - q) mod n = 0" using assms(1,3) by (metis mod_eq_dvd_iff_nat dvd_imp_mod_0)
  with assms(1,2) show ?thesis by simp
qed

lemma page_names_differ:
  assumes "env_ok V base n" "q < c" "c < q + n" "page_name V base (q mod n) = Some f" "page_name V base (c mod n) = Some g"
  shows "f \<noteq> g"
proof
  assume "f = g"
  have "0 < n" using assms(2,3) by (cases n) auto
  with assms \<open>f = g\<close> have "q mod n = c mod n" unfolding env_ok_def inj_on_def by (metis lessThan_iff mod_less_divisor)
  with mod_window_inj [of q c n] assms(2,3) show False by simp
qed

lemma ring_append:
  assumes V: "env_ok V base n" "0 < n" "m < SIZE_LIMIT"
    and r: "ring V ident base n m es c off (klf, fs)" "off < m"
  shows "\<exists>klf' fs'. klog_file_append V now ident level (take KLOG_LN_SZ msg) (klf, fs) = Done (klf', fs') \<and>
    ring V ident base n m (es @ [(now, level, msg)]) c (Suc off) (klf', fs') \<and> lf_heads fs' = lf_heads fs"
proof -
  from V(1,2) obtain g where g: "page_name V base (c mod n) = Some g" unfolding env_ok_def by (metis mod_less_divisor)
  let ?e = "(now, level, msg)"
  let ?t = "content fs g @ entry_line V ident ?e @ [LF]"
  let ?klf = "klf\<lparr>kh_offset := Suc off\<rparr>" and ?fs = "fs\<lparr>lf_pages := (lf_pages fs)(g \<mapsto> ?t)\<rparr>"
  have eq: "klog_file_append V now ident level (take KLOG_LN_SZ msg) (klf, fs) = Done (?klf, ?fs)"
    using r g V(3) by (simp add: klog_file_append_def ring_def entry_line_def)
  have c: "content fs g = page_text V ident m c es" using ring_page [OF r(1) _ _ g] V(2) by (simp add: content_def)
  have len: "length es = c * m + off" using r(1) by (simp add: ring_def)
  have "lf_pages ?fs f = Some (page_text V ident m q (es @ [?e]))"
    if q: "q \<le> c" "c < q + n" "page_name V base (q mod n) = Some f" for q f
  proof (cases "q = c")
    case True
    with q(3) g c page_text_last [OF len r(2)] show ?thesis by simp
  next
    case False
    with q have "q < c" by simp
    have "(q + 1) * m \<le> c * m" by (rule mult_le_mono1) (use \<open>q < c\<close> in simp)
    with len have "(q + 1) * m \<le> length es" by linarith
    with page_text_old page_names_differ [OF V(1) \<open>q < c\<close> q(2,3) g] ring_page [OF r(1) q] show ?thesis by simp
  qed
  with r have "ring V ident base n m (es @ [?e]) c (Suc off) (?klf, ?fs)" by (auto simp: ring_def)
  with eq show ?thesis by auto
qed

lemma ring_shift:
  assumes V: "env_ok V base n" "0 < n" "n < SIZE_LIMIT" "0 < m"
    and r: "ring V ident base n m es c m (klf, fs)"
  shows "\<exists>klf' fs'. klog_file_shift_page V (klf, fs) = Done (klf', fs') \<and> lf_heads fs' = lf_heads fs \<and>
    ring V ident base n m es (Suc c) 0 (klf', fs')"
proof -
  from V(1,2) obtain g where g: "page_name V base (Suc c mod n) = Some g" "can_open V g" unfolding env_ok_def by (metis mod_less_divisor)
  have w: "size_add (c mod n) 1 mod n = Suc c mod n"
  proof -
    have "c mod n + 1 < SIZE_LIMIT" using V(2,3) mod_less_divisor [of n c] by linarith
    then show ?thesis by (simp add: mod_Suc_eq)
  qed
  let ?klf = "klf\<lparr>kf_wfp := Some g, kh_offset := 0, kh_wpageid := Suc c mod n\<rparr>" and ?fs = "fs\<lparr>lf_pages := (lf_pages fs)(g \<mapsto> [])\<rparr>"
  have eq: "klog_file_shift_page V (klf, fs) = Done (?klf, ?fs)"
    using r g w V(2) by (simp add: klog_file_shift_page_def ring_def Let_def)
  have "lf_pages ?fs f = Some (page_text V ident m q es)"
    if q: "q \<le> Suc c" "Suc c < q + n" "page_name V base (q mod n) = Some f" for q f
  proof (cases "q = Suc c")
    case True
    have "page_text V ident m (Suc c) es = []" using r by (simp add: page_text_def ring_def)
    with True q(3) g show ?thesis by simp
  next
    case False
    with q have "q < Suc c" "q \<le> c" "c < q + n" by auto
    with page_names_differ [OF V(1) \<open>q < Suc c\<close> q(2,3) g(1)] ring_page [OF r \<open>q \<le> c\<close> \<open>c < q + n\<close> q(3)] show ?thesis by simp
  qed
  with eq r g show ?thesis by (auto simp: ring_def)
qed


lemma ring_log:
  assumes V: "env_ok V base n" "0 < n" "n < SIZE_LIMIT" "0 < m" "m < SIZE_LIMIT"
    and r: "ring V ident base n m es c off (klf, fs)" "c = 0 \<or> 0 < off"
  shows "\<exists>klf' fs' c' off'. klog_file V now ident level msg (klf, fs) = Done (klf', fs') \<and>
    ring V ident base n m (es @ [(now, level, msg)]) c' off' (klf', fs') \<and> 0 < off' \<and> lf_heads fs' = lf_heads fs"
proof (cases "off = m")
  case True
  from ring_shift [OF V(1-4) r(1) [unfolded True]] obtain klf1 fs1 where
    s: "klog_file_shift_page V (klf, fs) = Done (klf1, fs1)" "lf_heads fs1 = lf_heads fs" "ring V ident base n m es (Suc c) 0 (klf1, fs1)"
    by blast
  from ring_append [OF V(1,2,5) s(3) V(4), of now level msg] obtain klf2 fs2 where
    "klog_file_append V now ident level (take KLOG_LN_SZ msg) (klf1, fs1) = Done (klf2, fs2)"
    "ring V ident base n m (es @ [(now, level, msg)]) (Suc c) (Suc 0) (klf2, fs2)" "lf_heads fs2 = lf_heads fs1" by blast
  moreover have "kh_nlines klf \<le> kh_offset klf" using r(1) True by (simp add: ring_def)
  ultimately show ?thesis using s by (intro exI [of _ klf2] exI [of _ fs2] exI [of _ "Suc c"] exI [of _ "Suc 0"]) (simp add: klog_file_def)
next
  case False
  with r have off: "off < m" "\<not> kh_nlines klf \<le> kh_offset klf" by (auto simp: ring_def)
  from ring_append [OF V(1,2,5) r(1) off(1), of now level msg] obtain klf2 fs2 where
    "klog_file_append V now ident level (take KLOG_LN_SZ msg) (klf, fs) = Done (klf2, fs2)"
    "ring V ident base n m (es @ [(now, level, msg)]) c (Suc off) (klf2, fs2)" "lf_heads fs2 = lf_heads fs" by blast
  with off show ?thesis by (intro exI [of _ klf2] exI [of _ fs2] exI [of _ c] exI [of _ "Suc off"]) (simp add: klog_file_def)
qed

lemma file_log_all:
  assumes V: "env_ok V base n" "0 < n" "n < SIZE_LIMIT" "0 < m" "m < SIZE_LIMIT"
  shows "kl_dev kl = Dev_file klf \<Longrightarrow> ring V (kl_ident kl) base n m old c off (klf, fs) \<Longrightarrow> c = 0 \<or> 0 < off \<Longrightarrow>
    \<exists>klf' fs' c' off'. log_all L V es (kl, fs) = Done (kl\<lparr>kl_dev := Dev_file klf'\<rparr>, fs') \<and>
      ring V (kl_ident kl) base n m (old @ filter (passes kl) es) c' off' (klf', fs') \<and> (c' = 0 \<or> 0 < off') \<and> lf_heads fs' = lf_heads fs"
proof (induction es arbitrary: kl klf fs old c off)
  case Nil
  then show ?case by (intro exI [of _ klf] exI [of _ fs] exI [of _ c] exI [of _ off]) (simp del: disj_not1)
next
  case (Cons e es)
  obtain now level msg where e: "e = (now, level, msg)" by (cases e)
  show ?case
  proof (cases "passes kl e")
    case True
    from ring_log [OF V Cons.prems(2,3), of now level msg] obtain klf1 fs1 c1 off1 where
      s: "klog_file V now (kl_ident kl) level msg (klf, fs) = Done (klf1, fs1)"
        "ring V (kl_ident kl) base n m (old @ [(now, level, msg)]) c1 off1 (klf1, fs1)" "0 < off1" "lf_heads fs1 = lf_heads fs" by blast
    let ?kl = "kl\<lparr>kl_dev := Dev_file klf1\<rparr>"
    have eq: "klog L V now level msg (kl, fs) = Done (?kl, fs1)"
      using True s(1) Cons.prems(1) by (simp add: klog_def e passes_def KLOG_LEVEL_UNKNOWN_def KLOG_EMERG_def)
    have "passes ?kl = passes kl" by (intro ext) (simp add: passes_def)
    with Cons.IH [of ?kl klf1 "old @ [(now, level, msg)]" c1 off1 fs1] s eq True show ?thesis by (auto simp: e)
  next
    case False
    then have "klog L V now level msg (kl, fs) = Done (kl, fs)"
      by (auto simp: klog_def e passes_def KLOG_LEVEL_UNKNOWN_def KLOG_EMERG_def)
    with Cons False show ?thesis by (simp add: e)
  qed
qed

text \<open>Closing the log and opening it again goes on where it was.\<close>

lemma ring_restart:
  assumes L: "libu_mem L" and V: "env_ok V base n" "0 < n" and r: "ring V ident base n m es c off (klf, fs)"
  shows "\<exists>klf' fs'. klog_open_file L V base n m (klog_close_file V (klf, fs)) = Some (klf', fs') \<and> ring V ident base n m es c off (klf', fs')"
proof -
  from V(1) obtain h where h: "head_name V base = Some h" "can_open V h" unfolding env_ok_def by blast
  from V obtain g where g: "page_name V base (c mod n) = Some g" "can_open V g" unfolding env_ok_def by (metis mod_less_divisor)
  let ?klf = "klf\<lparr>kf_wfp := Some g\<rparr>"
  let ?fs = "fs\<lparr>lf_heads := (lf_heads fs)(h \<mapsto> klog_head.truncate klf), lf_pages := (lf_pages fs)(g \<mapsto> content fs g)\<rparr>"
  have f: "kh_npages klf = n" "kh_nlines klf = m" "kh_wpageid klf = c mod n" "kh_offset klf = off" "kf_basename klf = base"
    using r by (simp_all add: ring_def)
  have "klog_open_file L V base n m (klog_close_file V (klf, fs)) = Some (?klf, ?fs)"
    using h g f libu_memE(1) [OF L]
    by (cases klf) (simp add: klog_open_file_def klog_close_file_def klog_file_head_dump_def klog_file_head_load_def klog_file_head_new_def
        klog_file_open_page_def klog_head.truncate_def content_def)
  moreover have "lf_pages fs g = Some (content fs g)" using ring_page [OF r _ _ g(1)] V(2) by (simp add: content_def)
  then have "lf_pages ?fs = lf_pages fs" by auto
  with r g have "ring V ident base n m es c off (?klf, ?fs)" by (auto simp: ring_def)
  ultimately show ?thesis by blast
qed


text \<open>Several runs of the server on one log: each opens the log, logs its entries and closes it.\<close>

fun log_runs :: "libu \<Rightarrow> klog_env \<Rightarrow> klog_args_s \<Rightarrow> entry list list \<Rightarrow> log_files \<Rightarrow> log_files option" where
  "log_runs L V ka [] fs = Some fs"
| "log_runs L V ka (es # runs) fs =
     Option.bind (klog_open L V ka fs) (\<lambda>st.
       case log_all L V es st of Done st' \<Rightarrow> log_runs L V ka runs (klog_close V st') | _ \<Rightarrow> None)"

definition over_threshold :: "int \<Rightarrow> entry \<Rightarrow> bool" where
  "over_threshold t e = (case e of (now, level, msg) \<Rightarrow> 0 \<le> level \<and> level \<le> KLOG_EMERG \<and> t \<le> level)"

definition opens_to :: "libu \<Rightarrow> klog_env \<Rightarrow> string \<Rightarrow> string \<Rightarrow> nat \<Rightarrow> nat \<Rightarrow> entry list \<Rightarrow> log_files \<Rightarrow> bool" where
  "opens_to L V ident base n m es fs \<longleftrightarrow>
     (\<exists>klf fs' c off. klog_open_file L V base n m fs = Some (klf, fs') \<and> ring V ident base n m es c off (klf, fs') \<and> (c = 0 \<or> 0 < off))"

definition fresh_log :: "klog_env \<Rightarrow> string \<Rightarrow> log_files \<Rightarrow> bool" where
  "fresh_log V base fs \<longleftrightarrow>
     (\<forall>h. head_name V base = Some h \<longrightarrow> lf_heads fs h = None) \<and> (\<forall>f. page_name V base 0 = Some f \<longrightarrow> content fs f = [])"

lemma fresh_opens_to:
  assumes L: "libu_mem L" and V: "env_ok V base n" "0 < n" "fresh_log V base fs"
  shows "opens_to L V ident base n m [] fs"
proof -
  from V obtain h g where h: "head_name V base = Some h" "page_name V base 0 = Some g" "can_open V g" unfolding env_ok_def by blast
  let ?klf = "\<lparr>kh_npages = n, kh_nlines = m, kh_wpageid = 0, kh_offset = 0, kf_basename = base, kf_wfp = Some g\<rparr>"
  let ?fs = "fs\<lparr>lf_pages := (lf_pages fs)(g \<mapsto> [])\<rparr>"
  have "klog_open_file L V base n m fs = Some (?klf, ?fs)"
    using h V(3) libu_memE(1) [OF L]
    by (simp add: klog_open_file_def klog_file_head_load_def fresh_log_def klog_file_head_new_def klog_file_open_page_def)
  moreover have "ring V ident base n m [] 0 0 (?klf, ?fs)" using h by (simp add: ring_def page_text_def)
  ultimately show ?thesis unfolding opens_to_def by blast
qed

definition ring_shown :: "klog_env \<Rightarrow> string \<Rightarrow> string \<Rightarrow> nat \<Rightarrow> nat \<Rightarrow> entry list \<Rightarrow> log_files \<Rightarrow> bool" where
  "ring_shown V ident base n m es fs \<longleftrightarrow>
     (\<forall>q f. q \<le> (length es - 1) div m \<longrightarrow> (length es - 1) div m < q + n \<longrightarrow> page_name V base (q mod n) = Some f \<longrightarrow>
        lf_pages fs f = Some (page_text V ident m q es))"

lemma ring_to_shown:
  assumes "ring V ident base n m es c off (klf, fs)" "c = 0 \<or> 0 < off" "0 < m" "lf_pages fs' = lf_pages fs"
  shows "ring_shown V ident base n m es fs'"
proof -
  have "(length es - 1) div m = c"
  proof (cases off)
    case (Suc k)
    with assms(1) have "length es - 1 = c * m + k" "k < m" by (auto simp: ring_def)
    then show ?thesis by simp
  qed (use assms in \<open>auto simp: ring_def\<close>)
  with assms(1,4) show ?thesis by (auto simp: ring_shown_def ring_def)
qed

lemma one_run:
  assumes L: "libu_ok L" "libu_mem L" and V: "env_ok V base n" "0 < n" "n < SIZE_LIMIT" "0 < m" "m < SIZE_LIMIT"
    and ka: "ka_type ka = KLOG_TYPE_FILE" "ka_fbasename ka = Some base" "size_of_int (ka_fsplits ka) = n" "size_of_int (ka_flimit ka) = m"
      "ka_ident ka = Some ident" "length ident \<le> KLOG_ID_SZ"
    and o: "opens_to L V ident base n m old fs"
  shows "\<exists>fs'. log_runs L V ka [es] fs = Some fs' \<and> opens_to L V ident base n m (old @ filter (over_threshold (ka_threshold ka)) es) fs' \<and>
    ring_shown V ident base n m (old @ filter (over_threshold (ka_threshold ka)) es) fs'"
proof -
  from o obtain klf fs1 c off where o: "klog_open_file L V base n m fs = Some (klf, fs1)" "ring V ident base n m old c off (klf, fs1)"
    "c = 0 \<or> 0 < off" unfolding opens_to_def by blast
  let ?kl = "\<lparr>kl_threshold = ka_threshold ka, kl_ident = ident, kl_dev = Dev_file klf\<rparr>"
  have open_eq: "klog_open L V ka fs = Some (?kl, fs1)"
    using ka o(1) libu_memE(1) [OF L(2)] libu_ok_strlcpy [OF L(1)] by (simp add: klog_open_def klog_new_def KLOG_ID_SZ_def)
  have pass: "filter (passes ?kl) es = filter (over_threshold (ka_threshold ka)) es"
    by (rule filter_cong) (simp_all add: passes_def over_threshold_def)
  from file_log_all [OF V, of ?kl klf old c off fs1 L es] o(2,3) obtain klf2 fs2 c2 off2 where
    s: "log_all L V es (?kl, fs1) = Done (?kl\<lparr>kl_dev := Dev_file klf2\<rparr>, fs2)"
      "ring V ident base n m (old @ filter (over_threshold (ka_threshold ka)) es) c2 off2 (klf2, fs2)" "c2 = 0 \<or> 0 < off2"
    unfolding pass by auto
  have pages: "lf_pages (klog_close_file V (klf2, fs2)) = lf_pages fs2"
    by (simp add: klog_close_file_def klog_file_head_dump_def split: option.splits)
  have run: "log_runs L V ka [es] fs = Some (klog_close_file V (klf2, fs2))"
    using open_eq s(1) by (simp add: klog_close_def)
  have "opens_to L V ident base n m (old @ filter (over_threshold (ka_threshold ka)) es) (klog_close_file V (klf2, fs2))"
    using ring_restart [OF L(2) V(1,2) s(2)] s(3) unfolding opens_to_def by blast
  with run ring_to_shown [OF s(2,3) V(4) pages] show ?thesis by blast
qed

lemma log_runs_append: "log_runs L V ka (rs @ rs') fs = Option.bind (log_runs L V ka rs fs) (log_runs L V ka rs')"
proof (induction rs arbitrary: fs)
  case (Cons es rs)
  then show ?case by (cases "klog_open L V ka fs") (auto split: step.splits)
qed simp

text \<open>
  C6.  A log in files is a ring of the last pages, over any number of runs of the server: when
  the log was new before the first run, the \<open>i\<close>-th line ever logged (at or above the threshold)
  stands in page \<open>i div m\<close>, \<open>m\<close> lines to a page, page \<open>q\<close> in the file of number \<open>q mod n\<close>, and the
  last \<open>n\<close> pages are all there, complete and in order.
\<close>

theorem file_log_ring:
  assumes L: "libu_ok L" "libu_mem L" and V: "env_ok V base n" "0 < n" "n < SIZE_LIMIT" "0 < m" "m < SIZE_LIMIT" "fresh_log V base fs"
    and ka: "ka_type ka = KLOG_TYPE_FILE" "ka_fbasename ka = Some base" "size_of_int (ka_fsplits ka) = n" "size_of_int (ka_flimit ka) = m"
      "ka_ident ka = Some ident" "length ident \<le> KLOG_ID_SZ"
    and runs: "runs \<noteq> []" "es = filter (over_threshold (ka_threshold ka)) (concat runs)"
  shows "\<exists>fs'. log_runs L V ka runs fs = Some fs' \<and>
    (\<forall>q f. q \<le> (length es - 1) div m \<longrightarrow> (length es - 1) div m < q + n \<longrightarrow> page_name V base (q mod n) = Some f \<longrightarrow>
       lf_pages fs' f = Some (concat (map (\<lambda>e. entry_line V ident e @ [LF]) (take m (drop (q * m) es)))))"
proof -
  have "\<exists>fs'. log_runs L V ka runs fs = Some fs' \<and> opens_to L V ident base n m es fs' \<and> ring_shown V ident base n m es fs'"
    using runs
  proof (induction runs arbitrary: es rule: rev_nonempty_induct)
    case (single r)
    then show ?case using one_run [OF L V(1-5) ka fresh_opens_to [OF L(2) V(1,2,6)], of r] by simp
  next
    case (snoc r rs)
    then obtain fs1 where fs1: "log_runs L V ka rs fs = Some fs1"
      "opens_to L V ident base n m (filter (over_threshold (ka_threshold ka)) (concat rs)) fs1" by blast
    from one_run [OF L V(1-5) ka fs1(2), of r] obtain fs2 where
      "log_runs L V ka [r] fs1 = Some fs2" "opens_to L V ident base n m es fs2" "ring_shown V ident base n m es fs2"
      using snoc.prems by auto
    with fs1(1) show ?case by (auto simp: log_runs_append simp del: log_runs.simps)
  qed
  then show ?thesis by (auto simp: ring_shown_def page_text_def)
qed


abbreviation demo_args :: klog_args_s where
  "demo_args \<equiv> \<lparr>ka_type = KLOG_TYPE_FILE, ka_ident = Some ''kl'', ka_threshold = 1, ka_mlimit = 0, ka_fbasename = Some ''l'', ka_fsplits = 2, ka_flimit = 2\<rparr>"

theorem file_log_ring_witness:
  "\<exists>fs'. log_runs libu_ref env_ref demo_args [[(0, 1, ''a''), (0, 2, ''b''), (0, 2, ''c'')], [(0, 0, ''x''), (0, 3, ''d''), (0, 4, ''e'')]] files_ref = Some fs' \<and>
     lf_pages fs' ''l.0'' = Some (''[ERR] Thu Jan  1 00:00:00 1970 <kl>: e'' @ [LF])"
proof -
  let ?rs = "[[(0, 1, ''a''), (0, 2, ''b''), (0, 2, ''c'')], [(0, 0, ''x''), (0, 3, ''d''), (0, 4, ''e'')]] :: entry list list"
  have d: "dec 0 = ''0''" "dec (Suc 0) = ''1''" by (subst dec.simps, simp add: chr_def char_of_def bit_0 bit_Suc)+
  have "env_ok env_ref ''l'' 2"
    by (auto simp: env_ok_def env_ref_def inj_on_def less_2_cases_iff d)
  moreover have "fresh_log env_ref ''l'' files_ref" by (simp add: fresh_log_def files_ref_def content_def)
  ultimately have V: "env_ok env_ref ''l'' 2" "fresh_log env_ref ''l'' files_ref" by blast+
  let ?es = "[(0, 1, ''a''), (0, 2, ''b''), (0, 2, ''c''), (0, 3, ''d''), (0, 4, ''e'')] :: entry list"
  have es: "filter (over_threshold 1) (concat ?rs) = ?es"
    by (simp add: over_threshold_def KLOG_EMERG_def)
  have sz: "size_of_int 2 = 2" by (simp add: size_of_int_def SIZE_LIMIT_def)
  have "\<exists>fs'. log_runs libu_ref env_ref demo_args ?rs files_ref = Some fs' \<and>
    (\<forall>q f. q \<le> (length ?es - 1) div 2 \<longrightarrow> (length ?es - 1) div 2 < q + 2 \<longrightarrow> page_name env_ref ''l'' (q mod 2) = Some f \<longrightarrow>
       lf_pages fs' f = Some (concat (map (\<lambda>e. entry_line env_ref ''kl'' e @ [LF]) (take 2 (drop (q * 2) ?es)))))"
    by (rule file_log_ring [OF libu_ref_ok libu_ref_mem V(1) _ _ _ _ V(2)]) (simp_all add: es [symmetric] sz KLOG_ID_SZ_def del: concat.simps filter.simps)
  then obtain fs' where fs': "log_runs libu_ref env_ref demo_args ?rs files_ref = Some fs'"
    "\<And>q f. q \<le> (length ?es - 1) div 2 \<Longrightarrow> (length ?es - 1) div 2 < q + 2 \<Longrightarrow> page_name env_ref ''l'' (q mod 2) = Some f \<Longrightarrow>
       lf_pages fs' f = Some (concat (map (\<lambda>e. entry_line env_ref ''kl'' e @ [LF]) (take 2 (drop (q * 2) ?es))))"
    by blast
  from fs'(2) [of 2 "''l.0''"] have "lf_pages fs' ''l.0'' = Some (''[ERR] Thu Jan  1 00:00:00 1970 <kl>: e'' @ [LF])"
    by (simp add: env_ref_def d entry_line_def log_line_def klog_to_str_def kloglev_def KLOG_EMERG_def KLOG_LN_SZ_def)
  with fs'(1) show ?thesis by blast
qed

section \<open>Workers\<close>

lemma level_roundtrip: "0 \<le> l \<Longrightarrow> l \<le> KLOG_EMERG \<Longrightarrow> syslog_to_klog (klog_to_syslog l) = l"
proof -
  assume l: "0 \<le> l" "l \<le> KLOG_EMERG"
  then have "nat l \<in> {0, 1, 2, 3, 4, 5, 6, 7}" by (auto simp: KLOG_EMERG_def)
  with l show ?thesis by (auto simp: syslog_to_klog_def klog_to_syslog_def sysloglev_def KLOG_EMERG_def nat_eq_iff)
qed

text \<open>
  A line that a preforked worker logs arrives in the parent's log in memory whole, but the
  worker that asks for it gets its first seven characters only: the copy is bounded by the size
  of a pointer.
\<close>

theorem worker_log_line:
  assumes L: "libu_ok L" "libu_mem L" and kl: "logger_of skl bkl bid = Some kl" "kl_dev kl = Dev_mem k" "mem_ok k"
    and lv: "0 \<le> level" "level \<le> 7" "kl_threshold kl \<le> syslog_to_klog level" and s: "length s < maxlog" "length s \<le> KLOG_LN_SZ"
  shows "\<exists>kl'. server_ppc_cb_log_add L V now skl bkl (server_ppc_cmd_log_add L maxlog bid level s) fs = Some (Done (kl', fs)) \<and>
    klog_getln V 1 kl' = Ok (Some (take KLOG_LN_SZ (log_line V (kl_ident kl) (syslog_to_klog level) now s))) \<and>
    (\<forall>skl' bkl'. logger_of skl' bkl' bid = Some kl' \<longrightarrow>
       server_ppc_cmd_log_get L V skl' bkl' bid 1 = Ok (take 7 (log_line V (kl_ident kl) (syslog_to_klog level) now s)))"
proof -
  have "nat level \<in> {0, 1, 2, 3, 4, 5, 6, 7}" using lv(1,2) by auto
  then have rng: "0 \<le> syslog_to_klog level" "syslog_to_klog level \<le> KLOG_EMERG"
    using lv(1,2) by (auto simp: syslog_to_klog_def KLOG_EMERG_def)
  let ?e = "(now, syslog_to_klog level, s)"
  let ?k = "klog_mem_msg_push (mem_entry ?e) k"
  let ?kl = "kl\<lparr>kl_dev := Dev_mem ?k\<rparr>"
  have log: "server_ppc_cb_log_add L V now skl bkl (server_ppc_cmd_log_add L maxlog bid level s) fs = Some (Done (?kl, fs))"
    using klog_mem_step [OF L kl(2), of V ?e fs] lv(3) rng kl(1) s(1) libu_ok_strlcpy [OF L(1), of maxlog s]
    by (simp add: server_ppc_cb_log_add_def server_ppc_cmd_log_add_def passes_def)
  have push: "mem_ok ?k" "km_msgs ?k = take (km_bound k) (mem_entry ?e # km_msgs k)" using msg_push [OF kl(3)] by simp_all
  obtain n where "km_bound k = Suc n" using kl(3) by (cases "km_bound k") (auto simp: mem_ok_def)
  with push have "km_nmsgs ?k \<ge> 1" "nth_msg 1 (km_msgs ?k) = Some (mem_entry ?e)" by (simp_all add: mem_ok_def)
  then have get: "klog_getln V 1 ?kl = Ok (Some (take KLOG_LN_SZ (log_line V (kl_ident kl) (syslog_to_klog level) now s)))"
    using s(2) by (simp add: klog_getln_def klog_getln_mem_def mem_entry_def)
  have "server_ppc_cmd_log_get L V skl' bkl' bid 1 = Ok (take 7 (log_line V (kl_ident kl) (syslog_to_klog level) now s))"
    if "logger_of skl' bkl' bid = Some ?kl" for skl' bkl'
    using that get libu_ok_strlcpy [OF L(1)]
    by (simp add: server_ppc_cmd_log_get_def server_ppc_cb_log_get_def POINTER_SIZE_def KLOG_LN_SZ_def min_def)
  with log get show ?thesis by blast
qed

theorem worker_log_line_witness:
  "\<exists>kl'. server_ppc_cb_log_add libu_ref env_ref 0 (Some demo_klog) (\<lambda>_. None) (server_ppc_cmd_log_add libu_ref 100 0 3 ''disk'') files_ref =
     Some (Done (kl', files_ref)) \<and>
     server_ppc_cmd_log_get libu_ref env_ref (Some kl') (\<lambda>_. None) 0 1 = Ok ''[ERR] T''"
proof -
  have k: "logger_of (Some demo_klog) (\<lambda>_. None) 0 = Some demo_klog" "mem_ok \<lparr>km_bound = 2, km_nmsgs = 0, km_msgs = []\<rparr>"
    by (simp_all add: logger_of_def mem_ok_def)
  from worker_log_line [OF libu_ref_ok libu_ref_mem k(1) _ k(2), of 3 "''disk''" 100 env_ref 0 files_ref] obtain kl' where
    kl': "server_ppc_cb_log_add libu_ref env_ref 0 (Some demo_klog) (\<lambda>_. None) (server_ppc_cmd_log_add libu_ref 100 0 3 ''disk'') files_ref = Some (Done (kl', files_ref))"
    "\<And>skl' bkl'. logger_of skl' bkl' 0 = Some kl' \<Longrightarrow>
       server_ppc_cmd_log_get libu_ref env_ref skl' bkl' 0 1 = Ok (take 7 (log_line env_ref ''klone'' (syslog_to_klog 3) 0 ''disk''))"
    by (auto simp: syslog_to_klog_def KLOG_LN_SZ_def)
  have "take 7 (log_line env_ref ''klone'' (syslog_to_klog 3) 0 ''disk'') = ''[ERR] T''"
    by (simp add: log_line_def syslog_to_klog_def klog_to_str_def kloglev_def KLOG_EMERG_def env_ref_def)
  with kl'(1) kl'(2) [of "Some kl'" "\<lambda>_. None"] show ?thesis by (auto simp: logger_of_def)
qed

end
