(* ===== verification/Http.thy ===== *)
theory Http
  imports Request
begin

text \<open>
  \<^verbatim>\<open>src/libhttp\<close>: the HTTP backend.  Virtual hosts (\<^verbatim>\<open>vhost.c\<close>), the choice of a host and
  the resolution of paths through aliases and the root directory, index pages and error pages
  (\<^verbatim>\<open>http.c\<close>), the broker that finds the supplier of a page (\<^verbatim>\<open>broker.c\<close>), and the tests of
  the suppliers of files (\<^verbatim>\<open>sup_fs.c\<close>) and of embedded resources (\<^verbatim>\<open>sup_emb.c\<close>, \<^verbatim>\<open>emb.c\<close>).

  A supplier is a pair of functions: whether it has a page, with its time of modification, and
  serving it, which gives whether it succeeded, the response and the bytes written.
  \<^verbatim>\<open>u_path_snprintf\<close> is LibU's and comes as an argument, applied to the formatted text and the
  size of the buffer; so do \<^verbatim>\<open>stat\<close> and the table of the embedded resources.  Writing to the
  client succeeds; the access log and the request hooks are left out.
\<close>

section \<open>Definitions\<close>

record supplier =
  sp_is_valid :: "request \<Rightarrow> string \<Rightarrow> int option"
  sp_serve :: "request \<Rightarrow> response \<Rightarrow> (bool \<times> response \<times> string) outcome"
  sp_pages :: bool

record vh_config =
  vc_dir_alias :: "string option list"
  vc_script_alias :: "string option list option"
  vc_index :: "string option"
  vc_error :: "nat \<Rightarrow> string option"

record vhost =
  vh_host :: string
  vh_id :: nat
  vh_config :: vh_config
  vh_server_sig :: string
  vh_dir_root :: string

record http =
  ht_vhosts :: "vhost list"
  ht_sups :: "supplier list"

text \<open>A request with what the HTTP layer caches in it: its host and the supplier of its page.\<close>

record hrq =
  hr_rq :: request
  hr_vhost :: "vhost option"
  hr_sup :: "(supplier \<times> int) option"

type_synonym path_fun = "string \<Rightarrow> nat \<Rightarrow> string option"

definition FNAME_MAX :: nat where
  "FNAME_MAX = 4096"

definition URI_MAX :: nat where
  "URI_MAX = 2048"

subsection \<open>Virtual hosts\<close>

definition vhost_list_add :: "vhost \<Rightarrow> vhost list \<Rightarrow> vhost list" where
  "vhost_list_add v vs = vs @ [v\<lparr>vh_id := (if vs = [] then 0 else Suc (vh_id (last vs)))\<rparr>]"

fun vhost_list_get :: "vhost list \<Rightarrow> string \<Rightarrow> vhost option" where
  "vhost_list_get [] host = None"
| "vhost_list_get (v # vs) host = (if vh_host v = host then Some v else vhost_list_get vs host)"

fun vhost_list_get_n :: "vhost list \<Rightarrow> nat \<Rightarrow> vhost option" where
  "vhost_list_get_n [] n = None"
| "vhost_list_get_n (v # vs) n = (if n = 0 then Some v else vhost_list_get_n vs (n - 1))"

definition cut_port :: "string \<Rightarrow> string" where
  "cut_port s = (case u_strnrchr s (CHR '':'') (length s) of None \<Rightarrow> s | Some i \<Rightarrow> take i s)"

text \<open>\<^verbatim>\<open>http_get_vhost\<close>; a host name that does not fit its buffer is an error.\<close>

definition http_get_vhost :: "libu \<Rightarrow> http \<Rightarrow> hrq \<Rightarrow> vhost option outcome" where
  "http_get_vhost L h r =
     (case hr_vhost r of
        Some v \<Rightarrow> Ok (Some v)
      | None \<Rightarrow>
          map_ok (\<lambda>f.
            case f of
              None \<Rightarrow> vhost_list_get_n (ht_vhosts h) 0
            | Some host \<Rightarrow>
                (case u_strlcpy L host 128 of (cp, truncated) \<Rightarrow>
                   if truncated then None
                   else (case vhost_list_get (ht_vhosts h) (cut_port cp) of
                           None \<Rightarrow> vhost_list_get_n (ht_vhosts h) 0 | Some v \<Rightarrow> Some v)))
            (request_get_field_value (hr_rq r) ''Host''))"

subsection \<open>Paths\<close>

definition http_try_resolv :: "libu \<Rightarrow> path_fun \<Rightarrow> string option \<Rightarrow> string \<Rightarrow> nat \<Rightarrow> string option" where
  "http_try_resolv L P alias uri sz =
     (case alias of
        None \<Rightarrow> None
      | Some a \<Rightarrow>
          (case u_strlcpy L a 1024 of (v, truncated) \<Rightarrow>
             if truncated then None
             else case strtok_all ('' '' @ [TAB]) v of
               [] \<Rightarrow> None
             | src # rest \<Rightarrow>
                 if take (length src) uri \<noteq> src then None
                 else if last src \<noteq> CHR ''/'' \<and> take 1 (drop (length src) uri) \<noteq> ''/'' then None
                 else (case rest of [] \<Rightarrow> None | res # _ \<Rightarrow> P (res @ ''/'' @ drop (length src) uri) sz)))"

fun first_alias :: "libu \<Rightarrow> path_fun \<Rightarrow> string option list \<Rightarrow> string \<Rightarrow> nat \<Rightarrow> string option" where
  "first_alias L P [] uri sz = None"
| "first_alias L P (a # as) uri sz =
     (case http_try_resolv L P a uri sz of Some d \<Rightarrow> Some d | None \<Rightarrow> first_alias L P as uri sz)"

definition vhost_resolv :: "libu \<Rightarrow> path_fun \<Rightarrow> vhost \<Rightarrow> string \<Rightarrow> nat \<Rightarrow> string option" where
  "vhost_resolv L P v uri sz =
     (case first_alias L P (vc_dir_alias (vh_config v)) uri sz of
        Some d \<Rightarrow> Some d
      | None \<Rightarrow>
          (case first_alias L P (case vc_script_alias (vh_config v) of None \<Rightarrow> [] | Some as \<Rightarrow> as) uri sz of
             Some d \<Rightarrow> Some d
           | None \<Rightarrow> P (vh_dir_root v @ ''/'' @ uri) sz))"

definition http_alias_resolv :: "libu \<Rightarrow> path_fun \<Rightarrow> http \<Rightarrow> hrq \<Rightarrow> string \<Rightarrow> nat \<Rightarrow> string outcome" where
  "http_alias_resolv L P h r uri sz =
     bind_outcome (http_get_vhost L h r) (\<lambda>v.
       case v of
         None \<Rightarrow> Fail
       | Some v \<Rightarrow> (case vhost_resolv L P v uri sz of None \<Rightarrow> Fail | Some d \<Rightarrow> Ok d))"

subsection \<open>The broker\<close>

fun broker_find :: "supplier list \<Rightarrow> request \<Rightarrow> string \<Rightarrow> (supplier \<times> int) option" where
  "broker_find [] rq uri = None"
| "broker_find (s # ss) rq uri =
     (case sp_is_valid s rq uri of Some mtime \<Rightarrow> Some (s, mtime) | None \<Rightarrow> broker_find ss rq uri)"

definition broker_is_valid_uri :: "http \<Rightarrow> hrq \<Rightarrow> string \<Rightarrow> bool \<times> hrq" where
  "broker_is_valid_uri h r uri =
     (case broker_find (ht_sups h) (hr_rq r) uri of
        None \<Rightarrow> (False, r)
      | Some i \<Rightarrow> (True, r\<lparr>hr_sup := Some i\<rparr>))"

definition HTTP_STATUS_EXT_KEY_NEEDED :: nat where
  "HTTP_STATUS_EXT_KEY_NEEDED = 430"

text \<open>
  \<^verbatim>\<open>broker_serve\<close>: the return code, the response and the bytes written.  A page whose supplier
  serves pages (embedded ones) keeps the status it set.
\<close>

definition broker_serve :: "http \<Rightarrow> hrq \<Rightarrow> response \<Rightarrow> (nat \<times> response \<times> string) outcome" where
  "broker_serve h r rs =
     bind_outcome
       (case hr_sup r of
          Some i \<Rightarrow> Ok (Some i)
        | None \<Rightarrow>
            (case rq_resolved_filename (hr_rq r) of
               None \<Rightarrow> Fault
             | Some fn \<Rightarrow> Ok (broker_find (ht_sups h) (hr_rq r) fn)))
       (\<lambda>i. case i of
          None \<Rightarrow> Ok (404, response_set_status 404 rs, [])
        | Some (spl, mtime) \<Rightarrow>
            (let ims = rq_if_modified_since (hr_rq r) in
             if ims \<noteq> 0 \<and> mtime \<noteq> 0 \<and> mtime \<le> ims
             then (let rs1 = response_set_status 304 rs in Ok (0, rs1, header_bytes rs1))
             else
               bind_outcome (sp_serve spl (hr_rq r) rs) (\<lambda>(ok, rs1, out).
                  if \<not> ok then Ok (404, response_set_status 404 rs1, out)
                  else if rs_status rs1 = HTTP_STATUS_EXT_KEY_NEEDED then Ok (rs_status rs1, rs1, out)
                  else if 400 \<le> rs_status rs1 \<and> \<not> sp_pages spl then Ok (rs_status rs1, rs1, out)
                  else Ok (0, rs1, out))))"

subsection \<open>Valid URIs\<close>

text \<open>\<^verbatim>\<open>http_is_valid_uri\<close>: the text itself, then the path it resolves to.\<close>

definition http_is_valid_uri :: "libu \<Rightarrow> path_fun \<Rightarrow> http \<Rightarrow> string \<Rightarrow> nat \<Rightarrow> hrq \<Rightarrow> (bool \<times> hrq) outcome" where
  "http_is_valid_uri L P h buf len r =
     (if URI_MAX < len + 1 then Ok (False, r)
      else
        (let uri = cstr (take len buf @ [NUL]); (found, r1) = broker_is_valid_uri h r uri in
         if found then Ok (True, r1)
         else
           (case http_alias_resolv L P h r uri FNAME_MAX of
              Ok res \<Rightarrow> Ok (broker_is_valid_uri h r res)
            | Fail \<Rightarrow> Ok (False, r)
            | Fault \<Rightarrow> Fault)))"

text \<open>
  The request's URI is set with this test: the path is cut at the longest prefix that passes it,
  and what the test found for that prefix, its last call, stays in the request.  The test sees the
  request as it was before: at this point its header is not read yet.
\<close>

definition valid_uri :: "libu \<Rightarrow> path_fun \<Rightarrow> http \<Rightarrow> hrq \<Rightarrow> string \<Rightarrow> nat \<Rightarrow> bool" where
  "valid_uri L P h r fn k = (case http_is_valid_uri L P h fn k r of Ok (b, _) \<Rightarrow> b | _ \<Rightarrow> False)"

definition http_set_uri :: "libu \<Rightarrow> path_fun \<Rightarrow> http \<Rightarrow> string \<Rightarrow> hrq \<Rightarrow> hrq step" where
  "http_set_uri L P h uri r =
     (case request_set_uri L (Some (valid_uri L P h r)) uri (hr_rq r) of
        Done rq \<Rightarrow>
          (case rq_filename rq of
             None \<Rightarrow> Done (r\<lparr>hr_rq := rq\<rparr>)
           | Some fn \<Rightarrow>
               (case http_is_valid_uri L P h fn (length fn) r of
                  Ok (True, r1) \<Rightarrow> Done (r1\<lparr>hr_rq := rq\<rparr>)
                | _ \<Rightarrow> Done (r\<lparr>hr_rq := rq\<rparr>)))
      | Failed rq \<Rightarrow> Failed (r\<lparr>hr_rq := rq\<rparr>)
      | Crash \<Rightarrow> Crash)"

definition resolv_to ::
  "libu \<Rightarrow> path_fun \<Rightarrow> http \<Rightarrow> (request \<Rightarrow> string option) \<Rightarrow> (string \<Rightarrow> request \<Rightarrow> request step) \<Rightarrow> hrq \<Rightarrow> hrq step" where
  "resolv_to L P h get put r =
     (case get (hr_rq r) of
        None \<Rightarrow> Done r
      | Some s \<Rightarrow>
          (case http_alias_resolv L P h r s FNAME_MAX of
             Ok d \<Rightarrow> bind_step (put d (hr_rq r)) (\<lambda>rq. Done (r\<lparr>hr_rq := rq\<rparr>)) (\<lambda>rq. r\<lparr>hr_rq := rq\<rparr>)
           | Fail \<Rightarrow> Failed r
           | Fault \<Rightarrow> Crash))"

definition http_resolv_request :: "libu \<Rightarrow> path_fun \<Rightarrow> http \<Rightarrow> hrq \<Rightarrow> hrq step" where
  "http_resolv_request L P h r =
     and_then (resolv_to L P h rq_filename (request_set_resolved_filename L) r)
       (resolv_to L P h rq_path_info (request_set_resolved_path_info L))"

subsection \<open>Index pages\<close>

definition http_is_valid_index :: "path_fun \<Rightarrow> http \<Rightarrow> string \<Rightarrow> hrq \<Rightarrow> (bool \<times> hrq) outcome" where
  "http_is_valid_index P h uri r =
     (case rq_resolved_filename (hr_rq r) of
        None \<Rightarrow> Fault
      | Some f \<Rightarrow>
          Ok (case P (f @ ''/'' @ uri) FNAME_MAX of None \<Rightarrow> (False, r) | Some res \<Rightarrow> broker_is_valid_uri h r res))"

fun first_index :: "libu \<Rightarrow> path_fun \<Rightarrow> http \<Rightarrow> string list \<Rightarrow> hrq \<Rightarrow> (string option \<times> hrq) outcome" where
  "first_index L P h [] r = Ok (None, r)"
| "first_index L P h (t # ts) r =
     bind_outcome (http_is_valid_index P h t r) (\<lambda>(found, r1).
       if found then Ok (case u_strlcpy L t 128 of (s, truncated) \<Rightarrow> if truncated then None else Some s, r1)
       else first_index L P h ts r1)"

definition default_indexes :: "string list" where
  "default_indexes =
     [''/index.kl1'', ''/index.html'', ''/index.htm'', ''/index.klx'', ''/index.klone'', ''/index.klc'']"

definition http_get_config_index :: "libu \<Rightarrow> path_fun \<Rightarrow> http \<Rightarrow> hrq \<Rightarrow> (string option \<times> hrq) outcome" where
  "http_get_config_index L P h r =
     bind_outcome (http_get_vhost L h r) (\<lambda>v.
       case Option.bind v (\<lambda>v. vc_index (vh_config v)) of
         None \<Rightarrow> Ok (None, r)
       | Some s \<Rightarrow>
           (case u_strlcpy L s 256 of (buf, truncated) \<Rightarrow>
              if truncated then Ok (None, r) else first_index L P h (strtok_all ('' '' @ [TAB]) buf) r))"

definition http_get_default_index :: "libu \<Rightarrow> path_fun \<Rightarrow> http \<Rightarrow> hrq \<Rightarrow> (string option \<times> hrq) outcome" where
  "http_get_default_index L P h r = first_index L P h default_indexes r"

definition http_set_index_request :: "libu \<Rightarrow> path_fun \<Rightarrow> http \<Rightarrow> hrq \<Rightarrow> hrq step" where
  "http_set_index_request L P h r =
     (case bind_outcome (http_get_config_index L P h r) (\<lambda>(i, r1).
             case i of None \<Rightarrow> http_get_default_index L P h r1 | Some s \<Rightarrow> Ok (Some s, r1)) of
        Ok (None, r1) \<Rightarrow> Failed r1
      | Ok (Some idx, r1) \<Rightarrow>
          (case rq_filename (hr_rq r1) of
             None \<Rightarrow> Crash
           | Some f \<Rightarrow>
               (case u_snprintf L (f @ idx) 1024 of (uri, truncated) \<Rightarrow>
                  if truncated then Failed r1
                  else
                    (case request_set_filename L uri (hr_rq r1) of
                       Done rq \<Rightarrow> http_resolv_request L P h (r1\<lparr>hr_rq := rq\<rparr>)
                     | Failed rq \<Rightarrow> http_resolv_request L P h (r1\<lparr>hr_rq := rq\<rparr>)
                     | Crash \<Rightarrow> Crash)))
      | Fail \<Rightarrow> Failed r
      | Fault \<Rightarrow> Crash)"

subsection \<open>Serving\<close>

definition http_add_default_header :: "libu \<Rightarrow> http \<Rightarrow> nat \<Rightarrow> hrq \<Rightarrow> response \<Rightarrow> response step" where
  "http_add_default_header L h now r rs =
     (case http_get_vhost L h r of
        Ok (Some v) \<Rightarrow> and_then (response_set_field L ''Server'' (vh_server_sig v) rs) (response_set_date L now)
      | Fault \<Rightarrow> Crash
      | _ \<Rightarrow> Failed rs)"

definition error_text :: "string \<Rightarrow> nat \<Rightarrow> string option \<Rightarrow> string" where
  "error_text version status uri =
     ''<!DOCTYPE HTML PUBLIC '' @ [CHR 0x22] @ ''-//IETF//DTD HTML 2.0//EN'' @ [CHR 0x22] @ ''>'' @ ''<html><head><title>'' @ dec status @ '' '' @
     http_get_status_desc status @ ''</title></head>'' @ [LF] @ ''<body><h1>'' @ http_get_status_desc status @ ''</h1><p>URL: '' @
     (case uri of None \<Rightarrow> [] | Some u \<Rightarrow> u) @ ''</p><hr>'' @
     ''<address>KLone/'' @ version @ '' web server - www.koanlogic.com</address></body></html>''"

definition default_error_page :: "string \<Rightarrow> nat \<Rightarrow> hrq \<Rightarrow> response \<Rightarrow> response \<times> string" where
  "default_error_page version status r rs =
     (let rs1 = response_set_status status rs in
      (rs1, header_bytes rs1 @ (if rq_method (hr_rq r) = HM_HEAD then [] else error_text version status (rq_uri (hr_rq r)))))"

text \<open>
  \<^verbatim>\<open>http_print_error_page\<close>: the configured page of the status, if there is one and it can be
  found, or the default one.  The result is what the client gets.
\<close>

definition user_error_page ::
  "libu \<Rightarrow> path_fun \<Rightarrow> http \<Rightarrow> string \<Rightarrow> nat \<Rightarrow> hrq \<Rightarrow> response \<Rightarrow> string \<Rightarrow> (response \<times> string) outcome" where
  "user_error_page L P h version status r rs page =
     (case request_set_uri L None page (hr_rq r) of
        Crash \<Rightarrow> Fault
      | Failed rq \<Rightarrow> Ok (default_error_page version status (r\<lparr>hr_rq := rq\<rparr>) rs)
      | Done rq \<Rightarrow>
          (case http_resolv_request L P h (r\<lparr>hr_rq := rq\<rparr>) of
             Crash \<Rightarrow> Fault
           | Failed _ \<Rightarrow> Ok (rs, [])
           | Done r1 \<Rightarrow>
               (case u_strlcpy L page URI_MAX of (s, truncated) \<Rightarrow>
                  if truncated then Ok (rs, [])
                  else case strtok_all ''?'' s of
                    [] \<Rightarrow> Ok (rs, [])
                  | sp # _ \<Rightarrow>
                      bind_outcome (http_is_valid_uri L P h sp (length sp) r1) (\<lambda>(found, r2).
                        if found then map_ok (\<lambda>(rc, rs, out). (rs, out)) (broker_serve h r2 rs)
                        else Ok (default_error_page version status r2 rs)))))"

definition http_print_error_page ::
  "libu \<Rightarrow> path_fun \<Rightarrow> http \<Rightarrow> string \<Rightarrow> nat \<Rightarrow> nat \<Rightarrow> hrq \<Rightarrow> response \<Rightarrow> (response \<times> string) outcome" where
  "http_print_error_page L P h version now status r rs =
     (if status = 0 then Ok (rs, [])
      else bind_outcome (if status \<noteq> 302 then map_ok (\<lambda>hd. rs\<lparr>rs_header := hd\<rparr>) (header_clear (rs_header rs)) else Ok rs) (\<lambda>rs.
        case and_then (http_add_default_header L h now r rs) (response_disable_caching L) of
          Crash \<Rightarrow> Fault
        | Failed rs1 \<Rightarrow> Ok (rs1, [])
        | Done rs1 \<Rightarrow>
            bind_outcome (http_get_vhost L h r) (\<lambda>v.
              case Option.bind v (\<lambda>v. vc_error (vh_config v) status) of
                None \<Rightarrow> Ok (default_error_page version status r rs1)
              | Some page \<Rightarrow> user_error_page L P h version status r rs1 page)))"

text \<open>
  \<^verbatim>\<open>http_serve\<close> in server mode, once the header of the request is parsed.  The location of a
  redirection is built in an array of \<^verbatim>\<open>URI_MAX\<close> bytes and may be cut.
\<close>

definition redirect_uri :: "libu \<Rightarrow> request \<Rightarrow> string \<Rightarrow> string" where
  "redirect_uri L rq uri =
     (let a = fst (u_strlcat L (fst (u_strlcpy L uri URI_MAX)) ''/'' URI_MAX);
          b = (case rq_path_info rq of None \<Rightarrow> a | Some i \<Rightarrow> fst (u_strlcat L a i URI_MAX))
      in case rq_query rq of
           None \<Rightarrow> b
         | Some q \<Rightarrow> fst (u_strlcat L (fst (u_strlcat L b ''?'' URI_MAX)) q URI_MAX))"

text \<open>
  On a 404 the request may be one for a directory without its slash.  The last character of an
  empty URI is read before the start of the string, here and, for an empty file name, in
  \<^verbatim>\<open>http_serve\<close>.
\<close>

definition try_redirect ::
  "libu \<Rightarrow> path_fun \<Rightarrow> http \<Rightarrow> hrq \<Rightarrow> nat \<times> response \<times> string \<Rightarrow> (hrq \<times> nat \<times> response \<times> string) outcome" where
  "try_redirect L P h r = (\<lambda>(rc, rs, out).
     case rq_uri (hr_rq r) of
       Some uri \<Rightarrow>
         if rs_status rs = 404 \<and> uri = [] then Fault
         else if rs_status rs = 404 \<and> last uri \<noteq> CHR ''/''
         then (case http_set_index_request L P h r of
                 Done r1 \<Rightarrow>
                   (case response_redirect L (redirect_uri L (hr_rq r1) uri) rs of
                      Done rs1 \<Rightarrow> Ok (r1, 302, rs1, out)
                    | Failed rs1 \<Rightarrow> Ok (r1, 302, rs1, out)
                    | Crash \<Rightarrow> Fault)
               | Failed r1 \<Rightarrow> Ok (r1, rc, rs, out)
               | Crash \<Rightarrow> Fault)
         else Ok (r, rc, rs, out)
     | None \<Rightarrow> Ok (r, rc, rs, out))"

definition serve_found ::
  "libu \<Rightarrow> path_fun \<Rightarrow> http \<Rightarrow> string \<Rightarrow> nat \<Rightarrow> hrq \<Rightarrow> response \<Rightarrow> (response \<times> string) outcome" where
  "serve_found L P h version now r rs =
     bind_outcome (broker_serve h r rs) (\<lambda>res.
       bind_outcome (try_redirect L P h r res) (\<lambda>(r1, rc, rs1, out).
         if rc \<noteq> 0
         then map_ok (\<lambda>(rs2, page). (rs2, out @ page)) (http_print_error_page L P h version now rc r1 rs1)
         else Ok (rs1, out)))"

definition http_serve ::
  "libu \<Rightarrow> path_fun \<Rightarrow> http \<Rightarrow> string \<Rightarrow> nat \<Rightarrow> hrq \<Rightarrow> response \<Rightarrow> (response \<times> string) outcome" where
  "http_serve L P h version now r rs =
     bind_outcome (http_get_vhost L h r) (\<lambda>v.
       case v of
         None \<Rightarrow> http_print_error_page L P h version now 400 r rs
       | Some v \<Rightarrow>
           (case http_resolv_request L P h (r\<lparr>hr_vhost := Some v\<rparr>) of
              Crash \<Rightarrow> Fault
            | Failed r1 \<Rightarrow> http_print_error_page L P h version now 400 r1 rs
            | Done r1 \<Rightarrow>
                (case (case rq_filename (hr_rq r1) of
                         Some f \<Rightarrow>
                           if \<not> Option.is_none (hr_sup r1) then Done r1
                           else if f = [] then Crash
                           else if last f = CHR ''/'' then http_set_index_request L P h r1 else Done r1
                       | None \<Rightarrow> Done r1) of
                   Crash \<Rightarrow> Fault
                 | Done r2 \<Rightarrow>
                     (case http_add_default_header L h now r2 rs of
                        Done rs1 \<Rightarrow> serve_found L P h version now r2 (response_set_status 200 rs1)
                      | Failed rs1 \<Rightarrow> http_print_error_page L P h version now 400 r2 rs1
                      | Crash \<Rightarrow> Fault)
                 | Failed r2 \<Rightarrow>
                     (case http_add_default_header L h now r2 rs of
                        Done rs1 \<Rightarrow> serve_found L P h version now r2 (response_set_status 200 rs1)
                      | Failed rs1 \<Rightarrow> http_print_error_page L P h version now 400 r2 rs1
                      | Crash \<Rightarrow> Fault))))"

subsection \<open>Suppliers\<close>

fun has_dotdot :: "string \<Rightarrow> bool" where
  "has_dotdot (a # b # s) \<longleftrightarrow> (a = CHR ''.'' \<and> b = CHR ''.'') \<or> has_dotdot (b # s)"
| "has_dotdot _ \<longleftrightarrow> False"

text \<open>\<^verbatim>\<open>stat\<close> gives the time of modification of a regular file.\<close>

definition fs_is_valid_uri :: "(string \<Rightarrow> int option) \<Rightarrow> request \<Rightarrow> string \<Rightarrow> int option" where
  "fs_is_valid_uri stat rq uri =
     (if FNAME_MAX < length uri + 1 \<or> has_dotdot uri then None else stat uri)"

record embres =
  er_file :: bool
  er_encrypted :: bool
  er_mtime :: int

definition emb_lookup :: "string \<Rightarrow> (string \<rightharpoonup> embres) \<Rightarrow> embres option" where
  "emb_lookup fn m = (if fn = [] then None else m fn)"

definition supemb_is_valid_uri :: "(string \<rightharpoonup> embres) \<Rightarrow> request \<Rightarrow> string \<Rightarrow> int option" where
  "supemb_is_valid_uri m rq uri =
     (if FNAME_MAX < length uri + 1 then None
      else map_option (\<lambda>e. if er_file e \<and> \<not> er_encrypted e then er_mtime e else 0) (emb_lookup uri m))"

section \<open>Paths on the disk\<close>

lemma strtok_all_sep: "d \<in> set ds \<Longrightarrow> strtok_all ds (a @ d # b) = strtok_all ds a @ strtok_all ds b"
proof (induction ds a rule: strtok_all.induct)
  case (2 ds c s)
  show ?case
  proof (cases "\<exists>x\<in>set s. x \<in> set ds")
    case True
    then have "takeWhile (\<lambda>x. x \<notin> set ds) (s @ d # b) = takeWhile (\<lambda>x. x \<notin> set ds) s"
      "dropWhile (\<lambda>x. x \<notin> set ds) (s @ d # b) = dropWhile (\<lambda>x. x \<notin> set ds) s @ d # b" by auto
    with 2 show ?thesis by auto
  next
    case False
    then have w: "takeWhile (\<lambda>x. x \<notin> set ds) s = s" "dropWhile (\<lambda>x. x \<notin> set ds) s = []"
      by (simp_all only: takeWhile_eq_all_conv dropWhile_eq_Nil_conv) blast+
    have w': "takeWhile (\<lambda>x. x \<notin> set ds) (s @ d # b) = s" "dropWhile (\<lambda>x. x \<notin> set ds) (s @ d # b) = d # b"
      using False 2(3) by (simp_all add: takeWhile_append dropWhile_append w)
    show ?thesis
    proof (cases "c \<in> set ds")
      case True
      with 2 show ?thesis by simp
    next
      case c: False
      with 2(3) show ?thesis by (simp only: strtok_all.simps append_Cons if_False w w') simp
    qed
  qed
qed simp

lemma strtok_slash: "strtok_all ''/'' (a @ ''/'' @ b) = strtok_all ''/'' a @ strtok_all ''/'' b"
  using strtok_all_sep [of "CHR ''/''" "''/''" a b] by simp

text \<open>LibU's \<^verbatim>\<open>u_path_snprintf\<close> only removes repeated separators.\<close>

definition path_ok :: "path_fun \<Rightarrow> bool" where
  "path_ok P \<longleftrightarrow> (\<forall>s n t. P s n = Some t \<longrightarrow> strtok_all ''/'' t = strtok_all ''/'' s)"

text \<open>The directories a host serves from: its root, and the target of each alias with its source.\<close>

definition alias_pair :: "libu \<Rightarrow> string option \<Rightarrow> string \<Rightarrow> string \<Rightarrow> bool" where
  "alias_pair L a src res \<longleftrightarrow> (\<exists>s rest. a = Some s \<and> strtok_all ('' '' @ [TAB]) (fst (u_strlcpy L s 1024)) = src # res # rest)"

definition serves :: "libu \<Rightarrow> vhost \<Rightarrow> string list \<Rightarrow> string list \<Rightarrow> bool" where
  "serves L v prefix root \<longleftrightarrow>
     (prefix = [] \<and> root = strtok_all ''/'' (vh_dir_root v)) \<or>
     (\<exists>a src res. a \<in> set (vc_dir_alias (vh_config v) @ (case vc_script_alias (vh_config v) of None \<Rightarrow> [] | Some as \<Rightarrow> as)) \<and>
        alias_pair L a src res \<and> prefix = strtok_all ''/'' src \<and> root = strtok_all ''/'' res)"

lemma try_resolv_segments:
  assumes P: "path_ok P" and d: "http_try_resolv L P a uri sz = Some d"
  shows "\<exists>src res rest. alias_pair L a src res \<and> strtok_all ''/'' uri = strtok_all ''/'' src @ rest \<and>
    strtok_all ''/'' d = strtok_all ''/'' res @ rest"
proof -
  from d obtain s src res more where a: "a = Some s" "strtok_all ('' '' @ [TAB]) (fst (u_strlcpy L s 1024)) = src # res # more"
      "take (length src) uri = src" "last src = CHR ''/'' \<or> take 1 (drop (length src) uri) = ''/''"
      "P (res @ ''/'' @ drop (length src) uri) sz = Some d"
    by (auto simp: http_try_resolv_def split: option.splits prod.splits list.splits if_splits)
  let ?t = "drop (length src) uri"
  have uri: "uri = src @ ?t" using a(3) by (metis append_take_drop_id)
  have "src \<noteq> []" using strtok_all_mem [of src "'' '' @ [TAB]"] a(2) by (metis list.set_intros(1))
  have "strtok_all ''/'' uri = strtok_all ''/'' src @ strtok_all ''/'' ?t"
  proof (cases "last src = CHR ''/''")
    case True
    then obtain src' where src: "src = src' @ ''/''" using \<open>src \<noteq> []\<close> by (metis append_butlast_last_id)
    have "strtok_all ''/'' (src' @ ''/'') = strtok_all ''/'' src'" using strtok_slash [of src' "[]"] by simp
    with strtok_slash [of src' ?t] show ?thesis using uri unfolding src by (metis append.assoc)
  next
    case False
    with a(4) obtain b where b: "?t = ''/'' @ b" by (cases ?t) auto
    have "strtok_all ''/'' (''/'' @ b) = strtok_all ''/'' b" by simp
    with strtok_slash [of src b] uri b show ?thesis by metis
  qed
  moreover have "strtok_all ''/'' d = strtok_all ''/'' res @ strtok_all ''/'' ?t"
    using P a(5) strtok_slash [of res ?t] unfolding path_ok_def by metis
  ultimately show ?thesis using a(1,2) unfolding alias_pair_def by blast
qed

lemma first_alias_segments:
  assumes "path_ok P" "first_alias L P as uri sz = Some d"
  shows "\<exists>a\<in>set as. \<exists>src res rest. alias_pair L a src res \<and> strtok_all ''/'' uri = strtok_all ''/'' src @ rest \<and>
    strtok_all ''/'' d = strtok_all ''/'' res @ rest"
  using assms(2)
proof (induction as)
  case (Cons a as)
  then show ?case using try_resolv_segments [OF assms(1), of L a uri sz]
    by (cases "http_try_resolv L P a uri sz") auto
qed simp

lemma vhost_resolv_segments:
  assumes "path_ok P" "vhost_resolv L P v uri sz = Some d"
  shows "\<exists>prefix root rest. serves L v prefix root \<and> strtok_all ''/'' uri = prefix @ rest \<and> strtok_all ''/'' d = root @ rest"
proof -
  consider (dir) "first_alias L P (vc_dir_alias (vh_config v)) uri sz = Some d"
    | (script) "first_alias L P (case vc_script_alias (vh_config v) of None \<Rightarrow> [] | Some as \<Rightarrow> as) uri sz = Some d"
    | (root) "P (vh_dir_root v @ ''/'' @ uri) sz = Some d"
    using assms(2) unfolding vhost_resolv_def by (auto split: option.splits)
  then show ?thesis
  proof cases
    case dir
    from first_alias_segments [OF assms(1) this] show ?thesis unfolding serves_def by auto blast
  next
    case script
    from first_alias_segments [OF assms(1) this] show ?thesis unfolding serves_def by (auto split: option.splits) blast
  next
    case root
    with assms(1) strtok_slash have "strtok_all ''/'' d = strtok_all ''/'' (vh_dir_root v) @ strtok_all ''/'' uri"
      unfolding path_ok_def by metis
    then show ?thesis unfolding serves_def
      by (intro exI [of _ "[]"] exI [of _ "strtok_all ''/'' (vh_dir_root v)"] exI [of _ "strtok_all ''/'' uri"]) simp
  qed
qed

lemma cut_segments:
  assumes "path_cut valid fn = (f, i)"
  shows "set (strtok_all ''/'' f) \<subseteq> set (strtok_all ''/'' fn)"
proof (cases "find (accepts valid fn) (length fn # slash_below fn (length fn))")
  case None
  with assms show ?thesis by (simp add: path_cut_def)
next
  case (Some k)
  then have f: "f = take k fn" using assms unfolding path_cut_def Some by simp
  have "k \<in> set (length fn # slash_below fn (length fn))" using Some by (metis find_Some_iff nth_mem)
  then consider "k = length fn" | "k < length fn" "fn ! k = CHR ''/''" by (auto simp: slash_below_def)
  then show ?thesis
  proof cases
    case 2
    then have "fn = f @ ''/'' @ drop (Suc k) fn" unfolding f using id_take_nth_drop [OF 2(1)] by simp
    then show ?thesis using strtok_slash [of f "drop (Suc k) fn"] by (metis Un_upper1 set_append)
  qed (simp add: f)
qed

lemma set_uri_filename:
  assumes "libu_ok L" "libu_mem L" "http_set_uri L P h uri r = Done r1"
  obtains f where "rq_filename (hr_rq r1) = Some f" "''..'' \<notin> set (strtok_all ''/'' f)" "''.'' \<notin> set (strtok_all ''/'' f)"
proof -
  from assms(3) obtain rq where rq: "request_set_uri L (Some (valid_uri L P h r)) uri (hr_rq r) = Done rq" "hr_rq r1 = rq"
    by (auto simp: http_set_uri_def split: step.splits option.splits outcome.splits bool.splits)
  from set_uri_parts [OF assms(1,2) rq(1)] obtain fn where fn: "''..'' \<notin> set (strtok_all ''/'' fn)" "''.'' \<notin> set (strtok_all ''/'' fn)"
      "(rq_filename rq, rq_path_info rq) = map_prod Some id (path_cut (Some (valid_uri L P h r)) fn)" by blast
  obtain f i where fi: "path_cut (Some (valid_uri L P h r)) fn = (f, i)" by fastforce
  from that [of f] fn cut_segments [OF fi] rq(2) fi show thesis by auto
qed

lemma resolv_request_file:
  assumes "libu_ok L" "libu_mem L" "http_resolv_request L P h r = Done r'" "rq_filename (hr_rq r) = Some f"
    "http_get_vhost L h r = Ok (Some v)"
  obtains d where "rq_filename (hr_rq r') = Some f" "rq_resolved_filename (hr_rq r') = Some d" "vhost_resolv L P v f FNAME_MAX = Some d"
proof (cases "vhost_resolv L P v f FNAME_MAX")
  case None
  with assms show thesis by (simp add: http_resolv_request_def resolv_to_def http_alias_resolv_def)
next
  case (Some d)
  from assms Some have "resolv_to L P h rq_path_info (request_set_resolved_path_info L) (r\<lparr>hr_rq := hr_rq r\<lparr>rq_resolved_filename := Some d\<rparr>\<rparr>) = Done r'"
    by (simp add: http_resolv_request_def resolv_to_def [of L P h rq_filename] http_alias_resolv_def request_set_resolved_filename_def)
  with assms(1,2) that [of d] Some assms(4) show thesis
    by (auto simp: resolv_to_def request_set_resolved_path_info_def split: option.splits outcome.splits)
qed

section \<open>Theorems\<close>

text \<open>
  C2.  Requests cannot leave the directories of their host: once a URI is accepted, the file
  it is resolved to is the root directory of the host, or the target of one of its aliases,
  followed by the remaining segments of the decoded path, none of which is a dot or two dots.
  The header read between the two steps does not change the file name.
\<close>

theorem resolved_below_root:
  assumes "libu_ok L" "libu_mem L" "path_ok P" "http_set_uri L P h uri r = Done r1"
    "rq_filename (hr_rq r2) = rq_filename (hr_rq r1)" "http_get_vhost L h r2 = Ok (Some v)"
    "http_resolv_request L P h r2 = Done r3"
  shows "\<exists>f d prefix root rest. rq_filename (hr_rq r3) = Some f \<and> rq_resolved_filename (hr_rq r3) = Some d \<and>
    serves L v prefix root \<and> strtok_all ''/'' f = prefix @ rest \<and> strtok_all ''/'' d = root @ rest \<and>
    ''..'' \<notin> set rest \<and> ''.'' \<notin> set rest"
proof -
  obtain f where f: "rq_filename (hr_rq r1) = Some f" "''..'' \<notin> set (strtok_all ''/'' f)" "''.'' \<notin> set (strtok_all ''/'' f)"
    using set_uri_filename [OF assms(1,2,4)] .
  obtain d where d: "rq_filename (hr_rq r3) = Some f" "rq_resolved_filename (hr_rq r3) = Some d"
      "vhost_resolv L P v f FNAME_MAX = Some d"
    using resolv_request_file [OF assms(1,2,7) _ assms(6)] assms(5) f(1) by metis
  from vhost_resolv_segments [OF assms(3) d(3)] f d(1,2) show ?thesis by (metis Un_iff set_append)
qed

lemma path_ok_id: "path_ok (\<lambda>s n. Some s)"
  by (simp add: path_ok_def)

theorem resolved_below_root_witness:
  "\<exists>v r1 r3 d root rest. http_set_uri libu_ref (\<lambda>s n. Some s) \<lparr>ht_vhosts = [], ht_sups = []\<rparr> ''/a'' r1 = Done r3 \<and>
     serves libu_ref v [] root \<and> strtok_all ''/'' ''/a'' = rest \<and> strtok_all ''/'' d = root @ rest \<and> ''..'' \<notin> set rest"
proof -
  obtain rq :: request where True by simp
  obtain v :: vhost where v: "vc_dir_alias (vh_config v) = []" "vc_script_alias (vh_config v) = None"
    by (metis vh_config.select_convs(1,2) vhost.select_convs(3))
  let ?P = "\<lambda>s n. Some s" and ?h = "\<lparr>ht_vhosts = [], ht_sups = []\<rparr>"
  define r where "r = \<lparr>hr_rq = rq, hr_vhost = Some v, hr_sup = None\<rparr>"
  have valid: "valid_uri libu_ref ?P ?h r = (\<lambda>fn k. False)"
    by (intro ext) (auto simp: valid_uri_def http_is_valid_uri_def broker_is_valid_uri_def Let_def split: outcome.splits)
  have d: "u_urlncpy libu_ref (''/a'' @ [NUL]) (length ''/a'') CPY_DECODE = Ok (''/a'', 2)"
    by (simp add: u_urlncpy_def counted_def)
  have n: "u_uri_normalize libu_ref ''/a'' = Ok ''/a''"
    by (simp add: u_uri_normalize_def slashes_def libu_ref_def Let_def)
  have never: "find (accepts (Some (\<lambda>fn k. False)) fn) ks = None" for fn ks
    by (induction ks) (simp_all add: accepts_def)
  have "\<exists>rq'. request_set_uri libu_ref (Some (valid_uri libu_ref ?P ?h r)) ''/a'' rq = Done rq' \<and> rq_filename rq' = Some ''/a'' \<and> rq_path_info rq' = None"
    by (simp only: request_set_uri_def d Let_def valid)
       (simp add: URI_BUFSZ_def path_info_loop_eq request_set_filename_def request_set_query_string_def request_clear_uri_def
        strings_set [OF libu_ref_ok libu_ref_mem] split_at_ok [OF libu_ref_ok libu_ref_mem] accepts_def never cut_query_def n)
  then obtain rq' where rq': "request_set_uri libu_ref (Some (valid_uri libu_ref ?P ?h r)) ''/a'' rq = Done rq'"
      "rq_filename rq' = Some ''/a''" "rq_path_info rq' = None" by blast
  have invalid: "http_is_valid_uri libu_ref ?P ?h ''/a'' (Suc (Suc 0)) r = Ok (False, r)"
    by (auto simp: http_is_valid_uri_def broker_is_valid_uri_def http_alias_resolv_def http_get_vhost_def r_def Let_def split: outcome.splits option.splits)
  have set: "http_set_uri libu_ref ?P ?h ''/a'' r = Done (r\<lparr>hr_rq := rq'\<rparr>)"
    using rq' invalid by (simp add: http_set_uri_def r_def)
  have res: "\<exists>r3. http_resolv_request libu_ref ?P ?h (r\<lparr>hr_rq := rq'\<rparr>) = Done r3"
    using rq'(2,3) strings_set [OF libu_ref_ok libu_ref_mem]
    by (simp add: http_resolv_request_def resolv_to_def http_alias_resolv_def http_get_vhost_def r_def vhost_resolv_def v
        request_set_resolved_filename_def)
  then obtain r3 where r3: "http_resolv_request libu_ref ?P ?h (r\<lparr>hr_rq := rq'\<rparr>) = Done r3" by blast
  have vh: "http_get_vhost libu_ref ?h (r\<lparr>hr_rq := rq'\<rparr>) = Ok (Some v)" by (simp add: http_get_vhost_def r_def)
  obtain f d prefix root rest where x: "rq_filename (hr_rq r3) = Some f" "rq_resolved_filename (hr_rq r3) = Some d" "serves libu_ref v prefix root"
      "strtok_all ''/'' f = prefix @ rest" "strtok_all ''/'' d = root @ rest" "''..'' \<notin> set rest"
    using resolved_below_root [OF libu_ref_ok libu_ref_mem path_ok_id set refl vh r3] by blast
  have "f = ''/a''" using x(1) resolv_request_file [OF libu_ref_ok libu_ref_mem r3 _ vh] rq'(2) by (metis hrq.select_convs(1) hrq.surjective hrq.update_convs(1) option.inject)
  moreover have "prefix = []" using x(3) v by (simp add: serves_def)
  ultimately show ?thesis using set x by (intro exI) (auto)
qed

text \<open>
  C37.  The test of a URI tries its text as a path of the file system before it resolves it, so
  a regular file anywhere on the disk (short path, without two dots in a row) makes the URI valid
  and is what the conditional request is answered from: a client that names it gets 304 when the
  file is not newer than the date it sent, with whatever file name the request is resolved to.
\<close>

theorem stat_probe:
  assumes "ht_sups h = pre @ [\<lparr>sp_is_valid = fs_is_valid_uri stat, sp_serve = serve, sp_pages = False\<rparr>]"
    "\<forall>s\<in>set pre. sp_is_valid s (hr_rq r) uri = None"
    "NUL \<notin> set uri" "length uri < URI_MAX" "\<not> has_dotdot uri" "stat uri = Some m"
    "m \<noteq> 0" "rq_if_modified_since rq \<noteq> 0" "m \<le> rq_if_modified_since rq"
  shows "\<exists>r1. http_is_valid_uri L P h uri (length uri) r = Ok (True, r1) \<and>
    broker_serve h (r1\<lparr>hr_rq := rq\<rparr>) rs = Ok (0, response_set_status 304 rs, header_bytes (response_set_status 304 rs))"
proof -
  let ?s = "\<lparr>sp_is_valid = fs_is_valid_uri stat, sp_serve = serve, sp_pages = False\<rparr>"
  have v: "sp_is_valid ?s (hr_rq r) uri = Some m"
    using assms(4-6) by (simp add: fs_is_valid_uri_def URI_MAX_def FNAME_MAX_def)
  have "broker_find (pre @ [?s]) (hr_rq r) uri = Some (?s, m)"
    using assms(2) v by (induction pre) auto
  then show ?thesis using assms
    by (simp add: http_is_valid_uri_def broker_is_valid_uri_def broker_serve_def Let_def cstr_id)
qed

theorem stat_probe_witness:
  "\<exists>h r r1 rq. length (ht_sups h) = 1 \<and> ht_vhosts h = [] \<and> rq_if_modified_since rq = 7 \<and>
     http_is_valid_uri libu_ref (\<lambda>s n. None) h ''/etc/shadow'' 11 r = Ok (True, r1) \<and>
     (\<forall>rs. broker_serve h (r1\<lparr>hr_rq := rq\<rparr>) rs =
        Ok (0, response_set_status 304 rs, header_bytes (response_set_status 304 rs)))"
proof -
  let ?s = "\<lparr>sp_is_valid = fs_is_valid_uri [''/etc/shadow'' \<mapsto> 5], sp_serve = (\<lambda>rq rs. Ok (False, rs, [])), sp_pages = False\<rparr>"
  let ?h = "\<lparr>ht_vhosts = [], ht_sups = [] @ [?s]\<rparr>"
  obtain rq0 :: request where True by simp
  define rq where "rq = rq0\<lparr>rq_if_modified_since := 7\<rparr>"
  define r where "r = \<lparr>hr_rq = rq0, hr_vhost = None, hr_sup = None\<rparr>"
  have probe: "\<exists>r1. http_is_valid_uri libu_ref (\<lambda>s n. None) ?h ''/etc/shadow'' (length ''/etc/shadow'') r = Ok (True, r1) \<and>
     broker_serve ?h (r1\<lparr>hr_rq := rq\<rparr>) rs = Ok (0, response_set_status 304 rs, header_bytes (response_set_status 304 rs))" for rs
    by (rule stat_probe [where m = 5 and pre = "[]" and stat = "[''/etc/shadow'' \<mapsto> 5]" and serve = "\<lambda>rq rs. Ok (False, rs, [])"])
       (simp_all add: rq_def URI_MAX_def)
  obtain rs0 :: response where True by simp
  obtain r1 where r1: "http_is_valid_uri libu_ref (\<lambda>s n. None) ?h ''/etc/shadow'' (length ''/etc/shadow'') r = Ok (True, r1)"
    using probe [of rs0] by blast
  have serve: "broker_serve ?h (r1\<lparr>hr_rq := rq\<rparr>) rs = Ok (0, response_set_status 304 rs, header_bytes (response_set_status 304 rs))" for rs
    using probe [of rs] unfolding r1 by simp
  have "length ''/etc/shadow'' = 11" by simp
  with r1 have "http_is_valid_uri libu_ref (\<lambda>s n. None) ?h ''/etc/shadow'' 11 r = Ok (True, r1)" by metis
  with serve show ?thesis
    by (intro exI [of _ ?h] exI [of _ r] exI [of _ r1] exI [of _ rq] conjI allI) (simp_all only: rq_def simp_thms, simp_all)
qed

end
