(* ===== verification/Suppliers.thy ===== *)
theory Suppliers
  imports Http
begin

text \<open>
  The suppliers of pages.  The MIME types of \<^verbatim>\<open>src/libutils/mime_map.c\<close> and their lookup in
  \<^verbatim>\<open>utils.c\<close>; the supplier of files, \<^verbatim>\<open>src/libhttp/sup_fs.c\<close>, over the \<^verbatim>\<open>stat\<close> and
  the reads of a file system; the list of suppliers the broker is created with; and what the broker
  relies on when it keeps the supplier it found: that the test of a supplier looks only at the
  path.
\<close>

section \<open>Definitions\<close>

subsection \<open>MIME types\<close>

text \<open>Extension, type and whether the content is worth compressing; the first entry is the default.\<close>

definition mime_map :: "(string \<times> string \<times> bool) list" where
  "mime_map =
     [('' ext not found '', ''application/octet-stream'', True), (''ai'', ''application/postscript'', True),
      (''aif'', ''audio/x-aiff'', True), (''aifc'', ''audio/x-aiff'', True), (''aiff'', ''audio/x-aiff'', True),
      (''asc'', ''text/plain'', True), (''atom'', ''application/atom+xml'', True), (''au'', ''audio/basic'', True),
      (''avi'', ''video/x-msvideo'', True), (''bcpio'', ''application/x-bcpio'', True),
      (''bin'', ''application/octet-stream'', True), (''bmp'', ''image/bmp'', True),
      (''bz2'', ''application/x-bzip2'', False), (''cdf'', ''application/x-netcdf'', True),
      (''cgm'', ''image/cgm'', True), (''class'', ''application/octet-stream'', True),
      (''cpio'', ''application/x-cpio'', True), (''cpt'', ''application/mac-compactpro'', True),
      (''csh'', ''application/x-csh'', True), (''css'', ''text/css'', True), (''kl1'', ''text/html'', True),
      (''klone'', ''text/html'', True), (''dcr'', ''application/x-director'', True),
      (''dir'', ''application/x-director'', True), (''djv'', ''image/vnd.djvu'', True),
      (''djvu'', ''image/vnd.djvu'', True), (''dll'', ''application/octet-stream'', True),
      (''dmg'', ''application/octet-stream'', True), (''dms'', ''application/octet-stream'', True),
      (''doc'', ''application/msword'', True), (''dtd'', ''application/xml-dtd'', True),
      (''dvi'', ''application/x-dvi'', True), (''dxr'', ''application/x-director'', True),
      (''eps'', ''application/postscript'', True), (''etx'', ''text/x-setext'', True),
      (''exe'', ''application/octet-stream'', True), (''ez'', ''application/andrew-inset'', True),
      (''gif'', ''image/gif'', False), (''gram'', ''application/srgs'', True),
      (''grxml'', ''application/srgs+xml'', True), (''gtar'', ''application/x-gtar'', True),
      (''gz'', ''application/x-gzip'', False), (''hdf'', ''application/x-hdf'', True),
      (''hqx'', ''application/mac-binhex40'', False), (''htm'', ''text/html'', True),
      (''html'', ''text/html'', True), (''ice'', ''x-conference/x-cooltalk'', True),
      (''ico'', ''image/x-icon'', True), (''ics'', ''text/calendar'', True), (''ief'', ''image/ief'', True),
      (''ifb'', ''text/calendar'', True), (''iges'', ''model/iges'', True), (''igs'', ''model/iges'', True),
      (''jpe'', ''image/jpeg'', False), (''jpeg'', ''image/jpeg'', False), (''jpg'', ''image/jpeg'', False),
      (''js'', ''application/x-javascript'', True), (''kar'', ''audio/midi'', True),
      (''latex'', ''application/x-latex'', True), (''lha'', ''application/octet-stream'', False),
      (''lzh'', ''application/octet-stream'', False), (''m3u'', ''audio/x-mpegurl'', True),
      (''m4u'', ''video/vnd.mpegurl'', True), (''man'', ''application/x-troff-man'', True),
      (''mathml'', ''application/mathml+xml'', True), (''me'', ''application/x-troff-me'', True),
      (''mesh'', ''model/mesh'', True), (''mid'', ''audio/midi'', False), (''midi'', ''audio/midi'', False),
      (''mov'', ''video/quicktime'', False), (''movie'', ''video/x-sgi-movie'', False),
      (''mp2'', ''audio/mpeg'', False), (''mp3'', ''audio/mpeg'', False), (''mpe'', ''video/mpeg'', False),
      (''mpeg'', ''video/mpeg'', False), (''mpg'', ''video/mpeg'', False), (''mpga'', ''audio/mpeg'', False),
      (''ms'', ''application/x-troff-ms'', True), (''msh'', ''model/mesh'', True),
      (''mxu'', ''video/vnd.mpegurl'', True), (''nc'', ''application/x-netcdf'', True),
      (''oda'', ''application/oda'', True), (''ogg'', ''application/ogg'', False),
      (''pbm'', ''image/x-portable-bitmap'', True), (''pdb'', ''chemical/x-pdb'', True),
      (''pdf'', ''application/pdf'', False), (''pgm'', ''image/x-portable-graymap'', True),
      (''pgn'', ''application/x-chess-pgn'', True), (''png'', ''image/png'', False),
      (''pnm'', ''image/x-portable-anymap'', True), (''ppm'', ''image/x-portable-pixmap'', True),
      (''ppt'', ''application/vnd.ms-powerpoint'', True), (''ps'', ''application/postscript'', True),
      (''qt'', ''video/quicktime'', False), (''ra'', ''audio/x-pn-realaudio'', False),
      (''ram'', ''audio/x-pn-realaudio'', False), (''ras'', ''image/x-cmu-raster'', True),
      (''rdf'', ''application/rdf+xml'', True), (''rgb'', ''image/x-rgb'', True),
      (''rm'', ''application/vnd.rn-realmedia'', False), (''roff'', ''application/x-troff'', True),
      (''rtf'', ''text/rtf'', True), (''rtx'', ''text/richtext'', True), (''sgm'', ''text/sgml'', True),
      (''sgml'', ''text/sgml'', True), (''sh'', ''application/x-sh'', True),
      (''shar'', ''application/x-shar'', True), (''silo'', ''model/mesh'', True),
      (''sit'', ''application/x-stuffit'', True), (''skd'', ''application/x-koan'', True),
      (''skm'', ''application/x-koan'', True), (''skp'', ''application/x-koan'', True),
      (''skt'', ''application/x-koan'', True), (''smi'', ''application/smil'', True),
      (''smil'', ''application/smil'', True), (''snd'', ''audio/basic'', True),
      (''so'', ''application/octet-stream'', True), (''spl'', ''application/x-futuresplash'', True),
      (''src'', ''application/x-wais-source'', True), (''sv4cpio'', ''application/x-sv4cpio'', True),
      (''sv4crc'', ''application/x-sv4crc'', True), (''svg'', ''image/svg+xml'', True),
      (''swf'', ''application/x-shockwave-flash'', True), (''t'', ''application/x-troff'', True),
      (''tar'', ''application/x-tar'', True), (''tcl'', ''application/x-tcl'', True),
      (''tex'', ''application/x-tex'', True), (''texi'', ''application/x-texinfo'', True),
      (''texinfo'', ''application/x-texinfo'', True), (''tif'', ''image/tiff'', True),
      (''tiff'', ''image/tiff'', True), (''tr'', ''application/x-troff'', True),
      (''tsv'', ''text/tab-separated-values'', True), (''txt'', ''text/plain'', True),
      (''ustar'', ''application/x-ustar'', True), (''vcd'', ''application/x-cdlink'', True),
      (''vrml'', ''model/vrml'', True), (''vxml'', ''application/voicexml+xml'', True),
      (''wav'', ''audio/x-wav'', True), (''wbmp'', ''image/vnd.wap.wbmp'', True),
      (''wbxml'', ''application/vnd.wap.wbxml'', True), (''wml'', ''text/vnd.wap.wml'', True),
      (''wmlc'', ''application/vnd.wap.wmlc'', True), (''wmls'', ''text/vnd.wap.wmlscript'', True),
      (''wmlsc'', ''application/vnd.wap.wmlscriptc'', True), (''wrl'', ''model/vrml'', True),
      (''xbm'', ''image/x-xbitmap'', True), (''xht'', ''application/xhtml+xml'', True),
      (''xhtml'', ''application/xhtml+xml'', True), (''xls'', ''application/vnd.ms-excel'', True),
      (''xml'', ''application/xml'', True), (''xpm'', ''image/x-xpixmap'', True),
      (''xsl'', ''application/xml'', True), (''xslt'', ''application/xslt+xml'', True),
      (''xwd'', ''image/x-xwindowdump'', True), (''xyz'', ''chemical/x-xyz'', True),
      (''zip'', ''application/zip'', False)]"

fun mime_loop :: "(string \<times> string \<times> bool) list \<Rightarrow> string \<Rightarrow> (string \<times> string \<times> bool) option" where
  "mime_loop [] ext = None"
| "mime_loop (m # ms) ext = (if strcaseeq (fst m) ext then Some m else mime_loop ms ext)"

definition extension :: "string \<Rightarrow> string option" where
  "extension f = map_option (\<lambda>i. drop (Suc i) f) (u_strnrchr f (CHR ''.'') (length f))"

definition u_get_mime_map :: "string \<Rightarrow> string \<times> string \<times> bool" where
  "u_get_mime_map f =
     (case Option.bind (extension f) (mime_loop mime_map) of None \<Rightarrow> hd mime_map | Some m \<Rightarrow> m)"

definition u_guess_mime_type :: "string \<Rightarrow> string" where
  "u_guess_mime_type f =
     (case Option.bind (extension f) (mime_loop mime_map) of
        None \<Rightarrow> ''application/octet-stream''
      | Some m \<Rightarrow> fst (snd m))"

subsection \<open>Files\<close>

text \<open>
  A file system: what \<^verbatim>\<open>stat\<close> says of a path (a regular file, its size and time of
  modification) and, if the path can be opened, the results of the reads that follow, \<open>None\<close> for
  a failed one.
\<close>

record file_stat =
  st_regular :: bool
  st_size :: nat
  st_mtime :: nat

record file_system =
  fs_stat :: "string \<Rightarrow> file_stat option"
  fs_open :: "string \<Rightarrow> string option list option"

text \<open>
  The copy loop of \<^verbatim>\<open>fs_serve\<close>.  The result of a read is kept in a \<^verbatim>\<open>size_t\<close>: the -1 of
  a failed read is taken for a count of bytes to write.
\<close>

fun fs_copy :: "string option list \<Rightarrow> string outcome" where
  "fs_copy [] = Ok []"
| "fs_copy (None # cs) = Fault"
| "fs_copy (Some c # cs) = (if c = [] then Ok [] else map_ok (\<lambda>t. c @ t) (fs_copy cs))"

definition fs_serve :: "libu \<Rightarrow> file_system \<Rightarrow> request \<Rightarrow> response \<Rightarrow> (bool \<times> response \<times> string) outcome" where
  "fs_serve L F rq rs =
     (case rq_resolved_filename rq of
        None \<Rightarrow> Ok (False, rs, [])
      | Some fqn \<Rightarrow>
          (case fs_stat F fqn of
             None \<Rightarrow> Ok (False, rs, [])
           | Some st \<Rightarrow>
               (case and_then (response_set_content_length L (st_size st) rs) (\<lambda>rs.
                       and_then (response_set_content_type L (u_guess_mime_type fqn) rs)
                         (response_set_last_modified L (st_mtime st))) of
                  Crash \<Rightarrow> Fault
                | Failed rs1 \<Rightarrow> Ok (False, rs1, [])
                | Done rs1 \<Rightarrow>
                    if rs_method rs1 = HM_HEAD then Ok (True, rs1, header_bytes rs1)
                    else
                      (case fs_open F fqn of
                         None \<Rightarrow> Ok (False, rs1, header_bytes rs1)
                       | Some cs \<Rightarrow> map_ok (\<lambda>body. (True, rs1, header_bytes rs1 @ body)) (fs_copy cs)))))"

definition regular_mtime :: "file_system \<Rightarrow> string \<Rightarrow> int option" where
  "regular_mtime F p =
     (case fs_stat F p of None \<Rightarrow> None | Some st \<Rightarrow> if st_regular st then Some (int (st_mtime st)) else None)"

definition sup_fs :: "libu \<Rightarrow> file_system \<Rightarrow> supplier" where
  "sup_fs L F = \<lparr>sp_is_valid = fs_is_valid_uri (regular_mtime F), sp_serve = fs_serve L F, sp_pages = False\<rparr>"

subsection \<open>Embedded resources\<close>

text \<open>
  The pages themselves are generated by the page compiler; how an embedded file or page is served
  once it is found comes as an argument.
\<close>

definition supemb_serve ::
  "(string \<rightharpoonup> embres) \<Rightarrow> (embres \<Rightarrow> request \<Rightarrow> response \<Rightarrow> (bool \<times> response \<times> string) outcome) \<Rightarrow>
   request \<Rightarrow> response \<Rightarrow> (bool \<times> response \<times> string) outcome" where
  "supemb_serve m page rq rs =
     (case Option.bind (rq_resolved_filename rq) (\<lambda>f. emb_lookup f m) of
        None \<Rightarrow> Ok (True, response_set_status 404 rs, [])
      | Some e \<Rightarrow> page e rq rs)"

definition sup_emb ::
  "(string \<rightharpoonup> embres) \<Rightarrow> (embres \<Rightarrow> request \<Rightarrow> response \<Rightarrow> (bool \<times> response \<times> string) outcome) \<Rightarrow> supplier" where
  "sup_emb m page = \<lparr>sp_is_valid = supemb_is_valid_uri m, sp_serve = supemb_serve m page, sp_pages = True\<rparr>"

text \<open>\<^verbatim>\<open>broker_create\<close>: the kilt, CGI and file suppliers depend on the build.\<close>

definition broker_create :: "supplier \<Rightarrow> supplier option \<Rightarrow> supplier option \<Rightarrow> supplier option \<Rightarrow> supplier list" where
  "broker_create emb kilt cgi fs =
     [emb] @ (case kilt of None \<Rightarrow> [] | Some s \<Rightarrow> [s]) @ (case cgi of None \<Rightarrow> [] | Some s \<Rightarrow> [s]) @
     (case fs of None \<Rightarrow> [] | Some s \<Rightarrow> [s])"

section \<open>Fields of a response\<close>

definition rs_room :: "libu \<Rightarrow> nat \<Rightarrow> response \<Rightarrow> bool" where
  "rs_room L k rs \<longleftrightarrow>
     libu_ok L \<and> libu_mem L \<and> header_ok (rs_header rs) \<and> length (h_fields (rs_header rs)) + k < SIZE_LIMIT"

definition rs_keeps :: "response \<Rightarrow> response \<Rightarrow> bool" where
  "rs_keeps rs rs' \<longleftrightarrow> rs_status rs' = rs_status rs \<and> rs_method rs' = rs_method rs \<and> rs_cgi rs' = rs_cgi rs"

lemma rs_keeps_trans: "rs_keeps a b \<Longrightarrow> rs_keeps b c \<Longrightarrow> rs_keeps a c"
  by (simp add: rs_keeps_def)

lemma response_put:
  assumes "rs_room L (Suc k) rs"
  shows "\<exists>rs'. response_set_field L n v rs = Done rs' \<and> rs_room L k rs' \<and> rs_keeps rs rs' \<and>
    (\<forall>m. response_get_field_value rs' m = (if strcaseeq m n then Ok (Some v) else response_get_field_value rs m))"
  using header_store.assign_law [of L "rs_header rs" k n v] assms
  by (auto simp: rs_room_def rs_keeps_def response_set_field_def on_header_def response_get_field_value_def)

interpretation response_store: named_store response_get_field_value "response_set_field L" "rs_room L" "\<lambda>n v. True" for L
  by unfold_locales (use response_put in blast)

text \<open>The setters of single fields are assignments.\<close>

lemma setters_assign:
  "response_set_content_type L v rs = response_set_field L ''Content-Type'' v rs"
  "libu_ok L \<Longrightarrow> t < 253402300800 \<Longrightarrow> response_set_last_modified L t rs = response_set_field L ''Last-Modified'' (rfc822_text (gmtime t)) rs"
  "libu_ok L \<Longrightarrow> t < 253402300800 \<Longrightarrow> response_set_date L t rs = response_set_field L ''Date'' (rfc822_text (gmtime t)) rs"
  "libu_ok L \<Longrightarrow> response_set_content_length L n rs = response_set_field L ''Content-Length'' (dec (n mod 2 ^ 32)) rs"
proof -
  show "response_set_content_type L v rs = response_set_field L ''Content-Type'' v rs"
    by (simp add: response_set_content_type_def response_set_field_def)
  show "libu_ok L \<Longrightarrow> t < 253402300800 \<Longrightarrow> response_set_last_modified L t rs = response_set_field L ''Last-Modified'' (rfc822_text (gmtime t)) rs"
    by (simp add: response_set_last_modified_def response_set_field_def tt_to_rfc822_eq)
  show "libu_ok L \<Longrightarrow> t < 253402300800 \<Longrightarrow> response_set_date L t rs = response_set_field L ''Date'' (rfc822_text (gmtime t)) rs"
    by (simp add: response_set_date_def response_set_field_def tt_to_rfc822_eq)
  have "length (dec (n mod 2 ^ 32)) \<le> Suc 9" by (rule length_dec) (simp add: less_le_trans [OF mod_less_divisor])
  then show "libu_ok L \<Longrightarrow> response_set_content_length L n rs = response_set_field L ''Content-Length'' (dec (n mod 2 ^ 32)) rs"
    by (simp add: response_set_content_length_def response_set_field_def libu_ok_snprintf)
qed

lemma put_keeps: "response_set_field L n v rs = Done rs' \<Longrightarrow> rs_keeps rs rs'"
  by (auto simp: response_set_field_def on_header_def rs_keeps_def split: step.splits)

lemma assign_all_keeps: "response_store.assign_all L ps rs = Done rs' \<Longrightarrow> rs_keeps rs rs'"
proof (induction ps arbitrary: rs)
  case (Cons p ps)
  then show ?case by (cases "response_set_field L (fst p) (snd p) rs") (auto dest: put_keeps intro: rs_keeps_trans)
qed (simp add: rs_keeps_def)

section \<open>Serving a file\<close>

definition file_fields :: "string \<Rightarrow> file_stat \<Rightarrow> (string \<times> string) list" where
  "file_fields d st =
     [(''Content-Length'', dec (st_size st mod 2 ^ 32)), (''Content-Type'', u_guess_mime_type d),
      (''Last-Modified'', rfc822_text (gmtime (st_mtime st)))]"

definition host_fields :: "vhost \<Rightarrow> nat \<Rightarrow> (string \<times> string) list" where
  "host_fields v now = [(''Server'', vh_server_sig v), (''Date'', rfc822_text (gmtime now))]"

lemma fs_copy_all: "[] \<notin> set cs \<Longrightarrow> fs_copy (map Some cs) = Ok (concat cs)"
  by (induction cs) auto

lemma fs_serve_file:
  assumes "libu_ok L" "rq_resolved_filename rq = Some d" "fs_stat F d = Some st" "st_mtime st < 253402300800"
    "response_store.assign_all L (file_fields d st) rs = Done rs'" "rs_method rs \<noteq> HM_HEAD"
    "fs_open F d = Some (map Some cs)" "[] \<notin> set cs"
  shows "fs_serve L F rq rs = Ok (True, rs', header_bytes rs' @ concat cs)"
proof -
  have m: "rs_method rs' \<noteq> HM_HEAD" using assign_all_keeps [OF assms(5)] assms(6) by (simp add: rs_keeps_def)
  obtain a where a: "response_set_field L ''Content-Length'' (dec (st_size st mod 2 ^ 32)) rs = Done a"
    using assms(5) by (cases "response_set_field L ''Content-Length'' (dec (st_size st mod 2 ^ 32)) rs") (simp_all add: file_fields_def)
  obtain b where b: "response_set_field L ''Content-Type'' (u_guess_mime_type d) a = Done b"
    using assms(5) a by (cases "response_set_field L ''Content-Type'' (u_guess_mime_type d) a") (simp_all add: file_fields_def)
  obtain c where c: "response_set_field L ''Last-Modified'' (rfc822_text (gmtime (st_mtime st))) b = Done c"
    using assms(5) a b by (cases "response_set_field L ''Last-Modified'' (rfc822_text (gmtime (st_mtime st))) b") (simp_all add: file_fields_def)
  have "rs' = c" using assms(5) a b c by (simp add: file_fields_def)
  with a b c m show ?thesis using assms(1-4,7,8)
    by (simp add: fs_serve_def setters_assign fs_copy_all)
qed

lemma default_header_fields:
  assumes "libu_ok L" "http_get_vhost L h r = Ok (Some v)" "now < 253402300800"
    "response_store.assign_all L (host_fields v now) rs = Done rs'"
  shows "http_add_default_header L h now r rs = Done rs'"
proof -
  obtain a where a: "response_set_field L ''Server'' (vh_server_sig v) rs = Done a"
    using assms(4) by (cases "response_set_field L ''Server'' (vh_server_sig v) rs") (simp_all add: host_fields_def)
  obtain b where b: "response_set_field L ''Date'' (rfc822_text (gmtime now)) a = Done b"
    using assms(4) a by (cases "response_set_field L ''Date'' (rfc822_text (gmtime now)) a") (simp_all add: host_fields_def)
  have "rs' = b" using assms(4) a b by (simp add: host_fields_def)
  with a b assms(1-3) show ?thesis by (simp add: http_add_default_header_def setters_assign)
qed

lemma resolv_request_keeps:
  assumes "http_resolv_request L P h r = Done r'"
  shows "hr_vhost r' = hr_vhost r" "hr_sup r' = hr_sup r"
proof -
  have one: "hr_vhost b = hr_vhost a \<and> hr_sup b = hr_sup a" if "resolv_to L P h get put a = Done b" for get put a b
    using that by (auto simp: resolv_to_def split: option.splits outcome.splits elim: bind_step.elims)
  obtain r1 where "resolv_to L P h rq_filename (request_set_resolved_filename L) r = Done r1"
      "resolv_to L P h rq_path_info (request_set_resolved_path_info L) r1 = Done r'"
    using assms unfolding http_resolv_request_def
    by (cases "resolv_to L P h rq_filename (request_set_resolved_filename L) r") auto
  with one show "hr_vhost r' = hr_vhost r" "hr_sup r' = hr_sup r" by metis+
qed

section \<open>Keeping the supplier that was found\<close>

text \<open>
  The supplier is looked up when the first line of the request is read, before the header is, and
  used after.  That is sound when the test of every supplier looks at the path only.
\<close>

locale path_only =
  fixes sups :: "supplier list"
  assumes test_path: "s \<in> set sups \<Longrightarrow> sp_is_valid s rq uri = sp_is_valid s rq' uri"
begin

lemma find_path: "broker_find sups rq uri = broker_find sups rq' uri"
proof -
  have "set ss \<subseteq> set sups \<Longrightarrow> broker_find ss rq uri = broker_find ss rq' uri" for ss
    by (induction ss) (auto simp: test_path [of _ rq uri rq'] split: option.splits)
  then show ?thesis by blast
qed

lemma found_again:
  assumes "ht_sups h = sups" "hr_sup r = None" "broker_is_valid_uri h r d = (found, r1)" "rq_resolved_filename rq = Some d"
  shows "broker_serve h (r1\<lparr>hr_rq := rq\<rparr>) rs = broker_serve h (r\<lparr>hr_rq := rq\<rparr>) rs"
proof -
  have same: "broker_find sups rq d = broker_find sups (hr_rq r) d" by (rule find_path)
  show ?thesis
  proof (cases "broker_find sups (hr_rq r) d")
    case None
    then have "r1 = r" using assms(1,3) by (simp add: broker_is_valid_uri_def)
    then show ?thesis by simp
  next
    case (Some i)
    then have "r1 = r\<lparr>hr_sup := Some i\<rparr>" using assms(1,3) by (simp add: broker_is_valid_uri_def)
    then show ?thesis using assms(1,2,4) Some same by (cases i) (simp add: broker_serve_def Let_def)
  qed
qed

end

interpretation own_suppliers: path_only "broker_create (sup_emb tab page) None None (Some (sup_fs L F))" for tab page L F
  by unfold_locales (auto simp: broker_create_def sup_emb_def sup_fs_def supemb_is_valid_uri_def fs_is_valid_uri_def)

section \<open>Theorems\<close>

text \<open>
  C3.  Serving a file: a request whose check found the file supplier, and that is not
  conditional, is answered with status 200 and exactly the bytes of the file the request
  resolves to, after a header that holds the signature of the host, the date, the length (its low
  32 bits), the type guessed from the extension and the time of modification; the other fields
  of the response are as before.
\<close>

theorem file_served:
  assumes "rs_room L 5 rs" "rs_method rs \<noteq> HM_HEAD" "http_get_vhost L h r = Ok (Some v)" "hr_sup r = Some (sup_fs L F, m)"
    "http_resolv_request L P h (r\<lparr>hr_vhost := Some v\<rparr>) = Done r1" "rq_resolved_filename (hr_rq r1) = Some d"
    "rq_if_modified_since (hr_rq r1) = 0" "fs_stat F d = Some st" "fs_open F d = Some (map Some cs)" "[] \<notin> set cs"
    "now < 253402300800" "st_mtime st < 253402300800"
  shows "\<exists>rs'. http_serve L P h version now r rs = Ok (rs', header_bytes rs' @ concat cs) \<and> rs_status rs' = 200 \<and>
    (\<forall>n. response_get_field_value rs' n =
       (case latest (host_fields v now @ file_fields d st) n of
          Some x \<Rightarrow> Ok (Some x) | None \<Rightarrow> response_get_field_value rs n))"
proof -
  have L: "libu_ok L" using assms(1) by (simp add: rs_room_def)
  have r1: "hr_vhost r1 = Some v" "hr_sup r1 = Some (sup_fs L F, m)"
    using resolv_request_keeps [OF assms(5)] assms(4) by simp_all
  have v: "http_get_vhost L h r1 = Ok (Some v)" by (simp add: http_get_vhost_def r1)
  have "rs_room L (length (host_fields v now) + 3) rs" using assms(1) by (simp add: host_fields_def)
  from response_store.assign_all_room [OF this] obtain rs1 where
    rs1: "response_store.assign_all L (host_fields v now) rs = Done rs1" "rs_room L 3 rs1"
      "\<forall>n. response_get_field_value rs1 n = (case latest (host_fields v now) n of Some x \<Rightarrow> Ok (Some x) | None \<Rightarrow> response_get_field_value rs n)"
    by auto
  let ?rs1 = "response_set_status 200 rs1"
  have "rs_room L (length (file_fields d st) + 0) ?rs1"
    using rs1(2) by (simp add: file_fields_def rs_room_def response_set_status_def)
  from response_store.assign_all_room [OF this] obtain rs2 where
    rs2: "response_store.assign_all L (file_fields d st) ?rs1 = Done rs2"
      "\<forall>n. response_get_field_value rs2 n = (case latest (file_fields d st) n of Some x \<Rightarrow> Ok (Some x) | None \<Rightarrow> response_get_field_value ?rs1 n)"
    by auto
  have m: "rs_method ?rs1 \<noteq> HM_HEAD" and st: "rs_status rs2 = 200"
    using assign_all_keeps [OF rs1(1)] assign_all_keeps [OF rs2(1)] assms(2) by (simp_all add: rs_keeps_def response_set_status_def)
  have "broker_serve h r1 ?rs1 = Ok (0, rs2, header_bytes rs2 @ concat cs)"
    using fs_serve_file [OF L assms(6,8,12) rs2(1) m assms(9,10)] r1(2) assms(7) st
    by (simp add: broker_serve_def sup_fs_def Let_def HTTP_STATUS_EXT_KEY_NEEDED_def)
  then have found: "serve_found L P h version now r1 ?rs1 = Ok (rs2, header_bytes rs2 @ concat cs)"
    using st by (simp add: serve_found_def try_redirect_def split: option.splits)
  have "http_serve L P h version now r rs = Ok (rs2, header_bytes rs2 @ concat cs)"
    using assms(3,5) r1(2) found default_header_fields [OF L v assms(11) rs1(1)]
    by (simp add: http_serve_def split: option.splits)
  moreover have "response_get_field_value ?rs1 = response_get_field_value rs1"
    by (rule ext) (simp add: response_get_field_value_def response_set_status_def)
  ultimately show ?thesis using st rs1(3) rs2(2) by (auto simp: latest_append split: option.splits)
qed

lemma libu_ref_room: "rs_room libu_ref k \<lparr>rs_header = \<lparr>h_fields = [], nfields = 0, h_next = 0\<rparr>, rs_status = st, rs_method = me, rs_cgi = c\<rparr> \<longleftrightarrow> k < SIZE_LIMIT"
  by (simp add: rs_room_def libu_ref_ok libu_ref_mem header_ok_def)

theorem file_served_witness:
  "\<exists>h r rs rs'. ht_sups h = [sup_fs libu_ref \<lparr>fs_stat = [''/www//a.txt'' \<mapsto> \<lparr>st_regular = True, st_size = 2, st_mtime = 0\<rparr>],
       fs_open = [''/www//a.txt'' \<mapsto> [Some ''h'', Some ''i'']]\<rparr>] \<and>
     http_serve libu_ref (\<lambda>s n. Some s) h ''2'' 0 r rs = Ok (rs', header_bytes rs' @ ''hi'') \<and> rs_status rs' = 200 \<and>
     response_get_field_value rs' ''Server'' = Ok (Some ''k'')"
proof -
  obtain rq0 :: request where True by simp
  define rq where "rq = rq0\<lparr>rq_filename := Some ''/a.txt'', rq_path_info := None, rq_if_modified_since := 0\<rparr>"
  obtain v :: vhost where v: "vc_dir_alias (vh_config v) = []" "vc_script_alias (vh_config v) = None" "vh_dir_root v = ''/www''" "vh_server_sig v = ''k''"
    by (metis vh_config.select_convs(1,2) vhost.select_convs(3,4,5))
  let ?st = "\<lparr>st_regular = True, st_size = 2, st_mtime = 0\<rparr>" and ?P = "\<lambda>s n. Some s"
  let ?F = "\<lparr>fs_stat = [''/www//a.txt'' \<mapsto> ?st], fs_open = [''/www//a.txt'' \<mapsto> [Some ''h'', Some ''i'']]\<rparr>"
  let ?h = "\<lparr>ht_vhosts = [v], ht_sups = [sup_fs libu_ref ?F]\<rparr>"
  let ?rs = "\<lparr>rs_header = \<lparr>h_fields = [], nfields = 0, h_next = 0\<rparr>, rs_status = 400, rs_method = HM_GET, rs_cgi = False\<rparr>"
  define r where "r = \<lparr>hr_rq = rq, hr_vhost = Some v, hr_sup = Some (sup_fs libu_ref ?F, 0)\<rparr>"
  have room: "rs_room libu_ref 5 ?rs" by (subst libu_ref_room) simp
  have vh: "http_get_vhost libu_ref ?h r = Ok (Some v)" by (simp add: http_get_vhost_def r_def)
  have res: "http_resolv_request libu_ref ?P ?h (r\<lparr>hr_vhost := Some v\<rparr>) =
      Done (r\<lparr>hr_rq := rq\<lparr>rq_resolved_filename := Some ''/www//a.txt''\<rparr>\<rparr>)"
    using strings_set [OF libu_ref_ok libu_ref_mem]
    by (simp add: http_resolv_request_def resolv_to_def http_alias_resolv_def http_get_vhost_def r_def rq_def vhost_resolv_def v
        request_set_resolved_filename_def)
  obtain rs' where rs': "http_serve libu_ref ?P ?h ''2'' 0 r ?rs = Ok (rs', header_bytes rs' @ concat [''h'', ''i''])" "rs_status rs' = 200"
      "\<forall>n. response_get_field_value rs' n = (case latest (host_fields v 0 @ file_fields ''/www//a.txt'' ?st) n of
          Some x \<Rightarrow> Ok (Some x) | None \<Rightarrow> response_get_field_value ?rs n)"
    using file_served [OF room _ vh _ res, where F = ?F and d = "''/www//a.txt''" and st = ?st and cs = "[''h'', ''i'']" and now = 0 and m = 0 and version = "''2''"]
    by (auto simp: r_def rq_def)
  have "latest (host_fields v 0 @ file_fields ''/www//a.txt'' ?st) ''Server'' = Some ''k''"
    by (simp add: host_fields_def file_fields_def v strcaseeq_def)
  with rs' show ?thesis by (intro exI [of _ ?h] exI [of _ r] exI [of _ ?rs] exI [of _ rs']) simp
qed

text \<open>
  The supplier that the check of a URI found may be kept when the request is later resolved to the
  same file name: if the URI is not itself the name of a page, serving the request with what the
  check left in it is then the same as looking the supplier up again.  A Host field that selects
  another virtual host gives another name, and the supplier kept is that of the default host.  The
  build has the suppliers of embedded resources and of files.
\<close>

lemma cached_supplier:
  assumes "ht_sups h = broker_create (sup_emb tab page) None None (Some (sup_fs L F))" "hr_sup r = None"
    "NUL \<notin> set uri" "length uri < URI_MAX" "broker_find (ht_sups h) (hr_rq r) uri = None"
    "http_alias_resolv L P h r uri FNAME_MAX = Ok d" "rq_resolved_filename rq = Some d"
  shows "\<exists>found r1. http_is_valid_uri L P h uri (length uri) r = Ok (found, r1) \<and>
    found = (broker_find (ht_sups h) rq d \<noteq> None) \<and>
    broker_serve h (r1\<lparr>hr_rq := rq\<rparr>) rs = broker_serve h (r\<lparr>hr_rq := rq\<rparr>) rs"
proof -
  obtain found r1 where v: "broker_is_valid_uri h r d = (found, r1)" by fastforce
  have "http_is_valid_uri L P h uri (length uri) r = Ok (found, r1)"
    using assms(3-6) v by (simp add: http_is_valid_uri_def broker_is_valid_uri_def [of h r uri] Let_def)
  moreover have "found = (broker_find (ht_sups h) rq d \<noteq> None)"
    using v own_suppliers.find_path [of tab page L F rq d "hr_rq r"] assms(1)
    by (auto simp: broker_is_valid_uri_def split: option.splits)
  ultimately show ?thesis using own_suppliers.found_again [OF assms(1,2) v assms(7)] by blast
qed

end
