(* ===== verification/Codecs.thy ===== *)
theory Codecs
  imports Io_Mem
begin

text \<open>
  \<^verbatim>\<open>src/libcodec/cipher.c\<close> and \<^verbatim>\<open>src/libcodec/gzip.c\<close>: the codecs that encrypt and
  compress a stream.  OpenSSL's ciphers and zlib's streams are parameters, records of the
  functions the codecs call.  What a stream relies on from a codec is the locale \<open>pipe_codec\<close>,
  what a sink gets through a codec is proved in \<open>coded_sink\<close>; the cipher codec, the gzip codec
  and the null codec interpret them.
\<close>

section \<open>Definitions\<close>

subsection \<open>Ciphers\<close>

datatype cipher_op = CIPHER_ENCRYPT | CIPHER_DECRYPT

text \<open>
  One direction of an \<^verbatim>\<open>EVP_CIPHER\<close>: \<^verbatim>\<open>Init_ex\<close> of a key and an optional IV,
  \<^verbatim>\<open>Update\<close> (the context and the bytes written) and \<^verbatim>\<open>Final_ex\<close>; \<open>None\<close> is a zero result.
\<close>

record 'k evp_dir =
  ev_init :: "char list \<Rightarrow> char list option \<Rightarrow> 'k option"
  ev_update :: "'k \<Rightarrow> char list \<Rightarrow> ('k \<times> char list) option"
  ev_final :: "'k \<Rightarrow> char list option"

record 'k evp_cipher =
  ev_block :: nat
  ev_encrypt :: "'k evp_dir"
  ev_decrypt :: "'k evp_dir"

fun ev_dir :: "'k evp_cipher \<Rightarrow> cipher_op \<Rightarrow> 'k evp_dir" where
  "ev_dir X CIPHER_ENCRYPT = ev_encrypt X"
| "ev_dir X CIPHER_DECRYPT = ev_decrypt X"

text \<open>
  The space OpenSSL's manual asks for in a call of \<^verbatim>\<open>Update\<close> on \<open>n\<close> bytes: \<^verbatim>\<open>EncryptUpdate\<close> writes
  less than a block more than its input, \<^verbatim>\<open>DecryptUpdate\<close> up to a whole block more, unless the
  block is one byte.
\<close>

fun ev_space :: "'k evp_cipher \<Rightarrow> cipher_op \<Rightarrow> nat \<Rightarrow> nat" where
  "ev_space X CIPHER_ENCRYPT n = n + ev_block X - 1"
| "ev_space X CIPHER_DECRYPT n = (if ev_block X = 1 then n else n + ev_block X)"

definition CODEC_CIPHER_MAX_INPUT :: nat where
  "CODEC_CIPHER_MAX_INPUT = 4096"

text \<open>
  \<^verbatim>\<open>struct codec_cipher_s\<close>.  \<^verbatim>\<open>update\<close> and \<^verbatim>\<open>final\<close> follow from the operation;
  \<open>cc_final\<close> tells whether \<^verbatim>\<open>final\<close> is still set, \<open>cc_overrun\<close> records a call that writes past
  the end of \<^verbatim>\<open>cbuf\<close>, or that is given \<^verbatim>\<open>cbuf\<close> although it asks for more space.
\<close>

record 'k codec_cipher =
  cc_op :: cipher_op
  cc_ctx :: 'k
  cc_cbuf :: "char list"
  cc_coff :: nat
  cc_ccount :: nat
  cc_final :: bool
  cc_overrun :: bool

definition codec_cbufcpy :: "nat \<Rightarrow> 'k codec_cipher \<Rightarrow> char list \<times> 'k codec_cipher" where
  "codec_cbufcpy dcount cc =
     (let count = min dcount (cc_ccount cc); left = cc_ccount cc - count
      in (take count (drop (cc_coff cc) (cc_cbuf cc)),
          cc\<lparr>cc_ccount := left, cc_coff := (if left \<noteq> 0 then cc_coff cc + count else 0)\<rparr>))"

text \<open>The library writes its output to the start of \<^verbatim>\<open>cbuf\<close>.\<close>

definition cbuf_store :: "char list \<Rightarrow> 'k codec_cipher \<Rightarrow> 'k codec_cipher" where
  "cbuf_store b cc =
     cc\<lparr>cc_cbuf := b @ drop (length b) (cc_cbuf cc), cc_ccount := cc_ccount cc + length b,
        cc_overrun := (cc_overrun cc \<or> length (cc_cbuf cc) < length b)\<rparr>"

text \<open>The \<^verbatim>\<open>for\<close> loop turns at most once more after \<^verbatim>\<open>final\<close>, to hand out what it wrote.\<close>

definition flush_chunk :: "nat \<Rightarrow> 'k codec_cipher \<Rightarrow> (bool \<times> char list) option \<times> 'k codec_cipher" where
  "flush_chunk dcount cc = (case codec_cbufcpy dcount cc of (b, cc') \<Rightarrow> (Some (False, b), cc'))"

definition cipher_flush :: "'k evp_cipher \<Rightarrow> nat \<Rightarrow> 'k codec_cipher \<Rightarrow> (bool \<times> char list) option \<times> 'k codec_cipher" where
  "cipher_flush X dcount cc =
     (if cc_ccount cc \<noteq> 0 then flush_chunk dcount cc
      else if cc_final cc
      then (case ev_final (ev_dir X (cc_op cc)) (cc_ctx cc) of
              None \<Rightarrow> (None, cc)
            | Some b \<Rightarrow>
                (let cc1 = (cbuf_store b cc)\<lparr>cc_final := False\<rparr>
                 in if b \<noteq> [] then flush_chunk dcount cc1 else (Some (True, []), cc1)))
      else (Some (True, []), cc))"

definition cipher_transform ::
  "'k evp_cipher \<Rightarrow> nat \<Rightarrow> char list \<Rightarrow> 'k codec_cipher \<Rightarrow> (nat \<times> char list) option \<times> 'k codec_cipher" where
  "cipher_transform X dcount src cc =
     (if dcount = 0 \<or> src = [] then (None, cc)
      else if cc_ccount cc \<noteq> 0 then (case codec_cbufcpy dcount cc of (b, cc') \<Rightarrow> (Some (0, b), cc'))
      else
        (let c = min (length src) CODEC_CIPHER_MAX_INPUT in
         case ev_update (ev_dir X (cc_op cc)) (cc_ctx cc) (take c src) of
           None \<Rightarrow> (None, cc)
         | Some (k, b) \<Rightarrow>
             (let cc1 = (cbuf_store b cc)\<lparr>cc_ctx := k,
                          cc_overrun := (cc_overrun (cbuf_store b cc) \<or> length (cc_cbuf cc) < ev_space X (cc_op cc) c)\<rparr>
              in if b = [] then (Some (c, []), cc1)
                 else (case codec_cbufcpy dcount cc1 of (d, cc2) \<Rightarrow> (Some (c, d), cc2)))))"

definition codec_cipher_create ::
  "libu \<Rightarrow> 'k evp_cipher \<Rightarrow> cipher_op \<Rightarrow> char list \<Rightarrow> char list option \<Rightarrow> 'k codec_cipher codec option" where
  "codec_cipher_create L X op key iv =
     (let cbuf_size = CODEC_CIPHER_MAX_INPUT + ev_block X - 1 in
      if \<not> u_malloc L 4416 \<or> \<not> u_malloc L cbuf_size then None
      else map_option (\<lambda>k.
        \<lparr>cstate = \<lparr>cc_op = op, cc_ctx = k, cc_cbuf = replicate cbuf_size NUL, cc_coff = 0, cc_ccount = 0, cc_final = True,
                   cc_overrun = False\<rparr>, cdata = [], coff = 0\<rparr>) (ev_init (ev_dir X op) key iv))"

text \<open>
  \<^verbatim>\<open>u_cipher_encrypt\<close> and \<^verbatim>\<open>u_cipher_decrypt\<close> of \<^verbatim>\<open>utils.c\<close> in one step.  They do not
  look at the size the caller passes in \<^verbatim>\<open>dcount\<close>: writing more than the \<open>room\<close> bytes of the
  destination has no defined meaning.
\<close>

definition cipher_once :: "cipher_op \<Rightarrow> 'k evp_cipher \<Rightarrow> char list \<Rightarrow> char list \<Rightarrow> nat \<Rightarrow> char list \<Rightarrow> char list outcome" where
  "cipher_once op X key iv room src =
     (case ev_init (ev_dir X op) key (Some iv) of
        None \<Rightarrow> Fail
      | Some k \<Rightarrow>
          (case ev_update (ev_dir X op) k src of
             None \<Rightarrow> Fail
           | Some (k1, b1) \<Rightarrow>
               (if room < length b1 then Fault
                else case ev_final (ev_dir X op) k1 of
                  None \<Rightarrow> Fail
                | Some b2 \<Rightarrow> if room < length b1 + length b2 then Fault else Ok (b1 @ b2))))"

definition u_cipher_encrypt :: "'k evp_cipher \<Rightarrow> char list \<Rightarrow> char list \<Rightarrow> nat \<Rightarrow> char list \<Rightarrow> char list outcome" where
  "u_cipher_encrypt X key iv room src = cipher_once CIPHER_ENCRYPT X key iv room src"

definition u_cipher_decrypt :: "'k evp_cipher \<Rightarrow> char list \<Rightarrow> char list \<Rightarrow> nat \<Rightarrow> char list \<Rightarrow> char list outcome" where
  "u_cipher_decrypt X key iv room src = cipher_once CIPHER_DECRYPT X key iv room src"

subsection \<open>Compression\<close>

datatype gzip_op = GZIP_COMPRESS | GZIP_UNCOMPRESS

datatype z_ret = Z_OK | Z_STREAM_END | Z_ERROR

text \<open>
  \<^verbatim>\<open>deflate\<close> or \<^verbatim>\<open>inflate\<close> on a stream: whether the flush argument is \<^verbatim>\<open>Z_FINISH\<close>, the
  input, the room for output; the result code, the number of bytes consumed and the bytes
  written.
\<close>

record 'z zlib =
  z_start :: "gzip_op \<Rightarrow> 'z option"
  z_step :: "gzip_op \<Rightarrow> bool \<Rightarrow> char list \<Rightarrow> nat \<Rightarrow> 'z \<Rightarrow> z_ret \<times> nat \<times> char list \<times> 'z"
  z_end :: "gzip_op \<Rightarrow> 'z \<Rightarrow> bool"

record 'z codec_gzip =
  gz_action :: gzip_op
  gz_err :: z_ret
  gz_str :: 'z

text \<open>\<^verbatim>\<open>gzip_flush\<close> with zlib 1.2 or later.\<close>

definition gzip_flush :: "'z zlib \<Rightarrow> nat \<Rightarrow> 'z codec_gzip \<Rightarrow> (bool \<times> char list) option \<times> 'z codec_gzip" where
  "gzip_flush Z dcount iz =
     (if gz_err iz = Z_STREAM_END then (Some (True, []), iz)
      else case z_step Z (gz_action iz) (gz_action iz = GZIP_COMPRESS) [] dcount (gz_str iz) of
        (r, n, b, z) \<Rightarrow>
          (let iz1 = iz\<lparr>gz_err := r, gz_str := z\<rparr>
           in if r = Z_ERROR then (None, iz1) else (Some (r = Z_STREAM_END \<and> b = [], b), iz1)))"

definition gzip_transform ::
  "'z zlib \<Rightarrow> nat \<Rightarrow> char list \<Rightarrow> 'z codec_gzip \<Rightarrow> (nat \<times> char list) option \<times> 'z codec_gzip" where
  "gzip_transform Z dcount src iz =
     (if dcount = 0 \<or> src = [] then (None, iz)
      else case z_step Z (gz_action iz) False src dcount (gz_str iz) of
        (r, n, b, z) \<Rightarrow>
          (let iz1 = iz\<lparr>gz_err := r, gz_str := z\<rparr> in if r = Z_ERROR then (None, iz1) else (Some (n, b), iz1)))"

text \<open>\<^verbatim>\<open>gzip_free\<close> does not release the codec when zlib refuses to end the stream.\<close>

definition gzip_free :: "'z zlib \<Rightarrow> 'z codec_gzip \<Rightarrow> bool" where
  "gzip_free Z iz \<longleftrightarrow> z_end Z (gz_action iz) (gz_str iz)"

definition codec_gzip_create :: "libu \<Rightarrow> 'z zlib \<Rightarrow> gzip_op \<Rightarrow> 'z codec_gzip codec option" where
  "codec_gzip_create L Z op =
     (if \<not> u_malloc L 4304 then None
      else map_option (\<lambda>z. \<lparr>cstate = \<lparr>gz_action = op, gz_err = Z_OK, gz_str = z\<rparr>, cdata = [], coff = 0\<rparr>) (z_start Z op))"

section \<open>What a stream relies on\<close>

text \<open>
  \<open>emits c s\<close> is all that a codec in state \<open>c\<close> will produce when it is given \<open>s\<close> and then
  flushed; \<open>None\<close> when it will fail.  Each call hands out a prefix of that, and makes progress.
\<close>

locale pipe_codec =
  fixes tr :: "nat \<Rightarrow> char list \<Rightarrow> 'c \<Rightarrow> (nat \<times> char list) option \<times> 'c"
    and fl :: "nat \<Rightarrow> 'c \<Rightarrow> (bool \<times> char list) option \<times> 'c"
    and emits :: "'c \<Rightarrow> char list \<Rightarrow> char list option"
  assumes transform_law: "emits c (src @ t) = Some e \<Longrightarrow> src \<noteq> [] \<Longrightarrow> 0 < cap \<Longrightarrow>
      \<exists>n b c' e'. tr cap src c = (Some (n, b), c') \<and> n \<le> length src \<and> length b \<le> cap \<and> (n = 0 \<longrightarrow> b \<noteq> []) \<and>
        emits c' (drop n src @ t) = Some e' \<and> e = b @ e'"
    and flush_law: "emits c [] = Some e \<Longrightarrow> 0 < cap \<Longrightarrow>
      (e = [] \<and> (\<exists>c'. fl cap c = (Some (True, []), c') \<and> emits c' [] = Some [])) \<or>
      (\<exists>b c' e'. fl cap c = (Some (False, b), c') \<and> b \<noteq> [] \<and> length b \<le> cap \<and> emits c' [] = Some e' \<and> e = b @ e')"

locale coded_sink = sink_device E sunk space good + pipe_codec "c_transform E" "c_flush E" emits
  for E :: "('d, 'c) io_ops" and sunk space good emits
begin

text \<open>A stream that writes through one codec, and owes \<open>e\<close> once it has been given \<open>s\<close> and flushed.\<close>

definition coded :: "('d, 'c) io \<Rightarrow> char list \<Rightarrow> char list \<Rightarrow> bool" where
  "coded io s e \<longleftrightarrow> wok (io\<lparr>chain := []\<rparr>) \<and> (\<exists>c. chain io = [c] \<and> emits (cstate c) s = Some e) \<and> length e \<le> room io"

lemma coded_flush_if_full:
  assumes "coded io s e" "wballoc io"
  shows "\<exists>io1. flush_if_full E io = Done io1 \<and> coded io1 s e \<and> wballoc io1 \<and> written io1 = written io \<and> chain io1 = chain io \<and>
     wcount io1 < length (wbuf io1)"
proof (cases "length (wbuf io) = wcount io")
  case True
  have "good (dev io)" "wcount io \<le> space (dev io)" "0 + wcount io \<le> length (wbuf io)"
    using assms(1) by (simp_all add: coded_def wok_def)
  from flush_loop_ok [OF this] obtain d' where d': "flush_loop E 0 io = Done (io\<lparr>dev := d', wcount := 0\<rparr>)" "good d'"
    "sunk d' = written io" "space d' = room io" by (auto simp: written_def room_def)
  let ?io = "io\<lparr>dev := d', wcount := 0\<rparr>"
  have "coded ?io s e" "written ?io = written io" using assms d' by (auto simp: coded_def wok_def written_def room_def)
  moreover have "0 < length (wbuf io)" using assms by (simp add: coded_def wok_def IO_WR_BUFSZ_def)
  ultimately show ?thesis using True d'(1) assms(2) by (auto simp: flush_if_full_def io_flush_def)
next
  case False
  with assms show ?thesis by (auto simp: flush_if_full_def coded_def wok_def)
qed

lemma coded_put:
  assumes "coded io s e" "wballoc io" "length b \<le> length (wbuf io) - wcount io" "emits (cstate c) s' = Some e'" "e = b @ e'"
  shows "coded (wbuf_put b (io\<lparr>chain := [c]\<rparr>)) s' e'" "wballoc (wbuf_put b (io\<lparr>chain := [c]\<rparr>))"
    "written (wbuf_put b (io\<lparr>chain := [c]\<rparr>)) = written io @ b"
  using assms by (auto simp: coded_def wok_def wbuf_put_def written_def room_def)

text \<open>Writing through a codec: the stream has taken a prefix of what the codec owes.\<close>

lemma write_loop_coded:
  "coded io (b @ t) e \<Longrightarrow> wballoc io \<Longrightarrow>
   \<exists>io' e1 e2. write_loop E b io = Some (Done io') \<and> coded io' t e2 \<and> wballoc io' \<and> written io' = written io @ e1 \<and> e = e1 @ e2"
proof (induction "length b + length e" arbitrary: b io e rule: less_induct)
  case less
  show ?case
  proof (cases "b = []")
    case True
    with less.prems show ?thesis by (subst write_loop.simps) auto
  next
    case False
    from coded_flush_if_full [OF less.prems] obtain io1 where
      io1: "flush_if_full E io = Done io1" "coded io1 (b @ t) e" "wballoc io1" "written io1 = written io" "wcount io1 < length (wbuf io1)"
      by blast
    let ?cap = "length (wbuf io1) - wcount io1"
    from io1(2) obtain c where c: "chain io1 = [c]" "emits (cstate c) (b @ t) = Some e" by (auto simp: coded_def)
    have cap: "0 < ?cap" using io1(5) by simp
    from transform_law [OF c(2) False cap] obtain n o1 st e' where
      t: "c_transform E ?cap b (cstate c) = (Some (n, o1), st)" "n \<le> length b" "length o1 \<le> ?cap" "n = 0 \<longrightarrow> o1 \<noteq> []"
        "emits st (drop n b @ t) = Some e'" "e = o1 @ e'" by blast
    let ?c = "c\<lparr>cstate := st\<rparr>" and ?io2 = "wbuf_put o1 (io1\<lparr>chain := [c\<lparr>cstate := st\<rparr>]\<rparr>)"
    have ne: "\<not> (n = 0 \<and> o1 = [])" using t(4) by auto
    have tr: "io_transfer E ?cap b (chain io1) = Some ([?c], Some (n, o1))"
      using c(1) t(1) ne by (simp add: io_transfer_def, subst io_transform.simps) auto
    have step: "write_loop E b io = write_loop E (drop n b) ?io2"
      using False io1(1) ne by (subst write_loop.simps) (auto simp: tr)
    have "emits (cstate ?c) (drop n b @ t) = Some e'" using t(5) by simp
    note p = coded_put [OF io1(2,3) t(3) this t(6)]
    have "length (drop n b) + length e' < length b + length e" using t(2,4,6) False by (cases "n = 0") auto
    from less.hyps [OF this p(1,2)] p(3) io1(4) t(6) step show ?thesis by (metis append.assoc)
  qed
qed

text \<open>Flushing the codec: the stream gets the rest of what the codec owes, and is a plain stream again.\<close>

lemma put_loop_ok:
  assumes "wok (io\<lparr>chain := []\<rparr>)" "wballoc io" "length b \<le> room io"
  shows "\<exists>io'. put_loop E b io = Some (Done io') \<and> wok (io'\<lparr>chain := []\<rparr>) \<and> wballoc io' \<and> written io' = written io @ b \<and>
     room io' = room io - length b \<and> chain io' = chain io"
  using assms
proof (induction "length b" arbitrary: b io rule: less_induct)
  case less
  show ?case
  proof (cases "b = []")
    case True
    with less.prems show ?thesis by (subst put_loop.simps) simp
  next
    case False
    obtain io1 where io1: "flush_if_full E io = Done io1" "wok (io1\<lparr>chain := []\<rparr>)" "wballoc io1" "written io1 = written io"
        "room io1 = room io" "chain io1 = chain io" "wcount io1 < length (wbuf io1)"
    proof (cases "length (wbuf io) = wcount io")
      case True
      have "good (dev io)" "wcount io \<le> space (dev io)" "0 + wcount io \<le> length (wbuf io)" using less.prems(1) by (simp_all add: wok_def)
      from flush_loop_ok [OF this] obtain d' where d': "flush_loop E 0 io = Done (io\<lparr>dev := d', wcount := 0\<rparr>)" "good d'"
        "sunk d' = written io" "space d' = room io" by (auto simp: written_def room_def)
      have "0 < length (wbuf io)" using less.prems(1,2) by (simp add: wok_def IO_WR_BUFSZ_def)
      with True d' less.prems that [of "io\<lparr>dev := d', wcount := 0\<rparr>"] show ?thesis
        by (auto simp: flush_if_full_def io_flush_def wok_def written_def room_def)
    next
      case False
      with less.prems that [of io] show ?thesis by (auto simp: flush_if_full_def wok_def)
    qed
    define n where "n = min (length b) (length (wbuf io1) - wcount io1)"
    let ?io2 = "wbuf_put (take n b) io1"
    have n: "0 < n" "n \<le> length b" "wcount io1 + n \<le> length (wbuf io1)" using False io1(7) by (auto simp: n_def)
    have step: "put_loop E b io = put_loop E (drop n b) ?io2"
      using False io1(1) by (subst put_loop.simps) (simp add: Let_def n_def)
    have io2: "wok (?io2\<lparr>chain := []\<rparr>)" "wballoc ?io2" "written ?io2 = written io @ take n b" "room ?io2 = room io - n" "chain ?io2 = chain io"
      using io1 n less.prems(3) by (auto simp: wok_def wbuf_put_def written_def room_def)
    have "length (drop n b) < length b" "length (drop n b) \<le> room ?io2" using False n io2(4) less.prems(3) by auto
    from less.hyps [OF this(1) io2(1,2) this(2)] io2 n step show ?thesis by (auto simp: append.assoc [symmetric])
  qed
qed

lemma chain_flush_coded:
  "coded io [] e \<Longrightarrow> wballoc io \<Longrightarrow>
   \<exists>io'. io_chain_flush E io = Some (Done io') \<and> wok (io'\<lparr>chain := []\<rparr>) \<and> wballoc io' \<and> written io' = written io @ e"
proof (induction "length e" arbitrary: io e rule: less_induct)
  case less
  then obtain c where c: "chain io = [c]" "emits (cstate c) [] = Some e" by (auto simp: coded_def)
  have w: "wok (io\<lparr>chain := []\<rparr>)" "length e \<le> room io" using less.prems(1) by (simp_all add: coded_def)
  have cap: "0 < (4096 :: nat)" by simp
  from flush_law [OF c(2) cap] consider (complete) st where "e = []" "c_flush E 4096 (cstate c) = (Some (True, []), st)"
    | (chunk) b st e' where "c_flush E 4096 (cstate c) = (Some (False, b), st)" "b \<noteq> []" "emits st [] = Some e'" "e = b @ e'"
    by blast
  then show ?case
  proof cases
    case complete
    then have "io_chain_flush_chunk E 4096 (chain io) = Some ([c\<lparr>cstate := st\<rparr>], Some (True, []))"
      using c(1) by (subst io_chain_flush_chunk.simps) simp
    then have "io_chain_flush E io = Some (Done (io\<lparr>chain := [c\<lparr>cstate := st\<rparr>]\<rparr>))" by (subst io_chain_flush.simps) simp
    with w(1) less.prems(2) complete(1) show ?thesis by (simp add: written_def)
  next
    case chunk
    let ?io = "io\<lparr>chain := [c\<lparr>cstate := st\<rparr>]\<rparr>"
    have "io_chain_flush_chunk E 4096 (chain io) = Some ([c\<lparr>cstate := st\<rparr>], Some (False, b))"
      using c(1) chunk(1) by (subst io_chain_flush_chunk.simps) simp
    then have step: "io_chain_flush E io = Option.bind (put_loop E b ?io) (\<lambda>q. case q of
            Done io2 \<Rightarrow> io_chain_flush E io2 | Failed io2 \<Rightarrow> Some (Failed io2) | Crash \<Rightarrow> Some Crash)"
      by (subst io_chain_flush.simps) simp
    have "wok (?io\<lparr>chain := []\<rparr>)" "wballoc ?io" "length b \<le> room ?io" using w chunk(4) less.prems(2) by (simp_all add: room_def)
    from put_loop_ok [OF this] obtain io2 where
      io2: "put_loop E b ?io = Some (Done io2)" "wok (io2\<lparr>chain := []\<rparr>)" "wballoc io2" "written io2 = written io @ b"
        "room io2 = room io - length b" "chain io2 = [c\<lparr>cstate := st\<rparr>]" by (auto simp: written_def room_def)
    have "coded io2 [] e'" using io2 chunk(3,4) w(2) by (simp add: coded_def)
    moreover have "length e' < length e" using chunk(2,4) by simp
    ultimately obtain io' where "io_chain_flush E io2 = Some (Done io')" "wok (io'\<lparr>chain := []\<rparr>)" "wballoc io'"
      "written io' = written io2 @ e'" using less.hyps io2(3) by blast
    with step io2(1,4) chunk(4) show ?thesis by simp
  qed
qed

lemma io_write_coded:
  assumes "libu_ok L" "libu_mem L" "coded io (b @ t) e"
  shows "\<exists>io' e1 e2. io_write L E b io = Some (Done io') \<and> coded io' t e2 \<and> wballoc io' \<and> written io' = written io @ e1 \<and> e = e1 @ e2"
proof (cases "wballoc io")
  case True
  with write_loop_coded [OF assms(3)] show ?thesis by (simp add: io_write_def)
next
  case False
  let ?io = "io\<lparr>wballoc := True, wbuf := replicate IO_WR_BUFSZ NUL\<rparr>"
  have "wcount io = 0" using assms(3) False by (auto simp: coded_def wok_def)
  then have a: "coded ?io (b @ t) e" "wballoc ?io" "written ?io = written io"
    using assms(3) by (auto simp: coded_def wok_def written_def room_def)
  have "io_write L E b io = write_loop E b ?io"
    using False by (simp add: io_write_def io_wbuf_alloc_def libu_memD [OF assms(1,2)])
  with write_loop_coded [OF a(1,2)] a(3) show ?thesis by simp
qed

text \<open>Any run of writes, then the removal of the codec.\<close>

lemma write_all_coded:
  assumes "libu_ok L" "libu_mem L"
  shows "coded io (concat bs @ t) e \<Longrightarrow> bs \<noteq> [] \<Longrightarrow>
    \<exists>io' e1 e2. write_all L E bs io = Some (Done io') \<and> coded io' t e2 \<and> wballoc io' \<and> written io' = written io @ e1 \<and> e = e1 @ e2"
proof (induction bs arbitrary: io e)
  case (Cons b bs)
  then have "coded io (b @ concat bs @ t) e" by simp
  from io_write_coded [OF assms this] obtain io1 e1 e2 where
    io1: "io_write L E b io = Some (Done io1)" "coded io1 (concat bs @ t) e2" "wballoc io1" "written io1 = written io @ e1" "e = e1 @ e2"
    by blast
  show ?case
  proof (cases "bs = []")
    case True
    with io1 show ?thesis by auto
  next
    case False
    from Cons.IH [OF io1(2) False] obtain io' e3 e4 where
      "write_all L E bs io1 = Some (Done io')" "coded io' t e4" "wballoc io'" "written io' = written io1 @ e3" "e2 = e3 @ e4" by blast
    then show ?thesis using io1 by - (rule exI [of _ io'], rule exI [of _ "e1 @ e3"], rule exI [of _ e4], simp)
  qed
qed simp

lemma coded_remove:
  assumes "coded io [] e" "wballoc io"
  shows "\<exists>io'. io_codecs_remove E io = Some (Done io') \<and> wok io' \<and> wballoc io' \<and> written io' = written io @ e"
proof -
  from chain_flush_coded [OF assms] obtain io' where
    "io_chain_flush E io = Some (Done io')" "wok (io'\<lparr>chain := []\<rparr>)" "wballoc io'" "written io' = written io @ e" by blast
  moreover have "chain io \<noteq> []" using assms(1) by (auto simp: coded_def)
  ultimately show ?thesis using assms(2) by (auto simp: io_codecs_remove_def written_def)
qed

end

locale coded_source = source_device E pending good + pipe_codec "c_transform E" "c_flush E" emits
  for E :: "('d, 'c) io_ops" and pending good emits
begin

text \<open>A stream that reads through one codec, and what it still has to deliver.\<close>

definition coded_in :: "('d, 'c) io \<Rightarrow> bool" where
  "coded_in io \<longleftrightarrow> good (dev io) \<and> (\<exists>c. chain io = [c] \<and> emits (cstate c) (ubuf io @ pending (dev io)) \<noteq> None)"

definition coded_avail :: "('d, 'c) io \<Rightarrow> char list" where
  "coded_avail io = rbuf io @ the (emits (cstate (hd (chain io))) (ubuf io @ pending (dev io)))"

definition coded_same :: "('d, 'c) io \<Rightarrow> ('d, 'c) io \<Rightarrow> bool" where
  "coded_same io io' \<longleftrightarrow> refcnt io' = refcnt io \<and> wbuf io' = wbuf io \<and> wballoc io' = wballoc io \<and> wcount io' = wcount io"

lemma coded_underflow:
  "coded_in io \<Longrightarrow> rbuf io = [] \<Longrightarrow>
   \<exists>io'. underflow_loop E io = Some (Done io') \<and> coded_in io' \<and> coded_avail io' = coded_avail io \<and>
     (rbuf io' = [] \<longleftrightarrow> coded_avail io = []) \<and> coded_same io io' \<and> rtot io' = rtot io"
proof (induction "length (ubuf io) + length (pending (dev io))" arbitrary: io rule: less_induct)
  case less
  from less.prems(1) obtain c e where g: "good (dev io)" and c: "chain io = [c]" "emits (cstate c) (ubuf io @ pending (dev io)) = Some e"
    by (auto simp: coded_in_def)
  have av: "coded_avail io = e" using c less.prems(2) by (simp add: coded_avail_def)
  have pos: "0 < IO_RD_BUFSZ" by (simp add: IO_RD_BUFSZ_def)
  obtain u d where u: "(if ubuf io \<noteq> [] then (Some (ubuf io), dev io) else d_read E IO_RD_BUFSZ (dev io)) = (Some u, d)"
    "u @ pending d = ubuf io @ pending (dev io)" "good d" "u = [] \<longrightarrow> ubuf io = [] \<and> pending (dev io) = []"
    using read_law [OF g pos] g by (cases "ubuf io = []") force+
  show ?case
  proof (cases "u = []")
    case True
    then have "pending d = []" "emits (cstate c) [] = Some e" using u(2,4) c(2) by auto
    from flush_law [OF this(2) pos] obtain k b st e' where
      f: "c_flush E IO_RD_BUFSZ (cstate c) = (Some (k, b), st)" "emits st [] = Some e'" "e = b @ e'" "b = [] \<longleftrightarrow> e = []" by fastforce
    let ?io = "io\<lparr>dev := d, chain := [c\<lparr>cstate := st\<rparr>], rbuf := b, eof := (if k then eof io + 1 else eof io)\<rparr>"
    have "io_chain_flush_chunk E IO_RD_BUFSZ (chain io) = Some ([c\<lparr>cstate := st\<rparr>], Some (k, b))"
      using c(1) f(1) by (subst io_chain_flush_chunk.simps) simp
    then have "underflow_loop E io = Some (Done ?io)"
      using u(1) True less.prems(2) c(1) by (subst underflow_loop.simps) (simp add: Let_def)
    moreover have "coded_in ?io" "coded_avail ?io = e"
      using u(3,4) True f \<open>pending d = []\<close> by (simp_all add: coded_in_def coded_avail_def)
    ultimately show ?thesis using av f(4) by (auto simp: coded_same_def)
  next
    case False
    have "emits (cstate c) (u @ pending d) = Some e" using c(2) u(2) by simp
    from transform_law [OF this False pos] obtain n b st e' where
      t: "c_transform E IO_RD_BUFSZ u (cstate c) = (Some (n, b), st)" "n \<le> length u" "n = 0 \<longrightarrow> b \<noteq> []"
        "emits st (drop n u @ pending d) = Some e'" "e = b @ e'" by blast
    let ?io = "io\<lparr>dev := d, chain := [c\<lparr>cstate := st\<rparr>], ubuf := drop n u, rbuf := b\<rparr>"
    have ne: "\<not> (n = 0 \<and> b = [])" using t(3) by auto
    have "io_transfer E IO_RD_BUFSZ u (chain io) = Some ([c\<lparr>cstate := st\<rparr>], Some (n, b))"
      using c(1) t(1) ne by (simp add: io_transfer_def, subst io_transform.simps) auto
    then have step: "underflow_loop E io = underflow_loop E ?io"
      using u(1) False less.prems(2) ne by (subst underflow_loop.simps) (auto simp: Let_def)
    have io1: "coded_in ?io" "coded_avail ?io = e" "coded_same io ?io" "rtot ?io = rtot io"
      using u(3) t(4,5) by (simp_all add: coded_in_def coded_avail_def coded_same_def)
    show ?thesis
    proof (cases "b = []")
      case True
      have "length (drop n u) + length (pending d) < length (ubuf io) + length (pending (dev io))"
        using arg_cong [OF u(2), of length] t(2,3) True by auto
      with less.hyps [of ?io] io1(1) True obtain io' where
        "underflow_loop E ?io = Some (Done io')" "coded_in io'" "coded_avail io' = coded_avail ?io"
        "rbuf io' = [] \<longleftrightarrow> coded_avail ?io = []" "coded_same ?io io'" "rtot io' = rtot ?io" by auto
      with step io1 av show ?thesis by (auto simp: coded_same_def)
    next
      case False
      then have "underflow_loop E ?io = Some (Done ?io)" by (intro underflow_loop_rbuf) simp
      with step io1 av False t(5) show ?thesis by auto
    qed
  qed
qed

end

sublocale coded_source \<subseteq> coded: read_stream E coded_in coded_avail coded_same
proof
  show "\<exists>io'. underflow_loop E io = Some (Done io') \<and> coded_in io' \<and> coded_avail io' = coded_avail io \<and>
     (rbuf io' = [] \<longleftrightarrow> coded_avail io = []) \<and> coded_same io io' \<and> rtot io' = rtot io" if "coded_in io" "rbuf io = []" for io
    by (rule coded_underflow [OF that])
qed (auto simp: coded_in_def coded_avail_def coded_same_def rbuf_take_def)

section \<open>The codecs keep the contract\<close>

interpretation null_pipe: pipe_codec null_transform null_flush "\<lambda>u s. Some s"
proof
  fix u :: unit and src t e :: "char list" and cap :: nat
  assume "Some (src @ t) = Some e" "src \<noteq> []" "0 < cap"
  then show "\<exists>n b c' e'. null_transform cap src u = (Some (n, b), c') \<and> n \<le> length src \<and> length b \<le> cap \<and> (n = 0 \<longrightarrow> b \<noteq> []) \<and>
        Some (drop n src @ t) = Some e' \<and> e = b @ e'"
    by - (rule exI [of _ "min (length src) cap"], rule exI [of _ "take (min (length src) cap) src"], rule exI [of _ "()"],
        rule exI [of _ "drop (min (length src) cap) src @ t"],
        auto simp: null_transform_def Let_def min_def)
qed (auto simp: null_flush_def)

subsection \<open>The cipher codec\<close>

text \<open>
  What OpenSSL documents of a cipher: a message may be given to \<^verbatim>\<open>Update\<close> in any number of
  pieces, a call writes no more than the space it asks for, and \<^verbatim>\<open>Final_ex\<close> writes at most one
  block.
\<close>

definition evp_ok :: "'k evp_cipher \<Rightarrow> cipher_op \<Rightarrow> bool" where
  "evp_ok X op \<longleftrightarrow>
     (\<forall>k a b. ev_update (ev_dir X op) k (a @ b) =
        Option.bind (ev_update (ev_dir X op) k a) (\<lambda>(k1, o1). map_option (\<lambda>(k2, o2). (k2, o1 @ o2)) (ev_update (ev_dir X op) k1 b))) \<and>
     (\<forall>k. ev_update (ev_dir X op) k [] = Some (k, [])) \<and>
     (\<forall>k a k1 o1. ev_update (ev_dir X op) k a = Some (k1, o1) \<longrightarrow> length o1 \<le> ev_space X op (length a)) \<and>
     (\<forall>k b. ev_final (ev_dir X op) k = Some b \<longrightarrow> length b \<le> ev_block X) \<and> 0 < ev_block X"

text \<open>
  The inputs for which \<^verbatim>\<open>cbuf\<close> is large enough: all of them when encrypting; when decrypting, those
  that do not fill \<^verbatim>\<open>CODEC_CIPHER_MAX_INPUT\<close>, unless the block is one byte.
\<close>

definition within :: "'k evp_cipher \<Rightarrow> cipher_op \<Rightarrow> nat \<Rightarrow> bool" where
  "within X op n \<longleftrightarrow> op = CIPHER_ENCRYPT \<or> ev_block X = 1 \<or> n < CODEC_CIPHER_MAX_INPUT"

lemma within_mono: "within X op n \<Longrightarrow> m \<le> n \<Longrightarrow> within X op m"
  by (auto simp: within_def)

lemma within_0 [simp]: "within X op 0"
  by (simp add: within_def CODEC_CIPHER_MAX_INPUT_def)

lemma within_space:
  "within X op c \<Longrightarrow> c \<le> CODEC_CIPHER_MAX_INPUT \<Longrightarrow> 0 < ev_block X \<Longrightarrow>
   ev_space X op c \<le> CODEC_CIPHER_MAX_INPUT + ev_block X - 1"
  by (cases op) (auto simp: within_def)

text \<open>The whole message in one call: what the codec is to compute.\<close>

definition evp_run :: "'k evp_dir \<Rightarrow> 'k \<Rightarrow> char list \<Rightarrow> char list option" where
  "evp_run D k s = Option.bind (ev_update D k s) (\<lambda>(k', b). map_option (\<lambda>r. b @ r) (ev_final D k'))"

definition cc_pending :: "'k codec_cipher \<Rightarrow> char list" where
  "cc_pending cc = take (cc_ccount cc) (drop (cc_coff cc) (cc_cbuf cc))"

definition cc_ok :: "'k evp_cipher \<Rightarrow> 'k codec_cipher \<Rightarrow> bool" where
  "cc_ok X cc \<longleftrightarrow> evp_ok X (cc_op cc) \<and> length (cc_cbuf cc) = CODEC_CIPHER_MAX_INPUT + ev_block X - 1 \<and>
     cc_coff cc + cc_ccount cc \<le> length (cc_cbuf cc) \<and> (cc_ccount cc = 0 \<longrightarrow> cc_coff cc = 0) \<and> \<not> cc_overrun cc"

definition cipher_emits :: "'k evp_cipher \<Rightarrow> 'k codec_cipher \<Rightarrow> char list \<Rightarrow> char list option" where
  "cipher_emits X cc s =
     (if \<not> cc_ok X cc \<or> \<not> within X (cc_op cc) (length s) then None
      else if cc_final cc then map_option (\<lambda>b. cc_pending cc @ b) (evp_run (ev_dir X (cc_op cc)) (cc_ctx cc) s)
      else if s = [] then Some (cc_pending cc) else None)"

lemma evp_okD:
  assumes "evp_ok X op"
  defines "D \<equiv> ev_dir X op"
  shows "ev_update D k (a @ b) = Option.bind (ev_update D k a) (\<lambda>(k1, o1). map_option (\<lambda>(k2, o2). (k2, o1 @ o2)) (ev_update D k1 b))"
    "ev_update D k [] = Some (k, [])" "ev_update D k a = Some (k1, o1) \<Longrightarrow> length o1 \<le> ev_space X op (length a)"
    "ev_final D k = Some f \<Longrightarrow> length f \<le> ev_block X" "0 < ev_block X"
  using assms(1) unfolding evp_ok_def D_def by blast+

lemma evp_run_append:
  assumes "evp_ok X op" "evp_run (ev_dir X op) k (a @ b) = Some e"
  obtains k1 o1 e1 where "ev_update (ev_dir X op) k a = Some (k1, o1)" "evp_run (ev_dir X op) k1 b = Some e1" "e = o1 @ e1"
  using assms(2) unfolding evp_run_def evp_okD(1) [OF assms(1)] by (auto simp: bind_eq_Some_conv)

lemma cbufcpy_ok:
  assumes "cc_ok X cc"
  shows "fst (codec_cbufcpy n cc) = take n (cc_pending cc)" "cc_pending (snd (codec_cbufcpy n cc)) = drop n (cc_pending cc)"
    "cc_ok X (snd (codec_cbufcpy n cc))" "cc_op (snd (codec_cbufcpy n cc)) = cc_op cc" "cc_ctx (snd (codec_cbufcpy n cc)) = cc_ctx cc"
    "cc_final (snd (codec_cbufcpy n cc)) = cc_final cc"
  using assms by (auto simp: codec_cbufcpy_def cc_pending_def cc_ok_def Let_def min_def drop_take add.commute)

lemma pending_nonempty: "cc_ok X cc \<Longrightarrow> cc_pending cc = [] \<longleftrightarrow> cc_ccount cc = 0"
  by (auto simp: cc_pending_def cc_ok_def)

lemma cbuf_store_ok:
  assumes "cc_ok X cc" "cc_ccount cc = 0" "length b \<le> length (cc_cbuf cc)"
  shows "cc_ok X (cbuf_store b cc)" "cc_pending (cbuf_store b cc) = b" "cc_op (cbuf_store b cc) = cc_op cc"
    "cc_ctx (cbuf_store b cc) = cc_ctx cc" "cc_final (cbuf_store b cc) = cc_final cc"
  using assms by (auto simp: cbuf_store_def cc_ok_def cc_pending_def)

lemma cc_overrun_same: "\<not> P \<Longrightarrow> cc\<lparr>cc_ctx := k, cc_overrun := (cc_overrun cc \<or> P)\<rparr> = cc\<lparr>cc_ctx := k\<rparr>"
  by simp

lemma cc_ok_upd [simp]: "cc_ok X (cc\<lparr>cc_ctx := k\<rparr>) = cc_ok X cc" "cc_ok X (cc\<lparr>cc_final := f\<rparr>) = cc_ok X cc"
  "cc_pending (cc\<lparr>cc_ctx := k\<rparr>) = cc_pending cc" "cc_pending (cc\<lparr>cc_final := f\<rparr>) = cc_pending cc"
  by (simp_all add: cc_ok_def cc_pending_def)

interpretation cipher_pipe: pipe_codec "cipher_transform X" "cipher_flush X" "cipher_emits X" for X :: "'k evp_cipher"
proof
  fix cc :: "'k codec_cipher" and src t e :: "char list" and cap :: nat
  assume em: "cipher_emits X cc (src @ t) = Some e" and src: "src \<noteq> []" and cap: "0 < cap"
  let ?D = "ev_dir X (cc_op cc)"
  from em src obtain r where ok: "cc_ok X cc" and fin: "cc_final cc" and r: "evp_run ?D (cc_ctx cc) (src @ t) = Some r" "e = cc_pending cc @ r"
    and wi: "within X (cc_op cc) (length (src @ t))"
    by (auto simp: cipher_emits_def split: if_splits)
  show "\<exists>n b c' e'. cipher_transform X cap src cc = (Some (n, b), c') \<and> n \<le> length src \<and> length b \<le> cap \<and> (n = 0 \<longrightarrow> b \<noteq> []) \<and>
        cipher_emits X c' (drop n src @ t) = Some e' \<and> e = b @ e'"
  proof (cases "cc_ccount cc = 0")
    case False
    let ?c = "snd (codec_cbufcpy cap cc)"
    have "cipher_transform X cap src cc = (Some (0, take cap (cc_pending cc)), ?c)"
      using cap src False cbufcpy_ok(1) [OF ok, of cap] by (simp add: cipher_transform_def split: prod.splits) (metis fst_conv)
    moreover have "cipher_emits X ?c (src @ t) = Some (drop cap (cc_pending cc) @ r)"
      using cbufcpy_ok [OF ok, of cap] fin r(1) wi by (simp add: cipher_emits_def)
    moreover have "cc_pending cc \<noteq> []" using False pending_nonempty [OF ok] by simp
    ultimately show ?thesis using r(2) cap
      by - (rule exI [of _ 0], rule exI [of _ "take cap (cc_pending cc)"], rule exI [of _ ?c], rule exI [of _ "drop cap (cc_pending cc) @ r"], auto)
  next
    case True
    define m where "m = min (length src) CODEC_CIPHER_MAX_INPUT"
    have m: "0 < m" "m \<le> length src" "m \<le> 4096" using src by (auto simp: m_def CODEC_CIPHER_MAX_INPUT_def)
    have evp: "evp_ok X (cc_op cc)" using ok by (simp add: cc_ok_def)
    have "evp_run ?D (cc_ctx cc) (take m src @ drop m src @ t) = Some r"
      using r(1) by (simp only: append.assoc [symmetric] append_take_drop_id)
    then obtain k1 o1 e1 where u: "ev_update ?D (cc_ctx cc) (take m src) = Some (k1, o1)" "evp_run ?D k1 (drop m src @ t) = Some e1" "r = o1 @ e1"
      by (rule evp_run_append [OF evp])
    have space: "ev_space X (cc_op cc) m \<le> length (cc_cbuf cc)"
      using within_space [OF within_mono [OF wi, of m] _ evp_okD(5) [OF evp]] m ok by (simp add: cc_ok_def CODEC_CIPHER_MAX_INPUT_def)
    then have fits: "length o1 \<le> length (cc_cbuf cc)" using evp_okD(3) [OF evp u(1)] m(2) by simp
    from space have same: "(cbuf_store o1 cc)\<lparr>cc_ctx := k1,
        cc_overrun := (cc_overrun (cbuf_store o1 cc) \<or> length (cc_cbuf cc) < ev_space X (cc_op cc) m)\<rparr> = (cbuf_store o1 cc)\<lparr>cc_ctx := k1\<rparr>"
      by (intro cc_overrun_same) simp
    have wd: "within X (cc_op cc) (length (drop m src @ t))" using within_mono [OF wi] by simp
    let ?c1 = "(cbuf_store o1 cc)\<lparr>cc_ctx := k1\<rparr>" and ?c2 = "snd (codec_cbufcpy cap ((cbuf_store o1 cc)\<lparr>cc_ctx := k1\<rparr>))"
    note s = cbuf_store_ok [OF ok True fits]
    have c1: "cc_ok X ?c1" "cc_pending ?c1 = o1" "cc_op ?c1 = cc_op cc" "cc_final ?c1" using s fin by simp_all
    note c2 = cbufcpy_ok [OF c1(1), of cap]
    have e: "e = o1 @ e1" using r(2) u(3) True pending_nonempty [OF ok] by simp
    show ?thesis
    proof (cases "o1 = []")
      case empty: True
      have "cipher_transform X cap src cc = (Some (m, []), ?c1)"
        using cap src True u(1) empty same by (simp add: cipher_transform_def Let_def m_def [symmetric])
      moreover have "cipher_emits X ?c1 (drop m src @ t) = Some e1" using c1 u(2) empty wd by (simp add: cipher_emits_def)
      ultimately show ?thesis using m e empty by auto
    next
      case False
      have "cipher_transform X cap src cc = (Some (m, take cap o1), ?c2)"
        using cap src True u(1) False c2(1) c1(2)
        by (simp add: cipher_transform_def Let_def m_def [symmetric] same split: prod.splits) (metis fst_conv)
      moreover have "cipher_emits X ?c2 (drop m src @ t) = Some (drop cap o1 @ e1)"
        using c1 c2 u(2) wd by (simp add: cipher_emits_def)
      ultimately show ?thesis using m e
        by - (rule exI [of _ m], rule exI [of _ "take cap o1"], rule exI [of _ ?c2], rule exI [of _ "drop cap o1 @ e1"], auto)
    qed
  qed
next
  fix cc :: "'k codec_cipher" and e :: "char list" and cap :: nat
  assume em: "cipher_emits X cc [] = Some e" and cap: "0 < cap"
  let ?D = "ev_dir X (cc_op cc)"
  have ok: "cc_ok X cc" using em by (auto simp: cipher_emits_def split: if_splits)
  then have evp: "evp_ok X (cc_op cc)" by (simp add: cc_ok_def)
  have chunk: "\<exists>b c' e'. flush_chunk cap c = (Some (False, b), c') \<and> b \<noteq> [] \<and> length b \<le> cap \<and> cipher_emits X c' [] = Some e' \<and> e = b @ e'"
    if c: "cc_ok X c" "cc_pending c \<noteq> []" "cipher_emits X c [] = Some e" for c
  proof -
    let ?c = "snd (codec_cbufcpy cap c)"
    note b = cbufcpy_ok [OF c(1), of cap]
    from c obtain r where "e = cc_pending c @ r" "cipher_emits X ?c [] = Some (drop cap (cc_pending c) @ r)"
      using b by (auto simp: cipher_emits_def split: if_splits)
    moreover have "flush_chunk cap c = (Some (False, take cap (cc_pending c)), ?c)"
      using b(1) by (simp add: flush_chunk_def split: prod.splits) (metis fst_conv)
    ultimately show ?thesis using c(2) cap
      by - (rule exI [of _ "take cap (cc_pending c)"], rule exI [of _ ?c], rule exI [of _ "drop cap (cc_pending c) @ r"], auto)
  qed
  show "(e = [] \<and> (\<exists>c'. cipher_flush X cap cc = (Some (True, []), c') \<and> cipher_emits X c' [] = Some [])) \<or>
      (\<exists>b c' e'. cipher_flush X cap cc = (Some (False, b), c') \<and> b \<noteq> [] \<and> length b \<le> cap \<and> cipher_emits X c' [] = Some e' \<and> e = b @ e')"
  proof (cases "cc_ccount cc = 0")
    case False
    with chunk [OF ok _ em] pending_nonempty [OF ok] show ?thesis by (simp add: cipher_flush_def)
  next
    case True
    then have p: "cc_pending cc = []" using pending_nonempty [OF ok] by simp
    show ?thesis
    proof (cases "cc_final cc")
      case False
      with True p ok em show ?thesis by (simp add: cipher_flush_def cipher_emits_def)
    next
      case fin: True
      from em ok fin p have f: "ev_final ?D (cc_ctx cc) = Some e"
        by (auto simp: cipher_emits_def evp_run_def evp_okD(2) [OF evp])
      have "length e \<le> ev_block X" using evp_okD(4) [OF evp f] .
      then have fits: "length e \<le> length (cc_cbuf cc)" using ok evp_okD(5) [OF evp] by (simp add: cc_ok_def CODEC_CIPHER_MAX_INPUT_def)
      let ?c1 = "(cbuf_store e cc)\<lparr>cc_final := False\<rparr>"
      note s = cbuf_store_ok [OF ok True fits]
      have c1: "cc_ok X ?c1" "cc_pending ?c1 = e" using s by simp_all
      then have "cipher_emits X ?c1 [] = Some e" by (simp add: cipher_emits_def)
      with chunk [OF c1(1)] c1(2) True fin f show ?thesis by (auto simp: cipher_flush_def Let_def)
    qed
  qed
qed

lemma mem_ops_codec: "c_transform (mem_ops tr fl) = tr" "c_flush (mem_ops tr fl) = fl"
  by (simp_all add: mem_ops_def)

interpretation cipher_sink: coded_sink "mem_ops (cipher_transform X) (cipher_flush X)" mem_sunk mem_space mem_good "cipher_emits X"
  for X :: "'k evp_cipher"
  by (unfold_locales, unfold mem_ops_codec) (rule cipher_pipe.transform_law cipher_pipe.flush_law; assumption)+

interpretation cipher_source: coded_source "mem_ops (cipher_transform X) (cipher_flush X)" mem_pending mem_good "cipher_emits X"
  for X :: "'k evp_cipher"
  by unfold_locales

subsection \<open>The gzip codec\<close>

text \<open>
  What zlib documents of a stream, where \<open>zc op z s\<close> is all that a stream in state \<open>z\<close> produces
  from \<open>s\<close> and the end of the input: a call with input and with room for output consumes or
  produces something, the end of the stream is reported once everything is out, and a call at
  the end of the input produces something or reports the end.
\<close>

definition zlib_ok :: "'z zlib \<Rightarrow> (gzip_op \<Rightarrow> 'z \<Rightarrow> char list \<Rightarrow> char list option) \<Rightarrow> bool" where
  "zlib_ok Z zc \<longleftrightarrow>
     (\<forall>op z src t e cap. zc op z (src @ t) = Some e \<longrightarrow> src \<noteq> [] \<longrightarrow> 0 < cap \<longrightarrow>
        (\<exists>r n b z' e'. z_step Z op False src cap z = (r, n, b, z') \<and> r \<noteq> Z_ERROR \<and> n \<le> length src \<and> length b \<le> cap \<and>
           (n = 0 \<longrightarrow> b \<noteq> []) \<and> zc op z' (drop n src @ t) = Some e' \<and> e = b @ e' \<and>
           (r = Z_STREAM_END \<longrightarrow> drop n src @ t = [] \<and> e' = []))) \<and>
     (\<forall>op z e cap. zc op z [] = Some e \<longrightarrow> 0 < cap \<longrightarrow>
        (\<exists>r n b z' e'. z_step Z op (op = GZIP_COMPRESS) [] cap z = (r, n, b, z') \<and> r \<noteq> Z_ERROR \<and> length b \<le> cap \<and>
           zc op z' [] = Some e' \<and> e = b @ e' \<and> (r = Z_STREAM_END \<longrightarrow> e' = []) \<and> (b = [] \<longrightarrow> r = Z_STREAM_END)))"

definition gzip_emits ::
  "'z zlib \<Rightarrow> (gzip_op \<Rightarrow> 'z \<Rightarrow> char list \<Rightarrow> char list option) \<Rightarrow> 'z codec_gzip \<Rightarrow> char list \<Rightarrow> char list option" where
  "gzip_emits Z zc iz s =
     (if \<not> zlib_ok Z zc then None
      else if gz_err iz = Z_STREAM_END then (if s = [] then Some [] else None)
      else zc (gz_action iz) (gz_str iz) s)"

interpretation gzip_pipe: pipe_codec "gzip_transform Z" "gzip_flush Z" "gzip_emits Z zc" for Z :: "'z zlib" and zc
proof
  fix iz :: "'z codec_gzip" and src t e :: "char list" and cap :: nat
  assume em: "gzip_emits Z zc iz (src @ t) = Some e" and src: "src \<noteq> []" and cap: "0 < cap"
  then have z: "zlib_ok Z zc" "zc (gz_action iz) (gz_str iz) (src @ t) = Some e" by (auto simp: gzip_emits_def split: if_splits)
  from z(1) [unfolded zlib_ok_def, THEN conjunct1, rule_format, OF z(2) src cap] obtain r n b z' e' where
    s: "z_step Z (gz_action iz) False src cap (gz_str iz) = (r, n, b, z')" "r \<noteq> Z_ERROR" "n \<le> length src" "length b \<le> cap" "n = 0 \<longrightarrow> b \<noteq> []"
      "zc (gz_action iz) z' (drop n src @ t) = Some e'" "e = b @ e'" "r = Z_STREAM_END \<longrightarrow> drop n src @ t = [] \<and> e' = []" by blast
  have "gzip_emits Z zc (iz\<lparr>gz_err := r, gz_str := z'\<rparr>) (drop n src @ t) = Some e'" using z(1) s(6,8) by (auto simp: gzip_emits_def)
  moreover have "gzip_transform Z cap src iz = (Some (n, b), iz\<lparr>gz_err := r, gz_str := z'\<rparr>)"
    using src cap s(1,2) by (simp add: gzip_transform_def Let_def)
  ultimately show "\<exists>n b c' e'. gzip_transform Z cap src iz = (Some (n, b), c') \<and> n \<le> length src \<and> length b \<le> cap \<and> (n = 0 \<longrightarrow> b \<noteq> []) \<and>
        gzip_emits Z zc c' (drop n src @ t) = Some e' \<and> e = b @ e'" using s by blast
next
  fix iz :: "'z codec_gzip" and e :: "char list" and cap :: nat
  assume em: "gzip_emits Z zc iz [] = Some e" and cap: "0 < cap"
  have ok: "zlib_ok Z zc" using em by (auto simp: gzip_emits_def split: if_splits)
  show "(e = [] \<and> (\<exists>c'. gzip_flush Z cap iz = (Some (True, []), c') \<and> gzip_emits Z zc c' [] = Some [])) \<or>
      (\<exists>b c' e'. gzip_flush Z cap iz = (Some (False, b), c') \<and> b \<noteq> [] \<and> length b \<le> cap \<and> gzip_emits Z zc c' [] = Some e' \<and> e = b @ e')"
  proof (cases "gz_err iz = Z_STREAM_END")
    case True
    with em ok show ?thesis by (simp add: gzip_flush_def gzip_emits_def)
  next
    case False
    with em ok have "zc (gz_action iz) (gz_str iz) [] = Some e" by (simp add: gzip_emits_def)
    from ok [unfolded zlib_ok_def, THEN conjunct2, rule_format, OF this cap] obtain r n b z' e' where
      s: "z_step Z (gz_action iz) (gz_action iz = GZIP_COMPRESS) [] cap (gz_str iz) = (r, n, b, z')" "r \<noteq> Z_ERROR" "length b \<le> cap"
        "zc (gz_action iz) z' [] = Some e'" "e = b @ e'" "r = Z_STREAM_END \<longrightarrow> e' = []" "b = [] \<longrightarrow> r = Z_STREAM_END" by blast
    let ?iz = "iz\<lparr>gz_err := r, gz_str := z'\<rparr>"
    have "gzip_emits Z zc ?iz [] = Some e'" using ok s(4,6) by (simp add: gzip_emits_def)
    moreover have "gzip_flush Z cap iz = (Some (r = Z_STREAM_END \<and> b = [], b), ?iz)"
      using False s(1,2) by (simp add: gzip_flush_def Let_def)
    ultimately show ?thesis using s by (cases "b = []") auto
  qed
qed

section \<open>The bounds of the buffer\<close>

text \<open>The calls a stream makes on its codec, in any order and with any arguments.\<close>

datatype codec_call = Transform_call nat "char list" | Flush_call nat

fun cipher_call :: "'k evp_cipher \<Rightarrow> codec_call \<Rightarrow> 'k codec_cipher \<Rightarrow> 'k codec_cipher" where
  "cipher_call X (Transform_call n src) cc = snd (cipher_transform X n src cc)"
| "cipher_call X (Flush_call n) cc = snd (cipher_flush X n cc)"

lemma transform_in_bounds:
  assumes "cc_ok X cc" "within X (cc_op cc) (length src)"
  shows "cc_ok X (snd (cipher_transform X n src cc)) \<and> cc_op (snd (cipher_transform X n src cc)) = cc_op cc"
proof (cases "n = 0 \<or> src = [] \<or> cc_ccount cc \<noteq> 0")
  case True
  then show ?thesis using assms cbufcpy_ok [OF assms(1), of n] by (auto simp: cipher_transform_def case_prod_beta)
next
  case False
  let ?c = "min (length src) CODEC_CIPHER_MAX_INPUT"
  have evp: "evp_ok X (cc_op cc)" and cbuf: "length (cc_cbuf cc) = CODEC_CIPHER_MAX_INPUT + ev_block X - 1" using assms(1) by (simp_all add: cc_ok_def)
  have space: "ev_space X (cc_op cc) ?c \<le> length (cc_cbuf cc)"
    unfolding cbuf by (rule within_space [OF within_mono [OF assms(2)]]) (simp_all add: evp_okD(5) [OF evp])
  show ?thesis
  proof (cases "ev_update (ev_dir X (cc_op cc)) (cc_ctx cc) (take ?c src)")
    case None
    with False assms(1) show ?thesis by (simp add: cipher_transform_def Let_def)
  next
    case (Some kb)
    obtain k b where kb: "kb = (k, b)" by (cases kb)
    have "length b \<le> length (cc_cbuf cc)" using evp_okD(3) [OF evp Some [unfolded kb]] space by simp
    then have s: "cc_ok X ((cbuf_store b cc)\<lparr>cc_ctx := k\<rparr>)" "cc_op ((cbuf_store b cc)\<lparr>cc_ctx := k\<rparr>) = cc_op cc"
      using cbuf_store_ok [OF assms(1)] False by simp_all
    have same: "(cbuf_store b cc)\<lparr>cc_ctx := k, cc_overrun := (cc_overrun (cbuf_store b cc) \<or>
        length (cc_cbuf cc) < ev_space X (cc_op cc) ?c)\<rparr> = (cbuf_store b cc)\<lparr>cc_ctx := k\<rparr>"
      using space by (intro cc_overrun_same) simp
    have "snd (cipher_transform X n src cc) \<in> {(cbuf_store b cc)\<lparr>cc_ctx := k\<rparr>, snd (codec_cbufcpy n ((cbuf_store b cc)\<lparr>cc_ctx := k\<rparr>))}"
      using False Some kb same by (cases "b = []") (simp_all add: cipher_transform_def Let_def case_prod_beta)
    then show ?thesis using s cbufcpy_ok [OF s(1), of n] by auto
  qed
qed

lemma flush_in_bounds:
  assumes "cc_ok X cc"
  shows "cc_ok X (snd (cipher_flush X n cc)) \<and> cc_op (snd (cipher_flush X n cc)) = cc_op cc"
proof -
  have chunk: "cc_ok X (snd (flush_chunk n c)) \<and> cc_op (snd (flush_chunk n c)) = cc_op c" if "cc_ok X c" for c
    using cbufcpy_ok [OF that, of n] by (simp add: flush_chunk_def case_prod_beta)
  have evp: "evp_ok X (cc_op cc)" using assms by (simp add: cc_ok_def)
  have "cc_ok X ((cbuf_store b cc)\<lparr>cc_final := False\<rparr>) \<and> cc_op ((cbuf_store b cc)\<lparr>cc_final := False\<rparr>) = cc_op cc"
    if "ev_final (ev_dir X (cc_op cc)) (cc_ctx cc) = Some b" "cc_ccount cc = 0" for b
  proof -
    have "length b \<le> length (cc_cbuf cc)" using evp_okD(4) [OF evp that(1)] assms by (simp add: cc_ok_def CODEC_CIPHER_MAX_INPUT_def)
    then show ?thesis using cbuf_store_ok [OF assms that(2)] by simp
  qed
  then show ?thesis using chunk assms by (fastforce simp: cipher_flush_def Let_def split: option.splits)
qed

lemma calls_in_bounds:
  "cc_ok X cc \<Longrightarrow> (\<And>n src. Transform_call n src \<in> set cs \<Longrightarrow> within X (cc_op cc) (length src)) \<Longrightarrow>
   cc_ok X (fold (cipher_call X) cs cc)"
proof (induction cs arbitrary: cc)
  case (Cons c cs)
  have "cc_ok X (cipher_call X c cc) \<and> cc_op (cipher_call X c cc) = cc_op cc"
  proof (cases c)
    case (Transform_call n src)
    with Cons.prems(2) [of n src] transform_in_bounds [OF Cons.prems(1), of src n] show ?thesis by simp
  qed (use flush_in_bounds [OF Cons.prems(1)] in simp)
  with Cons.IH [of "cipher_call X c cc"] Cons.prems(2) show ?case by auto
qed simp

lemma codec_created_ok:
  "codec_cipher_create L X op key iv = Some c \<Longrightarrow> evp_ok X op \<Longrightarrow> cc_ok X (cstate c) \<and> cc_op (cstate c) = op"
  by (auto simp: codec_cipher_create_def Let_def cc_ok_def split: if_splits)

section \<open>Encryption on the way out, decryption on the way in\<close>

lemma ev_space_le: "ev_space X op n \<le> n + ev_block X"
  by (cases op) auto

lemma evp_run_length:
  assumes "evp_ok X op" "evp_run (ev_dir X op) k m = Some e"
  shows "length e \<le> length m + 2 * ev_block X"
proof -
  from assms(2) obtain k1 a b where "ev_update (ev_dir X op) k m = Some (k1, a)" "ev_final (ev_dir X op) k1 = Some b" "e = a @ b"
    by (auto simp: evp_run_def bind_eq_Some_conv)
  with evp_okD(3,4) [OF assms(1)] ev_space_le [of X op "length m"] show ?thesis by fastforce
qed

text \<open>Decryption inverts encryption under the same key and IV.\<close>

definition evp_inverse :: "'k evp_cipher \<Rightarrow> bool" where
  "evp_inverse X \<longleftrightarrow>
     (\<forall>key iv k m. ev_init (ev_encrypt X) key iv = Some k \<longrightarrow>
        (\<exists>e k'. evp_run (ev_encrypt X) k m = Some e \<and> ev_init (ev_decrypt X) key iv = Some k' \<and> evp_run (ev_decrypt X) k' e = Some m))"

abbreviation cipher_ops :: "'k evp_cipher \<Rightarrow> (io_mem, 'k codec_cipher) io_ops" where
  "cipher_ops X \<equiv> mem_ops (cipher_transform X) (cipher_flush X)"

text \<open>A codec just created, at the tail of a stream just created.\<close>

lemma cipher_create:
  assumes "codec_cipher_create L X op key iv = Some c" "evp_ok X op"
  obtains k where "ev_init (ev_dir X op) key iv = Some k"
    "\<And>s. within X op (length s) \<Longrightarrow> cipher_emits X (cstate c) s = evp_run (ev_dir X op) k s"
proof -
  have "map_option ((@) []) r = r" for r :: "char list option" by (cases r) simp_all
  with assms that show thesis
    by (auto simp: codec_cipher_create_def Let_def cipher_emits_def cc_ok_def cc_pending_def split: if_splits)
qed

lemma cipher_sink_new:
  assumes "cipher_emits X (cstate c) s = Some e" "length e \<le> n" "n < SIZE_LIMIT"
  shows "cipher_sink.coded X (io_codec_add_tail c (mem_io (replicate n NUL))) s e"
    "mem_snk.written (io_codec_add_tail c (mem_io (replicate n NUL))) = []"
  using assms mem_io_ok(2,4,5) [of "replicate n NUL"]
  by (simp_all add: cipher_sink.coded_def io_codec_add_tail_def mem_io_def mem_snk.wok_def mem_snk.written_def mem_snk.room_def)

lemma cipher_source_new:
  assumes "cipher_emits X (cstate c) b = Some e" "length b < SIZE_LIMIT"
  shows "cipher_source.coded_in X (io_codec_add_tail c (mem_io b))" "cipher_source.coded_avail X (io_codec_add_tail c (mem_io b)) = e"
  using assms by (simp_all add: cipher_source.coded_in_def cipher_source.coded_avail_def io_codec_add_tail_def mem_io_def mem_good_def mem_pending_def)

section \<open>Example\<close>

text \<open>
  A cipher that adds a constant to every byte and, as block ciphers do, keeps the end of its input
  back until it knows what follows.
\<close>

definition shift :: "nat \<Rightarrow> char \<Rightarrow> char" where
  "shift n c = chr ((ord c + n) mod 256)"

definition held_back :: "char option \<Rightarrow> char list \<Rightarrow> char list" where
  "held_back h s = (case h of None \<Rightarrow> s | Some c \<Rightarrow> c # s)"

definition shift_dir :: "nat \<Rightarrow> char option evp_dir" where
  "shift_dir n =
     \<lparr>ev_init = (\<lambda>key iv. Some None),
      ev_update = (\<lambda>h s. let t = held_back h s in Some (if t = [] then None else Some (last t), map (shift n) (butlast t))),
      ev_final = (\<lambda>h. Some (map (shift n) (held_back h [])))\<rparr>"

definition shift_cipher :: "char option evp_cipher" where
  "shift_cipher = \<lparr>ev_block = 1, ev_encrypt = shift_dir 3, ev_decrypt = shift_dir 253\<rparr>"

lemma shift_run: "evp_run (shift_dir n) None m = Some (map (shift n) m)"
  by (cases m rule: rev_cases) (simp_all add: evp_run_def shift_dir_def held_back_def Let_def)

lemma shift_ok: "evp_ok shift_cipher op"
proof -
  obtain n where n: "ev_dir shift_cipher op = shift_dir n" by (cases op) (auto simp: shift_cipher_def)
  have "ev_update (shift_dir n) h (a @ b) =
      Option.bind (ev_update (shift_dir n) h a) (\<lambda>(k1, o1). map_option (\<lambda>(k2, o2). (k2, o1 @ o2)) (ev_update (shift_dir n) k1 b))" for h a b
    by (cases h; cases a rule: rev_cases; cases b rule: rev_cases) (simp_all add: shift_dir_def held_back_def Let_def butlast_append)
  moreover have "ev_update (shift_dir n) h [] = Some (h, [])" for h by (cases h) (simp_all add: shift_dir_def held_back_def)
  moreover have "length o1 \<le> ev_space shift_cipher op (length a)" if "ev_update (shift_dir n) h a = Some (k1, o1)" for h a k1 o1
    using that by (cases h; cases op) (auto simp: shift_dir_def held_back_def shift_cipher_def Let_def)
  moreover have "length b \<le> ev_block shift_cipher" if "ev_final (shift_dir n) h = Some b" for h b
    using that by (cases h) (auto simp: shift_dir_def held_back_def shift_cipher_def)
  moreover have "0 < ev_block shift_cipher" by (simp add: shift_cipher_def)
  ultimately show ?thesis unfolding evp_ok_def n by blast
qed

lemma shift_inverse: "evp_inverse shift_cipher"
proof -
  have "shift 253 (shift 3 c) = c" for c
  proof -
    have "ord c < 256" by (rule ord_less_256)
    then have "((ord c + 3) mod 256 + 253) mod 256 = ord c" by (simp add: mod_add_left_eq)
    then show ?thesis by (simp add: shift_def)
  qed
  then have "map (shift 253) (map (shift 3) m) = m" for m by (simp add: map_idI)
  moreover have "ev_init (shift_dir n) key iv = Some None" for n key iv by (simp add: shift_dir_def)
  ultimately show ?thesis by (simp add: evp_inverse_def shift_cipher_def shift_run del: map_map)
qed

section \<open>Properties\<close>

text \<open>
  C14.  Encrypted streams read back: whatever is written, in any pieces, to a buffer through the
  encrypting codec, and flushed by removing the codec, is read back from the buffer through the
  decrypting codec created with the same key and IV, and neither codec has then written past its
  buffer.  This is for a cipher with one-byte blocks or for less than 4096 encrypted bytes, which the
  decrypting codec takes in smaller pieces; with a full piece its buffer is too small
  (\<open>decrypt_buffer_short\<close>).
\<close>

theorem cipher_stream_roundtrip:
  assumes "libu_ok L" "libu_mem L" "evp_ok X CIPHER_ENCRYPT" "evp_ok X CIPHER_DECRYPT" "evp_inverse X"
    and "codec_cipher_create L X CIPHER_ENCRYPT key iv = Some encr" "codec_cipher_create L X CIPHER_DECRYPT key iv = Some decr"
    and "bs \<noteq> []" "length (concat bs) + 2 * ev_block X \<le> n" "n < SIZE_LIMIT"
    and "ev_block X = 1 \<or> length (concat bs) + 2 * ev_block X < CODEC_CIPHER_MAX_INPUT"
  shows "\<exists>io1 io2 io3 io4. write_all L (cipher_ops X) bs (io_codec_add_tail encr (mem_io (replicate n NUL))) = Some (Done io1) \<and>
     list_all (\<lambda>c. \<not> cc_overrun (cstate c)) (chain io1) \<and>
     io_codecs_remove (cipher_ops X) io1 = Some (Done io2) \<and> io_flush (cipher_ops X) io2 = Done io3 \<and>
     io_read L (cipher_ops X) (Suc (length (concat bs))) (io_codec_add_tail decr (mem_io (take (moff (dev io3)) (mbuf (dev io3))))) =
       Some (Some (concat bs), io4) \<and>
     list_all (\<lambda>c. \<not> cc_overrun (cstate c)) (chain io4)"
proof -
  let ?E = "cipher_ops X" and ?m = "concat bs"
  obtain k where k: "ev_init (ev_encrypt X) key iv = Some k" "\<And>s. cipher_emits X (cstate encr) s = evp_run (ev_encrypt X) k s"
    using cipher_create [OF assms(6,3)] by (auto simp: within_def)
  from assms(5) k(1) obtain e k' where e: "evp_run (ev_encrypt X) k ?m = Some e" "ev_init (ev_decrypt X) key iv = Some k'"
    "evp_run (ev_decrypt X) k' e = Some ?m" unfolding evp_inverse_def by blast
  have bound: "length e \<le> length ?m + 2 * ev_block X" using evp_run_length [OF assms(3)] e(1) by simp
  then have len: "length e \<le> n" and "within X CIPHER_DECRYPT (length e)" using assms(9,11) by (auto simp: within_def)
  then have d: "cipher_emits X (cstate decr) e = Some ?m" using cipher_create [OF assms(7,4)] e(2,3) by (metis ev_dir.simps(2) option.inject)
  have em: "cipher_emits X (cstate encr) (?m @ []) = Some e" using k(2) e(1) by simp
  note new = cipher_sink_new [OF em len assms(10)]
  from cipher_sink.write_all_coded [OF assms(1,2) new(1) assms(8)] new(2) obtain io1 e1 e2 where
    io1: "write_all L ?E bs (io_codec_add_tail encr (mem_io (replicate n NUL))) = Some (Done io1)" "cipher_sink.coded X io1 [] e2" "wballoc io1"
      "mem_snk.written io1 = e1" "e = e1 @ e2" by auto
  have over: "list_all (\<lambda>c. \<not> cc_overrun (cstate c)) (chain io1)"
    using io1(2) by (auto simp: cipher_sink.coded_def cipher_emits_def cc_ok_def split: if_splits)
  from cipher_sink.coded_remove [OF io1(2,3)] io1(4,5) obtain io2 where
    io2: "io_codecs_remove ?E io1 = Some (Done io2)" "mem_snk.wok io2" "mem_snk.written io2 = e" by auto
  from mem_snk.io_flush_ok [OF io2(2), of "cipher_transform X" "cipher_flush X"] io2(3) obtain io3 where
    io3: "io_flush ?E io2 = Done io3" "mem_snk.wok io3" "mem_sunk (dev io3) = e" by auto
  have buf: "take (moff (dev io3)) (mbuf (dev io3)) = e" using io3(3) by (simp add: mem_sunk_def)
  have "length e < SIZE_LIMIT" using len assms(10) by simp
  note src = cipher_source_new [OF d this]
  have "eof (io_codec_add_tail decr (mem_io e)) = 0" by (simp add: io_codec_add_tail_def mem_io_def)
  from cipher_source.coded.io_read_ok [OF assms(1,2) src(1) this, of "Suc (length ?m)"] src(2) obtain io4 where
    io4: "io_read L ?E (Suc (length ?m)) (io_codec_add_tail decr (mem_io e)) = Some (Some ?m, io4)" "cipher_source.coded_in X io4" by auto
  have "list_all (\<lambda>c. \<not> cc_overrun (cstate c)) (chain io4)"
    using io4(2) by (auto simp: cipher_source.coded_in_def cipher_emits_def cc_ok_def split: if_splits)
  with io1(1) over io2(1) io3(1) buf io4(1) show ?thesis by auto
qed

theorem cipher_stream_roundtrip_witness:
  "\<exists>encr decr io1 io2 io3 io4. codec_cipher_create libu_ref shift_cipher CIPHER_ENCRYPT ''k'' None = Some encr \<and>
     codec_cipher_create libu_ref shift_cipher CIPHER_DECRYPT ''k'' None = Some decr \<and>
     write_all libu_ref (cipher_ops shift_cipher) [''abc'', ''de''] (io_codec_add_tail encr (mem_io (replicate 16 NUL))) = Some (Done io1) \<and>
     io_codecs_remove (cipher_ops shift_cipher) io1 = Some (Done io2) \<and> io_flush (cipher_ops shift_cipher) io2 = Done io3 \<and>
     io_read libu_ref (cipher_ops shift_cipher) 6 (io_codec_add_tail decr (mem_io (take (moff (dev io3)) (mbuf (dev io3))))) =
       Some (Some ''abcde'', io4)"
proof -
  have "\<exists>c. codec_cipher_create libu_ref shift_cipher op ''k'' None = Some c" for op
    by (cases op) (simp_all add: codec_cipher_create_def Let_def libu_memD [OF libu_ref_ok libu_ref_mem] shift_cipher_def shift_dir_def)
  then obtain encr decr where c: "codec_cipher_create libu_ref shift_cipher CIPHER_ENCRYPT ''k'' None = Some encr"
    "codec_cipher_create libu_ref shift_cipher CIPHER_DECRYPT ''k'' None = Some decr" by blast
  have x: "evp_ok shift_cipher CIPHER_ENCRYPT" "evp_ok shift_cipher CIPHER_DECRYPT" by (rule shift_ok)+
  have b: "[''abc'', ''de''] \<noteq> []" "length (concat [''abc'', ''de'']) + 2 * ev_block shift_cipher \<le> 16" "(16 :: nat) < SIZE_LIMIT"
    "ev_block shift_cipher = 1 \<or> length (concat [''abc'', ''de'']) + 2 * ev_block shift_cipher < CODEC_CIPHER_MAX_INPUT"
    by (simp_all add: SIZE_LIMIT_def shift_cipher_def)
  have s: "Suc (length ''abcde'') = 6" "concat [''abc'', ''de''] = ''abcde''" by simp_all
  from cipher_stream_roundtrip [OF libu_ref_ok libu_ref_mem x shift_inverse c b] c show ?thesis unfolding s by blast
qed

text \<open>
  C40.  The buffer of the cipher codec: through any sequence of calls of \<^verbatim>\<open>transform\<close> and
  \<^verbatim>\<open>flush\<close>, with any sizes and data and whatever the cipher answers, an encrypting codec never
  passes OpenSSL a buffer with less space than its manual asks for and never writes past it; nor
  does a decrypting codec for a cipher with one-byte blocks, nor one that is given less than 4096
  bytes at a time.
\<close>

theorem cipher_buffer_bounds:
  assumes "codec_cipher_create L X op key iv = Some c" and "evp_ok X op"
    and "op = CIPHER_ENCRYPT \<or> ev_block X = 1 \<or> (\<forall>n src. Transform_call n src \<in> set cs \<longrightarrow> length src < CODEC_CIPHER_MAX_INPUT)"
  shows "\<not> cc_overrun (fold (cipher_call X) cs (cstate c))"
proof -
  have "cc_ok X (fold (cipher_call X) cs (cstate c))"
    using codec_created_ok [OF assms(1,2)] assms(3) by (intro calls_in_bounds) (auto simp: within_def)
  then show ?thesis by (simp add: cc_ok_def)
qed

theorem cipher_buffer_bounds_witness:
  "\<exists>c. codec_cipher_create libu_ref shift_cipher CIPHER_ENCRYPT ''k'' None = Some c \<and>
     \<not> cc_overrun (fold (cipher_call shift_cipher)
         [Transform_call 3 (replicate 5000 (CHR ''x'')), Flush_call 2, Transform_call 9 ''abc'', Flush_call 1, Flush_call 1] (cstate c))"
proof -
  have "\<exists>c. codec_cipher_create libu_ref shift_cipher CIPHER_ENCRYPT ''k'' None = Some c"
    by (simp add: codec_cipher_create_def Let_def libu_memD [OF libu_ref_ok libu_ref_mem] shift_cipher_def shift_dir_def)
  then obtain c where c: "codec_cipher_create libu_ref shift_cipher CIPHER_ENCRYPT ''k'' None = Some c" by blast
  from cipher_buffer_bounds [OF c shift_ok disjI1 [OF refl]] c show ?thesis by blast
qed

text \<open>
  A decrypting codec has one byte too little: with blocks of more than one byte, a call on a fresh
  codec asks for more space than \<^verbatim>\<open>cbuf\<close> has exactly when the input fills
  \<^verbatim>\<open>CODEC_CIPHER_MAX_INPUT\<close>.
\<close>

theorem decrypt_buffer_short:
  assumes "codec_cipher_create L X CIPHER_DECRYPT key iv = Some c" and "evp_ok X CIPHER_DECRYPT" and "1 < ev_block X"
    and "0 < n" "src \<noteq> []" "ev_update (ev_decrypt X) (cc_ctx (cstate c)) (take CODEC_CIPHER_MAX_INPUT src) \<noteq> None"
  shows "cc_overrun (snd (cipher_transform X n src (cstate c))) \<longleftrightarrow> CODEC_CIPHER_MAX_INPUT \<le> length src"
proof
  assume over: "cc_overrun (snd (cipher_transform X n src (cstate c)))"
  show "CODEC_CIPHER_MAX_INPUT \<le> length src"
  proof (rule ccontr)
    assume "\<not> CODEC_CIPHER_MAX_INPUT \<le> length src"
    then have "within X CIPHER_DECRYPT (length src)" by (simp add: within_def)
    with transform_in_bounds [of X "cstate c" src n] codec_created_ok [OF assms(1,2)] over show False by (auto simp: cc_ok_def)
  qed
next
  assume full: "CODEC_CIPHER_MAX_INPUT \<le> length src"
  let ?M = CODEC_CIPHER_MAX_INPUT
  obtain k b where u: "ev_update (ev_decrypt X) (cc_ctx (cstate c)) (take ?M src) = Some (k, b)" using assms(6) by auto
  have c: "cc_op (cstate c) = CIPHER_DECRYPT" "cc_ccount (cstate c) = 0" "length (cc_cbuf (cstate c)) = ?M + ev_block X - 1"
    using assms(1) by (auto simp: codec_cipher_create_def Let_def split: if_splits)
  have "length (cc_cbuf (cstate c)) < ev_space X CIPHER_DECRYPT ?M" using assms(3) c(3) by simp
  moreover have "cc_overrun (snd (codec_cbufcpy n cc)) = cc_overrun cc" for cc :: "'a codec_cipher"
    by (simp add: codec_cbufcpy_def Let_def)
  ultimately show "cc_overrun (snd (cipher_transform X n src (cstate c)))"
    using full u c(1,2) assms(4,5)
    by (cases "b = []") (simp_all add: cipher_transform_def Let_def min_absorb2 case_prod_beta)
qed

definition shift_wide :: "char option evp_cipher" where
  "shift_wide = shift_cipher\<lparr>ev_block := 2\<rparr>"

lemma shift_wide_ok: "evp_ok shift_wide op"
proof -
  have d: "ev_dir shift_wide op = ev_dir shift_cipher op" by (cases op) (simp_all add: shift_wide_def)
  have sp: "ev_space shift_cipher op n \<le> ev_space shift_wide op n" "ev_block shift_cipher \<le> ev_block shift_wide" for n
    by (cases op; simp add: shift_wide_def shift_cipher_def)+
  note o = evp_okD [OF shift_ok [of op]]
  have "length o1 \<le> ev_space shift_wide op (length a)" if "ev_update (ev_dir shift_cipher op) h a = Some (k1, o1)" for h a k1 o1
    using o(3) [OF that] sp(1) order_trans by blast
  moreover have "length b \<le> ev_block shift_wide" if "ev_final (ev_dir shift_cipher op) h = Some b" for h b
    using o(4) [OF that] sp(2) order_trans by blast
  moreover have "0 < ev_block shift_wide" by (simp add: shift_wide_def)
  ultimately show ?thesis unfolding evp_ok_def d using o(1,2) by blast
qed

theorem decrypt_buffer_short_witness:
  "\<exists>c. codec_cipher_create libu_ref shift_wide CIPHER_DECRYPT ''k'' None = Some c \<and>
     cc_overrun (snd (cipher_transform shift_wide 10 (replicate 4096 (CHR ''x'')) (cstate c)))"
proof -
  have "\<exists>c. codec_cipher_create libu_ref shift_wide CIPHER_DECRYPT ''k'' None = Some c \<and> cc_ctx (cstate c) = None"
    by (simp add: codec_cipher_create_def Let_def libu_memD [OF libu_ref_ok libu_ref_mem] shift_wide_def shift_cipher_def shift_dir_def)
  then obtain c where c: "codec_cipher_create libu_ref shift_wide CIPHER_DECRYPT ''k'' None = Some c" "cc_ctx (cstate c) = None" by blast
  have h: "1 < ev_block shift_wide" "(0::nat) < 10" "replicate 4096 (CHR ''x'') \<noteq> []"
    "ev_update (ev_decrypt shift_wide) (cc_ctx (cstate c)) (take CODEC_CIPHER_MAX_INPUT (replicate 4096 (CHR ''x''))) \<noteq> None"
    by (simp_all add: shift_wide_def shift_cipher_def shift_dir_def Let_def)
  have "CODEC_CIPHER_MAX_INPUT \<le> length (replicate 4096 (CHR ''x''))" by (simp add: CODEC_CIPHER_MAX_INPUT_def)
  with decrypt_buffer_short [OF c(1) shift_wide_ok h] c(1) show ?thesis by blast
qed

end
