(* ===== verification/Ses_Client.thy ===== *)
theory Ses_Client
  imports Ses_Drivers Codecs
begin

text \<open>
  \<^verbatim>\<open>src/libpage/ses_client.c\<close>: sessions kept by the client, in four cookies (the encrypted
  variables, the time, the IV and a keyed hash over the others), and the parts of
  \<^verbatim>\<open>src/libpage/session.c\<close> that an SSL build compiles: saving and loading through the cipher
  codec, and the variable that holds the key of encrypted pages.  The build has OpenSSL and no
  libz.  OpenSSL's cipher, its random bytes and its HMAC are parameters; the sizes are those of
  \<^verbatim>\<open>klone/ccipher.h\<close>.
\<close>

section \<open>Definitions\<close>

definition CIPHER_KEY_LEN :: nat where "CIPHER_KEY_LEN = 32"
definition CIPHER_KEY_BUFSZ :: nat where "CIPHER_KEY_BUFSZ = 64"
definition CIPHER_IV_LEN :: nat where "CIPHER_IV_LEN = 16"
definition CIPHER_BLOCK_LEN :: nat where "CIPHER_BLOCK_LEN = 32"
definition EVP_MAX_MD_SIZE :: nat where "EVP_MAX_MD_SIZE = 64"
definition COOKIE_MAX_SIZE :: nat where "COOKIE_MAX_SIZE = 4096"
definition HMAC_KEY_LEN :: nat where "HMAC_KEY_LEN = 64"

datatype cli_hash = EVP_md5 | EVP_sha1 | EVP_ripemd160

text \<open>
  \<^verbatim>\<open>session_opt_t\<close> of an SSL build.  \<open>co_over\<close> is what has been written past the end of
  \<^verbatim>\<open>cipher_iv\<close>, over the members that follow it, of which \<^verbatim>\<open>hmac_ctx\<close> is the first.
\<close>

record ssl_opt =
  co_so :: session_opt
  co_session_key :: "char list"
  co_session_iv :: "char list"
  co_cipher_key :: "char list"
  co_cipher_iv :: "char list"
  co_over :: "char list"
  co_hash :: cli_hash
  co_hmac_key :: "char list"

text \<open>
  \<open>sl_rand n\<close> of a buffer: \<open>n\<close> random bytes for it.  \<open>sl_mac hash key over\<close> is the keyed hash
  with a context whose first bytes have been overwritten with \<open>over\<close>; \<open>sl_tail\<close> is the number
  of bytes of the structure behind \<^verbatim>\<open>cipher_iv\<close>.
\<close>

record 'k ssl_env =
  sl_evp :: "'k evp_cipher"
  sl_rand :: "string \<Rightarrow> nat \<Rightarrow> char list option"
  sl_mac :: "cli_hash \<Rightarrow> char list \<Rightarrow> char list \<Rightarrow> char list \<Rightarrow> char list"
  sl_time :: int
  sl_tail :: nat

subsection \<open>Saving and loading through a cipher\<close>

definition session_prv_calc_maxsize_ssl :: "var \<Rightarrow> nat \<Rightarrow> nat" where
  "session_prv_calc_maxsize_ssl v sz = session_prv_calc_maxsize v (if sz = 0 then CIPHER_BLOCK_LEN * 2 else sz)"

definition calc_maxsize_ssl_cb :: "vmem \<Rightarrow> addr \<Rightarrow> nat \<Rightarrow> (bool \<times> nat) outcome" where
  "calc_maxsize_ssl_cb m a sz = (case vheap m a of None \<Rightarrow> Fault | Some v \<Rightarrow> Ok (False, session_prv_calc_maxsize_ssl v sz))"

text \<open>The key of encrypted pages is itself stored encrypted: its variable is changed in place.\<close>

definition save_key :: "libu \<Rightarrow> 'k ssl_env \<Rightarrow> ssl_opt \<Rightarrow> var \<Rightarrow> var step" where
  "save_key L S opt v =
     (if sname v \<noteq> SESSION_KEY_VAR then Done v
      else if var_get_value_size v \<noteq> CIPHER_KEY_LEN then Failed v
      else case vdata v of
        None \<Rightarrow> Failed v
      | Some d \<Rightarrow>
          (if length d < CIPHER_KEY_LEN then Crash
           else case u_cipher_encrypt (sl_evp S) (co_session_key opt) (co_session_iv opt) CIPHER_KEY_BUFSZ (take CIPHER_KEY_LEN d) of
             Ok ekey \<Rightarrow> var_set_bin_value L ekey (length ekey) v
           | Fail \<Rightarrow> Failed v
           | Fault \<Rightarrow> Crash))"

definition session_prv_save_var_ssl ::
  "libu \<Rightarrow> 'k ssl_env \<Rightarrow> ssl_opt \<Rightarrow> ('d, 'c) io_ops \<Rightarrow> addr \<Rightarrow> var \<Rightarrow> vmem \<Rightarrow> ('d, 'c) io \<Rightarrow> (vmem \<times> ('d, 'c) io) step option" where
  "session_prv_save_var_ssl L S opt E a v m io =
     (let nsz = 1 + 3 * length (sname v); vsz = 1 + 3 * var_get_value_size v + CIPHER_BLOCK_LEN;
          print = (\<lambda>m t. map_option (\<lambda>r. bind_step r (\<lambda>io1. Done (m, io1)) (\<lambda>io1. (m, io1))) (io_vprintf L E t io)) in
      if 256 \<le> nsz \<and> \<not> u_malloc L nsz then Some (Failed (m, io))
      else case u_urlncpy L (sname v @ [NUL]) (length (sname v)) CPY_ENCODE of
        Fail \<Rightarrow> Some (Failed (m, io))
      | Fault \<Rightarrow> Some Crash
      | Ok (uname, n) \<Rightarrow>
          (if n = 0 then Some (Failed (m, io))
           else if vdata v = None then print m (cstr uname @ ''='' @ [LF])
           else if 4096 \<le> vsz \<and> \<not> u_malloc L vsz then Some (Failed (m, io))
           else case save_key L S opt v of
             Crash \<Rightarrow> Some Crash
           | Failed v1 \<Rightarrow> Some (Failed (var_put a v1 m, io))
           | Done v1 \<Rightarrow>
               (case vdata v1 of
                  None \<Rightarrow> Some (Failed (var_put a v1 m, io))
                | Some d \<Rightarrow>
                    (case u_urlncpy L (d @ [NUL]) (var_get_value_size v1) CPY_ENCODE of
                       Fail \<Rightarrow> Some (Failed (var_put a v1 m, io))
                     | Fault \<Rightarrow> Some Crash
                     | Ok (uvalue, k) \<Rightarrow>
                         (if k = 0 then Some (Failed (var_put a v1 m, io))
                          else print (var_put a v1 m) (cstr uname @ ''='' @ cstr uvalue @ [LF]))))))"

fun save_loop_ssl ::
  "libu \<Rightarrow> 'k ssl_env \<Rightarrow> ssl_opt \<Rightarrow> ('d, 'c) io_ops \<Rightarrow> addr list \<Rightarrow> vmem \<Rightarrow> ('d, 'c) io \<Rightarrow> (vmem \<times> ('d, 'c) io) step option" where
  "save_loop_ssl L S opt E [] m io = Some (Done (m, io))"
| "save_loop_ssl L S opt E (a # as) m io =
     (case vheap m a of
        None \<Rightarrow> Some Crash
      | Some v \<Rightarrow>
          Option.bind (session_prv_save_var_ssl L S opt E a v m io) (\<lambda>r. case r of
            Done (m1, io1) \<Rightarrow> save_loop_ssl L S opt E as m1 io1
          | Failed (m1, io1) \<Rightarrow> Some (Done (m1, io1))
          | Crash \<Rightarrow> Some Crash))"

text \<open>The removal of the codecs reports no error.\<close>

definition codecs_off :: "('d, 'c) io_ops \<Rightarrow> ('d, 'c) io \<Rightarrow> ('d, 'c) io outcome option" where
  "codecs_off E io = map_option (\<lambda>r. case kept r of None \<Rightarrow> Fault | Some io1 \<Rightarrow> Ok io1) (io_codecs_remove E io)"

definition session_prv_save_to_io_ssl ::
  "libu \<Rightarrow> 'k ssl_env \<Rightarrow> ssl_opt \<Rightarrow> ('d, 'k codec_cipher) io_ops \<Rightarrow> session \<Rightarrow> ('d, 'k codec_cipher) io \<Rightarrow>
   (session \<times> ('d, 'k codec_cipher) io) step option" where
  "session_prv_save_to_io_ssl L S opt E ss io =
     (case (if so_encrypt (co_so opt)
            then map_option (\<lambda>c. io_codec_add_tail c io)
                   (codec_cipher_create L (sl_evp S) CIPHER_ENCRYPT (co_cipher_key opt) (Some (co_cipher_iv opt)))
            else Some io) of
        None \<Rightarrow> map_option (\<lambda>r. case r of Ok io1 \<Rightarrow> Failed (ss, io1) | _ \<Rightarrow> Crash) (codecs_off E io)
      | Some io0 \<Rightarrow>
          Option.bind (save_loop_ssl L S opt E (vlist (s_vars ss)) (s_mem ss) io0) (\<lambda>r. case r of
            Crash \<Rightarrow> Some Crash
          | Failed (m, io1) \<Rightarrow> Some (Failed (ss\<lparr>s_mem := m\<rparr>, io1))
          | Done (m, io1) \<Rightarrow>
              map_option (\<lambda>q. case q of Ok io2 \<Rightarrow> Done (ss\<lparr>s_mem := m\<rparr>, io2) | _ \<Rightarrow> Crash) (codecs_off E io1)))"

text \<open>The result is the buffer and its size, with the session as saving leaves it.\<close>

definition session_prv_save_to_buf_ssl ::
  "libu \<Rightarrow> 'k ssl_env \<Rightarrow> ssl_opt \<Rightarrow> session \<Rightarrow> ((char list \<times> nat) outcome \<times> session) option" where
  "session_prv_save_to_buf_ssl L S opt ss =
     (let E = cipher_ops (sl_evp S) in
      case vars_foreach (calc_maxsize_ssl_cb (s_mem ss)) (vlist (s_vars ss)) 0 of
        Fail \<Rightarrow> Some (Fail, ss)
      | Fault \<Rightarrow> Some (Fault, ss)
      | Ok sz \<Rightarrow>
          (if \<not> u_malloc L sz then Some (Fail, ss)
           else case io_mem_create L (replicate sz NUL) False of
             None \<Rightarrow> Some (Fail, ss)
           | Some io \<Rightarrow>
               Option.bind (session_prv_save_to_io_ssl L S opt E ss io) (\<lambda>r. case r of
                 Crash \<Rightarrow> Some (Fault, ss)
               | Failed (ss1, io1) \<Rightarrow> map_option (\<lambda>_. (Fail, ss1)) (io_free E io1)
               | Done (ss1, io1) \<Rightarrow>
                   Option.bind (io_codecs_remove E io1) (\<lambda>q. case q of
                     Crash \<Rightarrow> Some (Fault, ss1)
                   | Failed io2 \<Rightarrow> map_option (\<lambda>_. (Fail, ss1)) (io_free E io2)
                   | Done io2 \<Rightarrow>
                       (case io_tell E io2 of (n, s) \<Rightarrow>
                          (case kept s of
                             None \<Rightarrow> Some (Fault, ss1)
                           | Some io3 \<Rightarrow>
                               map_option (\<lambda>_. (Ok (io_mem_get_buf io3, case n of None \<Rightarrow> SIZE_LIMIT - 1 | Some k \<Rightarrow> k), ss1))
                                 (io_free E io3)))))))"

text \<open>
  A variable just loaded that holds the key: it is decrypted in place.  When that fails the
  variable is unlinked and not freed.
\<close>

definition load_key :: "libu \<Rightarrow> 'k ssl_env \<Rightarrow> ssl_opt \<Rightarrow> addr \<Rightarrow> session \<Rightarrow> session step" where
  "load_key L S opt a ss =
     (case vheap (s_mem ss) a of
        None \<Rightarrow> Crash
      | Some v \<Rightarrow>
          (if sname v \<noteq> SESSION_KEY_VAR then Done ss
           else case (case vdata v of
                        None \<Rightarrow> Fail
                      | Some d \<Rightarrow> u_cipher_decrypt (sl_evp S) (co_session_key opt) (co_session_iv opt) CIPHER_KEY_BUFSZ d) of
             Fault \<Rightarrow> Crash
           | Fail \<Rightarrow>
               (case vars_get (s_vars ss) (s_mem ss) SESSION_KEY_VAR of
                  Ok (Some b) \<Rightarrow> (case kept (vars_del L b (s_vars ss)) of None \<Rightarrow> Crash | Some vs \<Rightarrow> Done (ss\<lparr>s_vars := vs\<rparr>))
                | Fault \<Rightarrow> Crash
                | _ \<Rightarrow> Done ss)
           | Ok key \<Rightarrow>
               (case var_set_bin_value L key (length key) v of
                  Done v1 \<Rightarrow> Done (ss\<lparr>s_mem := var_put a v1 (s_mem ss)\<rparr>)
                | Failed v1 \<Rightarrow> Failed (ss\<lparr>s_mem := var_put a v1 (s_mem ss)\<rparr>)
                | Crash \<Rightarrow> Crash)))"

partial_function (option) load_vars_ssl ::
  "libu \<Rightarrow> 'k ssl_env \<Rightarrow> ssl_opt \<Rightarrow> ('d, 'c) io_ops \<Rightarrow> session \<Rightarrow> ('d, 'c) io \<Rightarrow> (session step \<times> ('d, 'c) io) option" where
  "load_vars_ssl L S opt E ss io =
     Option.bind (u_getline L E io) (\<lambda>(ok, line, io1).
       if \<not> ok then Some (Done ss, io1)
       else if line = [] then load_vars_ssl L S opt E ss io1
       else case vars_add_urlvar L (cstr line) (s_vars ss) (s_mem ss) of
         Added vs m a \<Rightarrow>
           (case load_key L S opt a (upd_vars vs m ss) of
              Done ss1 \<Rightarrow> load_vars_ssl L S opt E ss1 io1
            | other \<Rightarrow> Some (other, io1))
       | NotAdded vs m \<Rightarrow> Some (Failed (upd_vars vs m ss), io1)
       | AddCrash \<Rightarrow> Some (Crash, io1))"

definition session_prv_load_from_io_ssl ::
  "libu \<Rightarrow> 'k ssl_env \<Rightarrow> ssl_opt \<Rightarrow> ('d, 'k codec_cipher) io_ops \<Rightarrow> session \<Rightarrow> ('d, 'k codec_cipher) io \<Rightarrow>
   (session step \<times> ('d, 'k codec_cipher) io) option" where
  "session_prv_load_from_io_ssl L S opt E ss io =
     Option.bind
       (case (if so_encrypt (co_so opt)
              then map_option (\<lambda>c. io_codec_add_tail c io)
                     (codec_cipher_create L (sl_evp S) CIPHER_DECRYPT (co_cipher_key opt) (Some (co_cipher_iv opt)))
              else Some io) of
          None \<Rightarrow> Some (Failed ss, io)
        | Some io0 \<Rightarrow> (case u_string_create L [] of None \<Rightarrow> Some (Failed ss, io0) | Some _ \<Rightarrow> load_vars_ssl L S opt E ss io0))
       (\<lambda>(r, io1). map_option (\<lambda>q. case q of Ok io2 \<Rightarrow> (r, io2) | _ \<Rightarrow> (Crash, io1)) (codecs_off E io1))"

definition session_prv_load_from_buf_ssl :: "libu \<Rightarrow> 'k ssl_env \<Rightarrow> ssl_opt \<Rightarrow> session \<Rightarrow> char list \<Rightarrow> session step option" where
  "session_prv_load_from_buf_ssl L S opt ss buf =
     (let E = cipher_ops (sl_evp S) in
      case io_mem_create L buf False of
        None \<Rightarrow> Some (Failed ss)
      | Some io \<Rightarrow>
          Option.bind (session_prv_load_from_io_ssl L S opt E ss io) (\<lambda>(r, io1). map_option (\<lambda>_. r) (io_free E io1)))"

subsection \<open>The driver\<close>

definition KL1_CLISES_DATA :: string where "KL1_CLISES_DATA = ''KL1_CLISES_DATA''"
definition KL1_CLISES_MTIME :: string where "KL1_CLISES_MTIME = ''KL1_CLISES_MTIME''"
definition KL1_CLISES_HMAC :: string where "KL1_CLISES_HMAC = ''KL1_CLISES_HMAC''"
definition KL1_CLISES_IV :: string where "KL1_CLISES_IV = ''KL1_CLISES_IV''"

text \<open>The hash runs over the strings one after the other, with nothing between them.\<close>

definition session_client_hmac ::
  "libu \<Rightarrow> 'k ssl_env \<Rightarrow> ssl_opt \<Rightarrow> string \<Rightarrow> string \<Rightarrow> string \<Rightarrow> string option \<Rightarrow> string outcome" where
  "session_client_hmac L S opt data sid mtime hex_iv =
     (let mac = sl_mac S (co_hash opt) (co_hmac_key opt) (co_over opt)
                  (data @ sid @ mtime @ (case hex_iv of None \<Rightarrow> [] | Some i \<Rightarrow> i)) in
      if EVP_MAX_MD_SIZE < length mac then Fault
      else bind_outcome (u_hexncpy L mac (length mac) CPY_ENCODE) (\<lambda>(h, n). if n = 0 then Fail else Ok h))"

definition cli_cookie :: "libu \<Rightarrow> string \<Rightarrow> string option \<Rightarrow> session \<Rightarrow> session step" where
  "cli_cookie L name v ss =
     bind_step (response_set_cookie L name v 0 None None False (s_rs ss)) (\<lambda>rs. Done (ss\<lparr>s_rs := rs\<rparr>)) (\<lambda>rs. ss\<lparr>s_rs := rs\<rparr>)"

definition dec_int :: "int \<Rightarrow> string" where
  "dec_int v = (if v < 0 then CHR ''-'' # dec (nat (- v)) else dec (nat v))"

text \<open>\<^verbatim>\<open>ebuf\<close> has \<^verbatim>\<open>BUF_SIZE\<close> bytes, and takes twice the size that has been checked.\<close>

definition CLI_BUF_SIZE :: nat where
  "CLI_BUF_SIZE = COOKIE_MAX_SIZE + CIPHER_BLOCK_LEN + 96"

definition save_cookies :: "libu \<Rightarrow> 'k ssl_env \<Rightarrow> ssl_opt \<Rightarrow> string option \<Rightarrow> char list \<Rightarrow> nat \<Rightarrow> session \<Rightarrow> session step" where
  "save_cookies L S opt iv buf sz ss =
     (if COOKIE_MAX_SIZE < sz then Failed ss
      else case u_hexncpy L buf sz CPY_ENCODE of
        Fail \<Rightarrow> Failed ss
      | Fault \<Rightarrow> Crash
      | Ok (ebuf, n) \<Rightarrow>
          (if CLI_BUF_SIZE < length ebuf + 1 then Crash
           else if n = 0 then Failed ss
           else and_then (cli_cookie L KL1_CLISES_DATA (Some ebuf) ss) (\<lambda>ss.
             if sl_time S = -1 then Failed ss
             else
               (let ss = ss\<lparr>s_mtime := to_int32 (sl_time S)\<rparr> in
                case u_snprintf L (dec_int (s_mtime ss)) 32 of (mtime, trunc) \<Rightarrow>
                  if trunc then Failed ss
                  else and_then (cli_cookie L KL1_CLISES_MTIME (Some mtime) ss) (\<lambda>ss.
                    case session_client_hmac L S opt ebuf (s_id ss) mtime iv of
                      Fail \<Rightarrow> Failed ss
                    | Fault \<Rightarrow> Crash
                    | Ok hmac \<Rightarrow> cli_cookie L KL1_CLISES_HMAC (Some hmac) ss)))))"

text \<open>A new IV for every save, sent in a cookie of its own.\<close>

definition fresh_iv ::
  "libu \<Rightarrow> 'k ssl_env \<Rightarrow> ssl_opt \<Rightarrow> session \<Rightarrow> session step \<times> ssl_opt \<times> string option" where
  "fresh_iv L S opt ss =
     (if \<not> so_encrypt (co_so opt) then (Done ss, opt, None)
      else case sl_rand S ''cipher_iv'' CIPHER_IV_LEN of
        None \<Rightarrow> (Failed ss, opt, None)
      | Some iv \<Rightarrow>
          (let opt1 = opt\<lparr>co_cipher_iv := iv\<rparr> in
           case u_hexncpy L iv CIPHER_IV_LEN CPY_ENCODE of
             Fail \<Rightarrow> (Failed ss, opt1, None)
           | Fault \<Rightarrow> (Crash, opt1, None)
           | Ok (h, n) \<Rightarrow> if n = 0 then (Failed ss, opt1, None) else (cli_cookie L KL1_CLISES_IV (Some h) ss, opt1, Some h)))"

definition session_client_save ::
  "libu \<Rightarrow> 'k ssl_env \<Rightarrow> session \<Rightarrow> ssl_opt \<Rightarrow> (session step \<times> ssl_opt) option" where
  "session_client_save L S ss opt =
     (case fresh_iv L S opt ss of (r, opt1, iv) \<Rightarrow>
        (case r of
           Done ss1 \<Rightarrow>
             map_option (\<lambda>(q, ss2). (case q of
                 Fail \<Rightarrow> Failed ss2
               | Fault \<Rightarrow> Crash
               | Ok (buf, sz) \<Rightarrow> save_cookies L S opt1 iv buf sz ss2, opt1))
               (session_prv_save_to_buf_ssl L S opt1 ss1)
         | other \<Rightarrow> Some (other, opt1)))"

definition session_client_remove :: "libu \<Rightarrow> session \<Rightarrow> ssl_opt \<Rightarrow> (session step \<times> ssl_opt) option" where
  "session_client_remove L ss opt =
     Some (and_then (cli_cookie L KL1_CLISES_DATA None ss) (\<lambda>ss.
           and_then (cli_cookie L KL1_CLISES_MTIME None ss) (\<lambda>ss.
           and_then (cli_cookie L KL1_CLISES_HMAC None ss) (\<lambda>ss.
             cli_cookie L KL1_CLISES_IV None ss))), opt)"

text \<open>\<^verbatim>\<open>strtoul\<close> with base 0, on a 64-bit \<^verbatim>\<open>unsigned long\<close>.\<close>

definition digit_value :: "char \<Rightarrow> nat" where
  "digit_value c = (if c_isdigit c then ord c - 48 else if 97 \<le> ord c \<and> ord c \<le> 122 then ord c - 87
     else if 65 \<le> ord c \<and> ord c \<le> 90 then ord c - 55 else 99)"

fun base_value :: "nat \<Rightarrow> nat \<Rightarrow> string \<Rightarrow> nat" where
  "base_value b acc [] = acc"
| "base_value b acc (c # s) = (if digit_value c < b then base_value b (b * acc + digit_value c) s else acc)"

definition prefixed :: "string \<Rightarrow> bool" where
  "prefixed s \<longleftrightarrow> 3 \<le> length s \<and> s ! 0 = CHR ''0'' \<and> (s ! 1 = CHR ''x'' \<or> s ! 1 = CHR ''X'') \<and> digit_value (s ! 2) < 16"

definition c_strtoul0 :: "string \<Rightarrow> nat" where
  "c_strtoul0 s =
     (let t = dropWhile c_isspace s;
          neg = (t \<noteq> [] \<and> hd t = CHR ''-'');
          u = (if t \<noteq> [] \<and> (hd t = CHR ''-'' \<or> hd t = CHR ''+'') then tl t else t);
          v = (if prefixed u then base_value 16 0 (drop 2 u)
               else if u \<noteq> [] \<and> hd u = CHR ''0'' then base_value 8 0 u else base_value 10 0 u)
      in if 2 ^ 64 \<le> v then 2 ^ 64 - 1 else if neg then (2 ^ 64 - v) mod 2 ^ 64 else v)"

text \<open>
  Storing a decoded IV and its terminator: what does not fit \<^verbatim>\<open>cipher_iv\<close> goes over the
  members behind it.
\<close>

definition iv_store :: "char list \<Rightarrow> ssl_opt \<Rightarrow> ssl_opt" where
  "iv_store b opt =
     (let w = b @ [NUL]; past = drop CIPHER_IV_LEN w in
      opt\<lparr>co_cipher_iv := take CIPHER_IV_LEN w @ drop (length w) (co_cipher_iv opt),
          co_over := past @ drop (length past) (co_over opt)\<rparr>)"

definition load_checked ::
  "libu \<Rightarrow> 'k ssl_env \<Rightarrow> string \<Rightarrow> string \<Rightarrow> string option \<Rightarrow> session \<Rightarrow> ssl_opt \<Rightarrow> (session step \<times> ssl_opt) option" where
  "load_checked L S cli_ebuf cli_mtime cli_iv ss opt =
     (case cli_iv of
        None \<Rightarrow> Some (Crash, opt)
      | Some iv \<Rightarrow>
          (case u_hexncpy L iv (length iv) CPY_DECODE of
             Fail \<Rightarrow> Some (Failed ss, opt)
           | Fault \<Rightarrow> Some (Crash, opt)
           | Ok (b, c) \<Rightarrow>
               (let opt1 = iv_store b opt; ss1 = ss\<lparr>s_mtime := to_int32 (int (c_strtoul0 cli_mtime))\<rparr> in
                if CIPHER_IV_LEN + sl_tail S < length b + 1 then Some (Crash, opt1)
                else if c = 0 then Some (Failed ss, opt1)
                else if COOKIE_MAX_SIZE < length cli_ebuf then Some (Failed ss1, opt1)
                else case u_hexncpy L cli_ebuf (length cli_ebuf) CPY_DECODE of
                  Fail \<Rightarrow> Some (Failed ss1, opt1)
                | Fault \<Rightarrow> Some (Crash, opt1)
                | Ok (buf, k) \<Rightarrow>
                    (if k = 0 then Some (Failed ss1, opt1)
                     else map_option (\<lambda>r. (r, opt1)) (session_prv_load_from_buf_ssl L S opt1 ss1 buf)))))"

definition cli_driver_remove :: "libu \<Rightarrow> ssl_opt ses_driver" where
  "cli_driver_remove L =
     \<lparr>drv_load = (\<lambda>ss opt. None), drv_save = (\<lambda>ss opt. None), drv_remove = session_client_remove L\<rparr>"

text \<open>A wrong hash removes the session and fails.\<close>

definition session_client_load ::
  "libu \<Rightarrow> 'k ssl_env \<Rightarrow> session \<Rightarrow> ssl_opt \<Rightarrow> (session step \<times> ssl_opt) option" where
  "session_client_load L S ss opt =
     (case (request_get_cookie (s_rq ss) KL1_CLISES_DATA, request_get_cookie (s_rq ss) KL1_CLISES_MTIME,
            request_get_cookie (s_rq ss) KL1_CLISES_HMAC, request_get_cookie (s_rq ss) KL1_CLISES_IV) of
        (Ok (Some cli_ebuf), Ok (Some cli_mtime), Ok (Some cli_hmac), Ok cli_iv) \<Rightarrow>
          (case session_client_hmac L S opt cli_ebuf (s_id ss) cli_mtime (if so_encrypt (co_so opt) then cli_iv else None) of
             Fail \<Rightarrow> Some (Failed ss, opt)
           | Fault \<Rightarrow> Some (Crash, opt)
           | Ok hmac \<Rightarrow>
               (if hmac \<noteq> cli_hmac
                then map_option (\<lambda>(r, opt1). (case kept r of None \<Rightarrow> Crash | Some ss1 \<Rightarrow> Failed ss1, opt1))
                       (session_remove L (co_so opt) (cli_driver_remove L) ss opt)
                else load_checked L S cli_ebuf cli_mtime cli_iv ss opt))
      | (Fault, _, _, _) \<Rightarrow> Some (Crash, opt)
      | (_, Fault, _, _) \<Rightarrow> Some (Crash, opt)
      | (_, _, Fault, _) \<Rightarrow> Some (Crash, opt)
      | (_, _, _, Fault) \<Rightarrow> Some (Crash, opt)
      | _ \<Rightarrow> Some (Failed ss, opt))"

definition client_driver :: "libu \<Rightarrow> 'k ssl_env \<Rightarrow> ssl_opt ses_driver" where
  "client_driver L S = \<lparr>drv_load = session_client_load L S, drv_save = session_client_save L S, drv_remove = session_client_remove L\<rparr>"

definition session_client_create ::
  "libu \<Rightarrow> ses_env \<Rightarrow> 'k ssl_env \<Rightarrow> request \<Rightarrow> response \<Rightarrow> ssl_opt \<Rightarrow> (session step \<times> ssl_opt) option" where
  "session_client_create L V S rq rs opt =
     (if \<not> u_malloc L 64 then Some (Failed (session_blank rq rs), opt)
      else case session_prv_init L V (co_so opt) ((session_blank rq rs)\<lparr>s_mtime := to_int32 (se_time V)\<rparr>) of
        Done ss \<Rightarrow> Some (Done ss, opt)
      | Failed ss \<Rightarrow> free_failed L V (co_so opt) (client_driver L S) ss opt
      | Crash \<Rightarrow> Some (Crash, opt))"

text \<open>
  \<^verbatim>\<open>session_client_module_init\<close>: \<open>cfg\<close> is the value of \<^verbatim>\<open>client.hash_function\<close>, if there is
  one.  Encryption is always on.
\<close>

definition session_client_module_init :: "'k ssl_env \<Rightarrow> string option \<Rightarrow> ssl_opt \<Rightarrow> ssl_opt option" where
  "session_client_module_init S cfg opt =
     (let opt1 = opt\<lparr>co_so := (co_so opt)\<lparr>so_encrypt := True\<rparr>\<rparr> in
      case (case cfg of
              None \<Rightarrow> Some EVP_sha1
            | Some v \<Rightarrow>
                if strcaseeq v ''md5'' then Some EVP_md5 else if strcaseeq v ''sha1'' then Some EVP_sha1
                else if strcaseeq v ''ripemd160'' then Some EVP_ripemd160 else None) of
        None \<Rightarrow> None
      | Some hash \<Rightarrow>
          map_option (\<lambda>key. opt1\<lparr>co_hash := hash, co_hmac_key := key, co_over := []\<rparr>) (sl_rand S ''hmac_key'' HMAC_KEY_LEN))"

section \<open>Saving and loading through a cipher\<close>

text \<open>An ordinary variable: storable, and not the one that holds a key.\<close>

definition clear_pair :: "string \<times> char list \<Rightarrow> bool" where
  "clear_pair p \<longleftrightarrow> storable p \<and> fst p \<noteq> SESSION_KEY_VAR"

lemma calc_maxsize_ssl_loop:
  assumes "\<forall>a \<in> set as. vheap m a \<noteq> None" "map (\<lambda>a. var_pair (the (vheap m a))) as = bound_view ps" "ps \<noteq> []" "64 + text_space ps < SIZE_LIMIT"
  shows "vars_foreach (calc_maxsize_ssl_cb m) as 0 = Ok (64 + text_space ps)"
proof -
  have big: "vars_foreach (calc_maxsize_ssl_cb m) bs sz = vars_foreach (calc_maxsize_cb m) bs sz"
    if "0 < sz" "sz + text_space qs < SIZE_LIMIT" "map (\<lambda>a. var_pair (the (vheap m a))) bs = bound_view qs" "\<forall>a \<in> set bs. vheap m a \<noteq> None" for bs qs sz
    using that
  proof (induction bs arbitrary: qs sz)
    case (Cons b bs)
    then obtain v where v: "vheap m b = Some v" by auto
    obtain p rs where qs: "qs = p # rs" using Cons.prems(3) by (cases qs) auto
    have p: "sname v = fst p" "vdata v = Some (snd p)" "map (\<lambda>a. var_pair (the (vheap m a))) bs = bound_view rs"
      using Cons.prems(3) v qs by (auto simp: var_pair_def)
    have sz: "session_prv_calc_maxsize v sz = sz + (3 * length (fst p) + 3 * length (cstr (snd p)) + 4)"
      using Cons.prems(2) qs p by (simp add: session_prv_calc_maxsize_def var_get_value_def Let_def)
    have "vars_foreach (calc_maxsize_ssl_cb m) bs (session_prv_calc_maxsize v sz) = vars_foreach (calc_maxsize_cb m) bs (session_prv_calc_maxsize v sz)"
      using Cons.prems sz qs p(3) by (intro Cons.IH [of _ rs]) auto
    moreover have "calc_maxsize_ssl_cb m b sz = Ok (False, session_prv_calc_maxsize v sz)" "calc_maxsize_cb m b sz = Ok (False, session_prv_calc_maxsize v sz)"
      using v Cons.prems(1) by (simp_all add: calc_maxsize_ssl_cb_def calc_maxsize_cb_def session_prv_calc_maxsize_ssl_def)
    ultimately show ?case by simp
  qed simp
  obtain a bs where as: "as = a # bs" using assms(2,3) by (cases as; cases ps) (auto simp: bound_view_def)
  then have "vars_foreach (calc_maxsize_ssl_cb m) as 0 = vars_foreach (calc_maxsize_ssl_cb m) as 64"
    using assms(1) by (auto simp: calc_maxsize_ssl_cb_def session_prv_calc_maxsize_ssl_def CIPHER_BLOCK_LEN_def)
  also have "\<dots> = Ok (64 + text_space ps)"
    using big [of 64 ps as] assms(1,2,4) calc_maxsize_loop [OF assms(1,2), of 64] by simp
  finally show ?thesis .
qed

lemma save_var_ssl_text:
  assumes "libu_ok L" "libu_mem L" "var_ok v" "var_pair v = (fst p, Some (snd p))" "pair_ok p" "fst p \<noteq> SESSION_KEY_VAR" "vheap m a = Some v"
  shows "session_prv_save_var_ssl L S opt E a v m io =
     map_option (\<lambda>r. bind_step r (\<lambda>io1. Done (m, io1)) (\<lambda>io1. (m, io1))) (io_write L E (url_pair p @ [LF]) io)"
proof -
  have v: "sname v = fst p" "vdata v = Some (snd p)" "vsize v = length (snd p)" using assms(3,4) by (auto simp: var_pair_def var_ok_def)
  have e: "u_urlncpy L (s @ [NUL]) (length s) CPY_ENCODE = Ok (url_escape s, length (url_escape s))" for s
    by (simp add: u_urlncpy_def counted_def url_encode_eq)
  have c: "cstr (url_escape s) = url_escape s" for s by (rule cstr_id) (rule url_escape_clean)
  have "var_put a v m = m" using assms(7) by (simp add: var_put_def fun_upd_idem)
  then show ?thesis
    using assms(5,6)
    by (simp add: session_prv_save_var_ssl_def save_key_def v e c Let_def var_get_value_size_def libu_memD [OF assms(1,2)] url_pair_def pair_ok_def
        io_vprintf_def)
qed

lemma save_loop_ssl_text:
  assumes "libu_ok L" "libu_mem L"
  shows "\<forall>a \<in> set as. \<exists>v. vheap m a = Some v \<and> var_ok v \<Longrightarrow> map (\<lambda>a. var_pair (the (vheap m a))) as = bound_view ps \<Longrightarrow>
    \<forall>p \<in> set ps. clear_pair p \<Longrightarrow> cipher_sink.coded X io (session_text ps @ t) e \<Longrightarrow> wballoc io \<or> ps \<noteq> [] \<Longrightarrow>
    \<exists>io' e1 e2. save_loop_ssl L S opt (cipher_ops X) as m io = Some (Done (m, io')) \<and> cipher_sink.coded X io' t e2 \<and> wballoc io' \<and>
      mem_snk.written io' = mem_snk.written io @ e1 \<and> e = e1 @ e2"
proof (induction as arbitrary: ps io e)
  case (Cons a as)
  then obtain v where v: "vheap m a = Some v" "var_ok v" by auto
  obtain p qs where ps: "ps = p # qs" using Cons.prems(2) by (cases ps) auto
  have vp: "var_pair v = (fst p, Some (snd p))" "map (\<lambda>a. var_pair (the (vheap m a))) as = bound_view qs" "pair_ok p" "fst p \<noteq> SESSION_KEY_VAR"
    using Cons.prems(2,3) v ps by (auto simp: clear_pair_def storable_def)
  have "cipher_sink.coded X io ((url_pair p @ [LF]) @ session_text qs @ t) e" using Cons.prems(4) ps by simp
  from cipher_sink.io_write_coded [OF assms this] obtain io1 e1 e2 where
    io1: "io_write L (cipher_ops X) (url_pair p @ [LF]) io = Some (Done io1)" "cipher_sink.coded X io1 (session_text qs @ t) e2" "wballoc io1"
      "mem_snk.written io1 = mem_snk.written io @ e1" "e = e1 @ e2" by blast
  from Cons.IH [OF _ vp(2) _ io1(2)] Cons.prems(1,3) ps io1(3) obtain io' e3 e4 where
    io': "save_loop_ssl L S opt (cipher_ops X) as m io1 = Some (Done (m, io'))" "cipher_sink.coded X io' t e4" "wballoc io'"
      "mem_snk.written io' = mem_snk.written io1 @ e3" "e2 = e3 @ e4" by auto
  have "save_loop_ssl L S opt (cipher_ops X) (a # as) m io = Some (Done (m, io'))"
    using v(1) io1(1) io'(1) save_var_ssl_text [OF assms v(2) vp(1,3,4) v(1), of S opt "cipher_ops X" io] by simp
  with io' io1 show ?case by - (rule exI [of _ io'], rule exI [of _ "e1 @ e3"], rule exI [of _ e4], simp)
next
  case Nil
  then show ?case by (auto simp: bound_view_def)
qed

context read_stream
begin

lemma load_vars_ssl_text:
  assumes "libu_ok L" "libu_mem L"
  shows "plain io \<Longrightarrow> avail io = session_text ps \<Longrightarrow> \<forall>p \<in> set ps. clear_pair p \<Longrightarrow> session_ok ss \<Longrightarrow>
    \<exists>ss' io'. load_vars_ssl L S opt E ss io = Some (Done ss', io') \<and> plain io' \<and> same_out io io' \<and> session_ok ss' \<and>
      session_view ss' = session_view ss @ bound_view ps \<and> upd_vars (s_vars ss) (s_mem ss) ss' = ss"
proof (induction ps arbitrary: ss io)
  case Nil
  have "avail io = []" using Nil.prems(2) by simp
  from line_end [OF assms Nil.prems(1) this] Nil.prems(4) show ?case by (auto simp: load_vars_ssl.simps)
next
  case (Cons p ps)
  let ?v = "var_of (fst p) (snd p)" and ?m = "s_mem ss" and ?vs = "s_vars ss"
  let ?ss = "upd_vars (?vs\<lparr>vlist := vlist ?vs @ [vnext ?m]\<rparr>) (snd (var_alloc ?v ?m)) ss"
  have p: "pair_ok p" "length (url_pair p) \<le> 1022" "snd p \<noteq> []" "fst p \<noteq> SESSION_KEY_VAR"
    using Cons.prems(3) by (auto simp: clear_pair_def storable_def pair_ok_def)
  have clean: "LF \<notin> set (url_pair p)" "NUL \<notin> set (url_pair p)" "url_pair p \<noteq> []" by (auto simp: url_pair_def url_escape_clean)
  have "avail io = url_pair p @ LF # session_text ps" using Cons.prems(2) by simp
  from line_rest [OF assms Cons.prems(1) this clean(1) p(2), of "[]"] obtain io1 where
    io1: "u_getline L E io = Some (True, url_pair p, io1)" "plain io1" "avail io1 = session_text ps" "same_out io io1"
    by (auto simp: u_getline_def)
  have ok: "vars_ok ?vs ?m" using Cons.prems(4) by (simp add: session_ok_def)
  note a = vars_ok_alloc [OF ok var_of_ok(1), of "fst p" "snd p"]
  have ss: "session_ok ?ss" "session_view ?ss = session_view ss @ [(fst p, Some (snd p))]"
    using a(3,4) Cons.prems(4) p(3) by (auto simp: session_ok_def session_view_def var_alloc_def)
  from Cons.IH [OF io1(2,3) _ ss(1)] Cons.prems(3) ss(2) obtain ss' io' where
    l: "load_vars_ssl L S opt E ?ss io1 = Some (Done ss', io')" "plain io'" "same_out io1 io'" "session_ok ss'"
      "session_view ss' = session_view ss @ bound_view (p # ps)" "upd_vars (s_vars ?ss) (s_mem ?ss) ss' = ?ss" by auto
  have "upd_vars ?vs ?m ss' = ss" using l(6) by (cases ss'; cases ss) simp
  moreover have "load_key L S opt (vnext ?m) ?ss = Done ?ss" using p(4) by (simp add: load_key_def var_alloc_def var_of_def)
  then have "load_vars_ssl L S opt E ss io = load_vars_ssl L S opt E ?ss io1"
    by (subst load_vars_ssl.simps) (simp add: io1(1) clean(3) cstr_id [OF clean(2)] vars_add_urlvar_pair [OF assms p(1)])
  ultimately show ?case using l same_out_trans [OF io1(4) l(3)] by auto
qed

end

lemma cipher_create_ok:
  assumes "libu_ok L" "libu_mem L" "ev_init (ev_dir X op) key iv = Some k"
  obtains c where "codec_cipher_create L X op key iv = Some c"
  using assms(3) by (simp add: codec_cipher_create_def Let_def libu_memD [OF assms(1,2)])

lemma created_emits:
  assumes "codec_cipher_create L X op key iv = Some c" "evp_ok X op" "ev_init (ev_dir X op) key iv = Some k"
    "within X op (length s)"
  shows "cipher_emits X (cstate c) s = evp_run (ev_dir X op) k s"
  by (rule cipher_create [OF assms(1,2)]) (use assms(3,4) in simp)

text \<open>What the client-side session relies on from the cipher; a ciphertext is no shorter than its text.\<close>

definition ssl_ok :: "'k ssl_env \<Rightarrow> ssl_opt \<Rightarrow> bool" where
  "ssl_ok S opt \<longleftrightarrow> evp_ok (sl_evp S) CIPHER_ENCRYPT \<and> evp_ok (sl_evp S) CIPHER_DECRYPT \<and>
     ev_block (sl_evp S) \<le> CIPHER_BLOCK_LEN \<and> evp_inverse (sl_evp S) \<and> so_encrypt (co_so opt) \<and>
     (\<forall>iv. length iv = CIPHER_IV_LEN \<longrightarrow> ev_init (ev_encrypt (sl_evp S)) (co_cipher_key opt) (Some iv) \<noteq> None) \<and>
     (\<forall>k m e. evp_run (ev_encrypt (sl_evp S)) k m = Some e \<longrightarrow> length m \<le> length e)"

lemma save_to_buf_ssl_text:
  assumes "libu_ok L" "libu_mem L" "session_ok ss" "session_view ss = bound_view ps" "\<forall>p \<in> set ps. clear_pair p" "ps \<noteq> []"
    and "length (session_text ps) \<le> text_space ps" "64 + text_space ps < SIZE_LIMIT"
    and "evp_ok (sl_evp S) CIPHER_ENCRYPT" "ev_block (sl_evp S) \<le> 32" "so_encrypt (co_so opt)"
    and "ev_init (ev_encrypt (sl_evp S)) (co_cipher_key opt) (Some (co_cipher_iv opt)) = Some k"
    and "evp_run (ev_encrypt (sl_evp S)) k (session_text ps) = Some e"
  shows "\<exists>buf. session_prv_save_to_buf_ssl L S opt ss = Some (Ok (buf, length e), ss) \<and> take (length e) buf = e"
proof -
  let ?X = "sl_evp S" and ?as = "vlist (s_vars ss)" and ?m = "s_mem ss" and ?sz = "64 + text_space ps"
  let ?E = "cipher_ops ?X"
  have heap: "\<forall>a \<in> set ?as. \<exists>v. vheap ?m a = Some v \<and> var_ok v" "\<forall>a \<in> set ?as. vheap ?m a \<noteq> None"
    using assms(3) vars_okD by (fastforce simp: session_ok_def)+
  have view: "map (\<lambda>a. var_pair (the (vheap ?m a))) ?as = bound_view ps" using assms(4) by (simp add: session_view_def vars_view_def)
  note calc = calc_maxsize_ssl_loop [OF heap(2) view assms(6,8)]
  have init: "ev_init (ev_dir ?X CIPHER_ENCRYPT) (co_cipher_key opt) (Some (co_cipher_iv opt)) = Some k" using assms(12) by simp
  obtain c where c: "codec_cipher_create L ?X CIPHER_ENCRYPT (co_cipher_key opt) (Some (co_cipher_iv opt)) = Some c"
    by (rule cipher_create_ok [OF assms(1,2) init])
  have em: "cipher_emits ?X (cstate c) (session_text ps @ []) = Some e"
    using created_emits [OF c assms(9) init, of "session_text ps"] assms(13) by (simp add: within_def)
  have len: "length e \<le> ?sz" using evp_run_length [OF assms(9), of k "session_text ps" e] assms(7,10,13) by simp
  note new = cipher_sink_new [OF em len assms(8)]
  from save_loop_ssl_text [OF assms(1,2) heap(1) view assms(5) new(1)] assms(6) new(2) obtain io1 e1 e2 where
    io1: "save_loop_ssl L S opt ?E ?as ?m (io_codec_add_tail c (mem_io (replicate ?sz NUL))) = Some (Done (?m, io1))"
      "cipher_sink.coded ?X io1 [] e2" "wballoc io1" "mem_snk.written io1 = e1" "e = e1 @ e2" by fastforce
  from cipher_sink.coded_remove [OF io1(2,3)] io1(4,5) obtain io2 where
    io2: "io_codecs_remove ?E io1 = Some (Done io2)" "mem_snk.wok io2" "mem_snk.written io2 = e" by auto
  have ch: "chain io2 = []" using io2(2) by (simp add: mem_snk.wok_def)
  from mem_snk.io_flush_ok [OF io2(2), of "cipher_transform ?X" "cipher_flush ?X"] io2(3) obtain f where
    f: "io_flush ?E io2 = Done f" "mem_snk.wok f" "mem_sunk (dev f) = e" "wcount f = 0" by auto
  from mem_sunk_buf [OF _ f(3)] f(2) have d: "moff (dev f) = length e" "take (length e) (mbuf (dev f)) = e" by (simp_all add: mem_snk.wok_def)
  have tell: "io_tell ?E io2 = (Some (length e), Done f)" using f(1) d(1) by (simp add: io_tell_def mem_ops_def io_mem_tell_def)
  from buf_free_ok [of f "cipher_transform ?X" "cipher_flush ?X"] f(2,4) obtain r where "io_free ?E f = Some r" by (auto simp: mem_snk.wok_def)
  then show ?thesis
    using d(2) assms(11) by (simp add: session_prv_save_to_buf_ssl_def Let_def calc libu_memD [OF assms(1,2)] io_mem_create_eq [OF assms(1,2)]
      session_prv_save_to_io_ssl_def c io1(1) codecs_off_def io2(1) io_codecs_remove_def [of _ io2] ch tell io_mem_get_buf_def)
qed

lemma load_from_buf_ssl_text:
  assumes "libu_ok L" "libu_mem L" "\<forall>p \<in> set ps. clear_pair p" "session_ok ss" "length e < CODEC_CIPHER_MAX_INPUT"
    and "evp_ok (sl_evp S) CIPHER_DECRYPT" "so_encrypt (co_so opt)"
    and "ev_init (ev_decrypt (sl_evp S)) (co_cipher_key opt) (Some (co_cipher_iv opt)) = Some k"
    and "evp_run (ev_decrypt (sl_evp S)) k e = Some (session_text ps)"
  shows "\<exists>ss'. session_prv_load_from_buf_ssl L S opt ss e = Some (Done ss') \<and> session_ok ss' \<and>
      session_view ss' = session_view ss @ bound_view ps \<and> upd_vars (s_vars ss) (s_mem ss) ss' = ss"
proof -
  let ?X = "sl_evp S" and ?E = "cipher_ops (sl_evp S)"
  have init: "ev_init (ev_dir ?X CIPHER_DECRYPT) (co_cipher_key opt) (Some (co_cipher_iv opt)) = Some k" using assms(8) by simp
  obtain c where c: "codec_cipher_create L ?X CIPHER_DECRYPT (co_cipher_key opt) (Some (co_cipher_iv opt)) = Some c"
    by (rule cipher_create_ok [OF assms(1,2) init])
  have em: "cipher_emits ?X (cstate c) e = Some (session_text ps)"
    using created_emits [OF c assms(6) init, of e] assms(5,9) by (simp add: within_def)
  let ?io = "io_codec_add_tail c (mem_io e)"
  have "length e < SIZE_LIMIT" using assms(5) by (simp add: CODEC_CIPHER_MAX_INPUT_def)
  note src = cipher_source_new [OF em this]
  obtain ss' io1 where
    l: "load_vars_ssl L S opt ?E ss ?io = Some (Done ss', io1)" "cipher_source.coded_in ?X io1" "cipher_source.coded_same ?io io1" "session_ok ss'"
      "session_view ss' = session_view ss @ bound_view ps" "upd_vars (s_vars ss) (s_mem ss) ss' = ss"
    using cipher_source.coded.load_vars_ssl_text [OF assms(1,2) src assms(3,4), of S opt] by (elim exE conjE)
  have w: "\<not> wballoc io1" "wcount io1 = 0" "mem_good (dev io1)" "chain io1 \<noteq> []"
    using l(2,3) by (auto simp: cipher_source.coded_same_def cipher_source.coded_in_def io_codec_add_tail_def mem_io_def)
  then have rm: "io_codecs_remove ?E io1 = Some (Done (io1\<lparr>chain := []\<rparr>))" by (simp add: io_codecs_remove_def)
  from buf_free_ok [of "io1\<lparr>chain := []\<rparr>" "cipher_transform ?X" "cipher_flush ?X"] w obtain r where
    "io_free ?E (io1\<lparr>chain := []\<rparr>) = Some r" by auto
  then show ?thesis
    using l assms(7) by (simp add: session_prv_load_from_buf_ssl_def Let_def session_prv_load_from_io_ssl_def io_mem_create_eq [OF assms(1,2)]
        libu_memD [OF assms(1,2)] c codecs_off_def rm)
qed

section \<open>Cookies\<close>

lemma url_escape_plain: "list_all url_plain v \<Longrightarrow> url_escape v = v"
  by (induction v) (auto simp: url_escape_def url_enc_char_def url_plain_def ctype_defs ord_def)

lemma hex_escape_plain: "list_all url_plain (hex_escape s)"
  using hex_escape_xdigit [of s] by (auto simp: list_all_iff url_plain_def ctype_defs)

lemma dec_plain: "list_all url_plain (dec n)"
  using dec_digits [of n] by (auto simp: list_all_iff url_plain_def ctype_defs)

lemma plain_cookie:
  assumes "libu_ok L" "libu_mem L" "list_all url_plain v" "v \<noteq> []" "length name + length v + 2 \<le> 4096"
  obtains rs' where "response_set_cookie L name (Some v) 0 None None False rs = Done rs'"
proof -
  have "u_urlncpy L v (length v) CPY_ENCODE = Ok (v, length v)"
    using url_encode_eq [of v "[]"] by (simp add: u_urlncpy_def counted_def url_escape_plain [OF assms(3)])
  then have "cookie_text L name (Some v) 0 None None False = Ok (name @ ''='' @ v)"
    using assms(4,5) by (simp add: cookie_text_def cookie_append_def libu_ok_snprintf [OF assms(1)] COOKIE_BUFSZ_def cookie_value_def
        cookie_expires_def cookie_attr_def)
  with that show thesis by (simp add: response_set_cookie_def response_add_field_def field_create_def dup_opt_def libu_memD [OF assms(1,2)])
qed

text \<open>A run of cookies given to a response.\<close>

fun set_cookies :: "libu \<Rightarrow> (string \<times> string) list \<Rightarrow> response \<Rightarrow> response step" where
  "set_cookies L [] rs = Done rs"
| "set_cookies L (c # cs) rs = and_then (response_set_cookie L (fst c) (Some (snd c)) 0 None None False rs) (set_cookies L cs)"

section \<open>Reading back the time\<close>

lemma base_value_append: "\<forall>c \<in> set s. digit_value c < b \<Longrightarrow> base_value b acc (s @ t) = base_value b (base_value b acc s) t"
  by (induction s arbitrary: acc) auto

lemma digit_value_chr: "d < 10 \<Longrightarrow> digit_value (chr (48 + d)) = d"
  by (auto simp: digit_value_def ctype_defs)

lemma dec_digit_values: "c \<in> set (dec n) \<Longrightarrow> digit_value c < 10"
  using dec_digits [of n] by (auto simp: digit_value_def ctype_defs subset_iff)

lemma base_value_dec: "base_value 10 0 (dec n) = n"
proof (induction n rule: dec.induct)
  case (1 n)
  show ?case
  proof (cases "n < 10")
    case True
    then show ?thesis using digit_value_chr [OF True] by (simp add: dec.simps)
  next
    case False
    have "n mod 10 < 10" by simp
    from digit_value_chr [OF this] have d: "digit_value (chr (48 + n mod 10)) = n mod 10" .
    have "base_value 10 0 (dec n) = base_value 10 (base_value 10 0 (dec (n div 10))) [chr (48 + n mod 10)]"
      using False dec_digit_values by (subst dec.simps) (simp add: base_value_append)
    also have "\<dots> = n" unfolding 1 [OF False] using d by simp
    finally show ?thesis .
  qed
qed

lemma hd_dec: "0 < n \<Longrightarrow> hd (dec n) \<noteq> CHR ''0''"
proof (induction n rule: dec.induct)
  case (1 n)
  show ?case
  proof (cases "n < 10")
    case True
    have "ord (chr (48 + n)) = 48 + n" using True by simp
    moreover have "ord (CHR ''0'') = 48" by (simp add: ord_def)
    ultimately show ?thesis using 1(2) True by (subst dec.simps) (metis add_cancel_right_right list.sel(1) not_gr_zero)
  next
    case False
    then show ?thesis using 1(1) [OF False] by (subst dec.simps) (simp add: dec_nonempty)
  qed
qed

lemma strtoul_dec:
  assumes "n < 2 ^ 64"
  shows "c_strtoul0 (dec n) = n"
proof -
  have h: "c_isdigit (hd (dec n))" using dec_digits [of n] dec_nonempty [of n] by (cases "dec n") auto
  then have "\<not> c_isspace (hd (dec n))" "hd (dec n) \<noteq> CHR ''-''" "hd (dec n) \<noteq> CHR ''+''" by (auto simp: ctype_defs ord_def)
  then have d: "dropWhile c_isspace (dec n) = dec n" using dec_nonempty [of n] by (cases "dec n") auto
  have "\<not> prefixed (dec n)"
  proof (cases "n = 0")
    case False
    then show ?thesis using hd_dec [of n] dec_nonempty [of n] by (auto simp: prefixed_def hd_conv_nth)
  qed (simp add: prefixed_def dec.simps)
  moreover have "hd (dec n) = CHR ''0'' \<Longrightarrow> base_value 8 0 (dec n) = n"
    using hd_dec [of n] by (cases "n = 0") (auto simp: dec.simps digit_value_def ctype_defs ord_def)
  ultimately show ?thesis
    using assms d base_value_dec [of n] \<open>hd (dec n) \<noteq> CHR ''-''\<close> \<open>hd (dec n) \<noteq> CHR ''+''\<close> dec_nonempty [of n]
    by (simp add: c_strtoul0_def Let_def)
qed

section \<open>Sending a session to the client\<close>

lemma hex_encode_ok:
  "u_hexncpy L (s @ r) (length s) CPY_ENCODE = Ok (hex_escape s, 2 * length s)"
  by (simp add: u_hexncpy_def counted_def hex_encode_eq)

lemma hex_decode_ok: "u_hexncpy L (hex_escape s) (2 * length s) CPY_DECODE = Ok (s, length s)"
  using hex_dec_escape [of s "[]"] by (simp add: u_hexncpy_def counted_def u_hexncpy_decode_def)

lemma client_hmac_ok:
  assumes "mac = sl_mac S (co_hash opt) (co_hmac_key opt) (co_over opt) (data @ sid @ mtime @ (case iv of None \<Rightarrow> [] | Some i \<Rightarrow> i))"
    and "0 < length mac" "length mac \<le> 64"
  shows "session_client_hmac L S opt data sid mtime iv = Ok (hex_escape mac)"
  using assms hex_encode_ok [of L mac "[]"] by (simp add: session_client_hmac_def Let_def EVP_MAX_MD_SIZE_def)

lemma cli_cookie_plain:
  assumes "libu_ok L" "libu_mem L" "list_all url_plain v" "v \<noteq> []" "length name + length v + 2 \<le> 4096"
  obtains rs' where "cli_cookie L name (Some v) ss = Done (ss\<lparr>s_rs := rs'\<rparr>)"
    "response_set_cookie L name (Some v) 0 None None False (s_rs ss) = Done rs'"
  by (rule plain_cookie [OF assms, of "s_rs ss"]) (simp add: cli_cookie_def)

text \<open>The cookies of a session: what the client is given for it.\<close>

definition mac_text :: "'k ssl_env \<Rightarrow> ssl_opt \<Rightarrow> string \<Rightarrow> string" where
  "mac_text S opt s = hex_escape (sl_mac S (co_hash opt) (co_hmac_key opt) (co_over opt) s)"

definition client_cookies :: "'k ssl_env \<Rightarrow> ssl_opt \<Rightarrow> string \<Rightarrow> char list \<Rightarrow> char list \<Rightarrow> nat \<Rightarrow> (string \<times> string) list" where
  "client_cookies S opt sid iv e now =
     [(KL1_CLISES_IV, hex_escape iv), (KL1_CLISES_DATA, hex_escape e), (KL1_CLISES_MTIME, dec now),
      (KL1_CLISES_HMAC, mac_text S opt (hex_escape e @ sid @ dec now @ hex_escape iv))]"

text \<open>A cipher that does what it says, and a hash of the size OpenSSL's hashes have.\<close>

definition mac_sized :: "'k ssl_env \<Rightarrow> bool" where
  "mac_sized S \<longleftrightarrow> (\<forall>hash key over s. 0 < length (sl_mac S hash key over s) \<and> length (sl_mac S hash key over s) \<le> 64)"

lemma save_cookies_ok:
  assumes "libu_ok L" "libu_mem L" "mac_sized S" "sl_time S = int now" "now < 2 ^ 31" "take (length e) buf = e" "e \<noteq> []" "length e \<le> 2039"
    and "session_ok ss"
  shows "\<exists>rs. save_cookies L S opt (Some ivh) buf (length e) ss = Done (ss\<lparr>s_rs := rs, s_mtime := int now\<rparr>) \<and>
     set_cookies L [(KL1_CLISES_DATA, hex_escape e), (KL1_CLISES_MTIME, dec now),
       (KL1_CLISES_HMAC, mac_text S opt (hex_escape e @ s_id ss @ dec now @ ivh))] (s_rs ss) = Done rs"
proof -
  let ?mac = "sl_mac S (co_hash opt) (co_hmac_key opt) (co_over opt) (hex_escape e @ s_id ss @ dec now @ ivh)"
  have mac: "0 < length ?mac" "length ?mac \<le> 64" using assms(3) by (simp_all add: mac_sized_def)
  have enc: "u_hexncpy L buf (length e) CPY_ENCODE = Ok (hex_escape e, 2 * length e)"
    using hex_encode_ok [of L e "drop (length e) buf"] assms(6) by (metis append_take_drop_id)
  have ne: "hex_escape x \<noteq> []" if "0 < length x" for x using that length_hex_escape [of x] by (metis list.size(3) mult_eq_0_iff neq0_conv zero_neq_numeral)
  have "now < 10 ^ Suc 9" using assms(5) by simp
  from length_dec [OF this] have ld: "length (dec now) \<le> 10" by simp
  have len: "length KL1_CLISES_DATA + length (hex_escape e) + 2 \<le> 4096" "length KL1_CLISES_MTIME + length (dec now) + 2 \<le> 4096"
    "length KL1_CLISES_HMAC + length (hex_escape ?mac) + 2 \<le> 4096"
    using assms(8) mac(2) ld by (simp_all add: KL1_CLISES_DATA_def KL1_CLISES_MTIME_def KL1_CLISES_HMAC_def)
  have e0: "hex_escape e \<noteq> []" using ne assms(7) by simp
  obtain r1 where r1: "cli_cookie L KL1_CLISES_DATA (Some (hex_escape e)) ss = Done (ss\<lparr>s_rs := r1\<rparr>)"
    "response_set_cookie L KL1_CLISES_DATA (Some (hex_escape e)) 0 None None False (s_rs ss) = Done r1"
    by (rule cli_cookie_plain [OF assms(1,2) hex_escape_plain e0 len(1)])
  let ?s1 = "ss\<lparr>s_rs := r1, s_mtime := int now\<rparr>"
  obtain r2 where r2: "cli_cookie L KL1_CLISES_MTIME (Some (dec now)) ?s1 = Done (?s1\<lparr>s_rs := r2\<rparr>)"
    "response_set_cookie L KL1_CLISES_MTIME (Some (dec now)) 0 None None False (s_rs ?s1) = Done r2"
    by (rule cli_cookie_plain [OF assms(1,2) dec_plain dec_nonempty len(2)])
  let ?s2 = "?s1\<lparr>s_rs := r2\<rparr>"
  obtain r3 where r3: "cli_cookie L KL1_CLISES_HMAC (Some (hex_escape ?mac)) ?s2 = Done (?s2\<lparr>s_rs := r3\<rparr>)"
    "response_set_cookie L KL1_CLISES_HMAC (Some (hex_escape ?mac)) 0 None None False (s_rs ?s2) = Done r3"
    by (rule cli_cookie_plain [OF assms(1,2) hex_escape_plain ne [OF mac(1)] len(3)])
  have t: "to_int32 (sl_time S) = int now" "dec_int (int now) = dec now" "sl_time S \<noteq> -1"
    using assms(4,5) by (simp_all add: to_int32_def dec_int_def)
  have pr: "u_snprintf L (dec now) 32 = (dec now, False)" using ld by (simp add: libu_ok_snprintf [OF assms(1)])
  have h: "session_client_hmac L S opt (hex_escape e) (s_id ?s2) (dec now) (Some ivh) = Ok (hex_escape ?mac)"
    by (rule client_hmac_ok) (use mac in simp_all)
  have "save_cookies L S opt (Some ivh) buf (length e) ss = Done (?s2\<lparr>s_rs := r3\<rparr>)"
    using assms(7,8) r1(1) r2(1) r3(1) h t
    by (simp add: save_cookies_def COOKIE_MAX_SIZE_def CLI_BUF_SIZE_def CIPHER_BLOCK_LEN_def enc pr Let_def)
  with r1(2) r2(2) r3(2) show ?thesis by (auto simp: mac_text_def)
qed

lemma client_save_ok:
  assumes "libu_ok L" "libu_mem L" "ssl_ok S opt" "mac_sized S" "sl_time S = int now" "now < 2 ^ 31"
    and "sl_rand S ''cipher_iv'' CIPHER_IV_LEN = Some iv" "length iv = CIPHER_IV_LEN"
    and "session_ok ss" "session_view ss = bound_view ps" "\<forall>p \<in> set ps. clear_pair p" "ps \<noteq> []"
    and "length (session_text ps) \<le> text_space ps" "length (session_text ps) \<le> 1975" "64 + text_space ps < SIZE_LIMIT"
  shows "\<exists>e k rs. session_client_save L S ss opt = Some (Done (ss\<lparr>s_rs := rs, s_mtime := int now\<rparr>), opt\<lparr>co_cipher_iv := iv\<rparr>) \<and>
     set_cookies L (client_cookies S opt (s_id ss) iv e now) (s_rs ss) = Done rs \<and> length e \<le> 2039 \<and> e \<noteq> [] \<and>
     ev_init (ev_decrypt (sl_evp S)) (co_cipher_key opt) (Some iv) = Some k \<and> evp_run (ev_decrypt (sl_evp S)) k e = Some (session_text ps)"
proof -
  let ?X = "sl_evp S" and ?o = "opt\<lparr>co_cipher_iv := iv\<rparr>"
  have ssl: "evp_ok ?X CIPHER_ENCRYPT" "evp_ok ?X CIPHER_DECRYPT" "ev_block ?X \<le> 32" "evp_inverse ?X" "so_encrypt (co_so ?o)"
    using assms(3) by (simp_all add: ssl_ok_def CIPHER_BLOCK_LEN_def)
  from assms(3,8) obtain k0 where k0: "ev_init (ev_encrypt ?X) (co_cipher_key opt) (Some iv) = Some k0" by (auto simp: ssl_ok_def)
  with ssl(4) obtain e k where e: "evp_run (ev_encrypt ?X) k0 (session_text ps) = Some e"
    "ev_init (ev_decrypt ?X) (co_cipher_key opt) (Some iv) = Some k" "evp_run (ev_decrypt ?X) k e = Some (session_text ps)"
    unfolding evp_inverse_def by blast
  have len: "length e \<le> 2039" using evp_run_length [OF ssl(1), of k0 "session_text ps" e] e(1) ssl(3) assms(14) by simp
  have "session_text ps \<noteq> []" using assms(12) by (cases ps) auto
  moreover have "length (session_text ps) \<le> length e" using assms(3) e(1) unfolding ssl_ok_def by blast
  ultimately have ne: "e \<noteq> []" by auto
  have il: "length KL1_CLISES_IV + length (hex_escape iv) + 2 \<le> 4096" "hex_escape iv \<noteq> []"
    using assms(8) length_hex_escape [of iv] by (auto simp: KL1_CLISES_IV_def CIPHER_IV_LEN_def simp del: length_hex_escape)
  obtain rs0 where rs0: "cli_cookie L KL1_CLISES_IV (Some (hex_escape iv)) ss = Done (ss\<lparr>s_rs := rs0\<rparr>)"
    "response_set_cookie L KL1_CLISES_IV (Some (hex_escape iv)) 0 None None False (s_rs ss) = Done rs0"
    by (rule cli_cookie_plain [OF assms(1,2) hex_escape_plain il(2,1)])
  let ?s = "ss\<lparr>s_rs := rs0\<rparr>"
  have fresh: "fresh_iv L S opt ss = (Done ?s, ?o, Some (hex_escape iv))"
    using ssl(5) assms(7,8) rs0(1) hex_encode_ok [of L iv "[]"] by (simp add: fresh_iv_def Let_def CIPHER_IV_LEN_def)
  have s: "session_ok ?s" "session_view ?s = bound_view ps" using assms(9,10) by (simp_all add: session_ok_def session_view_def)
  have k0': "ev_init (ev_encrypt ?X) (co_cipher_key ?o) (Some (co_cipher_iv ?o)) = Some k0" using k0 by simp
  from save_to_buf_ssl_text [OF assms(1,2) s assms(11-13,15) ssl(1,3,5) k0' e(1)] obtain buf where
    buf: "session_prv_save_to_buf_ssl L S ?o ?s = Some (Ok (buf, length e), ?s)" "take (length e) buf = e" by blast
  from save_cookies_ok [OF assms(1,2,4-6) buf(2) ne len s(1), of ?o "hex_escape iv"] obtain rs where
    rs: "save_cookies L S ?o (Some (hex_escape iv)) buf (length e) ?s = Done (?s\<lparr>s_rs := rs, s_mtime := int now\<rparr>)"
      "set_cookies L [(KL1_CLISES_DATA, hex_escape e), (KL1_CLISES_MTIME, dec now),
         (KL1_CLISES_HMAC, mac_text S ?o (hex_escape e @ s_id ss @ dec now @ hex_escape iv))] rs0 = Done rs" by auto
  have "session_client_save L S ss opt = Some (Done (ss\<lparr>s_rs := rs, s_mtime := int now\<rparr>), ?o)"
    using fresh buf(1) rs(1) by (simp add: session_client_save_def)
  moreover have "set_cookies L (client_cookies S opt (s_id ss) iv e now) (s_rs ss) = Done rs"
    using rs0(2) rs(2) by (simp add: client_cookies_def mac_text_def)
  ultimately show ?thesis using e(2,3) len ne by blast
qed

section \<open>Taking a session back\<close>

text \<open>The cookies a request presents.\<close>

definition presents :: "session \<Rightarrow> (string \<times> string) list \<Rightarrow> bool" where
  "presents ss cs \<longleftrightarrow> (\<forall>c \<in> set cs. request_get_cookie (s_rq ss) (fst c) = Ok (Some (snd c)))"

text \<open>
  What the options at a load share with those at the save: the keys, and a hash that gives the same
  values.  The last is a condition, for every load writes a NUL over the first byte of the hash
  context behind \<^verbatim>\<open>cipher_iv\<close>: it holds in a process that has loaded no session since the save, or
  (\<open>same_keys_blind\<close>) with a hash that does not depend on that byte.
\<close>

definition same_keys :: "'k ssl_env \<Rightarrow> ssl_opt \<Rightarrow> ssl_opt \<Rightarrow> bool" where
  "same_keys S a b \<longleftrightarrow> co_so b = co_so a \<and> co_cipher_key b = co_cipher_key a \<and>
     (\<forall>s. sl_mac S (co_hash b) (co_hmac_key b) (co_over b) s = sl_mac S (co_hash a) (co_hmac_key a) (co_over a) s) \<and>
     length (co_cipher_iv b) = CIPHER_IV_LEN"

lemma same_keys_blind:
  assumes "\<And>hash key over s. sl_mac S hash key (NUL # drop 1 over) s = sl_mac S hash key over s"
    and "same_keys S a b" "length iv = CIPHER_IV_LEN"
  shows "same_keys S a (iv_store iv b)"
  using assms by (simp add: same_keys_def iv_store_def Let_def CIPHER_IV_LEN_def)

lemma client_load_checked:
  assumes "mac_sized S" "request_get_cookie (s_rq ss) KL1_CLISES_DATA = Ok (Some data)" "request_get_cookie (s_rq ss) KL1_CLISES_MTIME = Ok (Some mt)"
    and "request_get_cookie (s_rq ss) KL1_CLISES_HMAC = Ok (Some hm)" "request_get_cookie (s_rq ss) KL1_CLISES_IV = Ok iv" "so_encrypt (co_so opt)"
    and "hm = mac_text S opt (data @ s_id ss @ mt @ (case iv of None \<Rightarrow> [] | Some i \<Rightarrow> i))"
  shows "session_client_load L S ss opt = load_checked L S data mt iv ss opt"
proof -
  let ?mac = "sl_mac S (co_hash opt) (co_hmac_key opt) (co_over opt) (data @ s_id ss @ mt @ (case iv of None \<Rightarrow> [] | Some i \<Rightarrow> i))"
  have "session_client_hmac L S opt data (s_id ss) mt iv = Ok (hex_escape ?mac)"
    by (rule client_hmac_ok) (use assms(1) in \<open>simp_all add: mac_sized_def\<close>)
  with assms(2-7) show ?thesis by (simp add: session_client_load_def mac_text_def)
qed

lemma iv_store_own:
  assumes "length iv = CIPHER_IV_LEN"
  shows "iv_store iv opt = opt\<lparr>co_cipher_iv := iv @ drop 17 (co_cipher_iv opt), co_over := NUL # drop 1 (co_over opt)\<rparr>"
  using assms by (simp add: iv_store_def Let_def CIPHER_IV_LEN_def)

lemma client_load_ok:
  assumes "libu_ok L" "libu_mem L" "ssl_ok S opt" "mac_sized S" "now < 2 ^ 31" "length iv = CIPHER_IV_LEN" "1 \<le> sl_tail S"
    and "\<forall>p \<in> set ps. clear_pair p" "length e \<le> 2039" "e \<noteq> []"
    and "ev_init (ev_decrypt (sl_evp S)) (co_cipher_key opt) (Some iv) = Some k" "evp_run (ev_decrypt (sl_evp S)) k e = Some (session_text ps)"
    and "same_keys S opt opt0" "session_ok ss0" "presents ss0 (client_cookies S opt (s_id ss0) iv e now)"
  shows "\<exists>ss2. session_client_load L S ss0 opt0 = Some (Done ss2, iv_store iv opt0) \<and> session_ok ss2 \<and>
     session_view ss2 = session_view ss0 @ bound_view ps \<and> s_mtime ss2 = int now"
proof -
  let ?o = "iv_store iv opt0" and ?s = "ss0\<lparr>s_mtime := int now\<rparr>"
  have enc: "so_encrypt (co_so opt0)" using assms(3,13) by (simp add: ssl_ok_def same_keys_def)
  have "mac_text S opt0 x = mac_text S opt x" for x using assms(13) by (simp add: same_keys_def mac_text_def)
  then have load: "session_client_load L S ss0 opt0 = load_checked L S (hex_escape e) (dec now) (Some (hex_escape iv)) ss0 opt0"
    using assms(15) by (intro client_load_checked [OF assms(4) _ _ _ _ enc]) (auto simp: presents_def client_cookies_def)
  have o: "so_encrypt (co_so ?o)" "ev_init (ev_decrypt (sl_evp S)) (co_cipher_key ?o) (Some (co_cipher_iv ?o)) = Some k"
    using enc assms(11,13) unfolding iv_store_own [OF assms(6)] by (simp_all add: same_keys_def CIPHER_IV_LEN_def)
  have dok: "evp_ok (sl_evp S) CIPHER_DECRYPT" using assms(3) by (simp add: ssl_ok_def)
  have s: "session_ok ?s" "session_view ?s = session_view ss0" using assms(14) by (simp_all add: session_ok_def session_view_def)
  have el: "length e < CODEC_CIPHER_MAX_INPUT" using assms(9) by (simp add: CODEC_CIPHER_MAX_INPUT_def)
  from load_from_buf_ssl_text [OF assms(1,2,8) s(1) el dok o assms(12)] s(2) obtain ss2 where
    ss2: "session_prv_load_from_buf_ssl L S ?o ?s e = Some (Done ss2)" "session_ok ss2" "session_view ss2 = session_view ss0 @ bound_view ps"
      "upd_vars (s_vars ?s) (s_mem ?s) ss2 = ?s" by auto
  have "s_mtime ss2 = int now" using arg_cong [OF ss2(4), of s_mtime] by simp
  moreover have "to_int32 (int (c_strtoul0 (dec now))) = int now" using assms(5) by (simp add: strtoul_dec to_int32_def)
  moreover have "u_hexncpy L (hex_escape iv) 32 CPY_DECODE = Ok (iv, 16)" using hex_decode_ok [of L iv] assms(6) by (simp add: CIPHER_IV_LEN_def)
  ultimately have "load_checked L S (hex_escape e) (dec now) (Some (hex_escape iv)) ss0 opt0 = Some (Done ss2, ?o)"
    using ss2(1) assms(6,7,9,10) hex_decode_ok [of L e]
    by (simp add: load_checked_def Let_def CIPHER_IV_LEN_def COOKIE_MAX_SIZE_def)
  with load ss2(2,3) \<open>s_mtime ss2 = int now\<close> show ?thesis by auto
qed

section \<open>What the hash accepts\<close>

lemma hex_dec_total: "length s = 2 * n \<Longrightarrow> \<exists>d. hex_dec_loop s n = Ok d \<and> length d = n"
proof (induction n arbitrary: s)
  case (Suc n)
  then obtain a b t where "s = a # b # t" "length t = 2 * n" by (cases s; cases "tl s") auto
  with Suc.IH [of t] show ?case by auto
qed simp

lemma hex_decode_total:
  assumes "even (length s)"
  obtains d where "u_hexncpy L s (length s) CPY_DECODE = Ok (d, length d)" "length d = length s div 2"
  using assms hex_dec_total [of s "length s div 2"] that by (auto simp: u_hexncpy_def counted_def u_hexncpy_decode_def)

lemma iv_store_past:
  assumes "CIPHER_IV_LEN \<le> length b"
  shows "take (length b + 1 - CIPHER_IV_LEN) (co_over (iv_store b opt)) = drop CIPHER_IV_LEN b @ [NUL]"
  using assms by (simp add: iv_store_def Let_def)

lemma presentsD: "presents ss cs \<Longrightarrow> (n, v) \<in> set cs \<Longrightarrow> request_get_cookie (s_rq ss) n = Ok (Some v)"
  by (auto simp: presents_def)

lemma load_checked_iv:
  assumes "even (length ivh)" "32 \<le> length ivh" "odd (length data)" "length data \<le> 4096"
  shows "\<exists>b res. load_checked L S data mt (Some ivh) ss opt = Some (res, iv_store b opt) \<and> length b = length ivh div 2 \<and>
     (if 16 + sl_tail S \<le> length b then res = Crash else \<exists>ss1. res = Failed ss1) \<and>
     take (length b - 15) (co_over (iv_store b opt)) = drop 16 b @ [NUL]"
proof -
  obtain b where b: "u_hexncpy L ivh (length ivh) CPY_DECODE = Ok (b, length b)" "length b = length ivh div 2"
    by (rule hex_decode_total [OF assms(1)])
  have l: "16 \<le> length b" using b(2) assms(2) by simp
  then have "take (length b - 15) (co_over (iv_store b opt)) = drop 16 b @ [NUL]"
    using iv_store_past [of b opt] by (simp add: CIPHER_IV_LEN_def)
  moreover have "length data mod 2 = Suc 0" using assms(3) by (simp add: odd_iff_mod_2_eq_one)
  then have "u_hexncpy L data (length data) CPY_DECODE = Fail" by (simp add: u_hexncpy_def counted_def u_hexncpy_decode_def)
  then have "load_checked L S data mt (Some ivh) ss opt =
      Some (if 16 + sl_tail S \<le> length b then Crash else Failed (ss\<lparr>s_mtime := to_int32 (int (c_strtoul0 mt))\<rparr>), iv_store b opt)"
    using b(1) l assms(4) by (auto simp: load_checked_def Let_def CIPHER_IV_LEN_def COOKIE_MAX_SIZE_def)
  ultimately show ?thesis using b(2) by - (rule exI [of _ b], auto)
qed

section \<open>Example\<close>

text \<open>A request that carries a list of cookies.\<close>

definition cookie_request :: "(string \<times> string) list \<Rightarrow> request" where
  "cookie_request cs = blank_request
     \<lparr>rq_cookies := \<lparr>vlist = [0..<length cs], foreign = False\<rparr>,
      rq_mem := \<lparr>vheap = (\<lambda>a. if a < length cs then Some (var_of (fst (cs ! a)) (snd (cs ! a) @ [NUL])) else None), vnext = length cs\<rparr>\<rparr>"

definition cookie_session :: "string \<Rightarrow> (string \<times> string) list \<Rightarrow> session" where
  "cookie_session sid cs = (session_blank (cookie_request cs) blank_response)\<lparr>s_id := sid\<rparr>"

lemma cookie_session_ok: "session_ok (cookie_session sid cs)" "session_view (cookie_session sid cs) = []" "s_id (cookie_session sid cs) = sid"
  using session_blank_ok [of "cookie_request cs" blank_response] by (simp_all add: cookie_session_def session_ok_def session_view_def)

lemma clises_names: "strcaseeq KL1_CLISES_IV KL1_CLISES_DATA = False" "strcaseeq KL1_CLISES_IV KL1_CLISES_MTIME = False"
  "strcaseeq KL1_CLISES_IV KL1_CLISES_HMAC = False" "strcaseeq KL1_CLISES_DATA KL1_CLISES_MTIME = False"
  "strcaseeq KL1_CLISES_DATA KL1_CLISES_HMAC = False" "strcaseeq KL1_CLISES_MTIME KL1_CLISES_HMAC = False"
proof -
  have d: "(chr 100 :: char) \<noteq> chr 104" by (auto dest: arg_cong [of _ _ ord])
  show "strcaseeq KL1_CLISES_IV KL1_CLISES_DATA = False" "strcaseeq KL1_CLISES_IV KL1_CLISES_MTIME = False"
    "strcaseeq KL1_CLISES_IV KL1_CLISES_HMAC = False" "strcaseeq KL1_CLISES_DATA KL1_CLISES_MTIME = False"
    "strcaseeq KL1_CLISES_DATA KL1_CLISES_HMAC = False" "strcaseeq KL1_CLISES_MTIME KL1_CLISES_HMAC = False"
    by (simp_all add: strcaseeq_def c_tolower_def ctype_defs ord_def d KL1_CLISES_IV_def KL1_CLISES_DATA_def KL1_CLISES_MTIME_def KL1_CLISES_HMAC_def)
qed

lemma cookie_session_presents:
  assumes "NUL \<notin> set a" "NUL \<notin> set b" "NUL \<notin> set c" "NUL \<notin> set d"
  shows "presents (cookie_session sid [(KL1_CLISES_IV, a), (KL1_CLISES_DATA, b), (KL1_CLISES_MTIME, c), (KL1_CLISES_HMAC, d)])
     [(KL1_CLISES_IV, a), (KL1_CLISES_DATA, b), (KL1_CLISES_MTIME, c), (KL1_CLISES_HMAC, d)]"
proof -
  have u: "[0..<4] = [0, 1, 2, 3 :: nat]" by (simp add: upt_rec)
  show ?thesis
    using assms
    by (simp add: presents_def cookie_session_def session_blank_def cookie_request_def request_get_cookie_def vars_get_value_def
        vars_geti_value_def vars_geti_def u clises_names var_of_def var_get_value_def numeral_3_eq_3 numeral_2_eq_2)
qed

lemma plain_no_NUL: "list_all url_plain v \<Longrightarrow> NUL \<notin> set v"
  by (auto simp: list_all_iff url_plain_def ctype_defs ord_def)

section \<open>Removing the cookies\<close>

lemma cookie_None: "\<exists>rs'. response_set_cookie L n None 0 None None False rs = Done rs' \<or> response_set_cookie L n None 0 None None False rs = Failed rs'"
  by (auto simp: response_set_cookie_def cookie_text_def cookie_append_def response_add_field_def split: prod.splits option.splits)

lemma cli_cookie_None:
  "\<exists>rs'. cli_cookie L n None ss = Done (ss\<lparr>s_rs := rs'\<rparr>) \<or> cli_cookie L n None ss = Failed (ss\<lparr>s_rs := rs'\<rparr>)"
  using cookie_None [of L n "s_rs ss"] by (auto simp: cli_cookie_def)

lemma client_remove_ok:
  "\<exists>r rs'. session_client_remove L ss opt = Some (r, opt) \<and> kept r = Some (ss\<lparr>s_rs := rs'\<rparr>)"
proof -
  have step: "\<exists>rs'. kept (and_then (cli_cookie L n None s) f) = Some (s\<lparr>s_rs := rs'\<rparr>)"
    if "\<And>s. \<exists>rs'. kept (f s) = Some (s\<lparr>s_rs := rs'\<rparr>)" for n s f
  proof -
    from cli_cookie_None [of L n s] obtain rs' where
      "cli_cookie L n None s = Done (s\<lparr>s_rs := rs'\<rparr>) \<or> cli_cookie L n None s = Failed (s\<lparr>s_rs := rs'\<rparr>)" by blast
    with that [of "s\<lparr>s_rs := rs'\<rparr>"] show ?thesis by auto
  qed
  have iv: "\<exists>rs'. kept (cli_cookie L KL1_CLISES_IV None s) = Some (s\<lparr>s_rs := rs'\<rparr>)" for s
    using cli_cookie_None [of L KL1_CLISES_IV s] by auto
  note hmac = step [where n = KL1_CLISES_HMAC, OF iv]
  note mtime = step [where n = KL1_CLISES_MTIME, OF hmac]
  show ?thesis using step [where n = KL1_CLISES_DATA, OF mtime, of ss] by (auto simp: session_client_remove_def)
qed

lemma client_removed:
  "\<exists>r ss1. session_remove L so (cli_driver_remove L) ss opt = Some (r, opt) \<and> kept r = Some ss1 \<and> s_removed ss1 \<and>
     session_view ss1 = session_view ss"
proof -
  from drop_cookie [of L so ss] obtain ss0 where
    ss0: "kept (set_sid_cookie L so None ss) = Some ss0" "s_vars ss0 = s_vars ss" "s_mem ss0 = s_mem ss" by blast
  from client_remove_ok [of L "ss0\<lparr>s_removed := True\<rparr>" opt] obtain r rs' where
    r: "session_client_remove L (ss0\<lparr>s_removed := True\<rparr>) opt = Some (r, opt)" "kept r = Some (ss0\<lparr>s_removed := True, s_rs := rs'\<rparr>)" by auto
  then show ?thesis using ss0 by (auto simp: session_remove_def cli_driver_remove_def session_view_def)
qed

section \<open>Example server\<close>

definition example_ssl :: "char option ssl_env" where
  "example_ssl =
     \<lparr>sl_evp = shift_cipher, sl_rand = (\<lambda>name n. Some (replicate n (CHR ''r''))), sl_mac = (\<lambda>hash key over s. take 20 (over @ s @ replicate 20 NUL)),
      sl_time = 1000, sl_tail = 400\<rparr>"

definition example_opt :: ssl_opt where
  "example_opt =
     \<lparr>co_so = so_default\<lparr>so_encrypt := True\<rparr>, co_session_key = replicate 32 NUL, co_session_iv = replicate 16 NUL, co_cipher_key = replicate 32 NUL,
      co_cipher_iv = replicate 16 NUL, co_over = [], co_hash = EVP_sha1, co_hmac_key = replicate 64 NUL\<rparr>"

lemma shift_run_held: "evp_run (shift_dir n) h m = Some (map (shift n) (held_back h m))"
  by (cases h; cases m rule: rev_cases) (simp_all add: evp_run_def shift_dir_def held_back_def Let_def)

lemma example_ok: "ssl_ok example_ssl example_opt" "mac_sized example_ssl" "same_keys example_ssl example_opt example_opt"
proof -
  have "length m \<le> length e" if "evp_run (shift_dir 3) k m = Some e" for k m e
    using that by (cases k) (auto simp: shift_run_held held_back_def)
  moreover have "ev_init (shift_dir n) key iv = Some None" for n key iv by (simp add: shift_dir_def)
  ultimately show "ssl_ok example_ssl example_opt"
    using shift_ok shift_inverse by (simp add: ssl_ok_def example_ssl_def example_opt_def CIPHER_BLOCK_LEN_def) (simp add: shift_cipher_def)
  show "mac_sized example_ssl" by (auto simp: mac_sized_def example_ssl_def min_def)
  show "same_keys example_ssl example_opt example_opt" by (simp add: same_keys_def example_opt_def CIPHER_IV_LEN_def)
qed

section \<open>Properties\<close>

text \<open>
  C12.  A session kept by the client comes back: saving it gives the client four cookies, and a later
  request that presents them under the same identifier loads a session in which every variable
  reads the same and the time is that of the save.  This holds for a session with variables, each of
  which is storable, that is, has a name and a value and a line of at most 1022 bytes when escaped
  (\<open>clear_pair\<close>), and none of which holds a page key; whose text takes at most 1975 bytes and fits the
  space computed for it; and for a load with the same keys and an equal hash (\<open>same_keys\<close>).  The load
  itself writes one NUL behind the IV of the options, over the hash context.
\<close>

theorem client_session_roundtrip:
  assumes "libu_ok L" "libu_mem L" "ssl_ok S opt" "mac_sized S" "sl_time S = int now" "now < 2 ^ 31" "1 \<le> sl_tail S"
    and "sl_rand S ''cipher_iv'' CIPHER_IV_LEN = Some iv" "length iv = CIPHER_IV_LEN"
    and "session_ok ss" "session_view ss = bound_view ps" "\<forall>p \<in> set ps. clear_pair p" "ps \<noteq> []" "s_id ss \<noteq> []"
    and "length (session_text ps) \<le> text_space ps" "length (session_text ps) \<le> 1975" "64 + text_space ps < SIZE_LIMIT"
  shows "\<exists>e rs. session_save L V so (client_driver L S) ss opt =
       Some (Done (ss\<lparr>s_rs := rs, s_mtime := int now\<rparr>), opt\<lparr>co_cipher_iv := iv\<rparr>) \<and>
     set_cookies L (client_cookies S opt (s_id ss) iv e now) (s_rs ss) = Done rs \<and>
     (\<forall>ss0 opt0. session_ok ss0 \<longrightarrow> session_view ss0 = [] \<longrightarrow> s_id ss0 = s_id ss \<longrightarrow> same_keys S opt opt0 \<longrightarrow>
        presents ss0 (client_cookies S opt (s_id ss) iv e now) \<longrightarrow>
        (\<exists>ss1 opt1. session_load (client_driver L S) ss0 opt0 = Some (Done ss1, opt1) \<and> (\<forall>n. session_get ss1 n = session_get ss n) \<and>
           s_mtime ss1 = int now \<and> co_cipher_iv opt1 = iv \<and> co_over opt1 = NUL # drop 1 (co_over opt0)))"
proof -
  from client_save_ok [OF assms(1-6,8-13,15-17)] obtain e k rs where
    sv: "session_client_save L S ss opt = Some (Done (ss\<lparr>s_rs := rs, s_mtime := int now\<rparr>), opt\<lparr>co_cipher_iv := iv\<rparr>)"
      "set_cookies L (client_cookies S opt (s_id ss) iv e now) (s_rs ss) = Done rs" "length e \<le> 2039" "e \<noteq> []"
      "ev_init (ev_decrypt (sl_evp S)) (co_cipher_key opt) (Some iv) = Some k" "evp_run (ev_decrypt (sl_evp S)) k e = Some (session_text ps)" by blast
  have "length (vlist (s_vars ss)) = length ps" using assms(11) by (metis bound_view_def length_map session_view_def vars_view_def)
  then have n: "vars_count (s_vars ss) \<noteq> 0" using assms(13) by (simp add: vars_count_def)
  have load: "\<exists>ss1 opt1. session_load (client_driver L S) ss0 opt0 = Some (Done ss1, opt1) \<and> (\<forall>n. session_get ss1 n = session_get ss n) \<and>
      s_mtime ss1 = int now \<and> co_cipher_iv opt1 = iv \<and> co_over opt1 = NUL # drop 1 (co_over opt0)"
    if s0: "session_ok ss0" "session_view ss0 = []" "s_id ss0 = s_id ss" "same_keys S opt opt0"
      "presents ss0 (client_cookies S opt (s_id ss) iv e now)" for ss0 opt0
  proof -
    have pr: "presents ss0 (client_cookies S opt (s_id ss0) iv e now)" using s0(3,5) by simp
    from client_load_ok [OF assms(1-4,6,9,7,12) sv(3-6) s0(4,1) pr] s0(2) obtain ss1 where
      "session_client_load L S ss0 opt0 = Some (Done ss1, iv_store iv opt0)" "session_ok ss1" "session_view ss1 = session_view ss" "s_mtime ss1 = int now"
      using assms(11) by auto
    moreover have "length (co_cipher_iv opt0) = 16" using s0(4) by (simp add: same_keys_def CIPHER_IV_LEN_def)
    ultimately show ?thesis
      using assms(10) by (simp add: session_load_def client_driver_def session_get_view iv_store_own [OF assms(9)])
  qed
  have "session_save L V so (client_driver L S) ss opt = Some (Done (ss\<lparr>s_rs := rs, s_mtime := int now\<rparr>), opt\<lparr>co_cipher_iv := iv\<rparr>)"
    using sv(1) n assms(14) by (simp add: session_save_def client_driver_def)
  with sv(2) load show ?thesis by blast
qed

theorem client_session_roundtrip_witness:
  "\<exists>V e rs ss1 opt1. session_save libu_ref V so_default (client_driver libu_ref example_ssl) (one_var ''user'' ''bob'') example_opt =
       Some (Done ((one_var ''user'' ''bob'')\<lparr>s_rs := rs, s_mtime := 1000\<rparr>), example_opt\<lparr>co_cipher_iv := replicate 16 (CHR ''r'')\<rparr>) \<and>
     session_load (client_driver libu_ref example_ssl)
       (cookie_session ''1'' (client_cookies example_ssl example_opt ''1'' (replicate 16 (CHR ''r'')) e 1000)) example_opt = Some (Done ss1, opt1) \<and>
     session_get ss1 ''user'' = Ok (Some ''bob'') \<and> co_over opt1 = [NUL]"
proof -
  let ?ps = "[(''user'', ''bob'' @ [NUL])]" and ?ss = "one_var ''user'' ''bob''" and ?iv = "replicate 16 (CHR ''r'')"
  let ?V = "\<lparr>se_tv = None, se_pid = 3, se_rand = 4, se_time = 5, se_digest = (\<lambda>b. b), se_path = (\<lambda>s n. (s, False)), se_fmax = 256\<rparr>"
  have u: "url_escape ''user'' = ''user''" "url_escape (''bob'' @ [NUL]) = ''bob%00''"
    by (simp_all add: url_escape_def url_enc_char_def url_plain_def ctype_defs ord_def hexc_def)
  have ps: "\<forall>p \<in> set ?ps. clear_pair p" "length (session_text ?ps) \<le> text_space ?ps" "length (session_text ?ps) \<le> 1975" "64 + text_space ?ps < SIZE_LIMIT" "?ps \<noteq> []"
    using u by (simp_all add: clear_pair_def storable_def pair_ok_def url_pair_def cstr_def SESSION_KEY_VAR_def)
  have ss: "session_ok ?ss" "session_view ?ss = bound_view ?ps" "s_id ?ss \<noteq> []" "s_id ?ss = ''1''"
    by (simp_all add: one_var_ok) (simp_all add: one_var_def)
  have env: "sl_time example_ssl = int 1000" "(1000 :: nat) < 2 ^ 31" "1 \<le> sl_tail example_ssl"
    "sl_rand example_ssl ''cipher_iv'' CIPHER_IV_LEN = Some ?iv" "length ?iv = CIPHER_IV_LEN"
    by (simp_all add: example_ssl_def CIPHER_IV_LEN_def)
  have g: "session_get ?ss ''user'' = Ok (Some ''bob'')"
    using session_get_view [OF ss(1), of "''user''"] ss(2) by (simp add: strcaseeq_refl cstr_def)
  from client_session_roundtrip [OF libu_ref_ok libu_ref_mem example_ok(1,2) env ss(1,2) ps(1,5) ss(3) ps(2-4), where V = ?V and so = so_default] obtain e rs where
    sv: "session_save libu_ref ?V so_default (client_driver libu_ref example_ssl) ?ss example_opt =
        Some (Done (?ss\<lparr>s_rs := rs, s_mtime := int 1000\<rparr>), example_opt\<lparr>co_cipher_iv := ?iv\<rparr>)"
      "\<forall>ss0 opt0. session_ok ss0 \<longrightarrow> session_view ss0 = [] \<longrightarrow> s_id ss0 = s_id ?ss \<longrightarrow> same_keys example_ssl example_opt opt0 \<longrightarrow>
        presents ss0 (client_cookies example_ssl example_opt (s_id ?ss) ?iv e 1000) \<longrightarrow>
        (\<exists>ss1 opt1. session_load (client_driver libu_ref example_ssl) ss0 opt0 = Some (Done ss1, opt1) \<and> (\<forall>n. session_get ss1 n = session_get ?ss n) \<and>
           s_mtime ss1 = int 1000 \<and> co_cipher_iv opt1 = ?iv \<and> co_over opt1 = NUL # drop 1 (co_over opt0))" by blast
  let ?cs = "client_cookies example_ssl example_opt ''1'' ?iv e 1000"
  have "presents (cookie_session ''1'' ?cs) ?cs"
    unfolding client_cookies_def mac_text_def
    by (rule cookie_session_presents) (rule plain_no_NUL, rule hex_escape_plain dec_plain)+
  with sv(2) cookie_session_ok [of "''1''" ?cs] example_ok(3) ss(4) obtain ss1 opt1 where
    "session_load (client_driver libu_ref example_ssl) (cookie_session ''1'' ?cs) example_opt = Some (Done ss1, opt1)"
    "session_get ss1 ''user'' = session_get ?ss ''user''" "co_over opt1 = NUL # drop 1 (co_over example_opt)" by metis
  moreover have "co_over example_opt = []" by (simp add: example_opt_def)
  ultimately show ?thesis using sv(1) g by (intro exI [of _ ?V] exI [of _ e]) auto
qed

text \<open>
  C15.  A session the client has tampered with is refused: when the hash presented is not the hash
  of the other cookies and the identifier, loading fails, no variable is loaded, the session is
  marked as removed and the options of the server are as before.
\<close>

theorem client_tampering_rejected:
  assumes "mac_sized S" "so_encrypt (co_so opt)" "presents ss [(KL1_CLISES_DATA, data), (KL1_CLISES_MTIME, mt), (KL1_CLISES_IV, iv), (KL1_CLISES_HMAC, h)]"
    and "h \<noteq> mac_text S opt (data @ s_id ss @ mt @ iv)"
  shows "\<exists>ss1. session_load (client_driver L S) ss opt = Some (Failed ss1, opt) \<and> session_view ss1 = session_view ss \<and> s_removed ss1"
proof -
  have c: "request_get_cookie (s_rq ss) KL1_CLISES_DATA = Ok (Some data)" "request_get_cookie (s_rq ss) KL1_CLISES_MTIME = Ok (Some mt)"
    "request_get_cookie (s_rq ss) KL1_CLISES_HMAC = Ok (Some h)" "request_get_cookie (s_rq ss) KL1_CLISES_IV = Ok (Some iv)"
    using assms(3) by (simp_all add: presents_def)
  let ?mac = "sl_mac S (co_hash opt) (co_hmac_key opt) (co_over opt) (data @ s_id ss @ mt @ iv)"
  have "session_client_hmac L S opt data (s_id ss) mt (Some iv) = Ok (hex_escape ?mac)"
    by (rule client_hmac_ok) (use assms(1) in \<open>simp_all add: mac_sized_def\<close>)
  moreover from client_removed [of L "co_so opt" ss opt] obtain r ss1 where
    r: "session_remove L (co_so opt) (cli_driver_remove L) ss opt = Some (r, opt)" "kept r = Some ss1" "s_removed ss1" "session_view ss1 = session_view ss" by blast
  moreover have "hex_escape ?mac \<noteq> h" using assms(4) by (auto simp: mac_text_def)
  ultimately have "session_client_load L S ss opt = Some (Failed ss1, opt)"
    using assms(2) by (simp add: session_client_load_def c)
  with r(3,4) show ?thesis by (simp add: session_load_def client_driver_def)
qed

theorem client_tampering_rejected_witness:
  "\<exists>ss1. session_load (client_driver libu_ref example_ssl)
       (cookie_session ''1'' [(KL1_CLISES_IV, ''aa''), (KL1_CLISES_DATA, ''bb''), (KL1_CLISES_MTIME, ''7''), (KL1_CLISES_HMAC, ''00'')]) example_opt =
     Some (Failed ss1, example_opt) \<and> session_view ss1 = [] \<and> s_removed ss1"
proof -
  let ?cs = "[(KL1_CLISES_IV, ''aa''), (KL1_CLISES_DATA, ''bb''), (KL1_CLISES_MTIME, ''7''), (KL1_CLISES_HMAC, ''00'')]"
  let ?s = "cookie_session ''1'' ?cs"
  have "presents ?s ?cs" by (rule cookie_session_presents) simp_all
  then have p: "presents ?s [(KL1_CLISES_DATA, ''bb''), (KL1_CLISES_MTIME, ''7''), (KL1_CLISES_IV, ''aa''), (KL1_CLISES_HMAC, ''00'')]"
    by (auto simp: presents_def)
  have enc: "so_encrypt (co_so example_opt)" by (simp add: example_opt_def)
  have len: "length (mac_text example_ssl example_opt x) = 40" for x by (simp add: mac_text_def example_ssl_def)
  have h: "''00'' \<noteq> mac_text example_ssl example_opt (''bb'' @ s_id ?s @ ''7'' @ ''aa'')"
  proof
    assume "''00'' = mac_text example_ssl example_opt (''bb'' @ s_id ?s @ ''7'' @ ''aa'')"
    from arg_cong [OF this, of length] have "length ''00'' = 40" unfolding len .
    then show False by simp
  qed
  from client_tampering_rejected [OF example_ok(2) enc p h, of libu_ref] cookie_session_ok(2) [of "''1''" ?cs] show ?thesis by simp
qed

text \<open>
  C13.  The hash does not bind the cookies to their places: it runs over the concatenation of the
  data, the identifier, the time and the IV.  A client can cut the cookies it was given in other
  places, take 32 digits of the data as its session identifier, and present the rest of the data
  as part of the IV: the identifier is a good one, the hash is accepted, and the decoded IV is
  written past the 16 bytes of \<^verbatim>\<open>cipher_iv\<close>, over the members behind it.
\<close>

theorem client_cookies_spliced:
  assumes "mac_sized S" "so_encrypt (co_so opt)" "same_keys S opt opt0" "length sid = 32" "length iv = CIPHER_IV_LEN" "length e \<le> 2039"
    and "(KL1_CLISES_HMAC, h) \<in> set (client_cookies S opt sid iv e now)"
    and "hex_escape e = a @ b @ m @ r" "length b = 32" "odd (length a)" "even (length r + length (dec now))"
    and "s_id ss = b"
      "presents ss [(KL1_CLISES_IV, r @ sid @ dec now @ hex_escape iv), (KL1_CLISES_DATA, a), (KL1_CLISES_MTIME, m), (KL1_CLISES_HMAC, h)]"
  shows "session_is_good_id (s_id ss) \<and>
     (\<exists>w res. session_load (client_driver L S) ss opt0 = Some (res, iv_store w opt0) \<and> 33 \<le> length w \<and>
        (if CIPHER_IV_LEN + sl_tail S \<le> length w then res = Crash else \<exists>ss1. res = Failed ss1) \<and>
        take (length w - 15) (co_over (iv_store w opt0)) = drop CIPHER_IV_LEN w @ [NUL])"
proof -
  let ?iv = "r @ sid @ dec now @ hex_escape iv"
  have c: "request_get_cookie (s_rq ss) KL1_CLISES_DATA = Ok (Some a)" "request_get_cookie (s_rq ss) KL1_CLISES_MTIME = Ok (Some m)"
    "request_get_cookie (s_rq ss) KL1_CLISES_HMAC = Ok (Some h)" "request_get_cookie (s_rq ss) KL1_CLISES_IV = Ok (Some ?iv)"
    using assms(13) by (simp_all add: presents_def)
  have "list_all c_isxdigit (a @ b @ m @ r)" using hex_escape_xdigit [of e] assms(8) by simp
  then have good: "session_is_good_id (s_id ss)" using assms(9,12) by (simp add: session_is_good_id_def SESSION_ID_LENGTH_def)
  have enc: "so_encrypt (co_so opt0)" using assms(2,3) by (simp add: same_keys_def)
  have "h = mac_text S opt (hex_escape e @ sid @ dec now @ hex_escape iv)"
    using assms(7) clises_names by (auto simp: client_cookies_def strcaseeq_refl dest: arg_cong [of _ _ "strcaseeq KL1_CLISES_HMAC"])
  then have "h = mac_text S opt0 (a @ s_id ss @ m @ ?iv)"
    using assms(3,8,12) by (simp add: same_keys_def mac_text_def)
  then have load: "session_client_load L S ss opt0 = load_checked L S a m (Some ?iv) ss opt0"
    using client_load_checked [OF assms(1) c enc, of L] by simp
  have d: "0 < length (dec now)" using dec_nonempty [of now] by simp
  have len: "length ?iv = length r + length (dec now) + 64" using assms(4,5) by (simp add: CIPHER_IV_LEN_def)
  have la: "length a \<le> 4096" using arg_cong [OF assms(8), of length] assms(6) by simp
  have "even (length ?iv)" "32 \<le> length ?iv" unfolding len using assms(11) by simp_all
  from load_checked_iv [OF this assms(10) la, of L S m ss opt0] obtain w res where
    w: "load_checked L S a m (Some ?iv) ss opt0 = Some (res, iv_store w opt0)" "length w = length ?iv div 2"
      "if 16 + sl_tail S \<le> length w then res = Crash else \<exists>ss1. res = Failed ss1"
      "take (length w - 15) (co_over (iv_store w opt0)) = drop 16 w @ [NUL]" by blast
  have "33 \<le> length w" using w(2) len d assms(11) by presburger
  with good load w show ?thesis by (auto simp: session_load_def client_driver_def CIPHER_IV_LEN_def)
qed

theorem client_cookies_spliced_witness:
  "\<exists>h a b m r. (KL1_CLISES_HMAC, h) \<in> set (client_cookies example_ssl example_opt (replicate 32 (CHR ''0'')) (replicate 16 NUL) (replicate 40 (CHR ''x'')) 1000) \<and>
     session_is_good_id b \<and>
     (\<exists>w res. session_load (client_driver libu_ref example_ssl)
        (cookie_session b [(KL1_CLISES_IV, r @ replicate 32 (CHR ''0'') @ dec 1000 @ hex_escape (replicate 16 NUL)), (KL1_CLISES_DATA, a),
           (KL1_CLISES_MTIME, m), (KL1_CLISES_HMAC, h)]) example_opt = Some (res, iv_store w example_opt) \<and> 33 \<le> length w)"
proof -
  let ?e = "replicate 40 (CHR ''x'')" and ?sid = "replicate 32 (CHR ''0'')" and ?iv = "replicate 16 NUL"
  let ?a = "take 1 (hex_escape ?e)" and ?b = "take 32 (drop 1 (hex_escape ?e))" and ?m = "take 5 (drop 33 (hex_escape ?e))" and ?r = "drop 38 (hex_escape ?e)"
  let ?h = "mac_text example_ssl example_opt (hex_escape ?e @ ?sid @ dec 1000 @ hex_escape ?iv)"
  let ?ss = "cookie_session ?b [(KL1_CLISES_IV, ?r @ ?sid @ dec 1000 @ hex_escape ?iv), (KL1_CLISES_DATA, ?a), (KL1_CLISES_MTIME, ?m), (KL1_CLISES_HMAC, ?h)]"
  have h: "(KL1_CLISES_HMAC, ?h) \<in> set (client_cookies example_ssl example_opt ?sid ?iv ?e 1000)" by (simp add: client_cookies_def)
  have split: "hex_escape ?e = ?a @ ?b @ ?m @ ?r"
  proof -
    have "drop 33 xs = drop 32 (drop 1 xs)" "drop 38 xs = drop 5 (drop 33 xs)" for xs :: string by simp_all
    then have "xs = take 1 xs @ take 32 (drop 1 xs) @ take 5 (drop 33 xs) @ drop 38 xs" for xs :: string by (metis append_take_drop_id)
    then show ?thesis .
  qed
  have len: "length ?b = 32" "odd (length ?a)" "even (length ?r + length (dec 1000))" "length ?sid = 32" "length ?iv = CIPHER_IV_LEN" "length ?e \<le> 2039"
    by (simp_all add: dec.simps CIPHER_IV_LEN_def)
  have nn: "NUL \<notin> set (hex_escape x)" "NUL \<notin> set (dec n)" "NUL \<notin> set ?h" for x n
    unfolding mac_text_def by (intro plain_no_NUL hex_escape_plain dec_plain)+
  have pr: "presents ?ss [(KL1_CLISES_IV, ?r @ ?sid @ dec 1000 @ hex_escape ?iv), (KL1_CLISES_DATA, ?a), (KL1_CLISES_MTIME, ?m), (KL1_CLISES_HMAC, ?h)]"
    by (rule cookie_session_presents) (use nn in \<open>auto dest: in_set_takeD in_set_dropD\<close>)
  have enc: "so_encrypt (co_so example_opt)" by (simp add: example_opt_def)
  from client_cookies_spliced [OF example_ok(2) enc example_ok(3) len(4-6) h split len(1-3) cookie_session_ok(3) pr, of libu_ref]
  have "session_is_good_id ?b" "\<exists>w res. session_load (client_driver libu_ref example_ssl) ?ss example_opt = Some (res, iv_store w example_opt) \<and> 33 \<le> length w"
    unfolding cookie_session_ok(3) by blast+
  with h show ?thesis by blast
qed

text \<open>
  The size checked before a session is encoded is that of the data, not of its hexadecimal
  digits: a session of more than 2111 encrypted bytes, up to the 4096 that are let through, is
  written past the end of \<^verbatim>\<open>ebuf\<close>.
\<close>

theorem client_save_overrun:
  assumes "fresh_iv L S opt ss = (Done ss1, opt1, iv)" "session_prv_save_to_buf_ssl L S opt1 ss1 = Some (Ok (buf, sz), ss2)"
    and "2112 \<le> sz" "sz \<le> COOKIE_MAX_SIZE" "sz \<le> length buf"
  shows "session_client_save L S ss opt = Some (Crash, opt1)"
proof -
  have "u_hexncpy L buf sz CPY_ENCODE = Ok (hex_escape (take sz buf), 2 * sz)"
  proof -
    have l: "length (take sz buf) = sz" using assms(5) by simp
    show ?thesis using hex_encode_ok [of L "take sz buf" "drop sz buf"] unfolding l append_take_drop_id .
  qed
  with assms show ?thesis
    by (simp add: session_client_save_def save_cookies_def CLI_BUF_SIZE_def COOKIE_MAX_SIZE_def CIPHER_BLOCK_LEN_def min_def)
qed

end
