(* ===== verification/Trans_C.thy ===== *)
theory Trans_C
  imports Parser Suppliers Session
begin

text \<open>
  \<^verbatim>\<open>src/libtrans/trans_c.c\<close>: the page compiler.  A static file becomes a C file with its bytes
  in an array; a page becomes a C file with an array for each block of HTML and a function that
  writes the arrays and runs the code of the page in order.  The text written at file level is
  kept as a list of items, arrays and declarations, in the order they are printed; writing it
  out is \<open>render\<close>.  The compressor of zlib is an argument, the identity in a build
  without zlib.
\<close>

section \<open>Definitions\<close>

abbreviation DQ :: char where "DQ \<equiv> CHR 0x22"

definition c_lines :: "string list \<Rightarrow> string" where
  "c_lines ls = concat (map (\<lambda>l. l @ [LF]) ls)"

definition quoted :: "string \<Rightarrow> string" where
  "quoted s = DQ # s @ [DQ]"

record trans_info =
  ti_uri :: string
  ti_comp :: bool
  ti_encrypt :: bool
  ti_file_size :: nat
  ti_mtime :: nat

datatype item = Array string string | Decl string

record lang_c_ctx =
  code_blocks :: "string list"
  html_block_cnt :: nat
  items :: "item list"

definition copyright_hdr :: string where
  "copyright_hdr = c_lines
     [''/*                                                                     '',
      '' * Copyright (c) 2005-2012 by KoanLogic s.r.l. <http://koanlogic.com>  '',
      '' * All rights reserved.                                                '',
      '' *                                                                     '',
      '' * This file is part of KLone, and as such it is subject to the license'',
      '' * stated in the LICENSE file which you have received as part of this  '',
      '' * distribution                                                        '',
      '' */                                                                    '']"

text \<open>What follows the last slash of the URI names the script and, in C letters, its function.\<close>

definition script_name :: "string \<Rightarrow> string" where
  "script_name uri = (case u_strnrchr uri (CHR ''/'') (length uri) of None \<Rightarrow> uri | Some i \<Rightarrow> drop (Suc i) uri)"

definition page_fun :: "libu \<Rightarrow> string \<Rightarrow> string" where
  "page_fun L uri =
     map (\<lambda>c. if c_isalnum c then c else CHR ''_'')
       (fst (u_strlcat L (fst (u_strlcpy L ''page_'' 1024)) (script_name uri) 1024))"

definition print_header :: "libu \<Rightarrow> trans_info \<Rightarrow> string" where
  "print_header L ti =
     copyright_hdr @ c_lines [''#include <klone/emb.h>'', ''#include <klone/dypage.h>''] @
     ''static const char *SCRIPT_NAME = '' @ quoted (script_name (ti_uri ti)) @ '';'' @ [LF] @
     ''static int '' @ page_fun L (ti_uri ti) @ '' (void) { static volatile int dummy; return dummy; }'' @ [LF] @
     c_lines [''static request_t *request = NULL;'', ''static response_t *response = NULL;'',
       ''static session_t *session = NULL;'', ''static io_t *in = NULL;'', ''static io_t *out = NULL;'']"

text \<open>The bytes of an array, twelve to a line.\<close>

definition hex_byte :: "char \<Rightarrow> string" where
  "hex_byte c = ''0x'' @ [hexc ! (ord c div 16), hexc ! (ord c mod 16)] @ '', ''"

fun print_bytes :: "nat \<Rightarrow> string \<Rightarrow> string" where
  "print_bytes i [] = []"
| "print_bytes i (c # s) = hex_byte c @ (if i mod 12 = 0 then [LF] else []) @ print_bytes (Suc i) s"

definition print_var_definition :: "(string \<Rightarrow> string) \<Rightarrow> bool \<Rightarrow> string \<Rightarrow> string \<Rightarrow> item" where
  "print_var_definition gz z name s = Array name (print_bytes 1 (if z then gz s else s))"

fun render :: "item \<Rightarrow> string" where
  "render (Array name t) = ''static const char '' @ name @ ''[] = {'' @ [LF] @ t @ ''};'' @ [LF]"
| "render (Decl s) = s @ [LF]"

definition push_code_block :: "string \<Rightarrow> lang_c_ctx \<Rightarrow> lang_c_ctx" where
  "push_code_block s ctx = ctx\<lparr>code_blocks := code_blocks ctx @ [s]\<rparr>"

definition process_declaration :: "string \<Rightarrow> lang_c_ctx \<Rightarrow> lang_c_ctx" where
  "process_declaration s ctx = ctx\<lparr>items := items ctx @ [Decl s]\<rparr>"

definition expr_before :: string where
  "expr_before = ''io_printf(out, '' @ quoted ''%s'' @ '',''"

definition expr_after :: string where
  "expr_after = '');'' @ [LF]"

definition process_expression :: "string \<Rightarrow> lang_c_ctx \<Rightarrow> lang_c_ctx" where
  "process_expression s ctx = push_code_block expr_after (push_code_block s (push_code_block expr_before ctx))"

definition html_var :: "bool \<Rightarrow> nat \<Rightarrow> string" where
  "html_var z k = (if z then ''klone_html_zblock_'' else ''klone_html_'') @ dec k"

definition html_code :: "bool \<Rightarrow> nat \<Rightarrow> string" where
  "html_code z k =
     (if z
      then [LF] @ ''dbg_if(u_io_unzip_copy(out, '' @ html_var True k @ '',    sizeof('' @ html_var True k @ '')));'' @ [LF]
      else [LF] @ ''dbg_if(io_write(out, '' @ html_var False k @ '',    sizeof('' @ html_var False k @ '')) < 0);'' @ [LF])"

definition cb_html_block :: "libu \<Rightarrow> (string \<Rightarrow> string) \<Rightarrow> trans_info \<Rightarrow> string \<Rightarrow> lang_c_ctx \<Rightarrow> lang_c_ctx option" where
  "cb_html_block L gz ti s ctx =
     (case u_snprintf L (html_var (ti_comp ti) (html_block_cnt ctx)) 32 of (name, trunc1) \<Rightarrow>
        if trunc1 then None
        else case u_snprintf L (html_code (ti_comp ti) (html_block_cnt ctx)) 128 of (code, trunc2) \<Rightarrow>
          if trunc2 then None
          else
            Some (push_code_block code (ctx\<lparr>items := items ctx @ [print_var_definition gz (ti_comp ti) name s]\<rparr>)
              \<lparr>html_block_cnt := size_add (html_block_cnt ctx) 1\<rparr>))"

text \<open>Plain code, a declaration, an expression; a directive or any other command is an error.\<close>

definition cb_code_block :: "nat \<Rightarrow> string \<Rightarrow> lang_c_ctx \<Rightarrow> lang_c_ctx option" where
  "cb_code_block cmd s ctx =
     (if cmd = 0 then Some (push_code_block s ctx)
      else if cmd = ord (CHR ''!'') then Some (process_declaration s ctx)
      else if cmd = ord (CHR ''='') then Some (process_expression s ctx)
      else None)"

fun cb_block :: "libu \<Rightarrow> (string \<Rightarrow> string) \<Rightarrow> trans_info \<Rightarrow> block \<Rightarrow> lang_c_ctx \<Rightarrow> lang_c_ctx option" where
  "cb_block L gz ti (Html s) ctx = cb_html_block L gz ti s ctx"
| "cb_block L gz ti (Code cmd s) ctx = cb_code_block cmd s ctx"

fun cb_blocks :: "libu \<Rightarrow> (string \<Rightarrow> string) \<Rightarrow> trans_info \<Rightarrow> block list \<Rightarrow> lang_c_ctx \<Rightarrow> lang_c_ctx option" where
  "cb_blocks L gz ti [] ctx = Some ctx"
| "cb_blocks L gz ti (b # bs) ctx = Option.bind (cb_block L gz ti b ctx) (cb_blocks L gz ti bs)"

definition print_code_blocks :: "libu \<Rightarrow> trans_info \<Rightarrow> lang_c_ctx \<Rightarrow> string" where
  "print_code_blocks L ti ctx =
     c_lines
       ['''', '''', ''static void exec_page(dypage_args_t *_dyp_args)                    '',
        ''{                                                                  '',
        ''   request = _dyp_args->rq;                                        '',
        ''   response = _dyp_args->rs;                                       '',
        ''   session = _dyp_args->ss;                                        '',
        ''   in = request_io(request);                                       '',
        ''   out = response_io(response);                                    '',
        ''   u_unused_args(SCRIPT_NAME, request, response, session, in, out);'',
        ''   '' @ page_fun L (ti_uri ti) @ '' () ; ''] @ '' '' @
     concat (map (\<lambda>b. LF # b) (code_blocks ctx)) @
     c_lines [''goto klone_script_exit;'', ''klone_script_exit:     '', ''   return;             '', ''}                      '']"

definition print_static_page_block :: "trans_info \<Rightarrow> string" where
  "print_static_page_block ti = c_lines
     [''static embfile_t e;                '',
      ''static void res_ctor(void)         '',
      ''{                                  '',
      ''   e.res.type = ET_FILE;           '',
      ''   e.res.filename = '' @ quoted (ti_uri ti) @ '';        '',
      ''   e.data = (unsigned char*)data;  '',
      ''   e.size = sizeof(data);          '',
      ''   e.file_size = '' @ dec (ti_file_size ti mod 2 ^ 32) @ '';               '',
      ''   e.mime_type = '' @ quoted (u_guess_mime_type (ti_uri ti)) @ '';           '',
      ''   e.mtime = '' @ dec (ti_mtime ti) @ '';                  '',
      ''   e.comp = '' @ dec (if ti_comp ti then 1 else 0) @ '';                    '',
      ''   e.encrypted = '' @ dec (if ti_encrypt ti then 1 else 0) @ '';               '',
      ''}                                  '']"

definition print_dynamic_page_block :: "trans_info \<Rightarrow> string" where
  "print_dynamic_page_block ti = c_lines
     [''static embpage_t e;                '',
      ''static void res_ctor(void)         '',
      ''{                                  '',
      ''   e.res.type = ET_PAGE;           '',
      ''   e.res.filename = '' @ quoted (ti_uri ti) @ '';        '',
      ''   e.fun = exec_page;              '',
      ''}                                  '']"

definition print_register_block :: "(string \<Rightarrow> string) \<Rightarrow> trans_info \<Rightarrow> string" where
  "print_register_block digest ti =
     (let md5 = (case u_md5 digest (ti_uri ti) (length (ti_uri ti)) of Ok t \<Rightarrow> t | _ \<Rightarrow> []) in c_lines
        [''#ifdef __cplusplus                 '',
         ''extern '' @ quoted ''C'' @ '' {                     '',
         ''#endif                             '',
         ''void module_init_'' @ md5 @ ''(void);         '',
         ''void module_init_'' @ md5 @ ''(void)          '',
         ''{                                  '',
         ''    res_ctor();                    '',
         ''    emb_register((embres_t*)&e);   '',
         ''}                                  '',
         ''void module_term_'' @ md5 @ ''(void);         '',
         ''void module_term_'' @ md5 @ ''(void)          '',
         ''{                                  '',
         ''    emb_unregister((embres_t*)&e); '',
         ''}                                  '',
         ''#ifdef __cplusplus                 '',
         ''}                                  '',
         ''#endif                             ''])"

definition translate_opaque_to_c :: "(string \<Rightarrow> string) \<Rightarrow> trans_info \<Rightarrow> string \<Rightarrow> string" where
  "translate_opaque_to_c digest ti s =
     copyright_hdr @ c_lines [''#include <klone/emb.h>''] @ render (Array ''data'' (print_bytes 1 s)) @
     print_static_page_block ti @ print_register_block digest ti"

text \<open>The parser stops at the first block a callback refuses.\<close>

fun cb_takes :: "block \<Rightarrow> bool" where
  "cb_takes (Html s) \<longleftrightarrow> True"
| "cb_takes (Code cmd s) \<longleftrightarrow> cmd = 0 \<or> cmd = ord (CHR ''!'') \<or> cmd = ord (CHR ''='')"

definition translate_blocks :: "libu \<Rightarrow> (string \<Rightarrow> string) \<Rightarrow> trans_info \<Rightarrow> string \<Rightarrow> lang_c_ctx option" where
  "translate_blocks L gz ti page =
     (case parser_run cb_takes (parser_create page False) of
        Done p \<Rightarrow> cb_blocks L gz ti (out p) \<lparr>code_blocks = [], html_block_cnt = 0, items = []\<rparr>
      | _ \<Rightarrow> None)"

definition translate_script_to_c ::
  "libu \<Rightarrow> (string \<Rightarrow> string) \<Rightarrow> (string \<Rightarrow> string) \<Rightarrow> trans_info \<Rightarrow> string \<Rightarrow> string option" where
  "translate_script_to_c L gz digest ti page =
     map_option (\<lambda>ctx. print_header L ti @ concat (map render (items ctx)) @ print_code_blocks L ti ctx @
         print_dynamic_page_block ti @ print_register_block digest ti)
       (translate_blocks L gz ti page)"

section \<open>Reading the arrays back\<close>

text \<open>The bytes a C compiler reads from an initialiser: hexadecimal constants, each with a comma.\<close>

fun c_bytes :: "string \<Rightarrow> string option" where
  "c_bytes [] = Some []"
| "c_bytes (c # r) =
     (if c = LF then c_bytes r
      else case r of
        x # h # l # k # s # r' \<Rightarrow>
          if c = CHR ''0'' \<and> x = CHR ''x'' \<and> c_isxdigit h \<and> c_isxdigit l \<and> k = CHR '','' \<and> s = CHR '' ''
          then map_option ((#) (chr (16 * htoi h + htoi l))) (c_bytes r')
          else None
      | _ \<Rightarrow> None)"

lemma length_hexc: "length hexc = 16"
  by (simp add: hexc_def)

lemma c_bytes_hex: "c_bytes (hex_byte c @ r) = map_option ((#) c) (c_bytes r)"
proof -
  have "ord c div 16 < 16" using ord_less_256 [of c] by (simp add: less_mult_imp_div_less)
  then show ?thesis by (simp add: hex_byte_def)
qed

lemma c_bytes_print: "c_bytes (print_bytes i s) = Some s"
  by (induction i s rule: print_bytes.induct) (auto simp: c_bytes_hex)

lemma dec_inj: "dec n = dec m \<Longrightarrow> n = m"
proof (induction n arbitrary: m rule: dec.induct)
  case (1 n)
  have digit: "chr (48 + a) = chr (48 + b) \<Longrightarrow> a < 10 \<Longrightarrow> b < 10 \<Longrightarrow> a = b" for a b by (simp add: chr_eq_iff)
  show ?case
  proof (cases "n < 10")
    case True
    with 1(2) dec_nonempty [of "m div 10"] show ?thesis
      by (subst (asm) (1 2) dec.simps) (auto split: if_splits intro: digit)
  next
    case False
    have m: "\<not> m < 10"
      using 1(2) False dec_nonempty [of "n div 10"] by (subst (asm) (1 2) dec.simps) (auto split: if_splits)
    have "dec (n div 10) = dec (m div 10)" "chr (48 + n mod 10) = chr (48 + m mod 10)"
      using 1(2) False m by (subst (asm) (1 2) dec.simps, simp)+
    with 1(1) [OF False] digit [of "n mod 10" "m mod 10"] have "n div 10 = m div 10" "n mod 10 = m mod 10" by auto
    then show ?thesis by (metis div_mult_mod_eq)
  qed
qed

lemma html_var_inj: "html_var z j = html_var z k \<Longrightarrow> j = k"
  by (auto simp: html_var_def split: if_splits intro: dec_inj)

section \<open>Running a compiled page\<close>

text \<open>
  The statement that writes an array, for any name.  A run of the function of a page is a list of
  events: such a statement writes the bytes of its array, uncompressed if the page is compressed;
  any other statement is code of the page.
\<close>

definition write_stmt :: "bool \<Rightarrow> string \<Rightarrow> string" where
  "write_stmt z n =
     (if z then [LF] @ ''dbg_if(u_io_unzip_copy(out, '' @ n @ '',    sizeof('' @ n @ '')));'' @ [LF]
      else [LF] @ ''dbg_if(io_write(out, '' @ n @ '',    sizeof('' @ n @ '')) < 0);'' @ [LF])"

lemma html_code_write: "html_code z k = write_stmt z (html_var z k)"
  by (simp add: html_code_def write_stmt_def)

lemma write_stmt_inj: "write_stmt z n = write_stmt z m \<Longrightarrow> n = m"
proof -
  have split: "a @ n @ b @ n @ c = a @ m @ b @ m @ c \<Longrightarrow> n = m" for a b c :: string
  proof -
    assume e: "a @ n @ b @ n @ c = a @ m @ b @ m @ c"
    from arg_cong [OF this, of length] have "length n = length m" by simp
    with e show "n = m" by simp
  qed
  show "write_stmt z n = write_stmt z m \<Longrightarrow> n = m"
    unfolding write_stmt_def
    using split [of "LF # ''dbg_if(u_io_unzip_copy(out, ''" "'',    sizeof(''" "'')));'' @ [LF]"]
      split [of "LF # ''dbg_if(io_write(out, ''" "'',    sizeof(''" "'')) < 0);'' @ [LF]"] by (simp split: if_splits)
qed

datatype event = Write string | Run string

fun arrays :: "item list \<Rightarrow> (string \<times> string) list" where
  "arrays [] = []"
| "arrays (Array n t # is) = (n, t) # arrays is"
| "arrays (Decl s # is) = arrays is"

fun decls :: "item list \<Rightarrow> string list" where
  "decls [] = []"
| "decls (Array n t # is) = decls is"
| "decls (Decl s # is) = s # decls is"

lemma arrays_append [simp]: "arrays (is @ js) = arrays is @ arrays js" "decls (is @ js) = decls is @ decls js"
  by (induction "is" rule: arrays.induct) auto

definition exec_stmt :: "(string \<Rightarrow> string) \<Rightarrow> bool \<Rightarrow> item list \<Rightarrow> string \<Rightarrow> event" where
  "exec_stmt gunz z is st =
     (case find (\<lambda>a. st = write_stmt z (fst a)) (arrays is) of
        None \<Rightarrow> Run st
      | Some a \<Rightarrow> (case c_bytes (snd a) of None \<Rightarrow> Run st | Some b \<Rightarrow> Write (if z then gunz b else b)))"

text \<open>What a page means, block by block.\<close>

fun block_events :: "block \<Rightarrow> event list" where
  "block_events (Html s) = [Write s]"
| "block_events (Code cmd s) =
     (if cmd = 0 then [Run s] else if cmd = ord (CHR ''='') then [Run expr_before, Run s, Run expr_after] else [])"

fun block_decls :: "block \<Rightarrow> string list" where
  "block_decls (Html s) = []"
| "block_decls (Code cmd s) = (if cmd = ord (CHR ''!'') then [s] else [])"

definition user_code :: "bool \<Rightarrow> string \<Rightarrow> bool" where
  "user_code z s \<longleftrightarrow> (\<forall>n. s \<noteq> write_stmt z n)"

fun block_user :: "bool \<Rightarrow> block \<Rightarrow> bool" where
  "block_user z (Html s) \<longleftrightarrow> True"
| "block_user z (Code cmd s) \<longleftrightarrow> user_code z s"

text \<open>Every array has a number below the counter, and every statement writes one of them or is code.\<close>

definition ctx_ok :: "bool \<Rightarrow> lang_c_ctx \<Rightarrow> bool" where
  "ctx_ok z ctx \<longleftrightarrow>
     (\<forall>a\<in>set (arrays (items ctx)). \<exists>k<html_block_cnt ctx. fst a = html_var z k) \<and>
     (\<forall>st\<in>set (code_blocks ctx). user_code z st \<or> (\<exists>a\<in>set (arrays (items ctx)). st = write_stmt z (fst a)))"

lemma exec_user: "user_code z st \<Longrightarrow> exec_stmt gunz z is st = Run st"
proof -
  assume "user_code z st"
  then have "find (\<lambda>a. st = write_stmt z (fst a)) (arrays is) = None" by (auto simp: find_None_iff user_code_def)
  then show ?thesis by (simp add: exec_stmt_def)
qed

lemma find_append: "find P xs = Some a \<Longrightarrow> find P (xs @ ys) = Some a"
  by (induction xs) auto

lemma find_append_None: "find P xs = None \<Longrightarrow> find P (xs @ ys) = find P ys"
  by (induction xs) (auto split: if_splits)

lemma exec_more:
  assumes "ctx_ok z ctx"
  shows "map (exec_stmt gunz z (items ctx @ js)) (code_blocks ctx) = map (exec_stmt gunz z (items ctx)) (code_blocks ctx)"
proof (rule map_cong [OF refl])
  fix st assume "st \<in> set (code_blocks ctx)"
  with assms consider "user_code z st" | a where "a \<in> set (arrays (items ctx))" "st = write_stmt z (fst a)"
    by (auto simp: ctx_ok_def)
  then show "exec_stmt gunz z (items ctx @ js) st = exec_stmt gunz z (items ctx) st"
  proof cases
    case 2
    then have "find (\<lambda>a. st = write_stmt z (fst a)) (arrays (items ctx)) \<noteq> None" unfolding find_None_iff by blast
    then obtain b where "find (\<lambda>a. st = write_stmt z (fst a)) (arrays (items ctx)) = Some b" by blast
    with find_append [OF this] show ?thesis by (simp add: exec_stmt_def)
  qed (simp add: exec_user)
qed

lemma user_expr: "user_code z expr_before" "user_code z expr_after"
  by (simp_all add: user_code_def expr_before_def expr_after_def write_stmt_def)

lemma html_fits:
  assumes "libu_ok L" "k < 10 ^ 13"
  shows "u_snprintf L (html_var z k) 32 = (html_var z k, False)" "u_snprintf L (html_code z k) 128 = (html_code z k, False)"
proof -
  have "length (dec k) \<le> Suc 12" by (rule length_dec) (use assms(2) in simp)
  then show "u_snprintf L (html_var z k) 32 = (html_var z k, False)" "u_snprintf L (html_code z k) 128 = (html_code z k, False)"
    by (simp_all add: libu_ok_snprintf [OF assms(1)] html_code_def html_var_def)
qed

lemma html_step:
  assumes "libu_ok L" "ctx_ok (ti_comp ti) ctx" "html_block_cnt ctx < 10 ^ 13" "\<forall>s. ti_comp ti \<longrightarrow> gunz (gz s) = s"
  shows "\<exists>ctx'. cb_block L gz ti (Html s) ctx = Some ctx' \<and> ctx_ok (ti_comp ti) ctx' \<and> html_block_cnt ctx' \<le> Suc (html_block_cnt ctx) \<and>
    map (exec_stmt gunz (ti_comp ti) (items ctx')) (code_blocks ctx') =
      map (exec_stmt gunz (ti_comp ti) (items ctx)) (code_blocks ctx) @ block_events (Html s) \<and>
    decls (items ctx') = decls (items ctx) @ block_decls (Html s)"
proof -
  let ?z = "ti_comp ti" and ?k = "html_block_cnt ctx"
  let ?a = "print_var_definition gz ?z (html_var ?z ?k) s"
  let ?ctx = "push_code_block (html_code ?z ?k) (ctx\<lparr>items := items ctx @ [?a]\<rparr>)\<lparr>html_block_cnt := Suc ?k\<rparr>"
  have arr: "arrays [?a] = [(html_var ?z ?k, print_bytes 1 (if ?z then gz s else s))]" "decls [?a] = []"
    by (simp_all add: print_var_definition_def)
  have "size_add ?k 1 = Suc ?k" using assms(3) by (simp add: size_add_def SIZE_LIMIT_def)
  then have cb: "cb_html_block L gz ti s ctx = Some ?ctx"
    by (simp add: cb_html_block_def html_fits [OF assms(1,3)])
  have fresh: "fst a \<noteq> html_var ?z ?k" if "a \<in> set (arrays (items ctx))" for a
    using that assms(2) html_var_inj by (fastforce simp: ctx_ok_def)
  have "find (\<lambda>a. html_code ?z ?k = write_stmt ?z (fst a)) (arrays (items ctx)) = None"
    using fresh write_stmt_inj by (fastforce simp: find_None_iff html_code_write)
  then have "find (\<lambda>a. html_code ?z ?k = write_stmt ?z (fst a)) (arrays (items ctx) @ arrays [?a]) = Some (hd (arrays [?a]))"
    by (simp add: find_append_None arr html_code_write)
  then have ex: "exec_stmt gunz ?z (items ctx @ [?a]) (html_code ?z ?k) = Write s"
    using assms(4) by (simp add: exec_stmt_def arr c_bytes_print)
  have "ctx_ok ?z ?ctx"
    unfolding ctx_ok_def
  proof (intro conjI ballI)
    fix a assume "a \<in> set (arrays (items ?ctx))"
    then have "a \<in> set (arrays (items ctx)) \<or> fst a = html_var ?z ?k" by (auto simp: push_code_block_def arr)
    with assms(2) have "\<exists>k<Suc ?k. fst a = html_var ?z k" unfolding ctx_ok_def by (metis lessI less_SucI)
    then show "\<exists>k<html_block_cnt ?ctx. fst a = html_var ?z k" by (simp add: push_code_block_def)
  next
    fix st assume "st \<in> set (code_blocks ?ctx)"
    then have "st \<in> set (code_blocks ctx) \<or> st = write_stmt ?z (html_var ?z ?k)" by (auto simp: push_code_block_def html_code_write)
    then show "user_code ?z st \<or> (\<exists>a\<in>set (arrays (items ?ctx)). st = write_stmt ?z (fst a))"
      using assms(2) by (auto simp: ctx_ok_def push_code_block_def arr)
  qed
  with cb ex exec_more [OF assms(2), of gunz "[?a]"] show ?thesis
    by (intro exI [of _ ?ctx]) (simp add: push_code_block_def arr)
qed

lemma code_step:
  assumes "ctx_ok z ctx" "user_code z s" "cb_takes (Code cmd s)"
  shows "\<exists>ctx'. cb_block L gz ti (Code cmd s) ctx = Some ctx' \<and> ctx_ok z ctx' \<and> html_block_cnt ctx' \<le> Suc (html_block_cnt ctx) \<and>
    map (exec_stmt gunz z (items ctx')) (code_blocks ctx') =
      map (exec_stmt gunz z (items ctx)) (code_blocks ctx) @ block_events (Code cmd s) \<and>
    decls (items ctx') = decls (items ctx) @ block_decls (Code cmd s)"
proof -
  have "ord (CHR ''!'') \<noteq> 0" "ord (CHR ''='') \<noteq> 0" "ord (CHR ''!'') \<noteq> ord (CHR ''='')" by (simp_all add: ord_def)
  with assms user_expr [of z] exec_more [OF assms(1), of gunz "[Decl s]"] show ?thesis
    by (auto simp: cb_code_block_def push_code_block_def process_declaration_def process_expression_def ctx_ok_def exec_user)
qed

lemma blocks_run:
  assumes "libu_ok L" "ctx_ok (ti_comp ti) ctx" "html_block_cnt ctx + length bs \<le> 10 ^ 13" "\<forall>s. ti_comp ti \<longrightarrow> gunz (gz s) = s"
    "\<forall>b\<in>set bs. cb_takes b \<and> block_user (ti_comp ti) b"
  shows "\<exists>ctx'. cb_blocks L gz ti bs ctx = Some ctx' \<and>
    map (exec_stmt gunz (ti_comp ti) (items ctx')) (code_blocks ctx') =
      map (exec_stmt gunz (ti_comp ti) (items ctx)) (code_blocks ctx) @ concat (map block_events bs) \<and>
    decls (items ctx') = decls (items ctx) @ concat (map block_decls bs)"
  using assms(2,3,5)
proof (induction bs arbitrary: ctx)
  case (Cons b bs)
  have "\<exists>c. cb_block L gz ti b ctx = Some c \<and> ctx_ok (ti_comp ti) c \<and> html_block_cnt c \<le> Suc (html_block_cnt ctx) \<and>
    map (exec_stmt gunz (ti_comp ti) (items c)) (code_blocks c) =
      map (exec_stmt gunz (ti_comp ti) (items ctx)) (code_blocks ctx) @ block_events b \<and>
    decls (items c) = decls (items ctx) @ block_decls b"
  proof (cases b)
    case (Html s)
    have lt: "html_block_cnt ctx < 10 ^ 13" using Cons.prems(2) by simp
    show ?thesis unfolding Html by (rule html_step [where gunz = gunz and gz = gz, OF assms(1) Cons.prems(1) lt assms(4)])
  next
    case (Code cmd s)
    have "user_code (ti_comp ti) s" "cb_takes (Code cmd s)" using Cons.prems(3) Code by simp_all
    then show ?thesis unfolding Code by (rule code_step [OF Cons.prems(1)])
  qed
  then obtain c where c: "cb_block L gz ti b ctx = Some c" "ctx_ok (ti_comp ti) c" "html_block_cnt c \<le> Suc (html_block_cnt ctx)"
    "map (exec_stmt gunz (ti_comp ti) (items c)) (code_blocks c) =
      map (exec_stmt gunz (ti_comp ti) (items ctx)) (code_blocks ctx) @ block_events b"
    "decls (items c) = decls (items ctx) @ block_decls b" by blast
  have "html_block_cnt c + length bs \<le> 10 ^ 13" "\<forall>b\<in>set bs. cb_takes b \<and> block_user (ti_comp ti) b"
    using c(3) Cons.prems(2,3) by simp_all
  from Cons.IH [OF c(2) this] obtain d where d: "cb_blocks L gz ti bs c = Some d"
    "map (exec_stmt gunz (ti_comp ti) (items d)) (code_blocks d) =
      map (exec_stmt gunz (ti_comp ti) (items c)) (code_blocks c) @ concat (map block_events bs)"
    "decls (items d) = decls (items c) @ concat (map block_decls bs)" by blast
  have "cb_blocks L gz ti (b # bs) ctx = Some d" using c(1) d(1) by simp
  with d(2,3) c(4,5) show ?case by (intro exI [of _ d]) simp
qed simp

lemma page_blocks_in:
  "b \<in> set (page_blocks ps t) \<Longrightarrow>
     (\<exists>s. b = Html s) \<or> (\<exists>(h, k, s) \<in> set ps. b = Code (if k = [] then 0 else ord (hd k)) s)"
  by (induction ps t rule: page_blocks.induct) (auto simp: emit_def split: if_splits)

section \<open>Theorems\<close>

text \<open>
  C4.  A page is compiled to its meaning: on the text of a page whose pieces are plain code,
  expressions and declarations, each shorter than the parser's buffer of 262144 bytes, the compiler succeeds, and running the statements of the function
  it writes, in order, writes the HTML of the page byte for byte between the code and the
  expressions, each as it stands in the page and in the order of the page; the declarations are
  at file level, in order.  No piece of code is itself a statement that writes an array.  An
  expression stands, on both sides, inside the call that prints it (\<open>expr_before\<close>,
  \<open>expr_after\<close>), and the statement is about the collected statements and items, not about the
  text of the C file printed from them.
\<close>

theorem page_compiled:
  assumes "libu_ok L" "\<forall>x \<in> set ps. part_ok BUFSZ x" "no_pair (CHR ''<'') (CHR ''%'') t" "length t + 1 < BUFSZ"
    "\<forall>(h, k, s) \<in> set ps. k \<in> {[], ''='', ''!''} \<and> user_code (ti_comp ti) s" "length (page_blocks ps t) \<le> 10 ^ 13"
    "\<forall>s. ti_comp ti \<longrightarrow> gunz (gz s) = s"
  shows "\<exists>ctx. translate_blocks L gz ti (page_text ps t) = Some ctx \<and>
    map (exec_stmt gunz (ti_comp ti) (items ctx)) (code_blocks ctx) = concat (map block_events (page_blocks ps t)) \<and>
    decls (items ctx) = concat (map block_decls (page_blocks ps t))"
proof -
  let ?bs = "page_blocks ps t"
  obtain q where q: "parser_run_with BUFSZ (\<lambda>_. True) (parser_create (page_text ps t) False) = Done q" "out q = ?bs"
    using splits_page [OF assms(2-4), of "\<lambda>_. True"] by auto
  have ok: "\<forall>b\<in>set ?bs. cb_takes b \<and> block_user (ti_comp ti) b"
  proof
    fix b assume "b \<in> set ?bs"
    from page_blocks_in [OF this] assms(5) show "cb_takes b \<and> block_user (ti_comp ti) b" by fastforce
  qed
  then have "parser_run cb_takes (parser_create (page_text ps t) False) = Done q"
    unfolding parser_run_def by (intro run_takes [OF q(1)]) (simp add: q(2))
  moreover have "ctx_ok (ti_comp ti) \<lparr>code_blocks = [], html_block_cnt = 0, items = []\<rparr>" by (simp add: ctx_ok_def)
  from blocks_run [where gunz = gunz and gz = gz and bs = ?bs, OF assms(1) this _ assms(7) ok] assms(6)
  obtain ctx where "cb_blocks L gz ti ?bs \<lparr>code_blocks = [], html_block_cnt = 0, items = []\<rparr> = Some ctx"
    "map (exec_stmt gunz (ti_comp ti) (items ctx)) (code_blocks ctx) = concat (map block_events ?bs)"
    "decls (items ctx) = concat (map block_decls ?bs)" by auto
  ultimately show ?thesis by (simp add: translate_blocks_def q(2))
qed

theorem page_compiled_witness:
  "\<exists>ctx. translate_blocks libu_ref id \<lparr>ti_uri = ''/a.kl1'', ti_comp = False, ti_encrypt = False, ti_file_size = 0, ti_mtime = 0\<rparr>
       ''<b><%= x %><%! int y; %>'' = Some ctx \<and>
     map (exec_stmt id False (items ctx)) (code_blocks ctx) = [Write ''<b>'', Run expr_before, Run '' x '', Run expr_after] \<and>
     decls (items ctx) = ['' int y; '']"
proof -
  let ?ps = "[(''<b>'', ''='', '' x ''), ([], ''!'', '' int y; '')]"
  let ?ti = "\<lparr>ti_uri = ''/a.kl1'', ti_comp = False, ti_encrypt = False, ti_file_size = 0, ti_mtime = 0\<rparr>"
  have h: "\<forall>x \<in> set ?ps. part_ok BUFSZ x" "no_pair (CHR ''<'') (CHR ''%'') []" "length ([] :: string) + 1 < BUFSZ"
    by (simp_all add: part_ok_def BUFSZ_def c_isspace_def ord_def)
  have u: "\<forall>(h, k, s) \<in> set ?ps. k \<in> {[], ''='', ''!''} \<and> user_code (ti_comp ?ti) s"
    by (simp add: user_code_def write_stmt_def)
  have l: "length (page_blocks ?ps []) \<le> 10 ^ 13" and z: "\<forall>s. ti_comp ?ti \<longrightarrow> id (id s) = s" by (simp_all add: emit_def)
  have "ord (CHR ''!'') = 33" "ord (CHR ''='') = 61" by (simp_all add: ord_def)
  with page_compiled [where gz = id and gunz = id, OF libu_ref_ok h u l z] show ?thesis by (simp add: emit_def)
qed

text \<open>
  C38.  A static file is compiled to its bytes: the C file holds one array initialiser, and
  reading its constants back gives the file, whatever its bytes are and in whichever column the
  lines break.
\<close>

theorem file_compiled:
  "\<exists>before body after. translate_opaque_to_c digest ti s =
      before @ ''static const char data[] = {'' @ [LF] @ body @ ''};'' @ [LF] @ after \<and>
    c_bytes body = Some s \<and> CHR ''}'' \<notin> set body"
proof -
  have "CHR ''}'' \<notin> set (hex_byte c)" for c
  proof -
    have hexc: "hexc ! i \<noteq> CHR ''}''" if "i < 16" for i
    proof -
      have "CHR ''}'' \<notin> set hexc" by (simp add: hexc_def)
      moreover have "hexc ! i \<in> set hexc" using that by (intro nth_mem) (simp add: length_hexc)
      ultimately show ?thesis by metis
    qed
    have "ord c div 16 < 16" by (simp add: less_mult_imp_div_less)
    with hexc [of "ord c div 16"] hexc [of "ord c mod 16"] show ?thesis by (simp add: hex_byte_def)
  qed
  then have brace: "CHR ''}'' \<notin> set (print_bytes i s)" for i
    by (induction i s rule: print_bytes.induct) auto
  have data: "render (Array ''data'' t) = ''static const char data[] = {'' @ [LF] @ t @ ''};'' @ [LF]" for t by simp
  have eq: "translate_opaque_to_c digest ti s =
      (copyright_hdr @ c_lines [''#include <klone/emb.h>'']) @ ''static const char data[] = {'' @ [LF] @ print_bytes 1 s @ ''};'' @ [LF] @
      (print_static_page_block ti @ print_register_block digest ti)"
    by (simp only: translate_opaque_to_c_def data append_assoc)
  show ?thesis by (rule exI, rule exI, rule exI, rule conjI [OF eq], rule conjI [OF c_bytes_print brace])
qed

end
