(* ===== verification/Translat.thy ===== *)
theory Translat
  imports Trans_C
begin

text \<open>
  \<^verbatim>\<open>src/libtrans/translat.c\<close>: the preprocessor of pages.  A page may include other files, and it
  may extend a template: the blocks a template names can be overridden, and an overriding block
  can take over what it overrides.  The blocks form a tree of nodes linked by pointers; the model
  keeps them in a list, a pointer is a position in it, and the lists of LibU are lists.  Position 0
  is the root of the tree, position 1 the root of what is not printed.  Memory is not exhausted.
  Included files are opened while their includer is open, so the nesting is bounded by the number
  of files the process may open, the argument of \<open>preprocess\<close>.
\<close>

section \<open>Definitions\<close>

record kblock =
  kb_name :: "string option"
  kb_buf :: string
  kb_parent :: "nat option"
  kb_ancestor :: "nat option"
  kb_children :: "nat list"

record ppctx =
  pp_heap :: "kblock list"
  pp_cur :: "nat option"
  pp_lev :: int
  pp_ext :: nat
  pp_depend :: "string list"
  pp_out :: string

definition TOP :: nat where
  "TOP = 0"

definition DEAD :: nat where
  "DEAD = 1"

definition kb_new :: "string option \<Rightarrow> string \<Rightarrow> kblock" where
  "kb_new name s = \<lparr>kb_name = name, kb_buf = s, kb_parent = None, kb_ancestor = None, kb_children = []\<rparr>"

definition kblock_create :: "string option \<Rightarrow> string \<Rightarrow> ppctx \<Rightarrow> nat \<times> ppctx" where
  "kblock_create name s pp = (length (pp_heap pp), pp\<lparr>pp_heap := pp_heap pp @ [kb_new name s]\<rparr>)"

definition kb_update :: "nat \<Rightarrow> (kblock \<Rightarrow> kblock) \<Rightarrow> ppctx \<Rightarrow> ppctx" where
  "kb_update i f pp = pp\<lparr>pp_heap := (pp_heap pp)[i := f (pp_heap pp ! i)]\<rparr>"

definition kblock_push_child :: "nat \<Rightarrow> nat \<Rightarrow> ppctx \<Rightarrow> ppctx" where
  "kblock_push_child parent child pp =
     kb_update child (kb_parent_update (\<lambda>_. Some parent)) (kb_update parent (kb_children_update (\<lambda>cs. cs @ [child])) pp)"

definition push_cur :: "nat \<Rightarrow> ppctx \<Rightarrow> ppctx step" where
  "push_cur child pp = (case pp_cur pp of None \<Rightarrow> Crash | Some c \<Rightarrow> Done (kblock_push_child c child pp))"

definition ppctx_create :: ppctx where
  "ppctx_create =
     \<lparr>pp_heap = [kb_new None [], (kb_new None [])\<lparr>kb_parent := Some TOP\<rparr>], pp_cur = Some TOP, pp_lev = 0, pp_ext = 0,
      pp_depend = [], pp_out = []\<rparr>"

text \<open>
  Printing and searching follow the tree down; \<open>d\<close> bounds its depth, which is less than the
  number of nodes.
\<close>

fun ppctx_print_kblock :: "nat \<Rightarrow> kblock list \<Rightarrow> nat \<Rightarrow> string" where
  "ppctx_print_kblock 0 H i = []"
| "ppctx_print_kblock (Suc d) H i =
     (if kb_name (H ! i) = None then kb_buf (H ! i)
      else concat (map (ppctx_print_kblock d H) (kb_children (H ! i))))"

definition ppctx_print :: "ppctx \<Rightarrow> string" where
  "ppctx_print pp =
     concat (map (ppctx_print_kblock (length (pp_heap pp)) (pp_heap pp)) (kb_children (pp_heap pp ! TOP)))"

fun find_child :: "nat \<Rightarrow> kblock list \<Rightarrow> string \<Rightarrow> nat \<Rightarrow> nat list \<Rightarrow> (nat \<times> nat) option" where
  "find_child d H name i [] = None"
| "find_child 0 H name i (b # bs) = None"
| "find_child (Suc d) H name i (b # bs) =
     (if (case kb_name (H ! b) of None \<Rightarrow> False | Some n \<Rightarrow> strcaseeq n name) then Some (b, i)
      else case find_child d H name 0 (kb_children (H ! b)) of
        Some r \<Rightarrow> Some r
      | None \<Rightarrow> find_child (Suc d) H name (Suc i) bs)"

definition kblock_get_by_name :: "ppctx \<Rightarrow> string \<Rightarrow> (nat \<times> nat) option" where
  "kblock_get_by_name pp name =
     find_child (length (pp_heap pp)) (pp_heap pp) name 0 (kb_children (pp_heap pp ! TOP))"

subsection \<open>Directives\<close>

definition override_block :: "nat \<Rightarrow> nat \<times> nat \<Rightarrow> ppctx \<Rightarrow> ppctx step" where
  "override_block b = (\<lambda>(old, idx) pp.
     case kb_parent (pp_heap pp ! old) of
       None \<Rightarrow> Crash
     | Some par \<Rightarrow>
         Done (kb_update par (kb_children_update (\<lambda>cs. remove1 old (take idx cs @ b # drop idx cs)))
           (kb_update b (\<lambda>k. k\<lparr>kb_ancestor := Some old, kb_parent := Some par\<rparr>) pp)))"

definition process_directive_block :: "string \<Rightarrow> ppctx \<Rightarrow> ppctx step" where
  "process_directive_block name pp0 =
     (case kblock_create (Some name) [] pp0 of (b, pp1) \<Rightarrow>
        let pp = pp1\<lparr>pp_lev := pp_lev pp1 + 1\<rparr> in
        if pp_ext pp = 0
        then (if kblock_get_by_name pp name \<noteq> None then Failed pp
              else and_then (push_cur b pp) (\<lambda>pp. Done (pp\<lparr>pp_cur := Some b\<rparr>)))
        else
          (let pp = pp\<lparr>pp_ext := Suc (pp_ext pp)\<rparr> in
           and_then
             (case kblock_get_by_name pp name of
                None \<Rightarrow>
                  if pp_cur pp = Some TOP then Done (kblock_push_child DEAD b pp)
                  else if pp_lev pp \<noteq> 0 then push_cur b pp
                  else Done pp
              | Some r \<Rightarrow> override_block b r pp)
             (\<lambda>pp. Done (pp\<lparr>pp_cur := Some b\<rparr>))))"

definition process_directive_endblock :: "string option \<Rightarrow> ppctx \<Rightarrow> ppctx step" where
  "process_directive_endblock name pp0 =
     (case pp_cur pp0 of
        None \<Rightarrow> Failed pp0
      | Some c \<Rightarrow>
          (let pp = pp0\<lparr>pp_lev := pp_lev pp0 - 1\<rparr>; k = pp_heap pp ! c in
           if pp_lev pp < 0 then Failed pp
           else if (case name of None \<Rightarrow> False | Some n \<Rightarrow> (case kb_name k of None \<Rightarrow> True | Some m \<Rightarrow> \<not> strcaseeq n m)) then Failed pp
           else
             (let pp = pp\<lparr>pp_cur := kb_parent k\<rparr> in
              Done (if pp_ext pp = 0 then pp
                    else (let pp = pp\<lparr>pp_ext := pp_ext pp - 1\<rparr> in if pp_ext pp = 1 then pp\<lparr>pp_cur := Some TOP\<rparr> else pp)))))"

definition process_directive_inherit :: "ppctx \<Rightarrow> ppctx step" where
  "process_directive_inherit pp =
     (case pp_cur pp of
        None \<Rightarrow> Failed pp
      | Some c \<Rightarrow>
          (case kb_ancestor (pp_heap pp ! c) of
             None \<Rightarrow> Failed pp
           | Some a \<Rightarrow>
               Done (kb_update a (kb_children_update (\<lambda>_. []))
                 (fold (kblock_push_child c) (kb_children (pp_heap pp ! a)) pp))))"

text \<open>One call of \<^verbatim>\<open>strtok_r\<close>: the token and the rest of the line.\<close>

definition strtok :: "string \<Rightarrow> string \<Rightarrow> (string \<times> string) option" where
  "strtok ds s =
     (case dropWhile (\<lambda>c. c \<in> set ds) s of
        [] \<Rightarrow> None
      | t \<Rightarrow> Some (takeWhile (\<lambda>c. c \<notin> set ds) t, drop 1 (dropWhile (\<lambda>c. c \<notin> set ds) t)))"

text \<open>The path of an included file is relative to the directory of the file that includes it.\<close>

definition include_file_full_path :: "libu \<Rightarrow> string \<Rightarrow> string \<Rightarrow> string option" where
  "include_file_full_path L file inc =
     (case u_strnrchr file (CHR ''/'') (length file) of
        None \<Rightarrow> None
      | Some i \<Rightarrow>
          (case u_strlcat L (take (Suc i) file) inc FNAME_MAX of (s, truncated) \<Rightarrow> if truncated then None else Some s))"

definition line_mark :: "nat \<Rightarrow> string \<Rightarrow> string" where
  "line_mark n file = '' #line '' @ dec n @ '' '' @ quoted file @ '' '' @ [LF]"

text \<open>
  What an include needs from outside: the files and the preprocessing of one.  Its marks go straight
  to the output stream.
\<close>

definition process_directive_include ::
  "libu \<Rightarrow> (string \<Rightarrow> string option) \<Rightarrow> (string \<Rightarrow> string \<Rightarrow> ppctx \<Rightarrow> ppctx step) \<Rightarrow>
   string \<Rightarrow> nat \<Rightarrow> string \<Rightarrow> ppctx \<Rightarrow> ppctx step" where
  "process_directive_include L files pre file ln inc pp =
     (case include_file_full_path L file inc of
        None \<Rightarrow> Failed pp
      | Some full \<Rightarrow>
          (case files full of
             None \<Rightarrow> Failed pp
           | Some s \<Rightarrow>
               and_then (pre full s (pp\<lparr>pp_out := pp_out pp @ ''<%'' @ line_mark 1 full @ '' %>''\<rparr>)) (\<lambda>pp.
                 Done (pp\<lparr>pp_out := pp_out pp @ ''<%'' @ line_mark ln file @ '' %>''\<rparr>))))"

definition include_dep ::
  "libu \<Rightarrow> (string \<Rightarrow> string option) \<Rightarrow> (string \<Rightarrow> string \<Rightarrow> ppctx \<Rightarrow> ppctx step) \<Rightarrow>
   string \<Rightarrow> nat \<Rightarrow> string \<Rightarrow> ppctx \<Rightarrow> ppctx step" where
  "include_dep L files pre file ln inc pp =
     (case include_file_full_path L file inc of
        None \<Rightarrow> Failed pp
      | Some full \<Rightarrow>
          process_directive_include L files pre file ln inc (pp\<lparr>pp_depend := pp_depend pp @ [full]\<rparr>))"

definition process_directive ::
  "libu \<Rightarrow> (string \<Rightarrow> string option) \<Rightarrow> (string \<Rightarrow> string \<Rightarrow> ppctx \<Rightarrow> ppctx step) \<Rightarrow>
   string \<Rightarrow> nat \<Rightarrow> string \<Rightarrow> ppctx \<Rightarrow> ppctx step" where
  "process_directive L files pre file ln s pp =
     (case strtok ('' '' @ [TAB]) s of
        None \<Rightarrow> Failed pp
      | Some (cmd, rest) \<Rightarrow>
          (let arg = map_option fst (strtok ('' '' @ [TAB, DQ]) rest) in
           if strcaseeq cmd ''include''
           then (case arg of None \<Rightarrow> Failed pp | Some inc \<Rightarrow> include_dep L files pre file ln inc pp)
           else if strcaseeq cmd ''extends''
           then (case arg of
                   None \<Rightarrow> Failed pp
                 | Some inc \<Rightarrow>
                     if 1 < ln then Failed pp
                     else and_then (include_dep L files pre file ln inc pp) (\<lambda>pp.
                       if pp_lev pp \<noteq> 0 then Failed pp else Done (pp\<lparr>pp_ext := Suc (pp_ext pp)\<rparr>)))
           else if strcaseeq cmd ''block''
           then (case arg of None \<Rightarrow> Failed pp | Some name \<Rightarrow> process_directive_block name pp)
           else if strcaseeq cmd ''endblock'' then process_directive_endblock arg pp
           else if strcaseeq cmd ''inherit'' then process_directive_inherit pp
           else Failed pp))"

text \<open>The lines \<^verbatim>\<open>io_gets\<close> reads into a buffer of \<open>n + 1\<close> bytes: up to a newline or \<open>n\<close> characters.\<close>

function gets_lines :: "nat \<Rightarrow> string \<Rightarrow> string list" where
  "gets_lines n s =
     (if s = [] \<or> n = 0 then []
      else
        (let w = takeWhile (\<lambda>c. c \<noteq> LF) s;
             l = (if length w < n then take (Suc (length w)) s else take n s)
         in l # gets_lines n (drop (length l) s)))"
  by pat_completeness auto
termination
  by (relation "measure (\<lambda>(n, s). length s)") auto

declare gets_lines.simps [simp del]

fun all_lines :: "(string \<Rightarrow> ppctx \<Rightarrow> ppctx step) \<Rightarrow> string list \<Rightarrow> ppctx \<Rightarrow> ppctx step" where
  "all_lines f [] pp = Done pp"
| "all_lines f (l # ls) pp = and_then (f l pp) (all_lines f ls)"

definition parse_directive ::
  "libu \<Rightarrow> (string \<Rightarrow> string option) \<Rightarrow> (string \<Rightarrow> string \<Rightarrow> ppctx \<Rightarrow> ppctx step) \<Rightarrow>
   string \<Rightarrow> nat \<Rightarrow> string \<Rightarrow> ppctx \<Rightarrow> ppctx step" where
  "parse_directive L files pre file ln s pp = all_lines (process_directive L files pre file ln) (gets_lines 1023 s) pp"

text \<open>A block of text or code goes to the current block, or nowhere if a child template has it outside of blocks.\<close>

definition add_text :: "string \<Rightarrow> ppctx \<Rightarrow> ppctx step" where
  "add_text s pp0 =
     (case kblock_create None s pp0 of (b, pp) \<Rightarrow>
        if pp_cur pp = Some TOP \<and> pp_ext pp \<noteq> 0 then Done (kblock_push_child DEAD b pp) else push_cur b pp)"

definition cb_pre_html_block :: "string \<Rightarrow> ppctx \<Rightarrow> ppctx step" where
  "cb_pre_html_block s pp = add_text s pp"

definition code_text :: "nat \<Rightarrow> nat \<Rightarrow> string \<Rightarrow> string \<Rightarrow> string" where
  "code_text cmd ln file s =
     (if cmd = 0 \<or> cmd = ord (CHR ''='')
      then ''<%'' @ line_mark ln file @ ''%><%'' @ (if cmd = 0 then [] else ''='')
      else ''<%'' @ [chr cmd] @ line_mark ln file @ ''%><%'' @ [chr cmd]) @
     cstr s @ ''%>'' @
     ''<%'' @ (if cmd = ord (CHR ''!'') then ''!'' else '' '') @ '' #line 0 __PG_FILE_C__ '' @ [LF] @ ''%>''"

definition cb_pre_code_block ::
  "libu \<Rightarrow> (string \<Rightarrow> string option) \<Rightarrow> (string \<Rightarrow> string \<Rightarrow> ppctx \<Rightarrow> ppctx step) \<Rightarrow>
   string \<Rightarrow> nat \<Rightarrow> nat \<Rightarrow> string \<Rightarrow> ppctx \<Rightarrow> ppctx step" where
  "cb_pre_code_block L files pre file ln cmd s pp =
     (if cmd = ord (CHR ''@'') then parse_directive L files pre file ln s pp
      else add_text (code_text cmd ln file s) pp)"

fun pre_block ::
  "libu \<Rightarrow> (string \<Rightarrow> string option) \<Rightarrow> (string \<Rightarrow> string \<Rightarrow> ppctx \<Rightarrow> ppctx step) \<Rightarrow>
   string \<Rightarrow> nat \<times> block \<Rightarrow> ppctx \<Rightarrow> ppctx step" where
  "pre_block L files pre file (ln, Html s) pp = cb_pre_html_block s pp"
| "pre_block L files pre file (ln, Code cmd s) pp = cb_pre_code_block L files pre file ln cmd s pp"

fun pre_blocks ::
  "libu \<Rightarrow> (string \<Rightarrow> string option) \<Rightarrow> (string \<Rightarrow> string \<Rightarrow> ppctx \<Rightarrow> ppctx step) \<Rightarrow>
   string \<Rightarrow> (nat \<times> block) list \<Rightarrow> ppctx \<Rightarrow> ppctx step" where
  "pre_blocks L files pre file [] pp = Done pp"
| "pre_blocks L files pre file (e # es) pp = and_then (pre_block L files pre file e pp) (pre_blocks L files pre file es)"

text \<open>The blocks of a page with the line of each, as the parser hands them over.\<close>

definition scan :: "string \<Rightarrow> (nat \<times> block) list option" where
  "scan s = (case parser_run (\<lambda>_. True) (parser_create s False) of Done q \<Rightarrow> Some (zip (marks q) (out q)) | _ \<Rightarrow> None)"

primrec preprocess :: "nat \<Rightarrow> libu \<Rightarrow> (string \<Rightarrow> string option) \<Rightarrow> string \<Rightarrow> string \<Rightarrow> ppctx \<Rightarrow> ppctx step" where
  "preprocess 0 L files file s pp = Failed pp"
| "preprocess (Suc n) L files file s pp =
     (case scan s of
        None \<Rightarrow> Failed pp
      | Some es \<Rightarrow>
          and_then (pre_blocks L files (preprocess n L files) file es pp) (\<lambda>pp.
            if pp_lev pp \<noteq> 0 then Failed pp else Done pp))"

subsection \<open>Line numbers of the C file\<close>

definition PG_MARK :: string where
  "PG_MARK = ''#line 0 __PG_FILE_C__''"

fun has_infix :: "string \<Rightarrow> string \<Rightarrow> bool" where
  "has_infix p [] \<longleftrightarrow> p = []"
| "has_infix p (c # s) \<longleftrightarrow> take (length p) (c # s) = p \<or> has_infix p s"

fun fix_lines :: "string \<Rightarrow> nat \<Rightarrow> string list \<Rightarrow> string list" where
  "fix_lines file ln [] = []"
| "fix_lines file ln (l # ls) =
     (if has_infix PG_MARK l then (''#line '' @ dec (ln + 2) @ '' '' @ quoted file @ [LF]) # fix_lines file ln ls
      else l # fix_lines file (Suc ln) ls)"

definition fix_line_decl :: "string \<Rightarrow> string \<Rightarrow> string" where
  "fix_line_decl file s = concat (fix_lines file 0 (gets_lines 1023 s))"

subsection \<open>Translation\<close>

definition u_match_ext :: "string \<Rightarrow> string \<Rightarrow> bool" where
  "u_match_ext f ext \<longleftrightarrow> length ext \<le> length f \<and> strcaseeq (drop (length f - length ext) f) ext"

definition translate_is_a_script :: "string \<Rightarrow> bool" where
  "translate_is_a_script f \<longleftrightarrow> (\<exists>e\<in>set [''.klone'', ''.kl1'', ''.klc'', ''.klx'']. u_match_ext f e)"

definition translate_makefile_filepath :: "libu \<Rightarrow> string \<Rightarrow> string \<Rightarrow> nat \<Rightarrow> string option" where
  "translate_makefile_filepath L path dir sz =
     (let absolute = (take 1 path = ''/'' \<or> take 1 path = [CHR 0x5C]) \<or> (path \<noteq> [] \<and> (c_isupper (hd path) \<or> c_islower (hd path)) \<and> take 1 (drop 1 path) = '':'') in
      case u_snprintf L (if absolute then path else dir @ ''/'' @ path) FNAME_MAX of (s, t1) \<Rightarrow>
        if t1 then None
        else (case u_strlcpy L s sz of (d, t2) \<Rightarrow> if t2 then None else Some d))"

fun depend_files :: "libu \<Rightarrow> string list \<Rightarrow> string" where
  "depend_files L [] = [LF]"
| "depend_files L (f # fs) =
     (case translate_makefile_filepath L f ''$(srcdir)'' FNAME_MAX of None \<Rightarrow> [] | Some p \<Rightarrow> p @ '' '' @ depend_files L fs)"

definition ppctx_print_depend :: "libu \<Rightarrow> ppctx \<Rightarrow> string \<Rightarrow> string \<Rightarrow> string" where
  "ppctx_print_depend L pp infile outfile =
     (case translate_makefile_filepath L infile ''$(srcdir)'' FNAME_MAX of
        None \<Rightarrow> []
      | Some p \<Rightarrow> outfile @ '' '' @ outfile @ ''.kld: '' @ p @ '' '' @ depend_files L (pp_depend pp))"

text \<open>
  \<^verbatim>\<open>translate\<close> in a build without SSL, from the text of the input file to that of the C file.  A
  static file goes through the compressor as a whole, a page block by block.
\<close>

definition translate ::
  "nat \<Rightarrow> libu \<Rightarrow> (string \<Rightarrow> string) \<Rightarrow> (string \<Rightarrow> string) \<Rightarrow> (string \<Rightarrow> string option) \<Rightarrow> trans_info \<Rightarrow>
   string \<Rightarrow> string \<Rightarrow> string option" where
  "translate n L gz digest files ti file_in file_out =
     (case files file_in of
        None \<Rightarrow> None
      | Some s \<Rightarrow>
          if translate_is_a_script file_in
          then (case preprocess n L files file_in s ppctx_create of
                  Done pp \<Rightarrow>
                    map_option (fix_line_decl file_out)
                      (translate_script_to_c L gz digest ti (pp_out pp @ ppctx_print pp))
                | _ \<Rightarrow> None)
          else Some (translate_opaque_to_c digest ti (if ti_comp ti then gz s else s)))"

end
