(* ===== verification/Templates.thy ===== *)
theory Templates
  imports Translat
begin

text \<open>
  What the preprocessor of \<^verbatim>\<open>src/libtrans/translat.c\<close> makes of a page that extends a template.
  The tree of blocks is related to a list of segments, text or named blocks of text; each operation
  on the tree is shown to be the operation on segments.  Templates and pages are flat here: their
  blocks hold no blocks, and they have no \<^verbatim>\<open>include\<close> or \<^verbatim>\<open>inherit\<close>.  A page that nests an
  overriding block in another is treated at the end; the text after the inner block is lost.
\<close>

section \<open>Pages as a list of segments\<close>

text \<open>
  A template, or a page that extends one, is text and code at the top level and named blocks of
  text and code.
\<close>

datatype seg = Text string | Blk string "string list"

fun seg_text :: "seg \<Rightarrow> string" where
  "seg_text (Text t) = t"
| "seg_text (Blk n ts) = concat ts"

fun named :: "string \<Rightarrow> seg \<Rightarrow> bool" where
  "named n (Text t) \<longleftrightarrow> False"
| "named n (Blk m ts) \<longleftrightarrow> strcaseeq m n"

text \<open>The first block of the same name is replaced; a block without its like is ignored.\<close>

fun replace_blk :: "string \<Rightarrow> string list \<Rightarrow> seg list \<Rightarrow> seg list" where
  "replace_blk n ts [] = []"
| "replace_blk n ts (s # ss) = (if named n s then Blk n ts # ss else s # replace_blk n ts ss)"

fun override :: "seg list \<Rightarrow> seg list \<Rightarrow> seg list" where
  "override base [] = base"
| "override base (Text t # ss) = override base ss"
| "override base (Blk n ts # ss) = override (replace_blk n ts base) ss"

fun fresh_names :: "seg list \<Rightarrow> seg list \<Rightarrow> bool" where
  "fresh_names seen [] \<longleftrightarrow> True"
| "fresh_names seen (Text t # ss) \<longleftrightarrow> fresh_names (seen @ [Text t]) ss"
| "fresh_names seen (Blk n ts # ss) \<longleftrightarrow> (\<forall>s\<in>set seen. \<not> named n s) \<and> fresh_names (seen @ [Blk n ts]) ss"

section \<open>The tree of a flat page\<close>

definition leaf :: "kblock list \<Rightarrow> string \<Rightarrow> nat \<Rightarrow> bool" where
  "leaf H t j \<longleftrightarrow> 2 \<le> j \<and> j < length H \<and> kb_name (H ! j) = None \<and> kb_buf (H ! j) = t \<and> kb_children (H ! j) = []"

fun node :: "kblock list \<Rightarrow> seg \<Rightarrow> nat \<Rightarrow> bool" where
  "node H (Text t) i \<longleftrightarrow> leaf H t i"
| "node H (Blk n ts) i \<longleftrightarrow>
     2 \<le> i \<and> i < length H \<and> kb_name (H ! i) = Some n \<and> kb_parent (H ! i) = Some TOP \<and> list_all2 (leaf H) ts (kb_children (H ! i))"

abbreviation tops :: "ppctx \<Rightarrow> nat list" where
  "tops pp \<equiv> kb_children (pp_heap pp ! TOP)"

definition good :: "ppctx \<Rightarrow> seg list \<Rightarrow> bool" where
  "good pp ss \<longleftrightarrow> 2 \<le> length (pp_heap pp) \<and> distinct (tops pp) \<and> list_all2 (node (pp_heap pp)) ss (tops pp)"

text \<open>Nothing but the two roots and the block \<open>b\<close> changes.\<close>

definition frame :: "nat \<Rightarrow> kblock list \<Rightarrow> kblock list \<Rightarrow> bool" where
  "frame b H H' \<longleftrightarrow> length H \<le> length H' \<and>
     (\<forall>j. 2 \<le> j \<longrightarrow> j < length H \<longrightarrow> kb_name (H ! j) = None \<or> j \<noteq> b \<longrightarrow> H' ! j = H ! j)"

lemma leaf_frame: "frame b H H' \<Longrightarrow> leaf H t j \<Longrightarrow> leaf H' t j"
  by (auto simp: frame_def leaf_def)

lemma node_frame:
  assumes "frame b H H'" "node H s i" "i \<noteq> b"
  shows "node H' s i"
proof (cases s)
  case (Blk n ts)
  then have "H' ! i = H ! i" "length H \<le> length H'" using assms by (auto simp: frame_def)
  with Blk assms(2) show ?thesis by (auto intro: list_all2_mono leaf_frame [OF assms(1)])
qed (use assms in \<open>simp add: leaf_frame\<close>)

lemma nodes_frame:
  assumes "frame b H H'" "list_all2 (node H) ss is" "b \<notin> set is"
  shows "list_all2 (node H') ss is"
  using assms(2,3) by (induction rule: list_all2_induct) (auto intro: node_frame [OF assms(1)])

lemma node_bounds: "node H s i \<Longrightarrow> 2 \<le> i \<and> i < length H"
  by (cases s) (auto simp: leaf_def)

lemma nodes_bounds: "list_all2 (node H) ss is \<Longrightarrow> i \<in> set is \<Longrightarrow> 2 \<le> i \<and> i < length H"
  by (induction rule: list_all2_induct) (auto dest: node_bounds)

lemma heap_update [simp]: "pp_heap (kb_update i f pp) = (pp_heap pp)[i := f (pp_heap pp ! i)]"
  "pp_cur (kb_update i f pp) = pp_cur pp" "pp_lev (kb_update i f pp) = pp_lev pp" "pp_ext (kb_update i f pp) = pp_ext pp"
  "pp_depend (kb_update i f pp) = pp_depend pp"
  by (simp_all add: kb_update_def)

definition keeps :: "ppctx \<Rightarrow> ppctx \<Rightarrow> bool" where
  "keeps pp pp' \<longleftrightarrow> pp_cur pp' = pp_cur pp \<and> pp_lev pp' = pp_lev pp \<and> pp_ext pp' = pp_ext pp \<and> pp_depend pp' = pp_depend pp"

section \<open>New nodes\<close>

definition adopt :: "nat \<Rightarrow> kblock \<Rightarrow> ppctx \<Rightarrow> ppctx" where
  "adopt p k pp = kblock_push_child p (length (pp_heap pp)) (pp\<lparr>pp_heap := pp_heap pp @ [k]\<rparr>)"

lemma adopt_nth:
  assumes "p < length (pp_heap pp)"
  shows "length (pp_heap (adopt p k pp)) = Suc (length (pp_heap pp))"
    "pp_heap (adopt p k pp) ! length (pp_heap pp) = k\<lparr>kb_parent := Some p\<rparr>"
    "pp_heap (adopt p k pp) ! p = (pp_heap pp ! p)\<lparr>kb_children := kb_children (pp_heap pp ! p) @ [length (pp_heap pp)]\<rparr>"
    "j < length (pp_heap pp) \<Longrightarrow> j \<noteq> p \<Longrightarrow> pp_heap (adopt p k pp) ! j = pp_heap pp ! j"
  using assms by (auto simp: adopt_def kblock_push_child_def nth_append nth_list_update)

lemma adopt_keeps: "keeps pp (adopt p k pp)"
  by (simp add: keeps_def adopt_def kblock_push_child_def)

lemma adopt_frame:
  assumes "p < length (pp_heap pp)" "p < 2 \<or> p = b \<and> kb_name (pp_heap pp ! b) \<noteq> None"
  shows "frame b (pp_heap pp) (pp_heap (adopt p k pp))"
  using assms adopt_nth(1) [OF assms(1), of k] adopt_nth(4) [OF assms(1), where k = k] by (auto simp: frame_def) (metis option.distinct(1))

lemma good_bounds: "good pp ss \<Longrightarrow> i \<in> set (tops pp) \<Longrightarrow> 2 \<le> i \<and> i < length (pp_heap pp)"
  using nodes_bounds by (auto simp: good_def)

lemma good_roots: "good pp ss \<Longrightarrow> TOP < length (pp_heap pp) \<and> DEAD < length (pp_heap pp) \<and> 2 \<le> length (pp_heap pp)"
  by (auto simp: good_def TOP_def DEAD_def)

text \<open>A node below the root is a new segment, one below the other root is not seen.\<close>

lemma adopt_top:
  assumes "good pp ss" "node (pp_heap (adopt TOP k pp)) s (length (pp_heap pp))"
  shows "good (adopt TOP k pp) (ss @ [s])" "tops (adopt TOP k pp) = tops pp @ [length (pp_heap pp)]"
proof -
  have len: "TOP < length (pp_heap pp)" using good_roots [OF assms(1)] by simp
  show tops: "tops (adopt TOP k pp) = tops pp @ [length (pp_heap pp)]" by (simp add: adopt_nth(3) [OF len])
  have fr: "frame 0 (pp_heap pp) (pp_heap (adopt TOP k pp))" by (rule adopt_frame [OF len]) (simp add: TOP_def)
  have "0 \<notin> set (tops pp)" "length (pp_heap pp) \<notin> set (tops pp)" using good_bounds [OF assms(1)] by fastforce+
  with assms nodes_frame [OF fr, of ss "tops pp"] adopt_nth(1) [OF len, of k] show "good (adopt TOP k pp) (ss @ [s])"
    by (auto simp: good_def tops list_all2_appendI)
qed

lemma adopt_dead:
  assumes "good pp ss"
  shows "good (adopt DEAD k pp) ss" "tops (adopt DEAD k pp) = tops pp"
proof -
  have len: "DEAD < length (pp_heap pp)" "TOP < length (pp_heap pp)" "TOP \<noteq> DEAD" using good_roots [OF assms] by (simp_all add: DEAD_def TOP_def)
  show tops: "tops (adopt DEAD k pp) = tops pp" by (simp add: adopt_nth(4) [OF len(1,2,3)])
  have fr: "frame 0 (pp_heap pp) (pp_heap (adopt DEAD k pp))" by (rule adopt_frame [OF len(1)]) (simp add: DEAD_def)
  have "0 \<notin> set (tops pp)" using good_bounds [OF assms] by fastforce
  with assms nodes_frame [OF fr, of ss "tops pp"] adopt_nth(1) [OF len(1), of k] show "good (adopt DEAD k pp) ss"
    by (auto simp: good_def tops)
qed

text \<open>A node below a block that is not in the tree is not seen either.\<close>

lemma adopt_aside:
  assumes "good pp ss" "b < length (pp_heap pp)" "2 \<le> b" "b \<notin> set (tops pp)" "kb_name (pp_heap pp ! b) = Some n"
  shows "good (adopt b k pp) ss" "tops (adopt b k pp) = tops pp"
proof -
  have top: "TOP < length (pp_heap pp)" "TOP \<noteq> b" using assms(2,3) by (auto simp: TOP_def)
  show tops: "tops (adopt b k pp) = tops pp" by (simp add: adopt_nth(4) [OF assms(2) top])
  have fr: "frame b (pp_heap pp) (pp_heap (adopt b k pp))" by (rule adopt_frame [OF assms(2)]) (simp add: assms(5))
  from assms(1) nodes_frame [OF fr, of ss "tops pp"] assms(4) adopt_nth(1) [OF assms(2), of k] show "good (adopt b k pp) ss"
    by (auto simp: good_def tops)
qed

text \<open>Text below a block of the tree extends the block.\<close>

lemma adopt_block:
  assumes "good pp (ss @ Blk n ts # ss')" "tops pp ! length ss = b"
  shows "good (adopt b (kb_new None t) pp) (ss @ Blk n (ts @ [t]) # ss')" "tops (adopt b (kb_new None t) pp) = tops pp"
proof -
  let ?pp = "adopt b (kb_new None t) pp" and ?H = "pp_heap pp"
  from assms(1) obtain ls js c where ls: "tops pp = ls @ c # js" "list_all2 (node ?H) ss ls" "node ?H (Blk n ts) c" "list_all2 (node ?H) ss' js"
    by (auto simp: good_def list_all2_append1 list_all2_Cons1)
  then have c: "c = b" using assms(2) list_all2_lengthD by fastforce
  have b: "2 \<le> b" "b < length ?H" "kb_name (?H ! b) = Some n" "kb_parent (?H ! b) = Some TOP" "list_all2 (leaf ?H) ts (kb_children (?H ! b))"
    using ls(3) c by simp_all
  have top: "TOP < length ?H" "TOP \<noteq> b" using b by (auto simp: TOP_def)
  show tops: "tops ?pp = tops pp" by (simp add: adopt_nth(4) [OF b(2) top])
  have fr: "frame b ?H (pp_heap ?pp)" by (rule adopt_frame [OF b(2)]) (simp add: b(3))
  have "b \<notin> set ls" "b \<notin> set js" "distinct (tops pp)" using assms(1) ls(1) c by (auto simp: good_def)
  then have "list_all2 (node (pp_heap ?pp)) ss ls" "list_all2 (node (pp_heap ?pp)) ss' js" "distinct (tops ?pp)"
    using nodes_frame [OF fr] ls(2,4) tops by simp_all
  moreover have "leaf (pp_heap ?pp) t (length ?H)"
    using b(1,2) adopt_nth(1,2) [OF b(2), of "kb_new None t"] by (simp add: leaf_def kb_new_def)
  then have "list_all2 (leaf (pp_heap ?pp)) (ts @ [t]) (kb_children (?H ! b) @ [length ?H])"
    by (intro list_all2_appendI list_all2_mono [OF b(5)] leaf_frame [OF fr]) simp_all
  then have "node (pp_heap ?pp) (Blk n (ts @ [t])) b"
    using b adopt_nth(1,3) [OF b(2), of "kb_new None t"] by simp
  ultimately show "good ?pp (ss @ Blk n (ts @ [t]) # ss')"
    using assms(1) ls(1) c adopt_nth(1) [OF b(2), of "kb_new None t"] by (simp add: good_def tops list_all2_appendI)
qed

section \<open>Operations\<close>

lemma text_top:
  assumes "good pp ss" "pp_cur pp = Some TOP" "pp_ext pp = 0"
  shows "\<exists>pp'. add_text t pp = Done pp' \<and> good pp' (ss @ [Text t]) \<and> keeps pp pp'"
proof -
  have len: "TOP < length (pp_heap pp)" "2 \<le> length (pp_heap pp)" using good_roots [OF assms(1)] by simp_all
  have "add_text t pp = Done (adopt TOP (kb_new None t) pp)"
    using assms(2,3) by (simp add: add_text_def kblock_create_def push_cur_def adopt_def)
  moreover have "leaf (pp_heap (adopt TOP (kb_new None t) pp)) t (length (pp_heap pp))"
    using len(2) adopt_nth(1,2) [OF len(1), of "kb_new None t"] by (simp add: leaf_def kb_new_def)
  ultimately show ?thesis using adopt_top(1) [OF assms(1), of "kb_new None t" "Text t"] adopt_keeps by auto
qed

lemma text_dropped:
  assumes "good pp ss" "pp_cur pp = Some TOP" "pp_ext pp \<noteq> 0"
  shows "\<exists>pp'. add_text t pp = Done pp' \<and> good pp' ss \<and> keeps pp pp'"
proof -
  have "add_text t pp = Done (adopt DEAD (kb_new None t) pp)"
    using assms(2,3) by (simp add: add_text_def kblock_create_def adopt_def)
  then show ?thesis using adopt_dead(1) [OF assms(1)] adopt_keeps by blast
qed

lemma text_below:
  assumes "pp_cur pp = Some b" "b \<noteq> TOP"
  shows "add_text t pp = Done (adopt b (kb_new None t) pp)"
  using assms by (simp add: add_text_def kblock_create_def push_cur_def adopt_def)

fun first_named :: "string \<Rightarrow> seg list \<Rightarrow> nat option" where
  "first_named n [] = None"
| "first_named n (s # ss) = (if named n s then Some 0 else map_option Suc (first_named n ss))"

lemma first_named_None: "first_named n ss = None \<longleftrightarrow> (\<forall>s\<in>set ss. \<not> named n s)"
  by (induction ss) auto

lemma replace_none: "first_named n ss = None \<Longrightarrow> replace_blk n ts ss = ss"
  by (induction ss) auto

lemma replace_first: "first_named n ss = Some k \<Longrightarrow>
    k < length ss \<and> (\<exists>m us. ss ! k = Blk m us) \<and> replace_blk n ts ss = take k ss @ Blk n ts # drop (Suc k) ss"
proof (induction ss arbitrary: k)
  case (Cons s ss)
  then show ?case by (cases s; cases k) (auto split: if_splits)
qed simp

lemma find_leaves: "list_all2 (leaf H) ts js \<Longrightarrow> find_child (Suc d) H name i js = None"
  by (induction arbitrary: i rule: list_all2_induct) (auto simp: leaf_def)

lemma find_flat:
  "list_all2 (node H) ss ls \<Longrightarrow>
     find_child (Suc (Suc d)) H name i ls = (case first_named name ss of None \<Rightarrow> None | Some k \<Rightarrow> Some (ls ! k, i + k))"
proof (induction arbitrary: i rule: list_all2_induct)
  case (Cons s ss b ls)
  show ?case
  proof (cases s)
    case (Text t)
    with Cons show ?thesis by (auto simp: leaf_def split: option.splits)
  next
    case (Blk m ts)
    with Cons(1) have b: "kb_name (H ! b) = Some m" "find_child (Suc d) H name 0 (kb_children (H ! b)) = None"
      by (auto intro: find_leaves)
    show ?thesis using Cons.IH [of "Suc i"] Blk b by (auto split: option.splits)
  qed
qed simp

lemma good_cong: "pp_heap pp' = pp_heap pp \<Longrightarrow> good pp' ss \<longleftrightarrow> good pp ss"
  by (simp add: good_def)

text \<open>Allocating a node changes nothing yet.\<close>

lemma create_nodes:
  assumes "good pp ss"
  shows "list_all2 (node (pp_heap pp @ [k])) ss (tops pp)" "kb_children ((pp_heap pp @ [k]) ! TOP) = tops pp"
proof -
  have fr: "frame 0 (pp_heap pp) (pp_heap pp @ [k])" by (simp add: frame_def nth_append)
  have "0 \<notin> set (tops pp)" using good_bounds [OF assms] by fastforce
  with nodes_frame [OF fr, of ss "tops pp"] assms show "list_all2 (node (pp_heap pp @ [k])) ss (tops pp)" by (simp add: good_def)
  show "kb_children ((pp_heap pp @ [k]) ! TOP) = tops pp" using good_roots [OF assms] by (simp add: nth_append)
qed

lemma search_flat:
  assumes "good pp ss" "pp_heap pp' = pp_heap pp @ [k]"
  shows "kblock_get_by_name pp' name = (case first_named name ss of None \<Rightarrow> None | Some i \<Rightarrow> Some (tops pp ! i, i))"
proof -
  obtain d where "length (pp_heap pp') = Suc (Suc d)"
    using good_roots [OF assms(1)] assms(2) by (metis One_nat_def add_2_eq_Suc le_Suc_ex length_append_singleton not_less_eq_eq)
  then show ?thesis
    using find_flat [OF create_nodes(1) [OF assms(1), of k], of d name 0] create_nodes(2) [OF assms(1), of k] assms(2)
    by (cases "first_named name ss") (simp_all add: kblock_get_by_name_def)
qed

definition enters :: "nat \<Rightarrow> ppctx \<Rightarrow> ppctx \<Rightarrow> bool" where
  "enters b pp pp' \<longleftrightarrow> pp_cur pp' = Some b \<and> pp_lev pp' = pp_lev pp + 1 \<and>
     pp_ext pp' = (if pp_ext pp = 0 then 0 else Suc (pp_ext pp)) \<and> pp_depend pp' = pp_depend pp"

lemma block_new:
  assumes "good pp ss" "pp_cur pp = Some TOP" "pp_ext pp = 0" "first_named n ss = None"
  shows "\<exists>pp'. process_directive_block n pp = Done pp' \<and> good pp' (ss @ [Blk n []]) \<and> enters (tops pp' ! length ss) pp pp'"
proof -
  let ?k = "kb_new (Some n) []" and ?b = "length (pp_heap pp)"
  let ?pp = "(adopt TOP ?k pp)\<lparr>pp_lev := pp_lev pp + 1, pp_cur := Some ?b\<rparr>"
  have roots: "TOP < ?b" "2 \<le> ?b" using good_roots [OF assms(1)] by simp_all
  have "kblock_get_by_name (pp\<lparr>pp_heap := pp_heap pp @ [?k], pp_lev := pp_lev pp + 1\<rparr>) n = None"
    using search_flat [OF assms(1), of "pp\<lparr>pp_heap := pp_heap pp @ [?k], pp_lev := pp_lev pp + 1\<rparr>" ?k n] assms(4) by simp
  then have run: "process_directive_block n pp = Done ?pp"
    using assms(2,3) by (simp add: process_directive_block_def kblock_create_def push_cur_def adopt_def kblock_push_child_def kb_update_def)
  have "node (pp_heap (adopt TOP ?k pp)) (Blk n []) ?b"
    using roots adopt_nth(1,2) [OF roots(1), of ?k] by (simp add: kb_new_def)
  note top = adopt_top [OF assms(1) this]
  have "length ss = length (tops pp)" using assms(1) by (auto simp: good_def dest: list_all2_lengthD)
  then have "tops ?pp ! length ss = ?b" using top(2) by simp
  moreover have "good ?pp (ss @ [Blk n []])" using top(1) by (simp add: good_cong [of ?pp "adopt TOP ?k pp"])
  ultimately show ?thesis using run assms(3) adopt_keeps [of pp TOP ?k] by (auto simp: enters_def keeps_def)
qed

lemma swap_in:
  assumes "distinct cs" "k < length cs" "b \<notin> set cs"
  shows "remove1 (cs ! k) (take k cs @ b # drop k cs) = take k cs @ b # drop (Suc k) cs" "distinct (take k cs @ b # drop (Suc k) cs)"
proof -
  have cs: "cs = take k cs @ cs ! k # drop (Suc k) cs" using assms(2) by (rule id_take_nth_drop)
  then have d: "distinct (take k cs @ cs ! k # drop (Suc k) cs)" using assms(1) by simp
  have "b \<noteq> cs ! k" using assms(2,3) by auto
  then show "remove1 (cs ! k) (take k cs @ b # drop k cs) = take k cs @ b # drop (Suc k) cs"
    using d assms(2) by (simp add: remove1_append Cons_nth_drop_Suc [symmetric])
  have "b \<notin> set (take k cs)" "b \<notin> set (drop (Suc k) cs)" using assms(3) by (auto dest: in_set_takeD in_set_dropD)
  with d show "distinct (take k cs @ b # drop (Suc k) cs)" by simp
qed

lemma block_override:
  assumes "good pp ss" "pp_ext pp \<noteq> 0" "first_named n ss = Some k"
  shows "\<exists>pp'. process_directive_block n pp = Done pp' \<and> good pp' (take k ss @ Blk n [] # drop (Suc k) ss) \<and> enters (tops pp' ! k) pp pp'"
proof -
  let ?H = "pp_heap pp" and ?b = "length (pp_heap pp)" and ?cs = "tops pp"
  let ?old = "?cs ! k" and ?k = "(kb_new (Some n) [])\<lparr>kb_ancestor := Some (tops pp ! k), kb_parent := Some TOP\<rparr>"
  let ?top = "(?H ! TOP)\<lparr>kb_children := take k ?cs @ ?b # drop (Suc k) ?cs\<rparr>"
  let ?pp = "pp\<lparr>pp_heap := (?H @ [?k])[TOP := ?top], pp_lev := pp_lev pp + 1, pp_ext := Suc (pp_ext pp), pp_cur := Some ?b\<rparr>"
  have roots: "TOP < ?b" "2 \<le> ?b" using good_roots [OF assms(1)] by simp_all
  have len: "length ss = length ?cs" "distinct ?cs" using assms(1) by (auto simp: good_def dest: list_all2_lengthD)
  from replace_first [OF assms(3), of "[]"] obtain m us where k: "k < length ?cs" "ss ! k = Blk m us" using len by auto
  then have "node ?H (Blk m us) ?old" using assms(1) by (auto simp: good_def list_all2_conv_all_nth)
  then have par: "kb_parent (?H ! ?old) = Some TOP" and old: "?old < ?b" by simp_all
  have bn: "?b \<notin> set ?cs" "0 \<notin> set ?cs" using good_bounds [OF assms(1)] by fastforce+
  note swap = swap_in [OF len(2) k(1) bn(1)]
  have get: "kblock_get_by_name (pp\<lparr>pp_heap := ?H @ [kb_new (Some n) []], pp_lev := pp_lev pp + 1, pp_ext := Suc (pp_ext pp)\<rparr>) n = Some (?old, k)"
    using search_flat [OF assms(1), of "pp\<lparr>pp_heap := ?H @ [kb_new (Some n) []], pp_lev := pp_lev pp + 1, pp_ext := Suc (pp_ext pp)\<rparr>" _ n] assms(3) by simp
  have "(?H @ [kb_new (Some n) []])[?b := ?k] = ?H @ [?k]" by (simp add: list_update_append)
  moreover have "kb_children_update (\<lambda>cs. remove1 ?old (take k cs @ ?b # drop k cs)) (?H ! TOP) = ?top"
    using swap(1) by (cases "?H ! TOP") simp
  ultimately have run: "process_directive_block n pp = Done ?pp"
    using assms(2) get par old roots(1)
    by (simp add: process_directive_block_def kblock_create_def override_block_def kb_update_def nth_append)
  have fr: "frame 0 ?H (pp_heap ?pp)" using roots by (auto simp: frame_def nth_append nth_list_update TOP_def)
  have tops: "tops ?pp = take k ?cs @ ?b # drop (Suc k) ?cs" using roots by simp
  have all: "list_all2 (node (pp_heap ?pp)) ss ?cs" using nodes_frame [OF fr _ bn(2)] assms(1) by (simp add: good_def)
  have "node (pp_heap ?pp) (Blk n []) ?b" using roots by (simp add: kb_new_def TOP_def nth_append)
  then have "good ?pp (take k ss @ Blk n [] # drop (Suc k) ss)"
    using roots swap(2) all by (simp add: good_def tops list_all2_appendI list_all2_takeI list_all2_dropI)
  moreover have "tops ?pp ! k = ?b" using k(1) unfolding tops by (simp add: nth_append)
  ultimately show ?thesis using run assms(2) by (auto simp: enters_def)
qed

text \<open>A block that overrides nothing is put aside.\<close>

definition aside :: "nat \<Rightarrow> seg list \<Rightarrow> ppctx \<Rightarrow> bool" where
  "aside b ss pp \<longleftrightarrow> good pp ss \<and> 2 \<le> b \<and> b < length (pp_heap pp) \<and> b \<notin> set (tops pp) \<and> kb_parent (pp_heap pp ! b) = Some DEAD"

lemma block_aside:
  assumes "good pp ss" "pp_cur pp = Some TOP" "pp_ext pp \<noteq> 0" "first_named n ss = None"
  shows "\<exists>pp' b. process_directive_block n pp = Done pp' \<and> aside b ss pp' \<and> kb_name (pp_heap pp' ! b) = Some n \<and> enters b pp pp'"
proof -
  let ?k = "kb_new (Some n) []" and ?b = "length (pp_heap pp)"
  let ?pp = "(adopt DEAD ?k pp)\<lparr>pp_lev := pp_lev pp + 1, pp_ext := Suc (pp_ext pp), pp_cur := Some ?b\<rparr>"
  have roots: "DEAD < ?b" "2 \<le> ?b" using good_roots [OF assms(1)] by simp_all
  have "kblock_get_by_name (pp\<lparr>pp_heap := pp_heap pp @ [?k], pp_lev := pp_lev pp + 1, pp_ext := Suc (pp_ext pp)\<rparr>) n = None"
    using search_flat [OF assms(1), of "pp\<lparr>pp_heap := pp_heap pp @ [?k], pp_lev := pp_lev pp + 1, pp_ext := Suc (pp_ext pp)\<rparr>" ?k n] assms(4) by simp
  then have run: "process_directive_block n pp = Done ?pp"
    using assms(2,3) by (simp add: process_directive_block_def kblock_create_def adopt_def kblock_push_child_def kb_update_def)
  have "?b \<notin> set (tops pp)" using good_bounds [OF assms(1)] by fastforce
  moreover have "good ?pp ss" using adopt_dead(1) [OF assms(1)] by (simp add: good_cong [of ?pp "adopt DEAD ?k pp"])
  moreover have "pp_heap ?pp ! ?b = ?k\<lparr>kb_parent := Some DEAD\<rparr>" "length (pp_heap ?pp) = Suc ?b" "tops ?pp = tops pp"
    using adopt_dead(2) [OF assms(1), of ?k] adopt_nth(1,2) [OF roots(1), of ?k] by simp_all
  ultimately have "aside ?b ss ?pp" "kb_name (pp_heap ?pp ! ?b) = Some n" using roots by (simp_all add: aside_def kb_new_def)
  then show ?thesis using run assms(3) adopt_keeps [of pp DEAD ?k] by (auto simp: enters_def keeps_def)
qed

lemma text_aside:
  assumes "aside b ss pp" "kb_name (pp_heap pp ! b) = Some n" "pp_cur pp = Some b"
  shows "\<exists>pp'. add_text t pp = Done pp' \<and> aside b ss pp' \<and> kb_name (pp_heap pp' ! b) = Some n \<and> keeps pp pp'"
proof -
  have b: "b < length (pp_heap pp)" "b \<noteq> TOP" using assms(1) by (auto simp: aside_def TOP_def)
  note new = adopt_nth(1,3) [OF b(1), of "kb_new None t"]
  have "aside b ss (adopt b (kb_new None t) pp)"
    using assms(1,2) adopt_aside [of pp ss b n "kb_new None t"] new by (auto simp: aside_def)
  then show ?thesis using text_below [OF assms(3) b(2)] adopt_keeps new assms(2) by auto
qed

lemma endblock_closes:
  assumes "pp_cur pp = Some b" "kb_name (pp_heap pp ! b) = Some n" "kb_parent (pp_heap pp ! b) = Some p" "pp_lev pp = 1"
    "a = None \<or> (\<exists>m. a = Some m \<and> strcaseeq m n)" "pp_ext pp = 0 \<and> p = TOP \<or> pp_ext pp = 2"
  shows "\<exists>pp'. process_directive_endblock a pp = Done pp' \<and> pp_heap pp' = pp_heap pp \<and> pp_cur pp' = Some TOP \<and> pp_lev pp' = 0 \<and>
    pp_ext pp' = pp_ext pp - 1 \<and> pp_depend pp' = pp_depend pp"
  using assms by (auto simp: process_directive_endblock_def Let_def)

section \<open>Layout of a file\<close>

text \<open>What a directive says: one line, its command in any capitalisation, and its argument.\<close>

definition says :: "string \<Rightarrow> string \<Rightarrow> string option \<Rightarrow> bool" where
  "says d cmd a \<longleftrightarrow> gets_lines 1023 d = [d] \<and>
     (\<exists>c rest. strtok ('' '' @ [TAB]) d = Some (c, rest) \<and> strcaseeq c cmd \<and> a = map_option fst (strtok ('' '' @ [TAB, DQ]) rest))"

abbreviation AT :: nat where
  "AT \<equiv> ord (CHR ''@'')"

inductive body :: "string \<Rightarrow> (nat \<times> block) list \<Rightarrow> string list \<Rightarrow> bool" for fn where
  body_nil: "body fn [] []"
| body_html: "body fn es ts \<Longrightarrow> body fn ((ln, Html t) # es) (t # ts)"
| body_code: "cmd \<noteq> AT \<Longrightarrow> body fn es ts \<Longrightarrow> body fn ((ln, Code cmd s) # es) (code_text cmd ln fn s # ts)"

inductive lays_out :: "string \<Rightarrow> (nat \<times> block) list \<Rightarrow> seg list \<Rightarrow> bool" for fn where
  out_nil: "lays_out fn [] []"
| out_text: "body fn [e] [t] \<Longrightarrow> lays_out fn es ss \<Longrightarrow> lays_out fn (e # es) (Text t # ss)"
| out_block: "says d ''block'' (Some n) \<Longrightarrow> body fn bs ts \<Longrightarrow> says d' ''endblock'' a \<Longrightarrow>
    a = None \<or> (\<exists>m. a = Some m \<and> strcaseeq m n) \<Longrightarrow> lays_out fn es ss \<Longrightarrow>
    lays_out fn ((l, Code AT d) # bs @ (l', Code AT d') # es) (Blk n ts # ss)"

inductive_simps body_one: "body file [e] [t]"

lemma pre_blocks_append:
  "pre_blocks L files pre file (es @ fs) pp = and_then (pre_blocks L files pre file es pp) (pre_blocks L files pre file fs)"
proof (induction es arbitrary: pp)
  case (Cons e es)
  then show ?case by (cases "pre_block L files pre file e pp") simp_all
qed simp

lemma all_lines_one: "all_lines f [l] pp = f l pp"
  by (cases "f l pp") simp_all

text \<open>A directive runs its command.\<close>

lemma directive_says:
  assumes "says d cmd a"
  shows "\<exists>c rest. strcaseeq c cmd \<and> strtok ('' '' @ [TAB]) d = Some (c, rest) \<and> a = map_option fst (strtok ('' '' @ [TAB, DQ]) rest) \<and>
    pre_block L files pre file (l, Code AT d) pp = process_directive L files pre file l d pp"
  using assms unfolding says_def by (auto simp: cb_pre_code_block_def parse_directive_def all_lines_one simp del: all_lines.simps)

lemma commands_differ:
  "strcaseeq c ''block'' \<Longrightarrow> \<not> strcaseeq c ''include'' \<and> \<not> strcaseeq c ''extends''"
  "strcaseeq c ''endblock'' \<Longrightarrow> \<not> strcaseeq c ''include'' \<and> \<not> strcaseeq c ''extends'' \<and> \<not> strcaseeq c ''block''"
  "strcaseeq c ''extends'' \<Longrightarrow> \<not> strcaseeq c ''include''"
  by (auto simp: strcaseeq_def c_tolower_def ctype_defs ord_def)

lemma block_says:
  assumes "says d ''block'' (Some n)"
  shows "pre_block L files pre file (l, Code AT d) pp = process_directive_block n pp"
proof -
  from directive_says [OF assms] obtain c rest where c: "strcaseeq c ''block''" "strtok ('' '' @ [TAB]) d = Some (c, rest)"
    "Some n = map_option fst (strtok ('' '' @ [TAB, DQ]) rest)"
    "pre_block L files pre file (l, Code AT d) pp = process_directive L files pre file l d pp" by blast
  show ?thesis unfolding c(4) process_directive_def c(2) using commands_differ(1) [OF c(1)] c(1,3) by (auto simp: Let_def split: option.splits)
qed

lemma endblock_says:
  assumes "says d ''endblock'' a"
  shows "pre_block L files pre file (l, Code AT d) pp = process_directive_endblock a pp"
proof -
  from directive_says [OF assms] obtain c rest where c: "strcaseeq c ''endblock''" "strtok ('' '' @ [TAB]) d = Some (c, rest)"
    "a = map_option fst (strtok ('' '' @ [TAB, DQ]) rest)"
    "pre_block L files pre file (l, Code AT d) pp = process_directive L files pre file l d pp" by blast
  show ?thesis unfolding c(4) process_directive_def c(2) using commands_differ(2) [OF c(1)] c(1,3) by (simp add: Let_def)
qed

text \<open>Texts one after the other keep what one text keeps.\<close>

lemma body_keeps:
  assumes "\<And>ts t pp. I ts pp \<Longrightarrow> \<exists>pp'. add_text t pp = Done pp' \<and> I (ts @ [t]) pp'"
  shows "body file es us \<Longrightarrow> I ts pp \<Longrightarrow> \<exists>pp'. pre_blocks L files pre file es pp = Done pp' \<and> I (ts @ us) pp'"
proof (induction arbitrary: ts pp rule: body.induct)
  case (body_html es us ln t)
  from assms [OF body_html.prems, of t] obtain pp1 where "add_text t pp = Done pp1" "I (ts @ [t]) pp1" by blast
  with body_html.IH [of "ts @ [t]" pp1] show ?case by (simp add: cb_pre_html_block_def)
next
  case (body_code cmd es us ln s)
  from assms [OF body_code.prems, of "code_text cmd ln file s"] obtain pp1 where
    "add_text (code_text cmd ln file s) pp = Done pp1" "I (ts @ [code_text cmd ln file s]) pp1" by blast
  with body_code.IH [of "ts @ [code_text cmd ln file s]" pp1] body_code.hyps(1) show ?case by (simp add: cb_pre_code_block_def)
qed simp

section \<open>Base and child\<close>

definition at_top :: "nat \<Rightarrow> ppctx \<Rightarrow> bool" where
  "at_top ext pp \<longleftrightarrow> pp_cur pp = Some TOP \<and> pp_lev pp = 0 \<and> pp_ext pp = ext"

text \<open>The whole of a block: what the tree shows while it is open stays when it is closed.\<close>

definition inside :: "seg list \<Rightarrow> string \<Rightarrow> seg list \<Rightarrow> int \<Rightarrow> nat \<Rightarrow> string list \<Rightarrow> string list \<Rightarrow> ppctx \<Rightarrow> bool" where
  "inside ss n ss' lev ext dep ts pp \<longleftrightarrow> good pp (ss @ Blk n ts # ss') \<and> pp_cur pp = Some (tops pp ! length ss) \<and>
     pp_lev pp = lev \<and> pp_ext pp = ext \<and> pp_depend pp = dep"

lemma inside_text:
  assumes "inside ss n ss' lev ext dep ts pp"
  shows "\<exists>pp'. add_text t pp = Done pp' \<and> inside ss n ss' lev ext dep (ts @ [t]) pp'"
proof -
  let ?b = "tops pp ! length ss"
  have g: "good pp (ss @ Blk n ts # ss')" "pp_cur pp = Some ?b" using assms by (simp_all add: inside_def)
  have "length ss < length (tops pp)" using g(1) by (auto simp: good_def dest: list_all2_lengthD)
  then have "?b \<noteq> TOP" using good_bounds [OF g(1), of ?b] by (auto simp: TOP_def)
  from text_below [OF g(2) this] adopt_block [OF g(1) refl, of t] adopt_keeps [of pp ?b "kb_new None t"] assms show ?thesis
    by (auto simp: inside_def keeps_def)
qed

lemma inside_node:
  assumes "inside ss n ss' lev ext dep ts pp"
  shows "good pp (ss @ Blk n ts # ss')" "kb_name (pp_heap pp ! (tops pp ! length ss)) = Some n"
    "kb_parent (pp_heap pp ! (tops pp ! length ss)) = Some TOP"
proof -
  show g: "good pp (ss @ Blk n ts # ss')" using assms by (simp add: inside_def)
  then have "list_all2 (node (pp_heap pp)) (ss @ Blk n ts # ss') (tops pp)" by (simp add: good_def)
  from list_all2_nthD [OF this, of "length ss"] have "node (pp_heap pp) (Blk n ts) (tops pp ! length ss)" by simp
  then show "kb_name (pp_heap pp ! (tops pp ! length ss)) = Some n"
    "kb_parent (pp_heap pp ! (tops pp ! length ss)) = Some TOP" by simp_all
qed

lemma inside_end:
  assumes "inside ss n ss' 1 ext dep ts pp" "ext = 0 \<or> ext = 2" "a = None \<or> (\<exists>m. a = Some m \<and> strcaseeq m n)"
  shows "\<exists>pp'. process_directive_endblock a pp = Done pp' \<and> good pp' (ss @ Blk n ts # ss') \<and> at_top (ext - 1) pp' \<and> pp_depend pp' = dep"
proof -
  note n = inside_node [OF assms(1)]
  have "pp_cur pp = Some (tops pp ! length ss)" "pp_lev pp = 1" "pp_ext pp = ext" "pp_depend pp = dep"
    using assms(1) by (simp_all add: inside_def)
  with n(2,3) obtain pp' where "process_directive_endblock a pp = Done pp'" "pp_heap pp' = pp_heap pp" "at_top (ext - 1) pp'" "pp_depend pp' = dep"
    using endblock_closes [of pp "tops pp ! length ss" n TOP a] assms(2,3) by (auto simp: at_top_def)
  with n(1) good_cong [of pp' pp] show ?thesis by blast
qed

lemma inside_body:
  assumes "inside ss n ss' lev ext dep [] pp" "body file bs ts"
  shows "\<exists>pp'. pre_blocks L files pre file bs pp = Done pp' \<and> inside ss n ss' lev ext dep ts pp'"
  using body_keeps [where I = "inside ss n ss' lev ext dep", OF inside_text assms(2,1), of L files pre] by auto

lemma block_group:
  assumes "inside ss n ss' 1 ext dep [] pp" "ext = 0 \<or> ext = 2" "body file bs ts" "says d' ''endblock'' a"
    "a = None \<or> (\<exists>m. a = Some m \<and> strcaseeq m n)"
  shows "\<exists>pp'. pre_blocks L files pre file (bs @ (l', Code AT d') # es) pp = pre_blocks L files pre file es pp' \<and>
    good pp' (ss @ Blk n ts # ss') \<and> at_top (ext - 1) pp' \<and> pp_depend pp' = dep"
proof -
  from inside_body [OF assms(1,3), of L files pre] obtain pp1 where
    pp1: "pre_blocks L files pre file bs pp = Done pp1" "inside ss n ss' 1 ext dep ts pp1" by auto
  from inside_end [OF pp1(2) assms(2,5)] obtain pp2 where
    pp2: "process_directive_endblock a pp1 = Done pp2" "good pp2 (ss @ Blk n ts # ss')" "at_top (ext - 1) pp2" "pp_depend pp2 = dep" by blast
  with pp1(1) endblock_says [OF assms(4)] show ?thesis
    by (intro exI [of _ pp2]) (simp add: pre_blocks_append del: pre_block.simps)
qed

lemma aside_group:
  assumes "aside b ss pp" "kb_name (pp_heap pp ! b) = Some n" "pp_cur pp = Some b" "pp_lev pp = 1" "pp_ext pp = 2"
    "body file bs ts" "says d' ''endblock'' a" "a = None \<or> (\<exists>m. a = Some m \<and> strcaseeq m n)"
  shows "\<exists>pp'. pre_blocks L files pre file (bs @ (l', Code AT d') # es) pp = pre_blocks L files pre file es pp' \<and>
    good pp' ss \<and> at_top 1 pp' \<and> pp_depend pp' = pp_depend pp"
proof -
  let ?I = "\<lambda>_ q. aside b ss q \<and> kb_name (pp_heap q ! b) = Some n \<and> keeps pp q"
  have "keeps pp pp" by (simp add: keeps_def)
  moreover have "\<exists>q'. add_text t q = Done q' \<and> ?I (us @ [t]) q'" if "?I us q" for us t q
    using that text_aside [of b ss q n t] assms(3) by (auto simp: keeps_def)
  ultimately obtain pp1 where pp1: "pre_blocks L files pre file bs pp = Done pp1" "aside b ss pp1" "kb_name (pp_heap pp1 ! b) = Some n" "keeps pp pp1"
    using body_keeps [where I = ?I, OF _ assms(6)] assms(1,2) by blast
  have "pp_cur pp1 = Some b" "pp_lev pp1 = 1" "pp_ext pp1 = 2" "kb_parent (pp_heap pp1 ! b) = Some DEAD"
    using pp1(2,4) assms(3-5) by (simp_all add: keeps_def aside_def)
  with endblock_closes [of pp1 b n DEAD a] pp1(3) assms(8) obtain pp2 where
    pp2: "process_directive_endblock a pp1 = Done pp2" "pp_heap pp2 = pp_heap pp1" "at_top 1 pp2" "pp_depend pp2 = pp_depend pp1"
    by (auto simp: at_top_def)
  with pp1 endblock_says [OF assms(7)] show ?thesis
    by (intro exI [of _ pp2]) (simp add: pre_blocks_append good_cong [of pp2 pp1] aside_def keeps_def del: pre_block.simps)
qed

lemma text_block:
  assumes "body file [e] [t]"
  shows "pre_block L files pre file e pp = add_text t pp"
  using assms by (auto simp: body_one cb_pre_html_block_def cb_pre_code_block_def elim: body.cases)

lemma base_laid_out:
  assumes "lays_out file es ss"
  shows "good pp seen \<Longrightarrow> at_top 0 pp \<Longrightarrow> fresh_names seen ss \<Longrightarrow>
    \<exists>pp'. pre_blocks L files pre file es pp = Done pp' \<and> good pp' (seen @ ss) \<and> at_top 0 pp' \<and> pp_depend pp' = pp_depend pp"
  using assms
proof (induction arbitrary: seen pp rule: lays_out.induct)
  case out_nil
  then show ?case by simp
next
  case (out_text e t es ss)
  from text_top [of pp seen t] out_text.prems obtain pp1 where pp1: "add_text t pp = Done pp1" "good pp1 (seen @ [Text t])" "keeps pp pp1"
    by (auto simp: at_top_def)
  with out_text.IH [of pp1 "seen @ [Text t]"] out_text.prems(2,3) text_block [OF out_text.hyps(1)] show ?case
    by (auto simp: at_top_def keeps_def simp del: pre_block.simps)
next
  case (out_block d n bs ts d' a es ss l l')
  have new: "first_named n seen = None" using out_block.prems(3) by (simp add: first_named_None)
  from block_new [OF out_block.prems(1) _ _ new] out_block.prems(2) obtain pp1 where
    pp1: "process_directive_block n pp = Done pp1" "good pp1 (seen @ [Blk n []])" "enters (tops pp1 ! length seen) pp pp1"
    by (auto simp: at_top_def)
  have "inside seen n [] 1 0 (pp_depend pp) [] pp1"
    using pp1(2,3) out_block.prems(2) by (simp add: inside_def enters_def at_top_def)
  from block_group [OF this _ out_block.hyps(2,3,4), of L files pre l' es] obtain pp2 where
    pp2: "pre_blocks L files pre file (bs @ (l', Code AT d') # es) pp1 = pre_blocks L files pre file es pp2"
      "good pp2 (seen @ [Blk n ts])" "at_top 0 pp2" "pp_depend pp2 = pp_depend pp" by auto
  with out_block.IH [of pp2 "seen @ [Blk n ts]"] out_block.prems(3) block_says [OF out_block.hyps(1)] pp1(1) show ?case
    by (auto simp del: pre_block.simps)
qed

lemma child_laid_out:
  assumes "lays_out file es ss"
  shows "good pp base \<Longrightarrow> at_top 1 pp \<Longrightarrow>
    \<exists>pp'. pre_blocks L files pre file es pp = Done pp' \<and> good pp' (override base ss) \<and> at_top 1 pp' \<and> pp_depend pp' = pp_depend pp"
  using assms
proof (induction arbitrary: base pp rule: lays_out.induct)
  case out_nil
  then show ?case by simp
next
  case (out_text e t es ss)
  from text_dropped [of pp base t] out_text.prems obtain pp1 where pp1: "add_text t pp = Done pp1" "good pp1 base" "keeps pp pp1"
    by (auto simp: at_top_def)
  with out_text.IH [of pp1 base] out_text.prems(2) text_block [OF out_text.hyps(1)] show ?case
    by (auto simp: at_top_def keeps_def simp del: pre_block.simps)
next
  case (out_block d n bs ts d' a es ss l l')
  have "\<exists>pp1 pp2. process_directive_block n pp = Done pp1 \<and>
      pre_blocks L files pre file (bs @ (l', Code AT d') # es) pp1 = pre_blocks L files pre file es pp2 \<and>
      good pp2 (replace_blk n ts base) \<and> at_top 1 pp2 \<and> pp_depend pp2 = pp_depend pp"
  proof (cases "first_named n base")
    case None
    from block_aside [OF out_block.prems(1) _ _ None] out_block.prems(2) obtain pp1 b where
      pp1: "process_directive_block n pp = Done pp1" "aside b base pp1" "kb_name (pp_heap pp1 ! b) = Some n" "enters b pp pp1"
      by (auto simp: at_top_def)
    from pp1(4) out_block.prems(2) have st: "pp_cur pp1 = Some b" "pp_lev pp1 = 1" "pp_ext pp1 = 2" "pp_depend pp1 = pp_depend pp"
      by (simp_all add: enters_def at_top_def)
    from aside_group [OF pp1(2,3) st(1-3) out_block.hyps(2,3,4), of L files pre l' es] pp1(1) st(4) replace_none [OF None]
    show ?thesis by metis
  next
    case (Some k)
    from block_override [OF out_block.prems(1) _ Some] out_block.prems(2) obtain pp1 where
      pp1: "process_directive_block n pp = Done pp1" "good pp1 (take k base @ Blk n [] # drop (Suc k) base)" "enters (tops pp1 ! k) pp pp1"
      by (auto simp: at_top_def)
    have k: "k < length base" "replace_blk n ts base = take k base @ Blk n ts # drop (Suc k) base" using replace_first [OF Some] by auto
    have "inside (take k base) n (drop (Suc k) base) 1 2 (pp_depend pp) [] pp1"
      using pp1(2,3) out_block.prems(2) k(1) by (simp add: inside_def enters_def at_top_def)
    from block_group [OF this _ out_block.hyps(2,3,4), of L files pre l' es] pp1(1) k(2) show ?thesis by auto
  qed
  then obtain pp1 pp2 where pp: "process_directive_block n pp = Done pp1"
      "pre_blocks L files pre file (bs @ (l', Code AT d') # es) pp1 = pre_blocks L files pre file es pp2"
      "good pp2 (replace_blk n ts base)" "at_top 1 pp2" "pp_depend pp2 = pp_depend pp" by blast
  with out_block.IH [of pp2 "replace_blk n ts base"] block_says [OF out_block.hyps(1)] show ?case
    by (auto simp del: pre_block.simps)
qed

lemma print_leaf: "leaf H t j \<Longrightarrow> ppctx_print_kblock (Suc d) H j = t"
  by (simp add: leaf_def)

lemma print_node: "node H s i \<Longrightarrow> ppctx_print_kblock (Suc (Suc d)) H i = seg_text s"
proof (cases s)
  case (Blk n ts)
  assume n: "node H s i"
  then have "list_all2 (leaf H) ts (kb_children (H ! i))" using Blk by simp
  then have "map (ppctx_print_kblock (Suc d) H) (kb_children (H ! i)) = ts"
    by (induction rule: list_all2_induct) (simp_all add: print_leaf del: ppctx_print_kblock.simps)
  then show ?thesis using n Blk by simp
qed (simp add: leaf_def)

lemma print_good:
  assumes "good pp ss"
  shows "ppctx_print pp = concat (map seg_text ss)"
proof -
  obtain d where d: "length (pp_heap pp) = Suc (Suc d)"
    using good_roots [OF assms] by (metis add_2_eq_Suc le_Suc_ex)
  have "list_all2 (node (pp_heap pp)) ss (tops pp)" using assms by (simp add: good_def)
  then have "map (ppctx_print_kblock (Suc (Suc d)) (pp_heap pp)) (tops pp) = map seg_text ss"
    by (induction rule: list_all2_induct) (simp_all add: print_node del: ppctx_print_kblock.simps)
  then show ?thesis by (simp add: ppctx_print_def d del: ppctx_print_kblock.simps)
qed

lemma create_good: "good ppctx_create []" "at_top 0 ppctx_create" "pp_depend ppctx_create = []"
  by (simp_all add: good_def at_top_def ppctx_create_def TOP_def kb_new_def)

lemma extends_says:
  assumes "says d ''extends'' (Some inc)" "ln \<le> 1"
  shows "pre_block L files pre file (ln, Code AT d) pp =
    and_then (include_dep L files pre file ln inc pp) (\<lambda>pp.
      if pp_lev pp \<noteq> 0 then Failed pp else Done (pp\<lparr>pp_ext := Suc (pp_ext pp)\<rparr>))"
proof -
  from directive_says [OF assms(1)] obtain c rest where c: "strcaseeq c ''extends''" "strtok ('' '' @ [TAB]) d = Some (c, rest)"
    "Some inc = map_option fst (strtok ('' '' @ [TAB, DQ]) rest)"
    "pre_block L files pre file (ln, Code AT d) pp = process_directive L files pre file ln d pp" by blast
  show ?thesis unfolding c(4) process_directive_def c(2)
    using commands_differ(3) [OF c(1)] c(1,3) assms(2) by (auto simp: Let_def split: option.splits)
qed

text \<open>The \<^verbatim>\<open>extends\<close> directive leaves the tree of the template, ready to be overridden.\<close>

lemma extends_base:
  assumes "scan child = Some ((ln, Code AT d) # ces)" "says d ''extends'' (Some inc)" "ln \<le> 1"
    "include_file_full_path L file inc = Some full" "files full = Some base" "scan base = Some bes"
    "lays_out full bes bsegs" "fresh_names [] bsegs"
  shows "\<exists>pp. good pp bsegs \<and> at_top 1 pp \<and> pp_depend pp = [full] \<and>
    (\<forall>pp'. pre_blocks L files (preprocess (Suc n) L files) file ces pp = Done pp' \<longrightarrow> pp_lev pp' = 0 \<longrightarrow>
       preprocess (Suc (Suc n)) L files file child ppctx_create = Done pp')"
proof -
  let ?pp = "ppctx_create\<lparr>pp_depend := [full], pp_out := ''<%'' @ line_mark 1 full @ '' %>''\<rparr>"
  have "good ?pp []" "at_top 0 ?pp" using create_good(1,2) by (simp_all add: good_def at_top_def)
  from base_laid_out [OF assms(7) this assms(8), of L files "preprocess n L files"] obtain pp1 where
    pp1: "pre_blocks L files (preprocess n L files) full bes ?pp = Done pp1" "good pp1 bsegs" "at_top 0 pp1" "pp_depend pp1 = [full]" by auto
  have "preprocess (Suc n) L files full base ?pp = Done pp1"
    using pp1(1,3) assms(6) by (simp add: at_top_def)
  then have "include_dep L files (preprocess (Suc n) L files) file ln inc ppctx_create =
      Done (pp1\<lparr>pp_out := pp_out pp1 @ ''<%'' @ line_mark ln file @ '' %>''\<rparr>)"
    using assms(4,5) create_good(3) by (simp add: include_dep_def process_directive_include_def ppctx_create_def)
  then have ext: "pre_block L files (preprocess (Suc n) L files) file (ln, Code AT d) ppctx_create =
      Done (pp1\<lparr>pp_out := pp_out pp1 @ ''<%'' @ line_mark ln file @ '' %>'', pp_ext := 1\<rparr>)" (is "_ = Done ?pp2")
    using pp1(3) by (simp add: extends_says [OF assms(2,3)] at_top_def del: pre_block.simps)
  have "preprocess (Suc (Suc n)) L files file child ppctx_create = Done pp'"
    if "pre_blocks L files (preprocess (Suc n) L files) file ces ?pp2 = Done pp'" "pp_lev pp' = 0" for pp'
    using assms(1) ext that by (simp del: pre_block.simps)
  moreover have "good ?pp2 bsegs" "at_top 1 ?pp2" "pp_depend ?pp2 = [full]" using pp1(2,3,4) by (simp_all add: good_def at_top_def)
  ultimately show ?thesis by blast
qed

section \<open>A block inside an overriding block\<close>

text \<open>
  \<^verbatim>\<open>endblock\<close> goes back to the parent of the block it closes.  For a block that overrides one of
  the template that is the place of the overridden block, not the block it is written in.
\<close>

definition strayed :: "seg list \<Rightarrow> string list \<Rightarrow> ppctx \<Rightarrow> bool" where
  "strayed ss dep pp \<longleftrightarrow> good pp ss \<and> pp_cur pp = Some TOP \<and> pp_lev pp = 1 \<and> pp_ext pp = 2 \<and> pp_depend pp = dep"

lemma nested_end:
  assumes "inside ss n ss' 2 3 dep ts pp" "a = None \<or> (\<exists>m. a = Some m \<and> strcaseeq m n)"
  shows "\<exists>pp'. process_directive_endblock a pp = Done pp' \<and> strayed (ss @ Blk n ts # ss') dep pp'"
  using assms inside_node [OF assms(1)]
  by (auto simp: inside_def strayed_def process_directive_endblock_def good_def)

lemma strayed_body:
  assumes "strayed ss dep pp" "body file bs ts"
  shows "\<exists>pp'. pre_blocks L files pre file bs pp = Done pp' \<and> strayed ss dep pp'"
proof -
  have "\<exists>q'. add_text t q = Done q' \<and> strayed ss dep q'" if "strayed ss dep q" for t q
    using that text_dropped [of q ss t] by (auto simp: strayed_def keeps_def)
  with body_keeps [where I = "\<lambda>_. strayed ss dep", OF _ assms(2,1)] show ?thesis by blast
qed

lemma strayed_end:
  assumes "strayed ss dep pp"
  shows "\<exists>pp'. process_directive_endblock None pp = Done pp' \<and> good pp' ss \<and> at_top 1 pp' \<and> pp_depend pp' = dep"
  using assms by (auto simp: strayed_def process_directive_endblock_def good_def at_top_def)

lemma override_opens:
  assumes "good pp ss" "pp_ext pp = e" "e \<noteq> 0" "pp_depend pp = dep" "first_named n ss = Some k"
  shows "\<exists>pp'. process_directive_block n pp = Done pp' \<and> inside (take k ss) n (drop (Suc k) ss) (pp_lev pp + 1) (Suc e) dep [] pp'"
proof -
  from block_override [OF assms(1) _ assms(5)] assms(2,3) obtain pp' where
    "process_directive_block n pp = Done pp'" "good pp' (take k ss @ Blk n [] # drop (Suc k) ss)" "enters (tops pp' ! k) pp pp'" by auto
  moreover have "k < length ss" using replace_first [OF assms(5)] by auto
  ultimately show ?thesis using assms(2-4) by (auto simp: inside_def enters_def)
qed

lemma nested_laid_out:
  assumes "good pp base" "at_top 1 pp" "pp_depend pp = dep"
    "says d1 ''block'' (Some m)" "body file bs us" "says d2 ''block'' (Some n)" "body file bs' vs"
    "says e2 ''endblock'' a" "a = None \<or> (\<exists>x. a = Some x \<and> strcaseeq x n)" "body file bs'' ws" "says e1 ''endblock'' None"
    "first_named m base = Some i" "first_named n (replace_blk m us base) = Some k"
  shows "\<exists>pp'. pre_blocks L files pre file
      ((l1, Code AT d1) # bs @ (l2, Code AT d2) # bs' @ (l3, Code AT e2) # bs'' @ [(l4, Code AT e1)]) pp = Done pp' \<and>
    good pp' (replace_blk n vs (replace_blk m us base)) \<and> at_top 1 pp' \<and> pp_depend pp' = dep"
proof -
  let ?pre = "pre_blocks L files pre file"
  have st: "pp_ext pp = 1" "pp_lev pp + 1 = 1" using assms(2) by (simp_all add: at_top_def)
  from override_opens [OF assms(1) st(1) _ assms(3,12)] st obtain p1 where p1: "process_directive_block m pp = Done p1"
    "inside (take i base) m (drop (Suc i) base) 1 2 dep [] p1" by (auto simp: numeral_2_eq_2)
  from inside_body [OF p1(2) assms(5), of L files pre] obtain p2 where p2: "?pre bs p1 = Done p2"
    "inside (take i base) m (drop (Suc i) base) 1 2 dep us p2" by blast
  have "good p2 (replace_blk m us base)" "pp_ext p2 = 2" "pp_depend p2 = dep" "pp_lev p2 + 1 = 2"
    using p2(2) replace_first [OF assms(12)] by (simp_all add: inside_def)
  from override_opens [OF this(1,2) _ this(3) assms(13)] this(4) obtain p3 where p3: "process_directive_block n p2 = Done p3"
    "inside (take k (replace_blk m us base)) n (drop (Suc k) (replace_blk m us base)) 2 3 dep [] p3" by auto
  from inside_body [OF p3(2) assms(7), of L files pre] obtain p4 where p4: "?pre bs' p3 = Done p4"
    "inside (take k (replace_blk m us base)) n (drop (Suc k) (replace_blk m us base)) 2 3 dep vs p4" by blast
  from nested_end [OF p4(2) assms(9)] replace_first [OF assms(13), of vs] obtain p5 where
    p5: "process_directive_endblock a p4 = Done p5" "strayed (replace_blk n vs (replace_blk m us base)) dep p5" by auto
  from strayed_body [OF p5(2) assms(10), of L files pre] obtain p6 where
    p6: "?pre bs'' p5 = Done p6" "strayed (replace_blk n vs (replace_blk m us base)) dep p6" by blast
  from strayed_end [OF p6(2)] obtain p7 where p7: "process_directive_endblock None p6 = Done p7"
    "good p7 (replace_blk n vs (replace_blk m us base))" "at_top 1 p7" "pp_depend p7 = dep" by blast
  note steps = block_says [OF assms(4)] block_says [OF assms(6)] endblock_says [OF assms(8)] endblock_says [OF assms(11)]
  have "?pre ((l1, Code AT d1) # bs @ (l2, Code AT d2) # bs' @ (l3, Code AT e2) # bs'' @ [(l4, Code AT e1)]) pp = Done p7"
    using p1(1) p2(1) p3(1) p4(1) p5(1) p6(1) p7(1) by (simp add: pre_blocks_append steps del: pre_block.simps)
  with p7(2-4) show ?thesis by blast
qed

section \<open>Theorems\<close>

text \<open>
  C5.  Template inheritance, for flat pages: a page that extends a template is the template with
  the blocks the page names replaced, each by what the page has in it, the last one if there are
  several; the names are compared without regard to case, blocks the template does not have and
  text outside of blocks are dropped, and the template is recorded as a dependency.  Flat means
  that template and page consist of text, code and blocks of text and code (\<open>lays_out\<close>): no block
  holds a block, and there is no \<^verbatim>\<open>include\<close> or \<^verbatim>\<open>inherit\<close>; the template's block names differ,
  and every directive is one line.
\<close>

theorem template_inheritance:
  assumes "scan child = Some ((ln, Code AT d) # ces)" "says d ''extends'' (Some inc)" "ln \<le> 1"
    "include_file_full_path L file inc = Some full" "files full = Some base" "scan base = Some bes"
    "lays_out full bes bsegs" "fresh_names [] bsegs" "lays_out file ces csegs"
  shows "\<exists>pp. preprocess (Suc (Suc n)) L files file child ppctx_create = Done pp \<and>
    ppctx_print pp = concat (map seg_text (override bsegs csegs)) \<and> pp_depend pp = [full]"
proof -
  from extends_base [where files = files, OF assms(1-8), of n] obtain pp2 where pp2: "good pp2 bsegs" "at_top 1 pp2" "pp_depend pp2 = [full]"
    "\<And>pp'. pre_blocks L files (preprocess (Suc n) L files) file ces pp2 = Done pp' \<Longrightarrow> pp_lev pp' = 0 \<Longrightarrow>
       preprocess (Suc (Suc n)) L files file child ppctx_create = Done pp'" by blast
  from child_laid_out [OF assms(9) pp2(1,2), of L files "preprocess (Suc n) L files"] obtain pp3 where
    pp3: "pre_blocks L files (preprocess (Suc n) L files) file ces pp2 = Done pp3" "good pp3 (override bsegs csegs)" "at_top 1 pp3" "pp_depend pp3 = [full]"
    using pp2(3) by auto
  with pp2(4) [OF pp3(1)] print_good [OF pp3(2)] show ?thesis by (auto simp: at_top_def)
qed

lemmas parser_eval =
  scan_def parser_run_def parser_run_with_def parser_create_def parser_reset_def fetch_next_char_def parser_loop.simps parser_step_def
  set_state_def store_char_def close_block_def hand_over_def parser_on_block_def on_block_in_def parser_flush_def BUFSZ_def c_isspace_def ord_def Let_def

theorem template_inheritance_witness:
  "\<exists>pp. preprocess 2 libu_ref [''/p/b'' \<mapsto> ''<%@ block a %>x<%@ endblock %>''] ''/p/c''
       ''<%@ extends b %><%@ block A %>y<%@ endblock %>'' ppctx_create = Done pp \<and> ppctx_print pp = ''y''"
proof -
  let ?base = "''<%@ block a %>x<%@ endblock %>''" and ?child = "''<%@ extends b %><%@ block A %>y<%@ endblock %>''"
  have at: "AT = 64" by (simp add: ord_def)
  have scans: "scan ?base = Some [(1, Code AT '' block a ''), (1, Html ''x''), (1, Code AT '' endblock '')]"
    "scan ?child = Some ((1, Code AT '' extends b '') # [(1, Code AT '' block A ''), (1, Html ''y''), (1, Code AT '' endblock '')])"
    by (simp_all add: parser_eval)
  have says: "says '' extends b '' ''extends'' (Some ''b'')" "says '' block a '' ''block'' (Some ''a'')"
    "says '' block A '' ''block'' (Some ''A'')" "says '' endblock '' ''endblock'' None"
    by (simp_all add: says_def gets_lines.simps strtok_def)
  have path: "include_file_full_path libu_ref ''/p/c'' ''b'' = Some ''/p/b''"
    by (simp add: include_file_full_path_def libu_ref_def FNAME_MAX_def)
  have out: "lays_out f [(l, Code AT d), (l', Html t), (l'', Code AT '' endblock '')] [Blk n [t]]"
    if "says d ''block'' (Some n)" for f l l' l'' d t n
    using lays_out.out_block [OF that body.body_html [OF body.body_nil] says(4) _ lays_out.out_nil] by simp
  have opened: "[''/p/b'' \<mapsto> ?base] ''/p/b'' = Some ?base" by simp
  have "fresh_names [] [Blk ''a'' [''x'']]" by simp
  note t = template_inheritance [where files = "[''/p/b'' \<mapsto> ?base]", OF scans(2) says(1) _ path opened scans(1) out [OF says(2)] this out [OF says(3)], of 0]
  have "strcaseeq ''a'' ''A''" by (simp add: strcaseeq_def c_tolower_def ctype_defs ord_def chr_def char_of_def bit_0)
  with t show ?thesis by (auto simp: numeral_2_eq_2)
qed

text \<open>
  Nesting loses text: in a page that extends a template, a block that overrides one of the
  template and is written inside another such block ends the outer one too.  The text between
  the two \<^verbatim>\<open>endblock\<close> directives (without names), here \<open>ws\<close>, is in no block of the result,
  nothing is reported, and the page is the template with the outer block replaced by what stands before the
  inner one and the inner block replaced by its own text.
\<close>

theorem nested_block_loses_text:
  assumes "scan child = Some ((ln, Code AT d) #
      (l1, Code AT d1) # bs @ (l2, Code AT d2) # bs' @ (l3, Code AT e2) # bs'' @ [(l4, Code AT e1)])"
    "says d ''extends'' (Some inc)" "ln \<le> 1"
    "include_file_full_path L file inc = Some full" "files full = Some base" "scan base = Some bes"
    "lays_out full bes bsegs" "fresh_names [] bsegs"
    "says d1 ''block'' (Some m)" "body file bs us" "says d2 ''block'' (Some n)" "body file bs' vs"
    "says e2 ''endblock'' None" "body file bs'' ws" "says e1 ''endblock'' None"
    "\<exists>s\<in>set bsegs. named m s" "\<exists>s\<in>set (replace_blk m us bsegs). named n s"
  shows "\<exists>pp. preprocess (Suc (Suc N)) L files file child ppctx_create = Done pp \<and>
    ppctx_print pp = concat (map seg_text (replace_blk n vs (replace_blk m us bsegs)))"
proof -
  from assms(16,17) obtain i k where ik: "first_named m bsegs = Some i" "first_named n (replace_blk m us bsegs) = Some k"
    using first_named_None [of m bsegs] first_named_None [of n "replace_blk m us bsegs"] by fastforce
  from extends_base [where files = files, OF assms(1-8), of N] obtain pp2 where pp2: "good pp2 bsegs" "at_top 1 pp2" "pp_depend pp2 = [full]"
    "\<And>pp'. pre_blocks L files (preprocess (Suc N) L files) file
         ((l1, Code AT d1) # bs @ (l2, Code AT d2) # bs' @ (l3, Code AT e2) # bs'' @ [(l4, Code AT e1)]) pp2 = Done pp' \<Longrightarrow>
       pp_lev pp' = 0 \<Longrightarrow> preprocess (Suc (Suc N)) L files file child ppctx_create = Done pp'" by blast
  from nested_laid_out [OF pp2(1-3) assms(9-13) _ assms(14,15) ik, of L files "preprocess (Suc N) L files" l1 l2 l3 l4]
  obtain pp3 where pp3: "pre_blocks L files (preprocess (Suc N) L files) file
         ((l1, Code AT d1) # bs @ (l2, Code AT d2) # bs' @ (l3, Code AT e2) # bs'' @ [(l4, Code AT e1)]) pp2 = Done pp3"
    "good pp3 (replace_blk n vs (replace_blk m us bsegs))" "at_top 1 pp3" by blast
  with pp2(4) [OF pp3(1)] print_good [OF pp3(2)] show ?thesis by (auto simp: at_top_def)
qed

theorem nested_block_loses_text_witness:
  "\<exists>pp. preprocess 2 libu_ref
       [''/p/b'' \<mapsto> ''<%@ block a %>x<%@ endblock %><%@ block c %>y<%@ endblock %>''] ''/p/p''
       ''<%@ extends b %><%@ block a %>1<%@ block c %>2<%@ endblock %>3<%@ endblock %>'' ppctx_create = Done pp \<and>
     ppctx_print pp = ''12''"
proof -
  let ?base = "''<%@ block a %>x<%@ endblock %><%@ block c %>y<%@ endblock %>''"
  let ?child = "''<%@ extends b %><%@ block a %>1<%@ block c %>2<%@ endblock %>3<%@ endblock %>''"
  have scans: "scan ?base = Some [(1, Code AT '' block a ''), (1, Html ''x''), (1, Code AT '' endblock ''),
      (1, Code AT '' block c ''), (1, Html ''y''), (1, Code AT '' endblock '')]"
    "scan ?child = Some ((1, Code AT '' extends b '') # (1, Code AT '' block a '') # [(1, Html ''1'')] @
       (1, Code AT '' block c '') # [(1, Html ''2'')] @ (1, Code AT '' endblock '') # [(1, Html ''3'')] @ [(1, Code AT '' endblock '')])"
    by (simp_all add: parser_eval)
  have says: "says '' extends b '' ''extends'' (Some ''b'')" "says '' block a '' ''block'' (Some ''a'')"
    "says '' block c '' ''block'' (Some ''c'')" "says '' endblock '' ''endblock'' None"
    by (simp_all add: says_def gets_lines.simps strtok_def)
  have path: "include_file_full_path libu_ref ''/p/p'' ''b'' = Some ''/p/b''"
    by (simp add: include_file_full_path_def libu_ref_def FNAME_MAX_def)
  have one: "body f [(l, Html t)] [t]" for f l t by (rule body.body_html [OF body.body_nil])
  have "lays_out ''/p/b'' [(1, Code AT '' block c ''), (1, Html ''y''), (1, Code AT '' endblock '')] [Blk ''c'' [''y'']]"
    using lays_out.out_block [OF says(3) one says(4) _ lays_out.out_nil] by simp
  then have base: "lays_out ''/p/b'' [(1, Code AT '' block a ''), (1, Html ''x''), (1, Code AT '' endblock ''),
      (1, Code AT '' block c ''), (1, Html ''y''), (1, Code AT '' endblock '')] [Blk ''a'' [''x''], Blk ''c'' [''y'']]"
    using lays_out.out_block [OF says(2) one says(4)] by simp
  have opened: "[''/p/b'' \<mapsto> ?base] ''/p/b'' = Some ?base" by simp
  have cases: "strcaseeq ''a'' ''a''" "strcaseeq ''c'' ''c''" "\<not> strcaseeq ''a'' ''c''"
    by (simp_all add: strcaseeq_def c_tolower_def ctype_defs ord_def)
  then have fresh: "fresh_names [] [Blk ''a'' [''x''], Blk ''c'' [''y'']]" by simp
  note t = nested_block_loses_text [where files = "[''/p/b'' \<mapsto> ?base]", OF scans(2) says(1) _ path opened scans(1) base fresh
      says(2) one says(3) one says(4) one says(4), of 0]
  from t cases show ?thesis by (auto simp: numeral_2_eq_2)
qed

text \<open>
  The line numbers written into the C file drift: the line that replaces the mark in line
  \<open>i\<close> (from 0) should name line \<open>i + 2\<close>, the one that follows it, but names a number that is too
  low by the number of marks before it, which the counter leaves out.
\<close>

theorem line_numbers_drift:
  assumes "i < length ls" "has_infix PG_MARK (ls ! i)"
  shows "fix_lines file 0 ls ! i =
    ''#line '' @ dec (i + 2 - length (filter (has_infix PG_MARK) (take i ls))) @ '' '' @ quoted file @ [LF]"
proof -
  have "fix_lines file k ls ! i =
    ''#line '' @ dec (k + i + 2 - length (filter (has_infix PG_MARK) (take i ls))) @ '' '' @ quoted file @ [LF]" for k
    using assms
  proof (induction ls arbitrary: i k)
    case (Cons l ls)
    show ?case
    proof (cases i)
      case (Suc j)
      have "length (filter (has_infix PG_MARK) (take j ls)) \<le> j" by (metis length_filter_le length_take min.bounded_iff order_trans)
      with Cons Suc show ?thesis by (auto simp: Suc_diff_le)
    qed (use Cons.prems in simp)
  qed simp
  from this [of 0] show ?thesis by simp
qed

theorem line_numbers_drift_witness:
  "fix_lines ''f'' 0 [PG_MARK, ''a'', PG_MARK] ! 2 = ''#line '' @ dec 3 @ '' '' @ quoted ''f'' @ [LF]"
proof -
  have "has_infix PG_MARK PG_MARK" "\<not> has_infix PG_MARK ''a''" by (simp_all add: PG_MARK_def)
  with line_numbers_drift [of 2 "[PG_MARK, ''a'', PG_MARK]" "''f''"] show ?thesis by (simp add: numeral_2_eq_2 numeral_3_eq_3)
qed

end
