(* ===== verification/Spec2Isabelle.thy ===== *)
theory Spec2Isabelle
  imports Utils_Codec Path Ppc Timer Parser Rsfilter Ses_Drivers Server_Setup Klog Suppliers Ses_Client
    Templates
begin

text \<open>
  KLone is a web application server in C.  Pages with embedded C code are compiled, with the
  static files of a site, into one program; that program is also the web server.  This
  development models its core and proves what makes it correct.  All paths below are under
  \<^verbatim>\<open>src/\<close>.

  \<^bold>\<open>The program and its parts.\<close>  A parent process reads the configuration, opens the sockets and
  drops its privileges (\<^verbatim>\<open>src/kloned/server.c\<close>, \<^verbatim>\<open>src/libbackend/backend.c\<close>).  It serves
  connections itself, or forks a child for each, or keeps a pool of workers.  Children talk to it
  by parent procedure calls, frames on a socket pair (\<^verbatim>\<open>ppc.c\<close>): requests to fork, to log and to
  keep sessions.  A connection is handed to the HTTP backend (\<^verbatim>\<open>src/libhttp\<close>), which parses the
  request (\<^verbatim>\<open>src/libpage/request.c\<close>, with headers, variables and multipart bodies), picks a
  virtual host, resolves the path and lets a supplier serve the page through a stream
  (\<^verbatim>\<open>src/libio\<close>) with the response filter on it (\<^verbatim>\<open>rsfilter.c\<close>).  Pages keep sessions
  (\<^verbatim>\<open>session.c\<close>, \<^verbatim>\<open>ses_mem.c\<close>, \<^verbatim>\<open>ses_file.c\<close>, \<^verbatim>\<open>ses_client.c\<close>), set timers (\<^verbatim>\<open>timer.c\<close>) and log
  (\<^verbatim>\<open>src/libklog\<close>).  The page compiler (\<^verbatim>\<open>src/libtrans\<close>) preprocesses pages, scans them and
  writes C.

  \<^bold>\<open>How the code is modelled.\<close>  A struct is a record, an enum a datatype, a C string a list of
  characters, a buffer with bytes after its end a list that a read past the end turns into a
  fault.  A function that fails without effect gives an \<^typ>\<open>'a outcome\<close> (\<^verbatim>\<open>Ok\<close>,
  \<^verbatim>\<open>Fail\<close>, \<^verbatim>\<open>Fault\<close> for undefined behaviour); one that changes a state gives an
  \<^typ>\<open>'a step\<close> (\<^verbatim>\<open>Done\<close>, \<^verbatim>\<open>Failed\<close> with the state the error path leaves,
  \<^verbatim>\<open>Crash\<close>).  Sizes are natural numbers below \<^verbatim>\<open>SIZE_LIMIT\<close>, two to the 64, with
  \<^verbatim>\<open>size_add\<close> and the like where they can wrap.  Loops are recursive functions that terminate;
  where a C loop may not end, as over a device, the function gives an option and the theorems say
  that it returns.  The library LibU is not part of the sources: its functions are the fields of
  the record \<^typ>\<open>libu\<close>, the first argument of every definition that uses them;
  \<^verbatim>\<open>libu_ok\<close> states their documented behaviour, \<^verbatim>\<open>libu_mem\<close> that memory is not exhausted, and
  \<^verbatim>\<open>libu_ref\<close> is an instance that satisfies both and serves the witnesses.  System calls are
  arguments in the same way.

  \<^bold>\<open>Theories, bottom up.\<close>
  \<^item> \<^verbatim>\<open>Klone_Prelude\<close>: outcomes and steps, character classes, decimal printing, C strings;
    \<^verbatim>\<open>Libu\<close>: the library underneath.
  \<^item> \<^verbatim>\<open>Utils_Codec\<close> (\<^verbatim>\<open>src/libutils/utils.c\<close>): URL, hexadecimal, SQL and HTML escapes; they
    round-trip, stay in bounds on terminated input, and the buffers they need are computed.
  \<^item> \<^verbatim>\<open>Path\<close> (\<^verbatim>\<open>path.c\<close>): normalisation of URIs, refining a specification by path segments;
    no dot segment survives.
  \<^item> \<^verbatim>\<open>Ppc\<close> (\<^verbatim>\<open>ppc.c\<close>): frames arrive whole and in order, whatever interruptions occur, as
    long as no read or write is short; the code makes one call of each, and what a short one does
    is shown too.  \<^verbatim>\<open>Timer\<close> (\<^verbatim>\<open>timer.c\<close>): the alarm queue stays sorted and due alarms fire.
  \<^item> \<^verbatim>\<open>Counted_List\<close> and \<^verbatim>\<open>Named_Store\<close>: two contracts as locales, a list with a counter and a
    store of named values.  The first is interpreted by \<^verbatim>\<open>Atoms\<close>, \<^verbatim>\<open>Header\<close>, \<^verbatim>\<open>Children\<close>
    and \<^verbatim>\<open>Klog\<close>, the second by \<^verbatim>\<open>Header\<close>, \<^verbatim>\<open>Session\<close> and \<^verbatim>\<open>Suppliers\<close> (responses).
  \<^item> \<^verbatim>\<open>Atoms\<close> (\<^verbatim>\<open>atom.c\<close>) and \<^verbatim>\<open>Ses_Mem\<close> (\<^verbatim>\<open>ses_mem.c\<close>): the in-memory session store
    refines a finite map while no limit is reached, and evicts to keep its limits.
  \<^item> \<^verbatim>\<open>Io\<close> (\<^verbatim>\<open>io.c\<close>): buffered streams with codecs; \<^verbatim>\<open>Io_Device\<close>: what they rely on, as the
    locales of a source, of a sink and of copying; \<^verbatim>\<open>Io_Mem\<close> (\<^verbatim>\<open>iomem.c\<close>, \<^verbatim>\<open>null.c\<close>): the
    device in memory interprets them; reading lines and copying.  A stream to read from is a
    locale of its own, \<^verbatim>\<open>read_stream\<close>, which both a plain source and one behind a codec extend.
  \<^item> \<^verbatim>\<open>Codecs\<close> (\<^verbatim>\<open>cipher.c\<close>, \<^verbatim>\<open>gzip.c\<close>): the contract of a codec as a locale, what a stream
    writes and reads through one, and the null, cipher and gzip codecs as its instances; an
    encrypted stream reads back, and the buffer of the cipher codec is large enough for what
    OpenSSL documents, except for decrypting a full piece of input.
  \<^item> \<^verbatim>\<open>Header\<close> (\<^verbatim>\<open>field.c\<close>, \<^verbatim>\<open>header.c\<close>), \<^verbatim>\<open>Date\<close> (\<^verbatim>\<open>date.c\<close>), \<^verbatim>\<open>Response\<close>
    (\<^verbatim>\<open>response.c\<close>), \<^verbatim>\<open>Rsfilter\<close> (\<^verbatim>\<open>rsfilter.c\<close>): headers and dates round-trip, for fields that one line can carry
    (a line is cut at a NUL); a page is sent as one header and then its body.
  \<^item> \<^verbatim>\<open>Vars\<close> (\<^verbatim>\<open>var.c\<close>, \<^verbatim>\<open>vars.c\<close>), \<^verbatim>\<open>Multipart\<close>, \<^verbatim>\<open>Request\<close>, \<^verbatim>\<open>Request_Data\<close>,
    \<^verbatim>\<open>Request_Forms\<close> (\<^verbatim>\<open>request.c\<close>): URIs, query strings and forms without files arrive as sent, the
    limit on bodies is applied to the length modulo two to the 32, no variable leaks or is freed twice in any reachable request.
  \<^item> \<^verbatim>\<open>Session\<close> (\<^verbatim>\<open>session.c\<close>) and \<^verbatim>\<open>Ses_Drivers\<close> (\<^verbatim>\<open>ses_mem.c\<close>, \<^verbatim>\<open>ses_file.c\<close>): the
    locale of a session backend, with laws for saving, keeping and loading; the driver for memory
    interprets it (that for files is modelled too, over a file system that is a parameter).
    Sessions of storable variables round-trip, sessions expire and have safe identifiers.  \<^verbatim>\<open>Ses_Client\<close> (\<^verbatim>\<open>ses_client.c\<close>, with the parts of \<^verbatim>\<open>session.c\<close> that an SSL
    build compiles): sessions of storable variables and bounded size in encrypted cookies come back, wrong hashes are refused, and
    the hash accepts cookies cut in other places.
  \<^item> \<^verbatim>\<open>Children\<close> (\<^verbatim>\<open>child.c\<close>), \<^verbatim>\<open>Server\<close>, \<^verbatim>\<open>Server_Pool\<close>, \<^verbatim>\<open>Server_Setup\<close>
    (\<^verbatim>\<open>server.c\<close>, \<^verbatim>\<open>backend.c\<close>, \<^verbatim>\<open>ppc_fork_child.c\<close>): the loop of the parent as a sequence of
    turns; limits on children, filling of the pool, privileges.  The code sets bits of
    descriptor sets without a test; the model has no result for a descriptor from
    \<^verbatim>\<open>FD_SETSIZE\<close> on, nor where an alarm cannot be allocated.
  \<^item> \<^verbatim>\<open>Klog\<close> (\<^verbatim>\<open>src/libklog\<close>, \<^verbatim>\<open>ppc_log_add.c\<close>, \<^verbatim>\<open>ppc_log_get.c\<close>): the log in memory is a
    window and the log in files a ring over all lines logged.
  \<^item> \<^verbatim>\<open>Http\<close> (\<^verbatim>\<open>http.c\<close>, \<^verbatim>\<open>vhost.c\<close>, \<^verbatim>\<open>broker.c\<close>) and \<^verbatim>\<open>Suppliers\<close> (\<^verbatim>\<open>sup_fs.c\<close>,
    \<^verbatim>\<open>sup_emb.c\<close>, \<^verbatim>\<open>mime_map.c\<close>): requests stay below the directories of their host; what a
    client gets for a file; when the supplier found early may be kept.
  \<^item> \<^verbatim>\<open>Parser\<close> (\<^verbatim>\<open>parser.c\<close>): a page is split into its HTML and code blocks, and neither the
    characters stored nor the terminators leave the buffer.
  \<^item> \<^verbatim>\<open>Trans_C\<close> (\<^verbatim>\<open>trans_c.c\<close>), \<^verbatim>\<open>Translat\<close> and \<^verbatim>\<open>Templates\<close> (\<^verbatim>\<open>translat.c\<close>): the page
    compiler; the C it writes is read back and run: static files give their bytes, pages their
    HTML between their code; a flat page that extends a template is the template with its
    blocks replaced; nested blocks lose text.

  \<^bold>\<open>Bounds and fuel.\<close>  Buffers have the sizes of the source.  Two loops of the server take fuel,
  the number the code itself bounds them by: the descriptors of one turn, of which there are
  \<^verbatim>\<open>FD_SETSIZE\<close> at most, and the workers of one backend in one call of
  \<^verbatim>\<open>server_spawn_children\<close>, the number it is to fork.  Loops over a stream are partial functions
  into an option; the theorems about them give the result, so that they return.

  \<^bold>\<open>Not modelled.\<close>  Wrappers of system calls and of other libraries: the file descriptor and SSL
  devices, TLS, the CyaSSL codec, the MD5 code (vendored), daemon start and command lines.  CGI
  programs are processes.  Hooks are tables of user callbacks.  The configuration tree belongs to
  LibU: the model takes the values the code reads from it.  The model is of the Unix build with
  fork, without SSL and zlib, except for \<^verbatim>\<open>Codecs\<close> and \<^verbatim>\<open>Ses_Client\<close>, where the ciphers, the
  keyed hash and the random bytes of OpenSSL and the streams of zlib are parameters.

  \<^bold>\<open>Findings.\<close>  Where the code does something else than it means to, the model follows the code and
  a theorem states it: for instance a worker gets seven characters of a log line
  (\<^verbatim>\<open>Klog.worker_log_line\<close>), the check of a URI looks at files outside the root
  (\<^verbatim>\<open>Http.stat_probe\<close>), a client can make the server overwrite its own options
  (\<^verbatim>\<open>Ses_Client.client_cookies_spliced\<close>), and half of the workers asked for are forked at a time
  (\<^verbatim>\<open>Server_Setup.spawn_children_halves\<close>).
\<close>

end
